(* ===== verification/Mls_Prelude.thy ===== *)
theory Mls_Prelude
  imports "HOL-Library.Word" "HOL-Library.AList"
begin

text \<open>
  The vocabulary every component shares.

  \<^item> \<^bold>\<open>Results.\<close> \<open>errno\<close> is the enum of \<open>core/src/error.rs\<close>. A Rust function that returns
    \<open>Result<T>\<close> and may also panic is a function into \<open>'a res\<close>: \<open>Ok x\<close> is a normal return,
    \<open>Fail e\<close> an \<open>Err\<close> with that error number, \<open>Panics\<close> a panic (a failed \<open>assert!\<close>, \<open>unwrap\<close>,
    slice bound or checked subtraction, with the checks of a debug build). The message of an
    error does not influence control flow and is left out.
  \<^item> \<^bold>\<open>Integers.\<close> \<open>usize\<close> is \<open>nat\<close>; a subtraction that could go below zero is \<open>checked_sub\<close>.
    Narrower integers are words or have their wrap-around written out.
  \<^item> \<^bold>\<open>Slices.\<close> \<open>slice xs a b\<close> is \<open>&xs[a..b]\<close> and \<open>copy_range xs a b src\<close> is
    \<open>xs[a..b].copy_from_slice(src)\<close>, each with the panics of the language.
\<close>

named_theorems res_simps \<open>normal forms of the result monad\<close>
named_theorems slice_simps \<open>reading and overwriting a range of a buffer\<close>

section \<open>Errors and results\<close>

datatype errno =
    TxAborted | NotFound | InvalidArgs | OutOfMemory | OutOfDisk | IoFailed
  | PermissionDenied | Unsupported | OsSpecUnknown | EncryptFailed | DecryptFailed
  | MacMismatched | NotBlockSizeAligned | TryLockFailed

datatype fault = Err errno | Panic

type_synonym 'a res = "fault + 'a"

abbreviation Ok :: "'a \<Rightarrow> 'a res" where "Ok x \<equiv> Inr x"
abbreviation Fail :: "errno \<Rightarrow> 'a res" where "Fail e \<equiv> Inl (Err e)"
abbreviation Panics :: "'a res" where "Panics \<equiv> Inl Panic"

text \<open>The operator \<open>?\<close> of Rust, and a panic, both leave the rest of a function out.\<close>

fun rbind :: "'a res \<Rightarrow> ('a \<Rightarrow> 'b res) \<Rightarrow> 'b res" where
  "rbind (Inl f) k = Inl f"
| "rbind (Inr x) k = k x"

definition rassert :: "bool \<Rightarrow> unit res" where
  "rassert b = (if b then Ok () else Panics)"

definition is_ok :: "'a res \<Rightarrow> bool" where
  "is_ok r = (case r of Inl _ \<Rightarrow> False | Inr _ \<Rightarrow> True)"

text \<open>\<open>ok()\<close> of \<open>Result\<close>, \<open>expect\<close>/\<open>unwrap\<close> of \<open>Option\<close>, \<open>ok_or\<close> of \<open>Option\<close>.\<close>

definition res_unwrap :: "'a option \<Rightarrow> 'a res" where
  "res_unwrap x = (case x of None \<Rightarrow> Panics | Some y \<Rightarrow> Ok y)"

definition ok_or :: "errno \<Rightarrow> 'a option \<Rightarrow> 'a res" where
  "ok_or e x = (case x of None \<Rightarrow> Fail e | Some y \<Rightarrow> Ok y)"

text \<open>A loop whose body may leave with a fault, over a list in order.\<close>

fun rfold :: "('a \<Rightarrow> 's \<Rightarrow> 's res) \<Rightarrow> 'a list \<Rightarrow> 's \<Rightarrow> 's res" where
  "rfold f [] s = Ok s"
| "rfold f (x # xs) s = rbind (f x s) (rfold f xs)"

fun rmap :: "('a \<Rightarrow> 'b res) \<Rightarrow> 'a list \<Rightarrow> 'b list res" where
  "rmap f [] = Ok []"
| "rmap f (x # xs) = rbind (f x) (\<lambda>y. rbind (rmap f xs) (\<lambda>ys. Ok (y # ys)))"

definition checked_sub :: "nat \<Rightarrow> nat \<Rightarrow> nat res" where
  "checked_sub a b = (if b \<le> a then Ok (a - b) else Panics)"

text \<open>Addition of \<open>u32\<close> values, with the overflow check of a debug build.\<close>

definition u32_add :: "nat \<Rightarrow> nat \<Rightarrow> nat res" where
  "u32_add a b = (if a + b < 2 ^ 32 then Ok (a + b) else Panics)"

lemma rbind_eq_Ok [res_simps]:
  "rbind m k = Inr y \<longleftrightarrow> (\<exists>x. m = Inr x \<and> k x = Inr y)"
  by (cases m) auto

lemma rbind_eq_Inl [res_simps]:
  "rbind m k = Inl f \<longleftrightarrow> m = Inl f \<or> (\<exists>x. m = Inr x \<and> k x = Inl f)"
  by (cases m) auto

lemma rbind_assoc: "rbind (rbind m k) h = rbind m (\<lambda>x. rbind (k x) h)"
  by (cases m) auto

lemma rbind_Ok_right [simp]: "rbind m Inr = m"
  by (cases m) auto

lemma rbind_cong [fundef_cong]:
  assumes "m = m'" "\<And>x. m' = Inr x \<Longrightarrow> k x = k' x"
  shows "rbind m k = rbind m' k'"
  using assms by (cases m') auto

lemma rbind_split:
  "P (rbind m k) \<longleftrightarrow> (\<forall>f. m = Inl f \<longrightarrow> P (Inl f)) \<and> (\<forall>x. m = Inr x \<longrightarrow> P (k x))"
  by (cases m) auto

lemma rassert_True [simp]: "rassert True = Ok ()"
  by (simp add: rassert_def)

lemma rassert_False [simp]: "rassert False = Panics"
  by (simp add: rassert_def)

lemma rassert_eq_Ok [res_simps]: "rassert b = Inr u \<longleftrightarrow> b"
  by (simp add: rassert_def)

lemma is_ok_simps [simp]: "is_ok (Inr x)" "\<not> is_ok (Inl f)"
  by (simp_all add: is_ok_def)

lemma is_ok_iff: "is_ok r \<longleftrightarrow> (\<exists>x. r = Inr x)"
  by (cases r) auto

lemma res_unwrap_simps [simp]: "res_unwrap (Some x) = Ok x" "res_unwrap None = Panics"
  by (simp_all add: res_unwrap_def)

lemma res_unwrap_eq_Ok [res_simps]: "res_unwrap m = Inr x \<longleftrightarrow> m = Some x"
  by (cases m) auto

lemma ok_or_simps [simp]: "ok_or e (Some x) = Ok x" "ok_or e None = Fail e"
  by (simp_all add: ok_or_def)

lemma ok_or_eq_Ok [res_simps]: "ok_or e m = Inr x \<longleftrightarrow> m = Some x"
  by (cases m) auto

lemma checked_sub_Ok [simp]: "b \<le> a \<Longrightarrow> checked_sub a b = Ok (a - b)"
  by (simp add: checked_sub_def)

lemma checked_sub_eq_Ok [res_simps]: "checked_sub a b = Inr c \<longleftrightarrow> b \<le> a \<and> c = a - b"
  by (auto simp: checked_sub_def)

lemma rfold_append: "rfold f (xs @ ys) s = rbind (rfold f xs s) (rfold f ys)"
  by (induction xs arbitrary: s) (auto simp: rbind_assoc cong: rbind_cong)

text \<open>An invariant that every step of a loop keeps is kept by the loop.\<close>

lemma rfold_invariant:
  assumes "rfold f xs s = Inr t" "I s"
    and "\<And>x s t. x \<in> set xs \<Longrightarrow> I s \<Longrightarrow> f x s = Inr t \<Longrightarrow> I t"
  shows "I t"
  using assms by (induction xs arbitrary: s) (auto simp: res_simps)

lemma rmap_eq_Ok [res_simps]:
  "rmap f xs = Inr ys \<longleftrightarrow> list_all2 (\<lambda>x y. f x = Inr y) xs ys"
  by (induction xs arbitrary: ys) (auto simp: res_simps list_all2_Cons1)

section \<open>Stateful operations that may fail\<close>

text \<open>
  An operation that has changed the state before it fails: the state is returned in every case,
  as the Rust object keeps what was done to it.
\<close>

type_synonym ('s, 'a) sres = "'s \<Rightarrow> 'a res \<times> 's"

definition sret :: "'a \<Rightarrow> ('s, 'a) sres" where
  "sret x s = (Ok x, s)"

definition sfail :: "fault \<Rightarrow> ('s, 'a) sres" where
  "sfail f s = (Inl f, s)"

definition sbind :: "('s, 'a) sres \<Rightarrow> ('a \<Rightarrow> ('s, 'b) sres) \<Rightarrow> ('s, 'b) sres" where
  "sbind m k s = (case m s of (Inl f, s') \<Rightarrow> (Inl f, s') | (Inr x, s') \<Rightarrow> k x s')"

definition slift :: "'a res \<Rightarrow> ('s, 'a) sres" where
  "slift r s = (r, s)"

text \<open>A \<open>for\<close> loop whose body is such an operation.\<close>

fun sfor :: "('a \<Rightarrow> ('s, unit) sres) \<Rightarrow> 'a list \<Rightarrow> ('s, unit) sres" where
  "sfor f [] = sret ()"
| "sfor f (x # xs) = sbind (f x) (\<lambda>_. sfor f xs)"

lemma sbind_simps [simp]:
  "m s = (Inr x, s') \<Longrightarrow> sbind m k s = k x s'"
  "m s = (Inl f, s') \<Longrightarrow> sbind m k s = (Inl f, s')"
  by (simp_all add: sbind_def)

lemma sret_apply [simp]: "sret x s = (Ok x, s)"
  by (simp add: sret_def)

lemma sfail_apply [simp]: "sfail f s = (Inl f, s)"
  by (simp add: sfail_def)

lemma slift_apply [simp]: "slift r s = (r, s)"
  by (simp add: slift_def)

lemma sbind_eq_Ok [res_simps]:
  "sbind m k s = (Inr y, s') \<longleftrightarrow> (\<exists>x t. m s = (Inr x, t) \<and> k x t = (Inr y, s'))"
  by (auto simp: sbind_def split: prod.splits sum.splits)

lemma sbind_eq_Inl:
  "sbind m k s = (Inl f, s') \<longleftrightarrow> m s = (Inl f, s') \<or> (\<exists>x t. m s = (Inr x, t) \<and> k x t = (Inl f, s'))"
  by (auto simp: sbind_def split: prod.splits sum.splits)

text \<open>A relation between the states before and after that every step keeps holds for the loop.\<close>

lemma sfor_relation:
  assumes "sfor f xs s = (r, t)" "\<And>s. R s s" "\<And>a b c. R a b \<Longrightarrow> R b c \<Longrightarrow> R a c"
    and "\<And>x s r t. x \<in> set xs \<Longrightarrow> f x s = (r, t) \<Longrightarrow> R s t"
  shows "R s t"
  using assms(1,4)
proof (induction xs arbitrary: s r)
  case Nil
  then show ?case using assms(2) by simp
next
  case (Cons x xs)
  obtain r1 u where u: "f x s = (r1, u)" by (cases "f x s")
  then have su: "R s u" using Cons.prems(2) [of x s r1 u] by simp
  show ?case
  proof (cases r1)
    case (Inl g)
    then show ?thesis using Cons.prems(1) u su by simp
  next
    case (Inr y)
    then have "sfor f xs u = (r, t)" using Cons.prems(1) u by simp
    then have "R u t" by (rule Cons.IH) (use Cons.prems(2) in auto)
    then show ?thesis using su assms(3) by blast
  qed
qed

section \<open>Numbers\<close>

text \<open>\<open>align_up\<close> and \<open>align_down\<close> of \<open>util/mod.rs\<close>; a zero \<open>align\<close> is a division by zero.\<close>

definition align_up :: "nat \<Rightarrow> nat \<Rightarrow> nat res" where
  "align_up x align = (if align = 0 then Panics else Ok (((x + align - 1) div align) * align))"

definition align_down :: "nat \<Rightarrow> nat \<Rightarrow> nat res" where
  "align_down x align = (if align = 0 then Panics else Ok ((x div align) * align))"

text \<open>The rounding-up quotient \<open>(a + b - 1) / b\<close> that the sources write out in place.\<close>

definition ceil_div :: "nat \<Rightarrow> nat \<Rightarrow> nat" where
  "ceil_div a b = (a + b - 1) div b"

lemma ceil_div_bounds:
  assumes "0 < b"
  shows "a \<le> ceil_div a b * b" "ceil_div a b * b < a + b"
proof -
  have "(a + b - 1) div b * b + (a + b - 1) mod b = a + b - 1"
    by simp
  moreover have "(a + b - 1) mod b < b"
    using assms by simp
  ultimately show "a \<le> ceil_div a b * b" "ceil_div a b * b < a + b"
    using assms unfolding ceil_div_def by linarith+
qed

text \<open>Searching an initial segment of the naturals finds the least position.\<close>

lemma find_upt_Some: "find P [0..<n] = Some k \<longleftrightarrow> k < n \<and> P k \<and> (\<forall>i < k. \<not> P i)"
  by (auto simp: find_Some_iff)

lemma find_upt_None: "find P [0..<n] = None \<longleftrightarrow> (\<forall>i < n. \<not> P i)"
  by (auto simp: find_None_iff)

lemma length_filter_update:
  "i < length xs \<Longrightarrow> length (filter P (xs[i := y])) + (if P (xs ! i) then 1 else 0)
    = length (filter P xs) + (if P y then 1 else 0)"
proof (induction xs arbitrary: i)
  case (Cons x xs)
  then show ?case by (cases i) auto
qed simp

lemma length_filter_pos: "0 < length (filter P xs) \<longleftrightarrow> (\<exists>i < length xs. P (xs ! i))"
  by (auto simp: filter_empty_conv in_set_conv_nth Bex_def)

section \<open>Slices\<close>

definition slice_range :: "'a list \<Rightarrow> nat \<Rightarrow> nat \<Rightarrow> 'a list res" where
  "slice_range xs a b = (if a \<le> b \<and> b \<le> length xs then Ok (take (b - a) (drop a xs)) else Panics)"

definition overwrite :: "'a list \<Rightarrow> nat \<Rightarrow> 'a list \<Rightarrow> 'a list" where
  "overwrite xs a src = take a xs @ src @ drop (a + length src) xs"

definition copy_range :: "'a list \<Rightarrow> nat \<Rightarrow> nat \<Rightarrow> 'a list \<Rightarrow> 'a list res" where
  "copy_range xs a b src =
    (if a \<le> b \<and> b \<le> length xs \<and> length src = b - a then Ok (overwrite xs a src) else Panics)"

definition nth_res :: "'a list \<Rightarrow> nat \<Rightarrow> 'a res" where
  "nth_res xs i = (if i < length xs then Ok (xs ! i) else Panics)"

lemma nth_res_Ok [simp]: "i < length xs \<Longrightarrow> nth_res xs i = Ok (xs ! i)"
  by (simp add: nth_res_def)

lemma nth_res_eq_Ok [res_simps]: "nth_res xs i = Inr y \<longleftrightarrow> i < length xs \<and> y = xs ! i"
  by (auto simp: nth_res_def)

lemma slice_range_eq_Ok [res_simps]:
  "slice_range xs a b = Inr ys \<longleftrightarrow> a \<le> b \<and> b \<le> length xs \<and> ys = take (b - a) (drop a xs)"
  by (auto simp: slice_range_def)

lemma copy_range_eq_Ok [res_simps]:
  "copy_range xs a b src = Inr ys \<longleftrightarrow>
    a \<le> b \<and> b \<le> length xs \<and> length src = b - a \<and> ys = overwrite xs a src"
  by (auto simp: copy_range_def)

lemma slice_range_length: "slice_range xs a b = Inr ys \<Longrightarrow> length ys = b - a"
  by (auto simp: res_simps)

lemma length_overwrite [slice_simps]:
  "a + length src \<le> length xs \<Longrightarrow> length (overwrite xs a src) = length xs"
  by (simp add: overwrite_def)

lemma nth_overwrite [slice_simps]:
  assumes "a + length src \<le> length xs" "i < length xs"
  shows "overwrite xs a src ! i = (if a \<le> i \<and> i < a + length src then src ! (i - a) else xs ! i)"
  using assms by (auto simp: overwrite_def nth_append min_def)

lemma overwrite_same_range [slice_simps]:
  "a + length src \<le> length xs \<Longrightarrow> take (length src) (drop a (overwrite xs a src)) = src"
  by (simp add: overwrite_def)

lemma overwrite_disjoint [slice_simps]:
  assumes "a + length src \<le> length xs" "b + n \<le> a \<or> a + length src \<le> b"
  shows "take n (drop b (overwrite xs a src)) = take n (drop b xs)"
proof (rule nth_equalityI)
  show "length (take n (drop b (overwrite xs a src))) = length (take n (drop b xs))"
    using assms(1) by (simp add: length_overwrite)
next
  fix i assume "i < length (take n (drop b (overwrite xs a src)))"
  then show "take n (drop b (overwrite xs a src)) ! i = take n (drop b xs) ! i"
    using assms by (auto simp: slice_simps)
qed

text \<open>Overwriting inside a window of a buffer is overwriting the window.\<close>

lemma overwrite_window:
  assumes "p + length src \<le> n" "w + n \<le> length xs"
  shows "take n (drop w (overwrite xs (w + p) src)) = overwrite (take n (drop w xs)) p src"
  using assms by (intro nth_equalityI) (auto simp: slice_simps)

lemma overwrite_overwrite_same:
  "length src = length src' \<Longrightarrow> a + length src \<le> length xs \<Longrightarrow>
    overwrite (overwrite xs a src) a src' = overwrite xs a src'"
  by (simp add: overwrite_def)

lemma overwrite_whole [simp]: "length src = length xs \<Longrightarrow> overwrite xs 0 src = src"
  by (simp add: overwrite_def)

text \<open>The pieces of a concatenation of pieces of one length.\<close>

lemma concat_slice:
  assumes "\<forall>x \<in> set xs. length x = m" "i < length xs"
  shows "take m (drop (i * m) (concat xs @ ys)) = xs ! i"
  using assms
proof (induction xs arbitrary: i)
  case (Cons x xs)
  then show ?case by (cases i) auto
qed simp

section \<open>Grouping\<close>

text \<open>\<open>group_by\<close> on slices: maximal runs whose neighbours satisfy the relation.\<close>

fun group_by :: "('a \<Rightarrow> 'a \<Rightarrow> bool) \<Rightarrow> 'a list \<Rightarrow> 'a list list" where
  "group_by r [] = []"
| "group_by r [x] = [[x]]"
| "group_by r (x # y # ys) =
    (case group_by r (y # ys) of
       [] \<Rightarrow> [[x]]
     | g # gs \<Rightarrow> if r x y then (x # g) # gs else [x] # g # gs)"

lemma group_by_Cons_shape: "\<exists>g gs. group_by r (x # xs) = (x # g) # gs"
  by (induction xs arbitrary: x) (auto split: list.splits)

lemma concat_group_by [simp]: "concat (group_by r xs) = xs"
  by (induction r xs rule: group_by.induct) (auto split: list.splits)

lemma group_by_nonempty: "g \<in> set (group_by r xs) \<Longrightarrow> g \<noteq> []"
  by (induction r xs arbitrary: g rule: group_by.induct) (auto split: list.splits if_splits)

text \<open>Grouping block addresses by \<open>b2.saturating_sub(b1) == 1\<close> gives ranges of the disk.\<close>

definition consecutive :: "nat \<Rightarrow> nat \<Rightarrow> bool" where
  "consecutive b1 b2 \<longleftrightarrow> b2 - b1 = 1"

lemma group_by_consecutive: "g \<in> set (group_by consecutive xs) \<Longrightarrow> g = [hd g..<hd g + length g]"
proof (induction consecutive xs arbitrary: g rule: group_by.induct)
  case (3 x y ys)
  obtain g' gs where g': "group_by consecutive (y # ys) = (y # g') # gs"
    using group_by_Cons_shape by metis
  have y: "y # g' = [y..<y + length (y # g')]"
    using 3(1) [of "y # g'"] g' by simp
  show ?case
  proof (cases "consecutive x y")
    case True
    then have "y = Suc x" by (auto simp: consecutive_def)
    then have "[x..<x + length (x # y # g')] = x # [y..<y + length (y # g')]"
      by (simp add: upt_conv_Cons del: upt_Suc)
    then have "x # y # g' = [x..<x + length (x # y # g')]"
      using y by metis
    then have "x # y # g' = [hd (x # y # g')..<hd (x # y # g') + length (x # y # g')]"
      by (simp only: list.sel)
    moreover have "g \<in> set gs \<Longrightarrow> g = [hd g..<hd g + length g]"
      using 3(1) [of g] g' by (simp del: upt_Suc)
    moreover have "g = x # y # g' \<or> g \<in> set gs"
      using 3(2) g' True by simp
    ultimately show ?thesis
      by metis
  next
    case False
    then show ?thesis using 3 g' by auto
  qed
qed auto

section \<open>Ordered maps\<close>

text \<open>
  \<open>BTreeMap\<close>: an association list in the order of the keys, which is the order of iteration. \<open>get\<close> is \<open>map_of\<close>.
\<close>

fun btree_insert :: "'k :: linorder \<Rightarrow> 'v \<Rightarrow> ('k \<times> 'v) list \<Rightarrow> ('k \<times> 'v) list" where
  "btree_insert k v [] = [(k, v)]"
| "btree_insert k v ((k', v') # m) =
    (if k < k' then (k, v) # (k', v') # m
     else if k = k' then (k, v) # m
     else (k', v') # btree_insert k v m)"

definition btree_ok :: "('k :: linorder \<times> 'v) list \<Rightarrow> bool" where
  "btree_ok m \<longleftrightarrow> sorted_wrt (<) (map fst m)"

lemma btree_ok_simps [simp]: "btree_ok []" "btree_ok ((k, v) # m) \<longleftrightarrow> (\<forall>k' \<in> fst ` set m. k < k') \<and> btree_ok m"
  by (auto simp: btree_ok_def)

lemma btree_ok_distinct: "btree_ok m \<Longrightarrow> distinct (map fst m)"
  by (induction m) fastforce+

lemma btree_ok_append:
  "btree_ok (m @ m') \<longleftrightarrow> btree_ok m \<and> btree_ok m' \<and> (\<forall>x \<in> set m. \<forall>y \<in> set m'. fst x < fst y)"
  by (auto simp: btree_ok_def sorted_wrt_append)

lemma keys_btree_insert [simp]: "fst ` set (btree_insert k v m) = insert k (fst ` set m)"
  by (induction k v m rule: btree_insert.induct) auto

lemma btree_ok_insert [simp]: "btree_ok m \<Longrightarrow> btree_ok (btree_insert k v m)"
  by (induction k v m rule: btree_insert.induct) auto

lemma map_of_btree_insert [simp]: "btree_ok m \<Longrightarrow> map_of (btree_insert k v m) = (map_of m)(k \<mapsto> v)"
  by (induction k v m rule: btree_insert.induct) (auto simp: fun_eq_iff map_of_eq_None_iff dest: map_of_SomeD)

lemma set_btree_insert: "btree_ok m \<Longrightarrow> set (btree_insert k v m) = insert (k, v) {e \<in> set m. fst e \<noteq> k}"
  by (induction k v m rule: btree_insert.induct) auto

lemma length_btree_insert:
  "btree_ok m \<Longrightarrow> length (btree_insert k v m) = (if k \<in> fst ` set m then length m else Suc (length m))"
  by (induction k v m rule: btree_insert.induct) auto

lemma btree_insert_sum:
  fixes w :: "'v \<Rightarrow> nat"
  assumes "btree_ok m"
  shows "sum_list (map (w \<circ> snd) (btree_insert k v m)) + (case map_of m k of None \<Rightarrow> 0 | Some u \<Rightarrow> w u)
    = sum_list (map (w \<circ> snd) m) + w v"
  using assms
proof (induction k v m rule: btree_insert.induct)
  case (2 k v k' v' m)
  have "map_of m k = None" if "k < k'" using that 2(2) by (auto simp: map_of_eq_None_iff)
  then show ?case using 2 by (auto split: option.splits)
qed simp

section \<open>Blocks\<close>

text \<open>\<open>BLOCK_SIZE\<close> of \<open>layers/0-bio/mod.rs\<close>, bytes and block identifiers.\<close>

definition BLOCK_SIZE :: nat where
  "BLOCK_SIZE = 4096"

type_synonym byte = "8 word"
type_synonym bytes = "byte list"
type_synonym block_id = nat

lemma BLOCK_SIZE_pos [simp]: "0 < BLOCK_SIZE" "BLOCK_SIZE \<noteq> 0"
  by (simp_all add: BLOCK_SIZE_def)

section \<open>Pieces of one length\<close>

text \<open>\<open>chunks_of\<close> on slices: pieces of \<open>n\<close> elements, the last one may be shorter. The callers never pass zero.\<close>

function chunks_of :: "nat \<Rightarrow> 'a list \<Rightarrow> 'a list list" where
  "chunks_of n xs = (if n = 0 \<or> xs = [] then [] else take n xs # chunks_of n (drop n xs))"
  by pat_completeness auto
termination
  by (relation "measure (\<lambda>(n, xs). length xs)") auto

declare chunks_of.simps [simp del]

lemma chunks_Nil [simp]: "chunks_of n [] = []"
  by (subst chunks_of.simps) simp

lemma chunks_eq_Nil [simp]: "0 < n \<Longrightarrow> chunks_of n xs = [] \<longleftrightarrow> xs = []"
  by (subst chunks_of.simps) simp

lemma chunks_Cons: "0 < n \<Longrightarrow> xs \<noteq> [] \<Longrightarrow> chunks_of n xs = take n xs # chunks_of n (drop n xs)"
  by (subst chunks_of.simps) simp

lemma concat_chunks [simp]: "0 < n \<Longrightarrow> concat (chunks_of n xs) = xs"
proof (induction n xs rule: chunks_of.induct)
  case (1 n xs)
  then show ?case by (cases "xs = []") (simp_all add: chunks_Cons)
qed

lemma drop_chunks: "0 < n \<Longrightarrow> drop k (chunks_of n xs) = chunks_of n (drop (k * n) xs)"
proof (induction k arbitrary: xs)
  case (Suc k)
  then show ?case by (cases "xs = []") (simp_all add: chunks_Cons add.commute)
qed simp

lemma take_chunks: "0 < n \<Longrightarrow> take k (chunks_of n xs) = chunks_of n (take (k * n) xs)"
proof (induction k arbitrary: xs)
  case (Suc k)
  then show ?case
    by (cases "xs = []") (simp_all add: chunks_Cons take_drop min_def add.commute)
qed simp

lemma nth_chunks: "0 < n \<Longrightarrow> i < length (chunks_of n xs) \<Longrightarrow> chunks_of n xs ! i = take n (drop (i * n) xs)"
proof -
  assume n: "0 < n" and i: "i < length (chunks_of n xs)"
  have "chunks_of n xs ! i = hd (drop i (chunks_of n xs))" using i by (simp add: hd_drop_conv_nth)
  also have "\<dots> = hd (chunks_of n (drop (i * n) xs))" using n by (simp add: drop_chunks)
  also have "\<dots> = take n (drop (i * n) xs)"
    using i n drop_chunks [OF n, of i xs] by (subst chunks_Cons) auto
  finally show ?thesis .
qed

lemma length_chunks_le: "0 < n \<Longrightarrow> length (chunks_of n xs) \<le> k \<longleftrightarrow> length xs \<le> k * n"
  using drop_chunks [of n k xs] by (simp flip: drop_eq_Nil)

lemma length_chunks: "0 < n \<Longrightarrow> length (chunks_of n xs) = ceil_div (length xs) n"
proof -
  assume n: "0 < n"
  have "length (chunks_of n xs) \<le> ceil_div (length xs) n"
    using ceil_div_bounds(1) [OF n] n by (simp add: length_chunks_le)
  moreover have "ceil_div (length xs) n \<le> length (chunks_of n xs)"
  proof (rule ccontr)
    assume "\<not> ?thesis"
    then have "Suc (length (chunks_of n xs)) \<le> ceil_div (length xs) n" by simp
    then have "Suc (length (chunks_of n xs)) * n \<le> ceil_div (length xs) n * n" by (rule mult_le_mono1)
    moreover have "length xs \<le> length (chunks_of n xs) * n" using length_chunks_le [OF n] by blast
    ultimately show False using ceil_div_bounds(2) [OF n, of "length xs"] by simp
  qed
  ultimately show ?thesis by simp
qed

lemma chunks_single: "0 < length xs \<Longrightarrow> length xs \<le> n \<Longrightarrow> chunks_of n xs = [xs]"
  using chunks_Cons [of n xs] by (cases n) auto

lemma chunks_append: "0 < n \<Longrightarrow> length xs = k * n \<Longrightarrow> chunks_of n (xs @ ys) = chunks_of n xs @ chunks_of n ys"
  using append_take_drop_id [of k "chunks_of n (xs @ ys)"] by (simp add: take_chunks drop_chunks)

lemma chunks_1: "chunks_of (Suc 0) xs = map (\<lambda>x. [x]) xs"
  by (induction xs) (simp_all add: chunks_Cons)

text \<open>Pieces of pieces are larger pieces.\<close>

lemma chunks_chunks: "0 < a \<Longrightarrow> 0 < b \<Longrightarrow> chunks_of b (chunks_of a xs) = map (chunks_of a) (chunks_of (b * a) xs)"
proof (induction "length xs" arbitrary: xs rule: less_induct)
  case less
  show ?case
  proof (cases "xs = []")
    case False
    then have "length (drop (b * a) xs) < length xs" using less.prems by simp
    from less.hyps [OF this less.prems] show ?thesis
      using False less.prems
      by (simp add: chunks_Cons [of b] chunks_Cons [of "b * a"] take_chunks drop_chunks)
  qed simp
qed

lemma last_chunks: "0 < n \<Longrightarrow> xs \<noteq> [] \<Longrightarrow> last (chunks_of n xs) = drop ((length (chunks_of n xs) - 1) * n) xs"
proof -
  assume n: "0 < n" and xs: "xs \<noteq> []"
  then have l: "0 < length (chunks_of n xs)" by simp
  have "last (chunks_of n xs) = take n (drop ((length (chunks_of n xs) - 1) * n) xs)"
    using n xs l by (simp add: last_conv_nth nth_chunks)
  moreover have "length xs \<le> length (chunks_of n xs) * n" using length_chunks_le [OF n] by blast
  then have "length xs - (length (chunks_of n xs) - 1) * n \<le> n"
    using l by (cases "length (chunks_of n xs)") simp_all
  ultimately show ?thesis by simp
qed

lemma length_in_chunks: "0 < n \<Longrightarrow> i < length (chunks_of n xs) \<Longrightarrow> Suc i < length (chunks_of n xs) \<or> length xs mod n = 0 \<Longrightarrow>
    length (chunks_of n xs ! i) = n"
proof -
  assume n: "0 < n" and i: "i < length (chunks_of n xs)" and c: "Suc i < length (chunks_of n xs) \<or> length xs mod n = 0"
  have "i * n < length xs" using i length_chunks_le [OF n, of xs i] by simp
  moreover have "Suc i * n \<le> length xs"
  proof (cases "Suc i < length (chunks_of n xs)")
    case True
    then show ?thesis using length_chunks_le [OF n, of xs "Suc i"] by simp
  next
    case False
    then have "length xs mod n = 0" using c by simp
    then have "length xs = length xs div n * n" by (simp add: mod_eq_0_iff_dvd)
    then have "i < length xs div n" using \<open>i * n < length xs\<close> n by (metis mult_less_cancel2)
    then show ?thesis using \<open>length xs = _\<close> by (metis Suc_leI mult_le_mono1)
  qed
  ultimately show ?thesis using nth_chunks [OF n i] by simp
qed

end
