(* ===== verification/Block_Buf.thy ===== *)
theory Block_Buf
  imports Mls_Prelude
begin

text \<open>
  Block-aligned buffers (\<open>core/src/layers/0-bio/block_buf.rs\<close>).

  \<open>Buf\<close>, \<open>BufRef\<close> and \<open>BufMut\<close> are byte slices whose length is a positive multiple of the block
  size; the invariant the types carry is \<open>buf_ok\<close>. An owned buffer is backed by \<open>Pages\<close>
  (\<open>core/src/os/std/mod.rs\<close>), whose memory comes uninitialised from the allocator of the
  platform: \<open>pg n\<close> is what the allocator hands out for \<open>n\<close> pages, or \<open>None\<close> when it fails.
  The iterators \<open>BufIter\<close> and \<open>BufIterMut\<close> visit the blocks in order; the lemmas show that
  they split a buffer into its blocks without loss, which is what lets the upper layers be
  modelled on lists of blocks.
\<close>

type_synonym page_alloc = "nat \<Rightarrow> bytes option"

text \<open>What the platform promises: the memory it returns has the requested number of pages.\<close>

definition page_alloc_ok :: "page_alloc \<Rightarrow> bool" where
  "page_alloc_ok pg \<longleftrightarrow> (\<forall>n bs. pg n = Some bs \<longrightarrow> length bs = n * BLOCK_SIZE)"

definition pages_alloc :: "page_alloc \<Rightarrow> nat \<Rightarrow> bytes res" where
  "pages_alloc pg len = ok_or OutOfMemory (if len = 0 then None else pg len)"

definition buf_alloc :: "page_alloc \<Rightarrow> nat \<Rightarrow> bytes res" where
  "buf_alloc pg num_blocks =
    (if num_blocks = 0 then Fail InvalidArgs else pages_alloc pg num_blocks)"

definition buf_nblocks :: "bytes \<Rightarrow> nat" where
  "buf_nblocks buf = length buf div BLOCK_SIZE"

definition buf_ok :: "bytes \<Rightarrow> bool" where
  "buf_ok buf \<longleftrightarrow> buf \<noteq> [] \<and> length buf mod BLOCK_SIZE = 0"

definition buf_try_from :: "bytes \<Rightarrow> bytes res" where
  "buf_try_from buf =
    (if buf = [] then Fail InvalidArgs
     else if length buf mod BLOCK_SIZE \<noteq> 0 then Fail NotBlockSizeAligned
     else Ok buf)"

text \<open>The iterator over immutable blocks: \<open>next\<close> returns the item and the advanced iterator.\<close>

record buf_iter =
  bi_buf :: bytes
  bi_offset :: nat

definition buf_iter_new :: "bytes \<Rightarrow> buf_iter" where
  "buf_iter_new buf = \<lparr>bi_buf = buf, bi_offset = 0\<rparr>"

definition buf_iter_next :: "buf_iter \<Rightarrow> (bytes option \<times> buf_iter) res" where
  "buf_iter_next it =
    (if length (bi_buf it) \<le> bi_offset it then Ok (None, it)
     else let offset = bi_offset it; it' = it\<lparr>bi_offset := offset + BLOCK_SIZE\<rparr> in
       rbind (slice_range (bi_buf it) offset (offset + BLOCK_SIZE))
         (\<lambda>s. Ok (case buf_try_from s of Inr b \<Rightarrow> Some b | Inl _ \<Rightarrow> None, it')))"

text \<open>Draining the iterator, as a \<open>for\<close> loop or \<open>collect\<close> does.\<close>

function buf_iter_collect :: "buf_iter \<Rightarrow> bytes list res" where
  "buf_iter_collect it =
    (case buf_iter_next it of
       Inl f \<Rightarrow> Inl f
     | Inr (None, _) \<Rightarrow> Ok []
     | Inr (Some b, it') \<Rightarrow> rbind (buf_iter_collect it') (\<lambda>bs. Ok (b # bs)))"
  by pat_completeness auto
termination
proof (relation "measure (\<lambda>it. length (bi_buf it) - bi_offset it)", goal_cases)
  case 1
  then show ?case by simp
next
  case (2 it b it' item c)
  then show ?case
    by (auto simp: buf_iter_next_def Let_def res_simps split: if_splits intro!: diff_less_mono2)
qed

declare buf_iter_collect.simps [simp del]

text \<open>
  The mutable iterator lends one block at a time; the caller's writes to it end up in the
  buffer. \<open>f i b\<close> is what the caller leaves in the \<open>i\<close>-th block it is lent.
\<close>

function buf_iter_mut_for :: "(nat \<Rightarrow> bytes \<Rightarrow> bytes) \<Rightarrow> nat \<Rightarrow> bytes \<Rightarrow> nat \<Rightarrow> bytes res" where
  "buf_iter_mut_for f i buf offset =
    (if length buf \<le> offset then Ok buf
     else rbind (slice_range buf offset (offset + BLOCK_SIZE)) (\<lambda>s.
       case buf_try_from s of
         Inl _ \<Rightarrow> Ok buf
       | Inr b \<Rightarrow> rbind (copy_range buf offset (offset + BLOCK_SIZE) (f i b))
           (\<lambda>buf'. buf_iter_mut_for f (Suc i) buf' (offset + BLOCK_SIZE))))"
  by pat_completeness auto
termination
proof (relation "measure (\<lambda>(f, i, buf, offset). length buf - offset)", goal_cases)
  case 1
  then show ?case by simp
next
  case (2 f i buf offset s b buf')
  then show ?case
    by (auto simp: res_simps slice_simps intro!: diff_less_mono2)
qed

declare buf_iter_mut_for.simps [simp del]

section \<open>The blocks of a buffer\<close>

text \<open>The reference view of a buffer: its blocks, in order.\<close>

fun blocks_of :: "nat \<Rightarrow> 'a list \<Rightarrow> 'a list list" where
  "blocks_of 0 bs = []"
| "blocks_of (Suc n) bs = take BLOCK_SIZE bs # blocks_of n (drop BLOCK_SIZE bs)"

lemma length_blocks_of [simp]: "length (blocks_of n bs) = n"
  by (induction n arbitrary: bs) auto

lemma nth_blocks_of:
  "i < n \<Longrightarrow> blocks_of n bs ! i = take BLOCK_SIZE (drop (i * BLOCK_SIZE) bs)"
proof (induction n arbitrary: bs i)
  case (Suc n)
  then show ?case
    by (cases i) (simp_all add: add.commute)
qed simp

lemma concat_blocks_of: "length bs = n * BLOCK_SIZE \<Longrightarrow> concat (blocks_of n bs) = bs"
  by (induction n arbitrary: bs) auto

lemma blocks_of_concat:
  "\<forall>b \<in> set bls. length b = BLOCK_SIZE \<Longrightarrow> blocks_of (length bls) (concat bls) = bls"
  by (induction bls) auto

lemma length_concat_blocks:
  "\<forall>b \<in> set bls. length b = BLOCK_SIZE \<Longrightarrow> length (concat bls) = length bls * BLOCK_SIZE"
  by (induction bls) auto

lemma set_blocks_of_length:
  assumes "length bs = n * BLOCK_SIZE" "b \<in> set (blocks_of n bs)"
  shows "length b = BLOCK_SIZE"
proof -
  obtain i where i: "i < n" "b = take BLOCK_SIZE (drop (i * BLOCK_SIZE) bs)"
    using assms(2) by (auto simp: in_set_conv_nth nth_blocks_of)
  have "Suc i * BLOCK_SIZE \<le> n * BLOCK_SIZE"
    using i(1) by (intro mult_le_mono1) simp
  then show ?thesis
    using i(2) assms(1) by simp
qed

lemma buf_ok_length: "buf_ok buf \<Longrightarrow> length buf = buf_nblocks buf * BLOCK_SIZE"
  by (simp add: buf_ok_def buf_nblocks_def mod_eq_0_iff_dvd)

lemma buf_ok_nblocks_pos: "buf_ok buf \<Longrightarrow> 0 < buf_nblocks buf"
  unfolding buf_ok_def buf_nblocks_def
  by (metis dvd_imp_mod_0 div_greater_zero_iff dvd_imp_le length_greater_0_conv mod_eq_0_iff_dvd
      BLOCK_SIZE_pos(1))

lemma buf_ok_iff: "buf_ok buf \<longleftrightarrow> (\<exists>n > 0. length buf = n * BLOCK_SIZE)"
proof
  assume "buf_ok buf"
  then show "\<exists>n > 0. length buf = n * BLOCK_SIZE"
    by (intro exI [of _ "buf_nblocks buf"] conjI) (rule buf_ok_nblocks_pos buf_ok_length; assumption)+
next
  assume "\<exists>n > 0. length buf = n * BLOCK_SIZE"
  then show "buf_ok buf"
    by (auto simp: buf_ok_def)
qed

lemma buf_nblocks_of_length: "length buf = n * BLOCK_SIZE \<Longrightarrow> buf_nblocks buf = n"
  by (simp add: buf_nblocks_def)

lemma buf_try_from_iff: "buf_try_from buf = Inr b \<longleftrightarrow> buf_ok buf \<and> b = buf"
  by (auto simp: buf_try_from_def buf_ok_def)

lemma buf_alloc_Ok:
  assumes "page_alloc_ok pg" "buf_alloc pg n = Inr bs"
  shows "0 < n" "length bs = n * BLOCK_SIZE" "buf_ok bs" "buf_nblocks bs = n"
proof -
  show *: "0 < n" and **: "length bs = n * BLOCK_SIZE"
    using assms
    by (auto simp: buf_alloc_def pages_alloc_def page_alloc_ok_def res_simps split: if_splits)
  show "buf_ok bs" "buf_nblocks bs = n"
    using * ** by (auto simp: buf_ok_iff buf_nblocks_def)
qed

lemma block_try_from [simp]: "length s = BLOCK_SIZE \<Longrightarrow> buf_try_from s = Ok s"
  by (auto simp: buf_try_from_def)

lemma buf_iter_collect_from:
  assumes "length buf = (i + n) * BLOCK_SIZE"
  shows "buf_iter_collect \<lparr>bi_buf = buf, bi_offset = i * BLOCK_SIZE\<rparr>
    = Ok (blocks_of n (drop (i * BLOCK_SIZE) buf))"
  using assms
proof (induction n arbitrary: i)
  case 0
  then show ?case
    by (subst buf_iter_collect.simps) (simp add: buf_iter_next_def)
next
  case (Suc n)
  let ?it = "\<lparr>bi_buf = buf, bi_offset = i * BLOCK_SIZE\<rparr>"
  have *: "\<not> length buf \<le> i * BLOCK_SIZE" "i * BLOCK_SIZE + BLOCK_SIZE \<le> length buf"
    using Suc.prems by (simp_all add: add_mult_distrib)
  have "buf_iter_next ?it = Ok (Some (take BLOCK_SIZE (drop (i * BLOCK_SIZE) buf)),
      \<lparr>bi_buf = buf, bi_offset = Suc i * BLOCK_SIZE\<rparr>)"
    using * by (simp add: buf_iter_next_def slice_range_def Let_def)
  moreover have "buf_iter_collect \<lparr>bi_buf = buf, bi_offset = Suc i * BLOCK_SIZE\<rparr>
      = Ok (blocks_of n (drop (Suc i * BLOCK_SIZE) buf))"
    using Suc.prems by (intro Suc.IH) simp
  ultimately show ?case
    by (subst buf_iter_collect.simps) (simp add: algebra_simps)
qed

text \<open>The iterator yields exactly the blocks of the buffer, and they concatenate back to it.\<close>

lemma buf_iter_collect_blocks:
  "buf_ok buf \<Longrightarrow> buf_iter_collect (buf_iter_new buf) = Ok (blocks_of (buf_nblocks buf) buf)"
  using buf_iter_collect_from [of buf 0 "buf_nblocks buf"] buf_ok_length [of buf]
  by (simp add: buf_iter_new_def)

text \<open>The mutable iterator changes each block by the caller's function and nothing else.\<close>

lemma buf_iter_mut_for_from:
  assumes "length buf = (i + n) * BLOCK_SIZE"
    and f: "\<And>j b. length b = BLOCK_SIZE \<Longrightarrow> length (f j b) = BLOCK_SIZE"
  shows "buf_iter_mut_for f i buf (i * BLOCK_SIZE) =
    Ok (take (i * BLOCK_SIZE) buf @
        concat (map (\<lambda>(j, b). f j b) (enumerate i (blocks_of n (drop (i * BLOCK_SIZE) buf)))))"
  using assms(1)
proof (induction n arbitrary: i buf)
  case 0
  then show ?case
    by (subst buf_iter_mut_for.simps) simp
next
  case (Suc n)
  let ?b = "take BLOCK_SIZE (drop (i * BLOCK_SIZE) buf)"
  let ?buf' = "overwrite buf (i * BLOCK_SIZE) (f i ?b)"
  have *: "\<not> length buf \<le> i * BLOCK_SIZE" "i * BLOCK_SIZE + BLOCK_SIZE \<le> length buf"
    using Suc.prems by (simp_all add: add_mult_distrib)
  then have fb: "length (f i ?b) = BLOCK_SIZE"
    using f by simp
  have "length ?buf' = (Suc i + n) * BLOCK_SIZE"
    using Suc.prems * fb by (simp add: slice_simps)
  then have IH: "buf_iter_mut_for f (Suc i) ?buf' (Suc i * BLOCK_SIZE) =
      Ok (take (Suc i * BLOCK_SIZE) ?buf' @ concat (map (\<lambda>(j, b). f j b)
        (enumerate (Suc i) (blocks_of n (drop (Suc i * BLOCK_SIZE) ?buf')))))"
    by (rule Suc.IH)
  have "take (Suc i * BLOCK_SIZE) ?buf' = take (i * BLOCK_SIZE) buf @ f i ?b"
    "drop (Suc i * BLOCK_SIZE) ?buf' = drop (i * BLOCK_SIZE + BLOCK_SIZE) buf"
    using * fb by (simp_all add: overwrite_def)
  then show ?case
    using IH * fb
    by (subst buf_iter_mut_for.simps) (simp add: slice_range_def copy_range_def add.commute)
qed

text \<open>Allocation that succeeds: the platform has memory. \<open>zero_pages\<close> is such a platform.\<close>

definition pages_ready :: "page_alloc \<Rightarrow> bool" where
  "pages_ready pg \<longleftrightarrow> page_alloc_ok pg \<and> (\<forall>n. 0 < n \<longrightarrow> pg n \<noteq> None)"

lemma buf_alloc_ready:
  assumes "pages_ready pg" "0 < n"
  shows "\<exists>bs. buf_alloc pg n = Ok bs \<and> length bs = n * BLOCK_SIZE \<and> buf_ok bs \<and> buf_nblocks bs = n"
proof -
  obtain page where "pg n = Some page"
    using assms by (auto simp: pages_ready_def)
  then obtain bs where bs: "buf_alloc pg n = Ok bs"
    using assms(2) by (simp add: buf_alloc_def pages_alloc_def ok_or_def)
  moreover have "page_alloc_ok pg" using assms(1) by (simp add: pages_ready_def)
  ultimately show ?thesis using buf_alloc_Ok by blast
qed

definition zero_pages :: page_alloc where
  "zero_pages n = Some (replicate (n * BLOCK_SIZE) 0)"

lemma zero_pages_ready [simp]: "pages_ready zero_pages"
  by (simp add: pages_ready_def page_alloc_ok_def zero_pages_def)

section \<open>Blocks of a buffer by number\<close>

definition block_at :: "bytes \<Rightarrow> nat \<Rightarrow> bytes" where
  "block_at c b = take BLOCK_SIZE (drop (b * BLOCK_SIZE) c)"

lemma concat_block_at:
  assumes "(a + k) * BLOCK_SIZE \<le> length c"
  shows "concat (map (block_at c) [a..<a + k]) = take (k * BLOCK_SIZE) (drop (a * BLOCK_SIZE) c)"
  using assms
proof (induction k)
  case (Suc k)
  have "(a + k) * BLOCK_SIZE \<le> length c"
    using Suc.prems by simp
  moreover have "take (Suc k * BLOCK_SIZE) xs = take (k * BLOCK_SIZE) xs @ take BLOCK_SIZE (drop (k * BLOCK_SIZE) xs)"
    for xs :: bytes
    by (metis add.commute mult_Suc take_add)
  ultimately show ?case
    using Suc.IH by (simp add: block_at_def add_mult_distrib add.commute)
qed simp

lemma concat_map_concat: "concat (map (\<lambda>g. concat (map f g)) gs) = concat (map f (concat gs))"
  by (induction gs) auto

lemma block_at_overwrite:
  assumes "buf_ok buf" "(a + buf_nblocks buf) * BLOCK_SIZE \<le> length c" "b * BLOCK_SIZE < length c"
    "length c mod BLOCK_SIZE = 0"
  shows "block_at (overwrite c (a * BLOCK_SIZE) buf) b
    = (if a \<le> b \<and> b < a + buf_nblocks buf then block_at buf (b - a) else block_at c b)"
proof -
  let ?n = "buf_nblocks buf"
  have len: "length buf = ?n * BLOCK_SIZE" using assms(1) by (rule buf_ok_length)
  then have fit: "a * BLOCK_SIZE + length buf \<le> length c"
    using assms(2) by (simp add: add_mult_distrib)
  show ?thesis
  proof (cases "a \<le> b \<and> b < a + ?n")
    case True
    then obtain j where j: "b = a + j" "j < ?n" by (metis le_add_diff_inverse nat_add_left_cancel_less)
    have "Suc j * BLOCK_SIZE \<le> length buf"
      unfolding len using j(2) by (intro mult_le_mono1) simp
    then have "drop (b * BLOCK_SIZE) (overwrite c (a * BLOCK_SIZE) buf)
        = drop (j * BLOCK_SIZE) buf @ drop (a * BLOCK_SIZE + length buf) c"
      using fit j(1) by (simp add: overwrite_def add_mult_distrib)
    then show ?thesis
      using True j \<open>Suc j * BLOCK_SIZE \<le> length buf\<close> by (simp add: block_at_def)
  next
    case False
    then have "b + 1 \<le> a \<or> a + ?n \<le> b" by auto
    then have "(b + 1) * BLOCK_SIZE \<le> a * BLOCK_SIZE \<or> (a + ?n) * BLOCK_SIZE \<le> b * BLOCK_SIZE"
      using mult_le_mono1 by blast
    then have "b * BLOCK_SIZE + BLOCK_SIZE \<le> a * BLOCK_SIZE \<or> a * BLOCK_SIZE + length buf \<le> b * BLOCK_SIZE"
      unfolding len by (simp add: add_mult_distrib add.commute)
    then show ?thesis
      unfolding if_not_P [OF False] block_at_def
      using overwrite_disjoint [OF fit, of "b * BLOCK_SIZE" BLOCK_SIZE] by simp
  qed
qed

lemma block_at_snoc:
  assumes "length c = n * BLOCK_SIZE" "length b = BLOCK_SIZE"
  shows "i < n \<Longrightarrow> block_at (c @ b) i = block_at c i" "block_at (c @ b) n = b"
proof -
  assume "i < n"
  then have "(i + 1) * BLOCK_SIZE \<le> n * BLOCK_SIZE" by (intro mult_le_mono1) simp
  then show "block_at (c @ b) i = block_at c i" using assms(1) by (simp add: block_at_def)
qed (use assms in \<open>simp add: block_at_def\<close>)

end
