(* ===== verification/Block_Set.thy ===== *)
theory Block_Set
  imports Block_Buf
begin

text \<open>
  Random-access block storage (\<open>core/src/layers/0-bio/block_set.rs\<close>).

  The trait \<open>BlockSet\<close> is a dictionary \<open>block_set_ops\<close> of its required methods; the methods
  with a default body, \<open>read_slice\<close> and \<open>write_slice\<close>, are functions of the dictionary. A
  \<open>BufMut\<close> of \<open>n\<close> blocks that a read fills is the number \<open>n\<close> together with the bytes returned.
  \<open>MemDisk\<close> is the implementation the crate has itself: a region of a shared buffer.

  The locale \<open>block_set\<close> is the contract the trait documents: the set is \<open>nblocks\<close> blocks of
  content, reads return it and writes change the addressed blocks only. \<open>bounded_block_set\<close>
  adds that accesses beyond the set are refused.
\<close>

record 's block_set_ops =
  bs_read :: "'s \<Rightarrow> block_id \<Rightarrow> nat \<Rightarrow> bytes res"
  bs_write :: "'s \<Rightarrow> block_id \<Rightarrow> bytes \<Rightarrow> 's res"
  bs_subset :: "'s \<Rightarrow> block_id \<Rightarrow> block_id \<Rightarrow> 's res"
  bs_flush :: "'s \<Rightarrow> 's res"
  bs_nblocks :: "'s \<Rightarrow> nat"

definition read_slice :: "page_alloc \<Rightarrow> 's block_set_ops \<Rightarrow> 's \<Rightarrow> nat \<Rightarrow> nat \<Rightarrow> bytes res" where
  "read_slice pg S s offset buf_len =
    (let start_pos = offset div BLOCK_SIZE;
         end_pos = (offset + buf_len + BLOCK_SIZE - 1) div BLOCK_SIZE in
     if bs_nblocks S s < end_pos then Fail InvalidArgs
     else
       rbind (checked_sub end_pos start_pos) (\<lambda>nblocks.
       rbind (buf_alloc pg nblocks) (\<lambda>blocks.
       rbind (bs_read S s start_pos (buf_nblocks blocks)) (\<lambda>blocks.
       let offset = offset mod BLOCK_SIZE in
       slice_range blocks offset (offset + buf_len)))))"

definition write_slice :: "page_alloc \<Rightarrow> 's block_set_ops \<Rightarrow> 's \<Rightarrow> nat \<Rightarrow> bytes \<Rightarrow> 's res" where
  "write_slice pg S s offset buf =
    (let start_pos = offset div BLOCK_SIZE;
         end_pos = (offset + length buf + BLOCK_SIZE - 1) div BLOCK_SIZE in
     if bs_nblocks S s < end_pos then Fail InvalidArgs
     else
       rbind (checked_sub end_pos start_pos) (\<lambda>nblocks.
       rbind (buf_alloc pg nblocks) (\<lambda>blocks.
       let start_offset = offset mod BLOCK_SIZE in
       rbind (if start_offset \<noteq> 0
              then rbind (buf_alloc pg 1) (\<lambda>start_block.
                rbind (bs_read S s start_pos (buf_nblocks start_block)) (\<lambda>start_block.
                rbind (slice_range start_block 0 start_offset) (\<lambda>src.
                copy_range blocks 0 start_offset src)))
              else Ok blocks) (\<lambda>blocks.
       let end_offset = start_offset + length buf in
       rbind (copy_range blocks start_offset end_offset buf) (\<lambda>blocks.
       rbind (if end_offset mod BLOCK_SIZE \<noteq> 0
              then rbind (buf_alloc pg 1) (\<lambda>end_block.
                rbind (bs_read S s end_pos (buf_nblocks end_block)) (\<lambda>end_block.
                rbind (slice_range end_block (end_offset mod BLOCK_SIZE) (length end_block)) (\<lambda>src.
                copy_range blocks end_offset (length blocks) src)))
              else Ok blocks) (\<lambda>blocks.
       bs_write S s start_pos blocks))))))"

section \<open>MemDisk\<close>

record memdisk =
  md_disk :: bytes
  md_start :: block_id
  md_end :: block_id

definition memdisk_create :: "page_alloc \<Rightarrow> nat \<Rightarrow> memdisk res" where
  "memdisk_create pg num_blocks =
    rbind (buf_alloc pg num_blocks) (\<lambda>blocks.
      Ok \<lparr>md_disk = blocks, md_start = 0, md_end = num_blocks\<rparr>)"

definition memdisk_read :: "memdisk \<Rightarrow> block_id \<Rightarrow> nat \<Rightarrow> bytes res" where
  "memdisk_read d pos nblocks =
    (if md_end d < pos + nblocks then Fail InvalidArgs
     else let offset = (md_start d + pos) * BLOCK_SIZE in
       slice_range (md_disk d) offset (offset + nblocks * BLOCK_SIZE))"

definition memdisk_write :: "memdisk \<Rightarrow> block_id \<Rightarrow> bytes \<Rightarrow> memdisk res" where
  "memdisk_write d pos buf =
    (if md_end d < pos + buf_nblocks buf then Fail InvalidArgs
     else let offset = (md_start d + pos) * BLOCK_SIZE in
       rbind (copy_range (md_disk d) offset (offset + length buf) buf)
         (\<lambda>disk. Ok (d\<lparr>md_disk := disk\<rparr>)))"

definition memdisk_subset :: "memdisk \<Rightarrow> block_id \<Rightarrow> block_id \<Rightarrow> memdisk res" where
  "memdisk_subset d first last' =
    (if md_end d < md_start d + last' then Fail InvalidArgs
     else Ok (d\<lparr>md_start := md_start d + first, md_end := md_start d + last'\<rparr>))"

definition memdisk_flush :: "memdisk \<Rightarrow> memdisk res" where
  "memdisk_flush d = Ok d"

definition memdisk_nblocks :: "memdisk \<Rightarrow> nat" where
  "memdisk_nblocks d = md_end d - md_start d"

definition memdisk_ops :: "memdisk block_set_ops" where
  "memdisk_ops = \<lparr>bs_read = memdisk_read, bs_write = memdisk_write, bs_subset = memdisk_subset,
    bs_flush = memdisk_flush, bs_nblocks = memdisk_nblocks\<rparr>"

text \<open>
  The buffer of a \<open>MemDisk\<close> is shared by its clones and subsets (\<open>Arc<Mutex<Buf>>\<close>): after a
  write through one handle the other handles see the new buffer.
\<close>

definition memdisk_share :: "memdisk \<Rightarrow> memdisk \<Rightarrow> memdisk" where
  "memdisk_share writer other = other\<lparr>md_disk := md_disk writer\<rparr>"

section \<open>The contract\<close>

locale block_set =
  fixes S :: "'s block_set_ops"
    and inv :: "'s \<Rightarrow> bool"
    and content :: "'s \<Rightarrow> bytes"
  assumes content_length: "inv s \<Longrightarrow> length (content s) = bs_nblocks S s * BLOCK_SIZE"
    and read_in_range: "inv s \<Longrightarrow> 0 < n \<Longrightarrow> pos + n \<le> bs_nblocks S s \<Longrightarrow>
      bs_read S s pos n = Ok (take (n * BLOCK_SIZE) (drop (pos * BLOCK_SIZE) (content s)))"
    and write_in_range: "inv s \<Longrightarrow> buf_ok buf \<Longrightarrow> pos + buf_nblocks buf \<le> bs_nblocks S s \<Longrightarrow>
      \<exists>s'. bs_write S s pos buf = Ok s' \<and> inv s' \<and> bs_nblocks S s' = bs_nblocks S s \<and>
        content s' = overwrite (content s) (pos * BLOCK_SIZE) buf"
begin

lemma write_fits:
  assumes "inv s" "buf_ok buf" "pos + buf_nblocks buf \<le> bs_nblocks S s"
  shows "pos * BLOCK_SIZE + length buf \<le> length (content s)"
proof -
  have "(pos + buf_nblocks buf) * BLOCK_SIZE \<le> bs_nblocks S s * BLOCK_SIZE"
    using assms(3) by (rule mult_le_mono1)
  then show ?thesis
    using assms by (simp add: content_length buf_ok_length add_mult_distrib)
qed

lemma read_after_write:
  assumes "inv s" "buf_ok buf" "pos + buf_nblocks buf \<le> bs_nblocks S s"
    and "bs_write S s pos buf = Ok s'"
  shows "bs_read S s' pos (buf_nblocks buf) = Ok buf"
proof -
  have "inv s'" "bs_nblocks S s' = bs_nblocks S s"
    "content s' = overwrite (content s) (pos * BLOCK_SIZE) buf"
    using write_in_range [OF assms(1-3)] assms(4) by auto
  then show ?thesis
    using assms(3) write_fits [OF assms(1-3)] buf_ok_nblocks_pos [OF assms(2)]
    by (simp add: read_in_range overwrite_same_range flip: buf_ok_length [OF assms(2)])
qed

lemma read_other_after_write:
  assumes "inv s" "buf_ok buf" "pos + buf_nblocks buf \<le> bs_nblocks S s"
    and "bs_write S s pos buf = Ok s'"
    and "0 < n" "p + n \<le> bs_nblocks S s" "p + n \<le> pos \<or> pos + buf_nblocks buf \<le> p"
  shows "bs_read S s' p n = bs_read S s p n"
proof -
  have s': "inv s'" "bs_nblocks S s' = bs_nblocks S s"
    "content s' = overwrite (content s) (pos * BLOCK_SIZE) buf"
    using write_in_range [OF assms(1-3)] assms(4) by auto
  have "p * BLOCK_SIZE + n * BLOCK_SIZE \<le> pos * BLOCK_SIZE \<or>
      pos * BLOCK_SIZE + length buf \<le> p * BLOCK_SIZE"
    using assms(7) buf_ok_length [OF assms(2)] by (metis add_mult_distrib mult_le_mono1)
  then show ?thesis
    using assms(1,5,6) s' overwrite_disjoint [OF write_fits [OF assms(1-3)]]
    by (simp add: read_in_range)
qed

end

lemma slice_span:
  assumes "offset + len \<le> N * BLOCK_SIZE" "0 < len"
    and "first = offset div BLOCK_SIZE" "past = (offset + len + BLOCK_SIZE - 1) div BLOCK_SIZE"
  shows "first < past" "past \<le> N" "first * BLOCK_SIZE + offset mod BLOCK_SIZE = offset"
    "offset + len \<le> past * BLOCK_SIZE" "past * BLOCK_SIZE < offset + len + BLOCK_SIZE"
    "offset mod BLOCK_SIZE + len \<le> (past - first) * BLOCK_SIZE"
proof -
  show 1: "first * BLOCK_SIZE + offset mod BLOCK_SIZE = offset"
    using assms(3) by simp
  show 2: "offset + len \<le> past * BLOCK_SIZE" "past * BLOCK_SIZE < offset + len + BLOCK_SIZE"
    using ceil_div_bounds [of BLOCK_SIZE "offset + len"] assms(4) by (simp_all add: ceil_div_def)
  have "first * BLOCK_SIZE < past * BLOCK_SIZE"
    using 1 2 assms(2) by linarith
  then show lt: "first < past"
    by simp
  have "past * BLOCK_SIZE < Suc N * BLOCK_SIZE"
    using 2 assms(1) unfolding mult_Suc by linarith
  then show "past \<le> N"
    unfolding mult_less_cancel2 by simp
  show "offset mod BLOCK_SIZE + len \<le> (past - first) * BLOCK_SIZE"
    using 1 2 unfolding diff_mult_distrib by linarith
qed

lemma ceil_div_cases:
  "(e + BLOCK_SIZE - 1) div BLOCK_SIZE
    = (if e mod BLOCK_SIZE = 0 then e div BLOCK_SIZE else e div BLOCK_SIZE + 1)"
proof -
  let ?p = "e div BLOCK_SIZE" and ?r = "e mod BLOCK_SIZE"
  have e: "e = ?p * BLOCK_SIZE + ?r" by simp
  show ?thesis
  proof (cases "?r = 0")
    case True
    then have "e + BLOCK_SIZE - 1 = ?p * BLOCK_SIZE + (BLOCK_SIZE - 1)"
      using e BLOCK_SIZE_pos(1) by linarith
    then show ?thesis using True by simp
  next
    case False
    then obtain r' where r': "?r = Suc r'" by (cases ?r) auto
    moreover have "?r < BLOCK_SIZE" by simp
    ultimately have "r' < BLOCK_SIZE" by linarith
    moreover have "e + BLOCK_SIZE - 1 = r' + (?p + 1) * BLOCK_SIZE"
      using e r' unfolding add_mult_distrib by linarith
    moreover have "(r' + (?p + 1) * BLOCK_SIZE) div BLOCK_SIZE = ?p + 1"
      using \<open>r' < BLOCK_SIZE\<close> by (subst div_mult_self1) simp_all
    ultimately show ?thesis using False by simp
  qed
qed

text \<open>
  What \<open>write_slice\<close> leaves behind the written bytes when they do not end on a block boundary:
  the code fills the rest of the last block from the block after it.
\<close>

definition slice_tail :: "bytes \<Rightarrow> nat \<Rightarrow> bytes" where
  "slice_tail c e = (if e mod BLOCK_SIZE = 0 then []
    else take (BLOCK_SIZE - e mod BLOCK_SIZE) (drop (e + BLOCK_SIZE) c))"

lemma buf_alloc_total:
  assumes "page_alloc_ok pg" "\<And>n. 0 < n \<Longrightarrow> pg n \<noteq> None" "0 < n"
  shows "\<exists>bl. buf_alloc pg n = Ok bl \<and> length bl = n * BLOCK_SIZE \<and> buf_nblocks bl = n"
  using assms(2) [OF assms(3)] assms(1,3)
  by (auto simp: buf_alloc_def pages_alloc_def page_alloc_ok_def buf_nblocks_def)

lemma overwrite_prefix:
  "length (take k (drop a c)) = k \<Longrightarrow> overwrite c a (take k (drop a c) @ x) = overwrite c (a + k) x"
  by (simp add: overwrite_def take_add add.assoc)

context block_set
begin

lemma length_span:
  assumes "inv s" "first + n \<le> bs_nblocks S s"
  shows "length (take (n * BLOCK_SIZE) (drop (first * BLOCK_SIZE) (content s))) = n * BLOCK_SIZE"
proof -
  have "(first + n) * BLOCK_SIZE \<le> length (content s)"
    unfolding content_length [OF assms(1)] using assms(2) by (rule mult_le_mono1)
  then show ?thesis
    by (simp add: add_mult_distrib)
qed

lemma read_slice_correct:
  assumes "inv s" "page_alloc_ok pg" "\<And>n. 0 < n \<Longrightarrow> pg n \<noteq> None"
    and "0 < len" "offset + len \<le> bs_nblocks S s * BLOCK_SIZE"
  shows "read_slice pg S s offset len = Ok (take len (drop offset (content s)))"
proof -
  define first past where fp: "first = offset div BLOCK_SIZE"
    "past = (offset + len + BLOCK_SIZE - 1) div BLOCK_SIZE"
  note sp = slice_span [OF assms(5,4) fp]
  define R where "R = take ((past - first) * BLOCK_SIZE) (drop (first * BLOCK_SIZE) (content s))"
  obtain bl where bl: "buf_alloc pg (past - first) = Ok bl" "buf_nblocks bl = past - first"
    using buf_alloc_total [OF assms(2,3)] sp(1) by (metis zero_less_diff)
  have rd: "bs_read S s first (past - first) = Ok R"
    unfolding R_def using sp assms(1) by (intro read_in_range) auto
  have "length R = (past - first) * BLOCK_SIZE"
    unfolding R_def using sp(1,2) by (intro length_span [OF assms(1)]) simp
  then have "slice_range R (offset mod BLOCK_SIZE) (offset mod BLOCK_SIZE + len)
      = Ok (take len (drop (offset mod BLOCK_SIZE) R))"
    using sp(6) by (simp add: slice_range_def)
  also have "take len (drop (offset mod BLOCK_SIZE) R) = take len (drop offset (content s))"
    using sp(3,6) by (simp add: R_def drop_take add.commute)
  finally show ?thesis
    unfolding read_slice_def Let_def fp [symmetric] using sp(1,2) bl rd by simp
qed

lemma write_slice_head:
  assumes "inv s" "page_alloc_ok pg" "\<And>n. 0 < n \<Longrightarrow> pg n \<noteq> None"
    and "first < bs_nblocks S s" "so < BLOCK_SIZE" "BLOCK_SIZE \<le> length bl"
  shows "(if so \<noteq> 0
      then rbind (buf_alloc pg 1) (\<lambda>b. rbind (bs_read S s first (buf_nblocks b)) (\<lambda>b.
        rbind (slice_range b 0 so) (copy_range bl 0 so)))
      else Ok bl) = Ok (take so (drop (first * BLOCK_SIZE) (content s)) @ drop so bl)"
proof -
  obtain b1 where b1: "buf_alloc pg 1 = Ok b1" "buf_nblocks b1 = 1"
    using buf_alloc_total [OF assms(2,3)] by (metis zero_less_one)
  have rd: "bs_read S s first 1 = Ok (take BLOCK_SIZE (drop (first * BLOCK_SIZE) (content s)))"
    using read_in_range [of s 1 first] assms(1,4) by simp
  have "length (take BLOCK_SIZE (drop (first * BLOCK_SIZE) (content s))) = BLOCK_SIZE"
    using length_span [of s first 1] assms(1,4) by simp
  then show ?thesis
    using assms(5,6) b1 rd
    by (auto simp: slice_range_def copy_range_def overwrite_def min_def split: if_splits)
qed

lemma write_slice_tail:
  assumes "inv s" "page_alloc_ok pg" "\<And>n. 0 < n \<Longrightarrow> pg n \<noteq> None"
    and "r < BLOCK_SIZE" "0 < r \<Longrightarrow> p + 1 < bs_nblocks S s"
    and "length bl = (if r = 0 then q else q + 1) * BLOCK_SIZE"
  shows "(if (q * BLOCK_SIZE + r) mod BLOCK_SIZE \<noteq> 0
      then rbind (buf_alloc pg 1) (\<lambda>b.
        rbind (bs_read S s (if r = 0 then p else p + 1) (buf_nblocks b)) (\<lambda>b.
        rbind (slice_range b ((q * BLOCK_SIZE + r) mod BLOCK_SIZE) (length b))
          (copy_range bl (q * BLOCK_SIZE + r) (length bl))))
      else Ok bl) = Ok (take (q * BLOCK_SIZE + r) bl @ slice_tail (content s) (p * BLOCK_SIZE + r))"
proof (cases "r = 0")
  case True
  then show ?thesis using assms(6) by (simp add: slice_tail_def)
next
  case False
  let ?next = "take BLOCK_SIZE (drop ((p + 1) * BLOCK_SIZE) (content s))"
  obtain b1 where b1: "buf_alloc pg 1 = Ok b1" "buf_nblocks b1 = 1"
    using buf_alloc_total [OF assms(2,3)] by (metis zero_less_one)
  have rd: "bs_read S s (p + 1) 1 = Ok ?next"
    using read_in_range [of s 1 "p + 1"] assms(1,5) False by simp
  have len: "length ?next = BLOCK_SIZE"
    using length_span [of s "p + 1" 1] assms(1,5) False by simp
  have "drop r ?next = slice_tail (content s) (p * BLOCK_SIZE + r)"
    using assms(4) False by (simp add: slice_tail_def drop_take algebra_simps)
  moreover have "length (drop r ?next) = BLOCK_SIZE - r"
    using len by simp
  ultimately show ?thesis
    using assms(4,6) False b1 rd len
    by (simp add: slice_range_def copy_range_def overwrite_def)
qed

lemma length_slice_tail:
  assumes "inv s" "e mod BLOCK_SIZE \<noteq> 0 \<Longrightarrow> e div BLOCK_SIZE + 1 < bs_nblocks S s"
  shows "length (slice_tail (content s) e)
    = (if e mod BLOCK_SIZE = 0 then 0 else BLOCK_SIZE - e mod BLOCK_SIZE)"
proof (cases "e mod BLOCK_SIZE = 0")
  case False
  have "(e div BLOCK_SIZE + 2) * BLOCK_SIZE \<le> length (content s)"
    unfolding content_length [OF assms(1)] using assms(2) [OF False] by (intro mult_le_mono1) simp
  moreover have "e = e div BLOCK_SIZE * BLOCK_SIZE + e mod BLOCK_SIZE"
    by simp
  ultimately have "e + BLOCK_SIZE + (BLOCK_SIZE - e mod BLOCK_SIZE) \<le> length (content s)"
    unfolding add_mult_distrib using mod_less_divisor [OF BLOCK_SIZE_pos(1), of e] by linarith
  then show ?thesis
    using False by (simp add: slice_tail_def)
qed (simp add: slice_tail_def)

lemma write_slice_correct:
  assumes "inv s" "page_alloc_ok pg" "\<And>n. 0 < n \<Longrightarrow> pg n \<noteq> None"
    and "buf \<noteq> []" "offset + length buf \<le> bs_nblocks S s * BLOCK_SIZE"
    and room: "(offset + length buf) mod BLOCK_SIZE \<noteq> 0 \<Longrightarrow>
      (offset + length buf) div BLOCK_SIZE + 1 < bs_nblocks S s"
  shows "\<exists>s'. write_slice pg S s offset buf = Ok s' \<and> inv s' \<and> bs_nblocks S s' = bs_nblocks S s \<and>
    content s' = overwrite (content s) offset (buf @ slice_tail (content s) (offset + length buf))"
proof -
  let ?c = "content s" and ?n = "length buf"
  define e p r where "e = offset + ?n" and "p = e div BLOCK_SIZE" and "r = e mod BLOCK_SIZE"
  define first past where fp: "first = offset div BLOCK_SIZE"
    "past = (offset + ?n + BLOCK_SIZE - 1) div BLOCK_SIZE"
  define so q where "so = offset mod BLOCK_SIZE" and "q = p - first"
  have n: "0 < ?n" using assms(4) by simp
  note sp = slice_span [OF assms(5) n fp, folded so_def]
  have past: "past = (if r = 0 then p else p + 1)"
    unfolding fp p_def r_def e_def by (rule ceil_div_cases)
  have fle: "first \<le> p" unfolding fp p_def e_def by (simp add: div_le_mono)
  have e: "e = p * BLOCK_SIZE + r" and r: "r < BLOCK_SIZE" by (simp_all add: p_def r_def)
  have eo: "so + ?n = q * BLOCK_SIZE + r"
    using sp(3) e mult_le_mono1 [OF fle, of BLOCK_SIZE]
    unfolding q_def diff_mult_distrib e_def by linarith
  have span: "past - first = (if r = 0 then q else q + 1)"
    using past fle by (simp add: q_def Suc_diff_le)
  obtain bl where bl: "buf_alloc pg (past - first) = Ok bl" "length bl = (past - first) * BLOCK_SIZE"
    using buf_alloc_total [OF assms(2,3)] sp(1) by (metis zero_less_diff)
  let ?hd = "take so (drop (first * BLOCK_SIZE) ?c)"
  let ?b1 = "?hd @ drop so bl"
  let ?b2 = "overwrite ?b1 so buf"
  have "length ?c = bs_nblocks S s * BLOCK_SIZE"
    using content_length [OF assms(1)] .
  then have hd: "length ?hd = so"
    using sp(3) assms(5) by simp
  have "so + ?n \<le> length bl" using sp(6) bl(2) by simp
  then have b2: "?b2 = ?hd @ buf @ drop (so + ?n) bl" "length ?b2 = length bl"
    using hd by (simp_all add: overwrite_def add.commute)
  have out: "take (q * BLOCK_SIZE + r) ?b2 @ slice_tail ?c (p * BLOCK_SIZE + r)
      = ?hd @ buf @ slice_tail ?c e"
    using b2(1) hd e by (simp flip: eo)
  have tail: "length (slice_tail ?c e) = (if r = 0 then 0 else BLOCK_SIZE - r)"
    using length_slice_tail [OF assms(1), of e] room by (simp add: e_def r_def)
  have "length (?hd @ buf @ slice_tail ?c e) = (past - first) * BLOCK_SIZE"
    using eo hd tail r unfolding span length_append by (auto simp del: length_take length_drop)
  then have ok: "buf_ok (?hd @ buf @ slice_tail ?c e)"
      "buf_nblocks (?hd @ buf @ slice_tail ?c e) = past - first"
    using sp(1) n by (simp_all add: buf_ok_def buf_nblocks_def del: length_append)
  obtain s' where s': "bs_write S s first (?hd @ buf @ slice_tail ?c e) = Ok s'" "inv s'"
      "bs_nblocks S s' = bs_nblocks S s"
      "content s' = overwrite ?c (first * BLOCK_SIZE) (?hd @ buf @ slice_tail ?c e)"
    using write_in_range [OF assms(1) ok(1), of first] ok(2) sp(1,2) by auto
  have "content s' = overwrite ?c offset (buf @ slice_tail ?c (offset + ?n))"
    using s'(4) overwrite_prefix [OF hd] sp(3) by (simp add: e_def)
  moreover have "write_slice pg S s offset buf = bs_write S s first (?hd @ buf @ slice_tail ?c e)"
  proof -
    have "write_slice pg S s offset buf = rbind (Ok ?b1) (\<lambda>blocks.
        rbind (copy_range blocks so (so + ?n) buf) (\<lambda>blocks.
        rbind (if (so + ?n) mod BLOCK_SIZE \<noteq> 0
          then rbind (buf_alloc pg 1) (\<lambda>b. rbind (bs_read S s past (buf_nblocks b)) (\<lambda>b.
            rbind (slice_range b ((so + ?n) mod BLOCK_SIZE) (length b))
              (copy_range blocks (so + ?n) (length blocks))))
          else Ok blocks) (bs_write S s first)))"
      unfolding write_slice_def Let_def fp [symmetric] so_def [symmetric]
      using write_slice_head [OF assms(1-3), of first so bl] sp(1,2) bl
      by (simp add: so_def)
    also have "\<dots> = rbind (if (so + ?n) mod BLOCK_SIZE \<noteq> 0
        then rbind (buf_alloc pg 1) (\<lambda>b. rbind (bs_read S s past (buf_nblocks b)) (\<lambda>b.
          rbind (slice_range b ((so + ?n) mod BLOCK_SIZE) (length b))
            (copy_range ?b2 (so + ?n) (length ?b2))))
        else Ok ?b2) (bs_write S s first)"
      using hd \<open>so + ?n \<le> length bl\<close> by (simp add: copy_range_def)
    also have "\<dots> = bs_write S s first (?hd @ buf @ slice_tail ?c e)"
      unfolding eo past
      using write_slice_tail [OF assms(1-3) r, of p ?b2 q] room b2(2) bl(2) span
      by (simp only: out rbind.simps) (simp add: p_def r_def e_def)
    finally show ?thesis .
  qed
  ultimately show ?thesis using s' by auto
qed

end

text \<open>A set that refuses accesses beyond its blocks, which is what the trait's users expect.\<close>

locale bounded_block_set = block_set +
  assumes read_out_of_range: "inv s \<Longrightarrow> bs_nblocks S s < pos + n \<Longrightarrow> bs_read S s pos n = Fail InvalidArgs"
    and write_out_of_range: "inv s \<Longrightarrow> bs_nblocks S s < pos + buf_nblocks buf \<Longrightarrow>
      bs_write S s pos buf = Fail InvalidArgs"
begin

text \<open>Writing a partial last block is refused, because the code reads the block after it.\<close>

lemma write_slice_last_block_fails:
  assumes "inv s" "page_alloc_ok pg" "\<And>n. 0 < n \<Longrightarrow> pg n \<noteq> None"
    and "buf \<noteq> []" "offset + length buf \<le> bs_nblocks S s * BLOCK_SIZE"
    and "(offset + length buf) mod BLOCK_SIZE \<noteq> 0"
    and "(offset + length buf) div BLOCK_SIZE + 1 = bs_nblocks S s"
  shows "write_slice pg S s offset buf = Fail InvalidArgs"
proof -
  define first past where fp: "first = offset div BLOCK_SIZE"
    "past = (offset + length buf + BLOCK_SIZE - 1) div BLOCK_SIZE"
  define so where "so = offset mod BLOCK_SIZE"
  have n: "0 < length buf" using assms(4) by simp
  note sp = slice_span [OF assms(5) n fp, folded so_def]
  have past: "past = bs_nblocks S s"
    using assms(6,7) ceil_div_cases [of "offset + length buf"] by (simp add: fp)
  have "(so + length buf) mod BLOCK_SIZE \<noteq> 0"
    using assms(6) by (simp add: so_def mod_add_left_eq)
  moreover have "bs_read S s past 1 = Fail InvalidArgs"
    using read_out_of_range [OF assms(1), of past 1] past by simp
  moreover obtain b1 where "buf_alloc pg 1 = Ok b1" "buf_nblocks b1 = 1"
    using buf_alloc_total [OF assms(2,3)] by (metis zero_less_one)
  moreover obtain bl where bl: "buf_alloc pg (past - first) = Ok bl"
      "length bl = (past - first) * BLOCK_SIZE"
    using buf_alloc_total [OF assms(2,3)] sp(1) by (metis zero_less_diff)
  moreover have "length (take so (drop (first * BLOCK_SIZE) (content s))) = so"
    using sp(3) assms(5) content_length [OF assms(1)] by simp
  ultimately show ?thesis
    unfolding write_slice_def Let_def fp [symmetric] so_def [symmetric]
    using write_slice_head [OF assms(1-3), of first so bl] sp(1,2,6)
    by (simp add: so_def copy_range_def)
qed

end

definition memdisk_inv :: "memdisk \<Rightarrow> bool" where
  "memdisk_inv d \<longleftrightarrow> md_start d \<le> md_end d \<and> md_end d * BLOCK_SIZE \<le> length (md_disk d)"

definition memdisk_content :: "memdisk \<Rightarrow> bytes" where
  "memdisk_content d = take (memdisk_nblocks d * BLOCK_SIZE) (drop (md_start d * BLOCK_SIZE) (md_disk d))"

lemmas memdisk_defs = memdisk_ops_def memdisk_inv_def memdisk_content_def memdisk_nblocks_def
  memdisk_read_def memdisk_write_def memdisk_flush_def memdisk_subset_def

lemma memdisk_region_fits:
  assumes "memdisk_inv d" "pos + n \<le> memdisk_nblocks d"
  shows "(md_start d + pos) * BLOCK_SIZE + n * BLOCK_SIZE \<le> length (md_disk d)" "pos + n \<le> md_end d"
proof -
  have "md_start d + pos + n \<le> md_end d"
    using assms by (auto simp: memdisk_inv_def memdisk_nblocks_def)
  then have "(md_start d + pos + n) * BLOCK_SIZE \<le> md_end d * BLOCK_SIZE"
    by (rule mult_le_mono1)
  then show "(md_start d + pos) * BLOCK_SIZE + n * BLOCK_SIZE \<le> length (md_disk d)"
    using assms(1) by (simp add: memdisk_inv_def add_mult_distrib)
  show "pos + n \<le> md_end d"
    using \<open>md_start d + pos + n \<le> md_end d\<close> by simp
qed

lemma memdisk_read_in_range:
  assumes "memdisk_inv d" "pos + n \<le> memdisk_nblocks d"
  shows "memdisk_read d pos n
    = Ok (take (n * BLOCK_SIZE) (drop (pos * BLOCK_SIZE) (memdisk_content d)))"
proof -
  have "pos * BLOCK_SIZE + n * BLOCK_SIZE \<le> memdisk_nblocks d * BLOCK_SIZE"
    using mult_le_mono1 [OF assms(2), of BLOCK_SIZE] by (simp add: add_mult_distrib)
  then show ?thesis
    using memdisk_region_fits [OF assms]
    by (simp add: memdisk_read_def slice_range_def memdisk_content_def Let_def drop_take min_def
        add_mult_distrib add.commute)
qed

lemma memdisk_write_in_range:
  assumes "memdisk_inv d" "buf_ok buf" "pos + buf_nblocks buf \<le> memdisk_nblocks d"
  shows "\<exists>d'. memdisk_write d pos buf = Ok d' \<and> memdisk_inv d' \<and>
    md_start d' = md_start d \<and> md_end d' = md_end d \<and>
    memdisk_content d' = overwrite (memdisk_content d) (pos * BLOCK_SIZE) buf"
proof -
  note fits = memdisk_region_fits [OF assms(1,3), folded buf_ok_length [OF assms(2)]]
  have le: "pos * BLOCK_SIZE + length buf \<le> memdisk_nblocks d * BLOCK_SIZE"
    using mult_le_mono1 [OF assms(3), of BLOCK_SIZE] buf_ok_length [OF assms(2)]
    by (simp add: add_mult_distrib)
  let ?d' = "d\<lparr>md_disk := overwrite (md_disk d) ((md_start d + pos) * BLOCK_SIZE) buf\<rparr>"
  have "memdisk_write d pos buf = Ok ?d'"
    using fits by (simp add: memdisk_write_def copy_range_def Let_def)
  moreover have "memdisk_inv ?d'"
    using assms(1) fits by (simp add: memdisk_inv_def length_overwrite)
  moreover have "memdisk_content ?d' = overwrite (memdisk_content d) (pos * BLOCK_SIZE) buf"
    unfolding memdisk_content_def memdisk_nblocks_def
    using fits le assms(1) overwrite_window [of "pos * BLOCK_SIZE" buf]
    by (simp add: memdisk_inv_def memdisk_nblocks_def add_mult_distrib diff_mult_distrib)
  ultimately show ?thesis by auto
qed

lemma memdisk_ops_simps [simp]:
  "bs_read memdisk_ops = memdisk_read" "bs_write memdisk_ops = memdisk_write"
  "bs_subset memdisk_ops = memdisk_subset" "bs_flush memdisk_ops = memdisk_flush"
  "bs_nblocks memdisk_ops = memdisk_nblocks"
  by (simp_all add: memdisk_ops_def)

lemma memdisk_content_length:
  "memdisk_inv d \<Longrightarrow> length (memdisk_content d) = memdisk_nblocks d * BLOCK_SIZE"
  unfolding memdisk_content_def memdisk_nblocks_def diff_mult_distrib
  by (simp add: memdisk_inv_def diff_le_mono min.absorb2)

interpretation md: block_set memdisk_ops memdisk_inv memdisk_content
proof (unfold_locales, goal_cases)
  case (1 s)
  then show ?case by (simp add: memdisk_content_length)
next
  case (2 s n pos)
  then show ?case by (simp add: memdisk_read_in_range)
next
  case (3 s buf pos)
  then show ?case
    using memdisk_write_in_range [of s buf pos] by (auto simp: memdisk_nblocks_def)
qed

text \<open>A handle on the whole disk (not on a subset) also refuses what lies beyond it.\<close>

definition memdisk_whole :: "memdisk \<Rightarrow> bool" where
  "memdisk_whole d \<longleftrightarrow> memdisk_inv d \<and> md_start d = 0"

interpretation mdw: bounded_block_set memdisk_ops memdisk_whole memdisk_content
proof (unfold_locales, goal_cases)
  case (1 s)
  then show ?case by (simp add: memdisk_content_length memdisk_whole_def)
next
  case (2 s n pos)
  then show ?case by (simp add: memdisk_read_in_range memdisk_whole_def)
next
  case (3 s buf pos)
  then show ?case
    using memdisk_write_in_range [of s buf pos]
    by (auto simp: memdisk_nblocks_def memdisk_whole_def)
next
  case (4 s pos n)
  then show ?case by (simp add: memdisk_whole_def memdisk_read_def memdisk_nblocks_def)
next
  case (5 s pos buf)
  then show ?case by (simp add: memdisk_whole_def memdisk_write_def memdisk_nblocks_def)
qed

lemma memdisk_create_inv:
  "page_alloc_ok pg \<Longrightarrow> memdisk_create pg n = Inr d \<Longrightarrow> memdisk_whole d \<and> memdisk_nblocks d = n"
  using buf_alloc_Ok(2) [of pg n]
  by (auto simp: memdisk_create_def res_simps memdisk_whole_def memdisk_inv_def memdisk_nblocks_def)

lemma memdisk_subset_inv:
  assumes "memdisk_inv d" "memdisk_subset d a b = Inr d'" "a \<le> b"
  shows "memdisk_inv d'" "memdisk_nblocks d' = b - a" "md_disk d' = md_disk d"
    "md_start d' = md_start d + a" "md_end d' = md_start d + b"
proof -
  have "md_start d + b \<le> md_end d" and d': "d' = d\<lparr>md_start := md_start d + a, md_end := md_start d + b\<rparr>"
    using assms(2) by (auto simp: memdisk_subset_def split: if_splits)
  then have "(md_start d + b) * BLOCK_SIZE \<le> length (md_disk d)"
    using assms(1) order.trans [OF mult_le_mono1 [of "md_start d + b" "md_end d" BLOCK_SIZE]]
    by (simp add: memdisk_inv_def)
  then show "memdisk_inv d'" "memdisk_nblocks d' = b - a" "md_disk d' = md_disk d"
      "md_start d' = md_start d + a" "md_end d' = md_start d + b"
    using assms(3) by (simp_all add: d' memdisk_inv_def memdisk_nblocks_def)
qed

section \<open>Properties\<close>

text \<open>C19: A write through a handle on a region of a \<open>MemDisk\<close> that stays inside the region succeeds;
  reading the blocks back returns the buffer written, every other read inside the region is
  unchanged, and the region is still well-formed.\<close>

theorem memdisk_write_read:
  assumes "memdisk_inv d" "buf_ok buf" "pos + buf_nblocks buf \<le> memdisk_nblocks d"
  shows "\<exists>d'. memdisk_write d pos buf = Ok d' \<and> memdisk_inv d' \<and>
    memdisk_read d' pos (buf_nblocks buf) = Ok buf \<and>
    (\<forall>p n. 0 < n \<and> p + n \<le> memdisk_nblocks d \<and> (p + n \<le> pos \<or> pos + buf_nblocks buf \<le> p) \<longrightarrow>
      memdisk_read d' p n = memdisk_read d p n)"
proof -
  obtain d' where d': "memdisk_write d pos buf = Ok d'" "memdisk_inv d'"
    using memdisk_write_in_range [OF assms] by blast
  then show ?thesis
    using md.read_after_write [OF assms(1,2)] md.read_other_after_write [OF assms(1,2)] assms(3)
    by auto
qed

theorem memdisk_write_read_witness:
  "\<exists>d'. memdisk_write \<lparr>md_disk = replicate (4 * BLOCK_SIZE) 0, md_start = 1, md_end = 3\<rparr> 1
      (replicate BLOCK_SIZE 7) = Ok d' \<and>
    memdisk_read d' 1 1 = Ok (replicate BLOCK_SIZE 7)"
proof -
  let ?d = "\<lparr>md_disk = replicate (4 * BLOCK_SIZE) 0, md_start = 1, md_end = 3\<rparr> :: memdisk"
  have "memdisk_inv ?d" "memdisk_nblocks ?d = 2"
    by (simp_all add: memdisk_inv_def memdisk_nblocks_def)
  moreover have "buf_ok (replicate BLOCK_SIZE 7)" "buf_nblocks (replicate BLOCK_SIZE 7) = 1"
    by (simp_all add: buf_ok_def buf_nblocks_def)
  ultimately show ?thesis
    using memdisk_write_read [of ?d "replicate BLOCK_SIZE 7" 1] by auto
qed



text \<open>C21: A byte range written with \<open>write_slice\<close> is returned by \<open>read_slice\<close>, wherever the range
  starts and ends (a range that ends inside a block must not end in the last one), and the
  bytes before it are kept.\<close>

theorem memdisk_slice_roundtrip:
  assumes "memdisk_inv d" "page_alloc_ok pg" "\<And>n. 0 < n \<Longrightarrow> pg n \<noteq> None"
    and "buf \<noteq> []" "offset + length buf \<le> memdisk_nblocks d * BLOCK_SIZE"
    and "(offset + length buf) mod BLOCK_SIZE \<noteq> 0 \<Longrightarrow>
      (offset + length buf) div BLOCK_SIZE + 1 < memdisk_nblocks d"
  shows "\<exists>d'. write_slice pg memdisk_ops d offset buf = Ok d' \<and> memdisk_inv d' \<and>
    read_slice pg memdisk_ops d' offset (length buf) = Ok buf \<and>
    take offset (memdisk_content d') = take offset (memdisk_content d)"
proof -
  let ?x = "buf @ slice_tail (memdisk_content d) (offset + length buf)"
  obtain d' where d': "write_slice pg memdisk_ops d offset buf = Ok d'" "memdisk_inv d'"
      "memdisk_nblocks d' = memdisk_nblocks d"
      "memdisk_content d' = overwrite (memdisk_content d) offset ?x"
    using md.write_slice_correct [OF assms(1-4), of offset] assms(5,6) by auto
  have "read_slice pg memdisk_ops d' offset (length buf)
      = Ok (take (length buf) (drop offset (memdisk_content d')))"
    using md.read_slice_correct [OF d'(2) assms(2,3)] assms(4,5) d'(3) by simp
  moreover have "offset \<le> length (memdisk_content d)"
    using memdisk_content_length [OF assms(1)] assms(5) by simp
  ultimately show ?thesis
    using d' by (auto simp: overwrite_def)
qed

theorem memdisk_slice_roundtrip_witness:
  "\<exists>d'. write_slice (\<lambda>n. Some (replicate (n * BLOCK_SIZE) 0)) memdisk_ops
      \<lparr>md_disk = replicate (3 * BLOCK_SIZE) 1, md_start = 0, md_end = 3\<rparr> 10 [2, 3, 4] = Ok d' \<and>
    read_slice (\<lambda>n. Some (replicate (n * BLOCK_SIZE) 0)) memdisk_ops d' 10 3 = Ok [2, 3, 4]"
  using memdisk_slice_roundtrip
    [of "\<lparr>md_disk = replicate (3 * BLOCK_SIZE) 1, md_start = 0, md_end = 3\<rparr>"
        "\<lambda>n. Some (replicate (n * BLOCK_SIZE) 0)" "[2, 3, 4]" 10]
  by (auto simp: memdisk_inv_def memdisk_nblocks_def page_alloc_ok_def BLOCK_SIZE_def numeral_3_eq_3)

text \<open>C32: When the bytes written with \<open>write_slice\<close> end inside a block, the byte behind them is lost:
  it is replaced by the byte one block further on, because the code completes the last block
  from the block at \<open>end_pos\<close>, which is the one after it. When that block does not exist, the
  write is refused although it lies inside the disk.\<close>

theorem memdisk_write_slice_tail:
  assumes "memdisk_whole d" "page_alloc_ok pg" "\<And>n. 0 < n \<Longrightarrow> pg n \<noteq> None"
    and "buf \<noteq> []" "e = offset + length buf" "e \<le> memdisk_nblocks d * BLOCK_SIZE"
    and "e mod BLOCK_SIZE \<noteq> 0"
  shows "if e div BLOCK_SIZE + 1 < memdisk_nblocks d
    then \<exists>d'. write_slice pg memdisk_ops d offset buf = Ok d' \<and>
      memdisk_content d' ! e = memdisk_content d ! (e + BLOCK_SIZE)
    else write_slice pg memdisk_ops d offset buf = Fail InvalidArgs"
proof (cases "e div BLOCK_SIZE + 1 < memdisk_nblocks d")
  case True
  have inv: "memdisk_inv d" using assms(1) by (simp add: memdisk_whole_def)
  let ?c = "memdisk_content d"
  let ?t = "slice_tail ?c e"
  have t: "length ?t = BLOCK_SIZE - e mod BLOCK_SIZE"
    using md.length_slice_tail [OF inv, of e] True assms(7) by simp
  then have "0 < length ?t" by simp
  then have t0: "?t ! 0 = ?c ! (e + BLOCK_SIZE)"
    using assms(7) by (auto simp: slice_tail_def)
  obtain d' where d': "write_slice pg memdisk_ops d offset buf = Ok d'"
      "memdisk_content d' = overwrite ?c offset (buf @ ?t)"
    using md.write_slice_correct [OF inv assms(2-4), of offset] assms(5,6) True by auto
  have "offset \<le> length ?c"
    using memdisk_content_length [OF inv] assms(5,6) by simp
  then have "memdisk_content d' ! e = ?t ! 0"
    using d'(2) \<open>0 < length ?t\<close> assms(5) by (auto simp: overwrite_def nth_append min_def)
  then show ?thesis using True d'(1) t0 by simp
next
  case False
  have "e div BLOCK_SIZE < memdisk_nblocks d"
    using assms(6,7) by (metis div_le_mono div_mult_self_is_m BLOCK_SIZE_pos(1) le_neq_implies_less
        le_antisym mod_mult_self2_is_0 div_times_less_eq_dividend)
  then have "e div BLOCK_SIZE + 1 = memdisk_nblocks d" using False by simp
  then show ?thesis
    using False mdw.write_slice_last_block_fails [OF assms(1-4), of offset] assms(5-7) by simp
qed

theorem memdisk_write_slice_tail_witness:
  "\<exists>d'. write_slice (\<lambda>n. Some (replicate (n * BLOCK_SIZE) 0)) memdisk_ops
      \<lparr>md_disk = replicate BLOCK_SIZE 1 @ replicate BLOCK_SIZE 2, md_start = 0, md_end = 2\<rparr>
      0 [9] = Ok d' \<and> memdisk_content d' ! 1 = 2"
proof -
  let ?d = "\<lparr>md_disk = replicate BLOCK_SIZE 1 @ replicate BLOCK_SIZE 2, md_start = 0, md_end = 2\<rparr> :: memdisk"
  have "memdisk_content ?d ! (1 + BLOCK_SIZE) = 2"
    by (simp add: memdisk_content_def memdisk_nblocks_def nth_append BLOCK_SIZE_def)
  then show ?thesis
    using memdisk_write_slice_tail [of ?d "\<lambda>n. Some (replicate (n * BLOCK_SIZE) 0)" "[9]" 1 0]
    by (auto simp: memdisk_whole_def memdisk_inv_def memdisk_nblocks_def page_alloc_ok_def
        BLOCK_SIZE_def)
qed

end
