(* ===== verification/Block_Log.thy ===== *)
theory Block_Log
  imports Block_Set
begin

text \<open>
  Append-only block storage (\<open>core/src/layers/0-bio/block_log.rs\<close> and \<open>block_ring.rs\<close>).

  The trait \<open>BlockLog\<close> is the dictionary \<open>block_log_ops\<close>. \<open>MemLog\<close> is a log in a fixed buffer;
  \<open>BlockRing\<close> makes an endless log out of any block set by taking positions modulo its size. The
  locale \<open>block_log\<close> is the contract of the trait; \<open>MemLog\<close> meets it as long as there is room.
  The ring keeps a weaker promise, the window of the last \<open>nblocks\<close> blocks, stated over the
  contract of the block set below it.
\<close>

record 's block_log_ops =
  bl_read :: "'s \<Rightarrow> block_id \<Rightarrow> nat \<Rightarrow> bytes res"
  bl_append :: "'s \<Rightarrow> bytes \<Rightarrow> (block_id \<times> 's) res"
  bl_flush :: "'s \<Rightarrow> 's res"
  bl_nblocks :: "'s \<Rightarrow> nat"

section \<open>MemLog\<close>

record memlog =
  ml_log :: bytes
  ml_append_pos :: nat

definition memlog_create :: "page_alloc \<Rightarrow> nat \<Rightarrow> memlog res" where
  "memlog_create pg num_blocks =
    rbind (buf_alloc pg num_blocks) (\<lambda>log. Ok \<lparr>ml_log = log, ml_append_pos = 0\<rparr>)"

definition memlog_offset :: "block_id \<Rightarrow> nat" where
  "memlog_offset pos = pos * BLOCK_SIZE"

definition memlog_nblocks :: "memlog \<Rightarrow> nat" where
  "memlog_nblocks l = ml_append_pos l"

definition memlog_read :: "memlog \<Rightarrow> block_id \<Rightarrow> nat \<Rightarrow> bytes res" where
  "memlog_read l pos nblocks =
    (if memlog_nblocks l < pos + nblocks then Fail InvalidArgs
     else slice_range (ml_log l) (memlog_offset pos) (memlog_offset pos + nblocks * BLOCK_SIZE))"

definition memlog_append :: "memlog \<Rightarrow> bytes \<Rightarrow> (block_id \<times> memlog) res" where
  "memlog_append l buf =
    (let nblocks = buf_nblocks buf; pos = ml_append_pos l in
     if buf_nblocks (ml_log l) < pos + nblocks then Fail InvalidArgs
     else rbind (copy_range (ml_log l) (memlog_offset pos) (memlog_offset pos + nblocks * BLOCK_SIZE) buf)
       (\<lambda>log. Ok (pos, l\<lparr>ml_log := log, ml_append_pos := pos + nblocks\<rparr>)))"

definition memlog_flush :: "memlog \<Rightarrow> memlog res" where
  "memlog_flush l = Ok l"

definition memlog_ops :: "memlog block_log_ops" where
  "memlog_ops = \<lparr>bl_read = memlog_read, bl_append = memlog_append, bl_flush = memlog_flush,
    bl_nblocks = memlog_nblocks\<rparr>"

section \<open>BlockRing\<close>

record 's block_ring =
  ring_storage :: 's
  ring_cursor :: "block_id option"

definition ring_new :: "'s \<Rightarrow> 's block_ring" where
  "ring_new storage = \<lparr>ring_storage = storage, ring_cursor = None\<rparr>"

definition ring_set_cursor :: "'s block_ring \<Rightarrow> block_id \<Rightarrow> 's block_ring" where
  "ring_set_cursor r new_cursor = r\<lparr>ring_cursor := Some new_cursor\<rparr>"

definition ring_read :: "'s block_set_ops \<Rightarrow> 's block_ring \<Rightarrow> block_id \<Rightarrow> nat \<Rightarrow> bytes res" where
  "ring_read S r pos nblocks =
    (if bs_nblocks S (ring_storage r) = 0 then Panics
     else bs_read S (ring_storage r) (pos mod bs_nblocks S (ring_storage r)) nblocks)"

definition ring_append :: "'s block_set_ops \<Rightarrow> 's block_ring \<Rightarrow> bytes \<Rightarrow> (block_id \<times> 's block_ring) res" where
  "ring_append S r buf =
    rbind (res_unwrap (ring_cursor r)) (\<lambda>cursor.
      if bs_nblocks S (ring_storage r) = 0 then Panics
      else let pos = cursor mod bs_nblocks S (ring_storage r); new_cursor = cursor + buf_nblocks buf in
        rbind (bs_write S (ring_storage r) pos buf) (\<lambda>storage.
          Ok (cursor, ring_set_cursor (r\<lparr>ring_storage := storage\<rparr>) new_cursor)))"

definition ring_flush :: "'s block_set_ops \<Rightarrow> 's block_ring \<Rightarrow> 's block_ring res" where
  "ring_flush S r = rbind (bs_flush S (ring_storage r)) (\<lambda>storage. Ok (r\<lparr>ring_storage := storage\<rparr>))"

definition ring_nblocks :: "'s block_ring \<Rightarrow> nat" where
  "ring_nblocks r = (case ring_cursor r of None \<Rightarrow> 0 | Some c \<Rightarrow> c)"

definition ring_ops :: "'s block_set_ops \<Rightarrow> 's block_ring block_log_ops" where
  "ring_ops S = \<lparr>bl_read = ring_read S, bl_append = ring_append S, bl_flush = ring_flush S,
    bl_nblocks = ring_nblocks\<rparr>"

section \<open>The contract of a log\<close>

text \<open>
  \<open>room s n\<close> says that the log can take \<open>n\<close> more blocks.
\<close>

locale block_log =
  fixes L :: "'s block_log_ops"
    and inv :: "'s \<Rightarrow> bool"
    and content :: "'s \<Rightarrow> bytes"
    and room :: "'s \<Rightarrow> nat \<Rightarrow> bool"
  assumes log_length: "inv s \<Longrightarrow> length (content s) = bl_nblocks L s * BLOCK_SIZE"
    and log_read: "inv s \<Longrightarrow> 0 < n \<Longrightarrow> pos + n \<le> bl_nblocks L s \<Longrightarrow>
      bl_read L s pos n = Ok (take (n * BLOCK_SIZE) (drop (pos * BLOCK_SIZE) (content s)))"
    and log_append: "inv s \<Longrightarrow> buf_ok buf \<Longrightarrow> room s (buf_nblocks buf) \<Longrightarrow>
      \<exists>s'. bl_append L s buf = Ok (bl_nblocks L s, s') \<and> inv s' \<and> content s' = content s @ buf"
begin

lemma append_nblocks:
  assumes "inv s" "buf_ok buf" "room s (buf_nblocks buf)" "bl_append L s buf = Ok (pos, s')"
  shows "inv s'" "pos = bl_nblocks L s" "bl_nblocks L s' = bl_nblocks L s + buf_nblocks buf"
    "content s' = content s @ buf"
proof -
  show *: "inv s'" "pos = bl_nblocks L s" "content s' = content s @ buf"
    using log_append [OF assms(1-3)] assms(4) by auto
  have "bl_nblocks L s' * BLOCK_SIZE = (bl_nblocks L s + buf_nblocks buf) * BLOCK_SIZE"
    using log_length [OF *(1)] log_length [OF assms(1)] *(3) buf_ok_length [OF assms(2)]
    by (simp add: add_mult_distrib)
  then show "bl_nblocks L s' = bl_nblocks L s + buf_nblocks buf"
    by (simp only: mult_cancel2) simp
qed

text \<open>The block identifier an append returns reads back the appended blocks.\<close>

lemma read_appended:
  assumes "inv s" "buf_ok buf" "room s (buf_nblocks buf)" "bl_append L s buf = Ok (pos, s')"
  shows "bl_read L s' pos (buf_nblocks buf) = Ok buf"
proof -
  note a = append_nblocks [OF assms]
  have "bl_nblocks L s * BLOCK_SIZE = length (content s)" "buf_nblocks buf * BLOCK_SIZE = length buf"
    using log_length [OF assms(1)] buf_ok_length [OF assms(2)] by simp_all
  then show ?thesis
    using log_read [OF a(1) buf_ok_nblocks_pos [OF assms(2)], of pos] a by simp
qed

text \<open>Appending never changes what is already in the log.\<close>

lemma read_old_after_append:
  assumes "inv s" "buf_ok buf" "room s (buf_nblocks buf)" "bl_append L s buf = Ok (pos, s')"
    and "0 < n" "p + n \<le> bl_nblocks L s"
  shows "bl_read L s' p n = bl_read L s p n"
proof -
  note a = append_nblocks [OF assms(1-4)]
  have "(p + n) * BLOCK_SIZE \<le> length (content s)"
    unfolding log_length [OF assms(1)] using assms(6) by (rule mult_le_mono1)
  then show ?thesis
    using log_read [OF a(1) assms(5), of p] log_read [OF assms(1,5,6)] a(3,4) assms(6)
    by (simp add: add_mult_distrib)
qed

end

lemma memlog_ops_simps [simp]:
  "bl_read memlog_ops = memlog_read" "bl_append memlog_ops = memlog_append"
  "bl_flush memlog_ops = memlog_flush" "bl_nblocks memlog_ops = memlog_nblocks"
  by (simp_all add: memlog_ops_def)

definition memlog_inv :: "memlog \<Rightarrow> bool" where
  "memlog_inv l \<longleftrightarrow> buf_ok (ml_log l) \<and> ml_append_pos l \<le> buf_nblocks (ml_log l)"

definition memlog_content :: "memlog \<Rightarrow> bytes" where
  "memlog_content l = take (ml_append_pos l * BLOCK_SIZE) (ml_log l)"

definition memlog_room :: "memlog \<Rightarrow> nat \<Rightarrow> bool" where
  "memlog_room l n \<longleftrightarrow> ml_append_pos l + n \<le> buf_nblocks (ml_log l)"

lemma memlog_fits:
  assumes "buf_ok (ml_log l)" "n \<le> buf_nblocks (ml_log l)"
  shows "n * BLOCK_SIZE \<le> length (ml_log l)"
  unfolding buf_ok_length [OF assms(1)] using assms(2) by (rule mult_le_mono1)

interpretation ml: block_log memlog_ops memlog_inv memlog_content memlog_room
proof (unfold_locales, goal_cases)
  case (1 s)
  then show ?case
    using memlog_fits [of s "ml_append_pos s"]
    by (simp add: memlog_inv_def memlog_content_def memlog_nblocks_def)
next
  case (2 s n pos)
  then have "(pos + n) * BLOCK_SIZE \<le> length (ml_log s)" "(pos + n) * BLOCK_SIZE \<le> ml_append_pos s * BLOCK_SIZE"
    using memlog_fits [of s "pos + n"] by (simp_all add: memlog_inv_def memlog_nblocks_def del: mult_le_cancel2)
  then show ?case
    using 2 by (simp add: memlog_read_def memlog_offset_def slice_range_def memlog_content_def
        memlog_nblocks_def drop_take min_def add_mult_distrib)
next
  case (3 s buf)
  let ?k = "ml_append_pos s * BLOCK_SIZE"
  have fit: "?k + length buf \<le> length (ml_log s)"
    using 3 memlog_fits [of s "ml_append_pos s + buf_nblocks buf"] buf_ok_length [of buf]
    by (simp add: memlog_inv_def memlog_room_def add_mult_distrib)
  let ?s' = "s\<lparr>ml_log := overwrite (ml_log s) ?k buf, ml_append_pos := ml_append_pos s + buf_nblocks buf\<rparr>"
  have "memlog_append s buf = Ok (memlog_nblocks s, ?s')"
    using 3 fit buf_ok_length [of buf]
    by (simp add: memlog_append_def memlog_room_def memlog_offset_def copy_range_def Let_def
        memlog_nblocks_def)
  moreover have "memlog_inv ?s'"
    using 3 fit length_overwrite [OF fit]
    by (simp add: memlog_inv_def memlog_room_def buf_ok_def buf_nblocks_def flip: length_greater_0_conv)
  moreover have "memlog_content ?s' = memlog_content s @ buf"
    using fit buf_ok_length [OF 3(2)]
    by (simp add: memlog_content_def overwrite_def add_mult_distrib min.absorb2)
  ultimately show ?case by simp
qed

text \<open>A client that appends several times counts the room it still has.\<close>

locale roomy_log = block_log +
  assumes room_less: "room s (a + b) \<Longrightarrow> room s a"
    and room_append: "inv s \<Longrightarrow> buf_ok buf \<Longrightarrow> room s (buf_nblocks buf + n) \<Longrightarrow> bl_append L s buf = Ok (pos, s') \<Longrightarrow> room s' n"
begin

lemma append_room:
  assumes "inv s" "buf_ok buf" "room s (buf_nblocks buf + n)"
  shows "\<exists>s'. bl_append L s buf = Ok (bl_nblocks L s, s') \<and> inv s' \<and> content s' = content s @ buf \<and> room s' n"
  using log_append [OF assms(1,2) room_less [OF assms(3)]] room_append [OF assms] by blast

end

interpretation mlr: roomy_log memlog_ops memlog_inv memlog_content memlog_room
proof (unfold_locales, goal_cases)
  case (1 s a b)
  then show ?case by (simp add: memlog_room_def)
next
  case (2 s buf n pos s')
  then have "ml_append_pos s * BLOCK_SIZE + length buf \<le> length (ml_log s)"
    using memlog_fits [of s "ml_append_pos s + buf_nblocks buf"] buf_ok_length [of buf]
    by (simp add: memlog_inv_def memlog_room_def add_mult_distrib)
  then have "buf_nblocks (ml_log s') = buf_nblocks (ml_log s)" "ml_append_pos s' = ml_append_pos s + buf_nblocks buf"
    using 2(4) by (auto simp: memlog_append_def memlog_offset_def Let_def res_simps buf_nblocks_def length_overwrite split: if_splits)
  then show ?case using 2(3) by (simp add: memlog_room_def)
qed

section \<open>The ring over a block set\<close>

text \<open>The blocks a ring of \<open>n\<close> slots has at the positions \<open>pos ..< pos + k\<close> are in slots of their own.\<close>

lemma ring_slots_distinct:
  fixes n p c k :: nat
  assumes "0 < n" "p < c" "c \<le> p + n - k" "k \<le> n" "0 < k" "c mod n + k \<le> n"
  shows "p mod n + 1 \<le> c mod n \<or> c mod n + k \<le> p mod n"
proof (rule ccontr)
  assume "\<not> ?thesis"
  then have "\<not> p mod n + 1 \<le> c mod n" "\<not> c mod n + k \<le> p mod n"
    by blast+
  then have *: "c mod n \<le> p mod n" "p mod n < c mod n + k"
    by linarith+
  define j where "j = p mod n - c mod n"
  have j: "j < k" using * j_def by simp
  have "(c + j) mod n = p mod n"
    using *(1) unfolding j_def by (metis mod_add_left_eq le_add_diff_inverse mod_mod_trivial)
  moreover have "p < c + j" "c + j < p + n"
    using assms j by auto
  ultimately have "n dvd (c + j - p)"
    by (metis less_imp_le_nat mod_eq_dvd_iff_nat)
  moreover have "0 < c + j - p" "c + j - p < n"
    using \<open>p < c + j\<close> \<open>c + j < p + n\<close> by auto
  ultimately show False
    by (simp add: nat_dvd_not_less)
qed

definition ring_room :: "'s block_set_ops \<Rightarrow> 's block_ring \<Rightarrow> nat \<Rightarrow> bool" where
  "ring_room S r k \<longleftrightarrow> (\<exists>c. ring_cursor r = Some c \<and> 0 < k \<and> 
     c mod bs_nblocks S (ring_storage r) + k \<le> bs_nblocks S (ring_storage r))"

context block_set
begin

text \<open>
  Appending where the blocks do not run over the end of the storage returns the cursor, moves
  it behind the new blocks, and keeps the last \<open>nblocks - k\<close> older positions readable.
\<close>

lemma ring_append_correct:
  assumes "inv (ring_storage r)" "buf_ok buf" "ring_room S r (buf_nblocks buf)"
    and N: "N = bs_nblocks S (ring_storage r)"
  shows "\<exists>c r'. ring_cursor r = Some c \<and> ring_append S r buf = Ok (c, r') \<and> inv (ring_storage r') \<and>
    ring_cursor r' = Some (c + buf_nblocks buf) \<and> bs_nblocks S (ring_storage r') = N \<and>
    ring_read S r' c (buf_nblocks buf) = Ok buf \<and>
    (\<forall>p. p < c \<and> c + buf_nblocks buf \<le> p + N \<longrightarrow> ring_read S r' p 1 = ring_read S r p 1)"
proof -
  let ?k = "buf_nblocks buf" and ?s = "ring_storage r"
  obtain c where c: "ring_cursor r = Some c" "0 < ?k" "c mod N + ?k \<le> N"
    using assms(3) N by (auto simp: ring_room_def)
  obtain s' where s': "bs_write S ?s (c mod N) buf = Ok s'" "inv s'" "bs_nblocks S s' = N"
    using write_in_range [OF assms(1,2), of "c mod N"] c(3) N by auto
  have N0: "N \<noteq> 0" using c(2,3) by auto
  let ?r' = "ring_set_cursor (r\<lparr>ring_storage := s'\<rparr>) (c + ?k)"
  have app: "ring_append S r buf = Ok (c, ?r')"
    using c(1) s'(1) N N0 by (simp add: ring_append_def Let_def)
  have rd: "ring_read S ?r' c ?k = Ok buf"
    using read_after_write [OF assms(1,2) _ s'(1)] c(3) s'(3) N N0
    by (simp add: ring_read_def ring_set_cursor_def)
  have old: "ring_read S ?r' p 1 = ring_read S r p 1" if "p < c" "c + ?k \<le> p + N" for p
  proof -
    have "p mod N + 1 \<le> c mod N \<or> c mod N + ?k \<le> p mod N"
      using that c(2,3) N0 by (intro ring_slots_distinct) auto
    moreover have "p mod N + 1 \<le> N"
      using N0 by (simp add: Suc_leI)
    ultimately show ?thesis
      using read_other_after_write [OF assms(1,2) _ s'(1), of 1 "p mod N"] c(3) s'(3) N N0
      by (simp add: ring_read_def ring_set_cursor_def)
  qed
  show ?thesis
    using c(1) app s'(2,3) rd old by (auto simp: ring_set_cursor_def)
qed

end

section \<open>A weaker contract: single blocks in a window\<close>

text \<open>
  What a client needs that appends and reads one block at a time and does not look back further than
  the log does: \<open>blk s pos\<close> is the block at a position, \<open>can s\<close> says that there is room for one more
  and \<open>keeps s pos\<close> that appending it leaves the position as it is.
\<close>

locale window_log =
  fixes L :: "'s block_log_ops"
    and inv :: "'s \<Rightarrow> bool"
    and blk :: "'s \<Rightarrow> block_id \<Rightarrow> bytes"
    and can :: "'s \<Rightarrow> bool"
    and keeps :: "'s \<Rightarrow> block_id \<Rightarrow> bool"
  assumes win_read: "inv s \<Longrightarrow> pos < bl_nblocks L s \<Longrightarrow> bl_read L s pos 1 = Ok (blk s pos)"
    and win_append: "inv s \<Longrightarrow> length b = BLOCK_SIZE \<Longrightarrow> can s \<Longrightarrow>
      \<exists>s'. bl_append L s b = Ok (bl_nblocks L s, s') \<and> inv s' \<and> bl_nblocks L s' = bl_nblocks L s + 1 \<and>
        blk s' (bl_nblocks L s) = b \<and> (\<forall>pos < bl_nblocks L s. keeps s pos \<longrightarrow> blk s' pos = blk s pos)"

text \<open>A block log keeps all its blocks.\<close>

sublocale block_log \<subseteq> win: window_log L inv "\<lambda>s. block_at (content s)" "\<lambda>s. room s 1" "\<lambda>_ _. True"
proof (unfold_locales, goal_cases)
  case (1 s pos)
  then show ?case using log_read [of s 1 pos] by (simp add: block_at_def)
next
  case (2 s b)
  have b: "buf_ok b" "buf_nblocks b = 1" using 2(2) by (simp_all add: buf_ok_def buf_nblocks_def flip: length_greater_0_conv)
  then obtain s' where s': "bl_append L s b = Ok (bl_nblocks L s, s')"
    using log_append [OF 2(1) b(1)] 2(3) by auto
  moreover have "room s (buf_nblocks b)" using 2(3) b(2) by simp
  note a = append_nblocks [OF 2(1) b(1) this s']
  moreover have len: "length (content s) = bl_nblocks L s * BLOCK_SIZE" using log_length [OF 2(1)] .
  ultimately show ?case
    using block_at_snoc [OF len 2(2)] b(2) by simp
qed

text \<open>A ring of \<open>N\<close> blocks keeps the last \<open>N - 1\<close> when one is appended, and always has room for it.\<close>

definition ring_inv :: "'s block_set_ops \<Rightarrow> ('s \<Rightarrow> bool) \<Rightarrow> nat \<Rightarrow> 's block_ring \<Rightarrow> bool" where
  "ring_inv S dinv N r \<longleftrightarrow> dinv (ring_storage r) \<and> bs_nblocks S (ring_storage r) = N \<and> 0 < N \<and> ring_cursor r \<noteq> None"

definition ring_blk :: "'s block_set_ops \<Rightarrow> ('s \<Rightarrow> bytes) \<Rightarrow> 's block_ring \<Rightarrow> block_id \<Rightarrow> bytes" where
  "ring_blk S cont r pos = block_at (cont (ring_storage r)) (pos mod bs_nblocks S (ring_storage r))"

definition ring_keeps :: "'s block_set_ops \<Rightarrow> 's block_ring \<Rightarrow> block_id \<Rightarrow> bool" where
  "ring_keeps S r pos \<longleftrightarrow> ring_nblocks r < pos + bs_nblocks S (ring_storage r)"

context block_set
begin

lemma ring_read_blk:
  "inv (ring_storage r) \<Longrightarrow> 0 < bs_nblocks S (ring_storage r) \<Longrightarrow> ring_read S r pos 1 = Ok (ring_blk S content r pos)"
  using read_in_range [of "ring_storage r" 1 "pos mod bs_nblocks S (ring_storage r)"]
  by (simp add: ring_read_def ring_blk_def block_at_def Suc_leI)

lemma ring_window_log: "window_log (ring_ops S) (ring_inv S inv N) (ring_blk S content) (\<lambda>_. True) (ring_keeps S)"
proof (unfold_locales, goal_cases)
  case (1 r pos)
  then show ?case using ring_read_blk [of r pos] by (simp add: ring_ops_def ring_inv_def)
next
  case (2 r b)
  let ?N = "bs_nblocks S (ring_storage r)"
  obtain c where c: "ring_cursor r = Some c" "inv (ring_storage r)" "0 < ?N" using 2(1) by (auto simp: ring_inv_def)
  have b: "buf_ok b" "buf_nblocks b = 1" using 2(2) by (simp_all add: buf_ok_def buf_nblocks_def flip: length_greater_0_conv)
  have "ring_room S r (buf_nblocks b)" using c(1,3) b(2) by (simp add: ring_room_def Suc_leI)
  from ring_append_correct [OF c(2) b(1) this refl] c(1) b(2) obtain r' where
    r': "ring_append S r b = Ok (c, r')" "inv (ring_storage r')" "ring_cursor r' = Some (c + 1)"
      "bs_nblocks S (ring_storage r') = ?N" "ring_read S r' c 1 = Ok b"
      "\<And>p. p < c \<Longrightarrow> c + 1 \<le> p + ?N \<Longrightarrow> ring_read S r' p 1 = ring_read S r p 1"
    by auto
  then have "ring_blk S content r' c = b"
    "\<And>p. p < c \<Longrightarrow> c < p + ?N \<Longrightarrow> ring_blk S content r' p = ring_blk S content r p"
    using ring_read_blk [of r'] ring_read_blk [OF c(2,3)] c(3) by (simp_all add: Suc_leI)
  then show ?case
    using r'(1-4) c(1) 2(1) by (simp add: ring_ops_def ring_inv_def ring_nblocks_def ring_keeps_def)
qed

end

interpretation rg: window_log "ring_ops memdisk_ops" "ring_inv memdisk_ops memdisk_inv N" "ring_blk memdisk_ops memdisk_content"
  "\<lambda>_. True" "ring_keeps memdisk_ops" for N
  by (rule md.ring_window_log)

section \<open>Properties\<close>

text \<open>C22: Appending blocks to a \<open>MemLog\<close> with room for them returns the old length as their position;
  reading there returns them, and every block that was in the log reads as before.\<close>

theorem memlog_append_read:
  assumes "memlog_inv l" "buf_ok buf" "ml_append_pos l + buf_nblocks buf \<le> buf_nblocks (ml_log l)"
  shows "\<exists>l'. memlog_append l buf = Ok (memlog_nblocks l, l') \<and> memlog_inv l' \<and>
    memlog_nblocks l' = memlog_nblocks l + buf_nblocks buf \<and>
    memlog_read l' (memlog_nblocks l) (buf_nblocks buf) = Ok buf \<and>
    (\<forall>p n. 0 < n \<and> p + n \<le> memlog_nblocks l \<longrightarrow> memlog_read l' p n = memlog_read l p n)"
proof -
  have room: "memlog_room l (buf_nblocks buf)"
    using assms(3) by (simp add: memlog_room_def)
  obtain l' where l': "memlog_append l buf = Ok (memlog_nblocks l, l')"
    using ml.log_append [OF assms(1,2) room] by auto
  then show ?thesis
    using ml.append_nblocks [OF assms(1,2) room] ml.read_appended [OF assms(1,2) room]
      ml.read_old_after_append [OF assms(1,2) room]
    by simp
qed

theorem memlog_append_read_witness:
  "\<exists>l'. memlog_append \<lparr>ml_log = replicate (2 * BLOCK_SIZE) 0, ml_append_pos = 1\<rparr> (replicate BLOCK_SIZE 5)
      = Ok (1, l') \<and> memlog_read l' 1 1 = Ok (replicate BLOCK_SIZE 5)"
proof -
  let ?l = "\<lparr>ml_log = replicate (2 * BLOCK_SIZE) 0, ml_append_pos = 1\<rparr> :: memlog"
  have "memlog_inv ?l" "buf_ok (replicate BLOCK_SIZE (5 :: byte))"
    "buf_nblocks (replicate BLOCK_SIZE (5 :: byte)) = 1" "memlog_nblocks ?l = 1"
    "buf_nblocks (ml_log ?l) = 2"
    by (simp_all add: memlog_inv_def buf_ok_def buf_nblocks_def memlog_nblocks_def)
  then show ?thesis
    using memlog_append_read [of ?l "replicate BLOCK_SIZE 5"] by auto
qed

text \<open>C23: A ring over a \<open>MemDisk\<close> behaves as an endless log: an append of \<open>k\<close> blocks that does not run
  over the end of the storage returns the cursor, the blocks read back there, and all the
  positions among the last \<open>nblocks - k\<close> before the cursor read as before.\<close>

theorem ring_append_read:
  assumes "memdisk_inv (ring_storage r)" "buf_ok buf" "ring_cursor r = Some c"
    and "N = memdisk_nblocks (ring_storage r)" "k = buf_nblocks buf" "c mod N + k \<le> N"
  shows "\<exists>r'. ring_append memdisk_ops r buf = Ok (c, r') \<and> memdisk_inv (ring_storage r') \<and>
    ring_nblocks r' = c + k \<and> ring_read memdisk_ops r' c k = Ok buf \<and>
    (\<forall>p. p < c \<and> c + k \<le> p + N \<longrightarrow> ring_read memdisk_ops r' p 1 = ring_read memdisk_ops r p 1)"
proof -
  have "ring_room memdisk_ops r k"
    using assms(2-6) buf_ok_nblocks_pos [OF assms(2)] by (simp add: ring_room_def)
  then show ?thesis
    using md.ring_append_correct [OF assms(1,2), of N] assms(3-5) by (auto simp: ring_nblocks_def)
qed

theorem ring_append_read_witness:
  "\<exists>r'. ring_append memdisk_ops
      \<lparr>ring_storage = \<lparr>md_disk = replicate (3 * BLOCK_SIZE) 0, md_start = 0, md_end = 3\<rparr>,
       ring_cursor = Some 4\<rparr> (replicate BLOCK_SIZE 5) = Ok (4, r') \<and>
    ring_read memdisk_ops r' 4 1 = Ok (replicate BLOCK_SIZE 5)"
proof -
  let ?r = "\<lparr>ring_storage = \<lparr>md_disk = replicate (3 * BLOCK_SIZE) 0, md_start = 0, md_end = 3\<rparr>,
       ring_cursor = Some 4\<rparr> :: memdisk block_ring"
  have "memdisk_inv (ring_storage ?r)" "buf_ok (replicate BLOCK_SIZE (5 :: byte))"
    "buf_nblocks (replicate BLOCK_SIZE (5 :: byte)) = 1" "memdisk_nblocks (ring_storage ?r) = 3"
    by (simp_all add: memdisk_inv_def buf_ok_def buf_nblocks_def memdisk_nblocks_def)
  then show ?thesis
    using ring_append_read [of ?r "replicate BLOCK_SIZE 5" 4 3 1] by auto
qed

end
