(* ===== verification/Bit_Map.thy ===== *)
theory Bit_Map
  imports Mls_Prelude
begin

text \<open>
  The bitmap of the allocators (\<open>core/src/util/bitmap.rs\<close>).

  A \<open>BitMap\<close> is a vector of 64-bit words and a length. The bit operations on words and on word
  slices come from the crate \<open>bittle\<close>, which is a parameter: \<open>bittle\<close> is the record of the
  functions the source calls and the locale \<open>bittle_laws\<close> states what the crate documents of
  them, without fixing the order of the bits in a word. \<open>bitmap_abs\<close> reads a bitmap as a list of
  truth values; every operation is shown to be the evident operation on that list.
\<close>

record bittle =
  bt_wtest :: "64 word \<Rightarrow> nat \<Rightarrow> bool"
  bt_wclear :: "64 word \<Rightarrow> nat \<Rightarrow> 64 word"
  bt_witer_ones :: "64 word \<Rightarrow> nat list"
  bt_test :: "64 word list \<Rightarrow> nat \<Rightarrow> bool"
  bt_set :: "64 word list \<Rightarrow> nat \<Rightarrow> 64 word list"
  bt_clear :: "64 word list \<Rightarrow> nat \<Rightarrow> 64 word list"
  bt_count_ones :: "64 word list \<Rightarrow> nat"
  bt_count_zeros :: "64 word list \<Rightarrow> nat"
  bt_iter_ones :: "64 word list \<Rightarrow> nat list"
  bt_iter_zeros :: "64 word list \<Rightarrow> nat list"

record bitmap =
  bm_bits :: "64 word list"
  bm_nbits :: nat

text \<open>The cast \<open>index as u32\<close> that the crate's index type asks for.\<close>

definition as_u32 :: "nat \<Rightarrow> nat" where
  "as_u32 n = n mod 2 ^ 32"

definition bitmap_repeat :: "bittle \<Rightarrow> bool \<Rightarrow> nat \<Rightarrow> bitmap res" where
  "bitmap_repeat bt value nbits =
    (let vec_len = (nbits + 64 - 1) div 64;
         bits = replicate vec_len (if value then - 1 else 0) in
     rbind (if nbits mod 64 \<noteq> 0
            then rbind (checked_sub vec_len 1) (\<lambda>last_word.
              if last_word < length bits
              then Ok (bits[last_word :=
                fold (\<lambda>index w. bt_wclear bt w index)
                  (filter (\<lambda>index. nbits mod 64 \<le> index) (bt_witer_ones bt (bits ! last_word)))
                  (bits ! last_word)])
              else Panics)
            else Ok bits)
       (\<lambda>bits. Ok \<lparr>bm_bits = bits, bm_nbits = nbits\<rparr>))"

definition bitmap_len :: "bitmap \<Rightarrow> nat" where
  "bitmap_len bm = bm_nbits bm"

definition bitmap_check_index :: "bitmap \<Rightarrow> nat \<Rightarrow> unit res" where
  "bitmap_check_index bm index = (if bitmap_len bm \<le> index then Panics else Ok ())"

definition bitmap_test_bit :: "bittle \<Rightarrow> bitmap \<Rightarrow> nat \<Rightarrow> bool res" where
  "bitmap_test_bit bt bm index =
    rbind (bitmap_check_index bm index) (\<lambda>_. Ok (bt_test bt (bm_bits bm) (as_u32 index)))"

definition bitmap_set_bit :: "bittle \<Rightarrow> bitmap \<Rightarrow> nat \<Rightarrow> bitmap res" where
  "bitmap_set_bit bt bm index =
    rbind (bitmap_check_index bm index) (\<lambda>_. Ok (bm\<lparr>bm_bits := bt_set bt (bm_bits bm) (as_u32 index)\<rparr>))"

definition bitmap_clear_bit :: "bittle \<Rightarrow> bitmap \<Rightarrow> nat \<Rightarrow> bitmap res" where
  "bitmap_clear_bit bt bm index =
    rbind (bitmap_check_index bm index) (\<lambda>_. Ok (bm\<lparr>bm_bits := bt_clear bt (bm_bits bm) (as_u32 index)\<rparr>))"

definition bitmap_set :: "bittle \<Rightarrow> bitmap \<Rightarrow> nat \<Rightarrow> bool \<Rightarrow> bitmap res" where
  "bitmap_set bt bm index value =
    (if value then bitmap_set_bit bt bm index else bitmap_clear_bit bt bm index)"

definition bitmap_not_in_use :: "bitmap \<Rightarrow> nat res" where
  "bitmap_not_in_use bm = checked_sub (length (bm_bits bm) * 64) (bm_nbits bm)"

definition bitmap_count_ones :: "bittle \<Rightarrow> bitmap \<Rightarrow> nat" where
  "bitmap_count_ones bt bm = bt_count_ones bt (bm_bits bm)"

definition bitmap_count_zeros :: "bittle \<Rightarrow> bitmap \<Rightarrow> nat res" where
  "bitmap_count_zeros bt bm =
    rbind (bitmap_not_in_use bm) (\<lambda>unused. checked_sub (bt_count_zeros bt (bm_bits bm)) unused)"

definition bitmap_first_one :: "bittle \<Rightarrow> bitmap \<Rightarrow> nat \<Rightarrow> nat option res" where
  "bitmap_first_one bt bm from =
    rbind (bitmap_check_index bm from) (\<lambda>_.
      let first_u64_index = from div 64 in
      rbind (slice_range (bm_bits bm) first_u64_index (length (bm_bits bm))) (\<lambda>ws.
        Ok (find (\<lambda>index. from \<le> index)
          (map (\<lambda>index. first_u64_index * 64 + index) (bt_iter_ones bt ws)))))"

definition bitmap_first_ones :: "bittle \<Rightarrow> bitmap \<Rightarrow> nat \<Rightarrow> nat \<Rightarrow> nat list option res" where
  "bitmap_first_ones bt bm from count =
    rbind (checked_sub (from + count) 1) (\<lambda>last_index.
    rbind (bitmap_check_index bm last_index) (\<lambda>_.
      let first_u64_index = from div 64 in
      rbind (slice_range (bm_bits bm) first_u64_index (length (bm_bits bm))) (\<lambda>ws.
        let ones = take count (filter (\<lambda>index. from \<le> index)
          (map (\<lambda>index. first_u64_index * 64 + index) (bt_iter_ones bt ws))) in
        Ok (if length ones = count then Some ones else None))))"

definition bitmap_last_one :: "bittle \<Rightarrow> bitmap \<Rightarrow> nat option" where
  "bitmap_last_one bt bm =
    (case rev (bt_iter_ones bt (bm_bits bm)) of [] \<Rightarrow> None | index # _ \<Rightarrow> Some index)"

definition bitmap_first_zero :: "bittle \<Rightarrow> bitmap \<Rightarrow> nat \<Rightarrow> nat option res" where
  "bitmap_first_zero bt bm from =
    rbind (bitmap_check_index bm from) (\<lambda>_.
      let first_u64_index = from div 64 in
      rbind (slice_range (bm_bits bm) first_u64_index (length (bm_bits bm))) (\<lambda>ws.
        Ok (find (\<lambda>index. from \<le> index \<and> index < bitmap_len bm)
          (map (\<lambda>index. first_u64_index * 64 + index) (bt_iter_zeros bt ws)))))"

definition bitmap_first_zeros :: "bittle \<Rightarrow> bitmap \<Rightarrow> nat \<Rightarrow> nat \<Rightarrow> nat list option res" where
  "bitmap_first_zeros bt bm from count =
    rbind (checked_sub (from + count) 1) (\<lambda>last_index.
    rbind (bitmap_check_index bm last_index) (\<lambda>_.
      let first_u64_index = from div 64 in
      rbind (slice_range (bm_bits bm) first_u64_index (length (bm_bits bm))) (\<lambda>ws.
        let zeros = take count (filter (\<lambda>index. from \<le> index \<and> index < bitmap_len bm)
          (map (\<lambda>index. first_u64_index * 64 + index) (bt_iter_zeros bt ws))) in
        Ok (if length zeros = count then Some zeros else None))))"

definition bitmap_last_zero :: "bittle \<Rightarrow> bitmap \<Rightarrow> nat option res" where
  "bitmap_last_zero bt bm =
    rbind (bitmap_not_in_use bm) (\<lambda>unused.
      Ok (case drop unused (rev (bt_iter_zeros bt (bm_bits bm))) of [] \<Rightarrow> None | index # _ \<Rightarrow> Some index))"

section \<open>What the bit crate promises\<close>

text \<open>
  A slice of words holds its bits in the order of the words; the iterators visit the set, or the
  clear, positions in ascending order. Positions are \<open>u32\<close>, so the laws speak of slices of
  fewer than \<open>2 ^ 32\<close> bits.
\<close>

locale bittle_laws =
  fixes bt :: bittle
  assumes wtest_ones: "i < 64 \<Longrightarrow> bt_wtest bt (- 1) i"
    and wtest_zero: "\<not> bt_wtest bt 0 i"
    and wclear: "i < 64 \<Longrightarrow> j < 64 \<Longrightarrow> bt_wtest bt (bt_wclear bt w i) j \<longleftrightarrow> bt_wtest bt w j \<and> j \<noteq> i"
    and witer_ones: "bt_witer_ones bt w = filter (bt_wtest bt w) [0..<64]"
    and test: "64 * length ws < 2 ^ 32 \<Longrightarrow> i < 64 * length ws \<Longrightarrow>
      bt_test bt ws i \<longleftrightarrow> bt_wtest bt (ws ! (i div 64)) (i mod 64)"
    and set: "64 * length ws < 2 ^ 32 \<Longrightarrow> i < 64 * length ws \<Longrightarrow> length (bt_set bt ws i) = length ws \<and>
      (\<forall>j < 64 * length ws. bt_test bt (bt_set bt ws i) j \<longleftrightarrow> j = i \<or> bt_test bt ws j)"
    and clear: "64 * length ws < 2 ^ 32 \<Longrightarrow> i < 64 * length ws \<Longrightarrow> length (bt_clear bt ws i) = length ws \<and>
      (\<forall>j < 64 * length ws. bt_test bt (bt_clear bt ws i) j \<longleftrightarrow> j \<noteq> i \<and> bt_test bt ws j)"
    and iter_ones: "64 * length ws < 2 ^ 32 \<Longrightarrow>
      bt_iter_ones bt ws = filter (bt_test bt ws) [0..<64 * length ws]"
    and iter_zeros: "64 * length ws < 2 ^ 32 \<Longrightarrow>
      bt_iter_zeros bt ws = filter (\<lambda>i. \<not> bt_test bt ws i) [0..<64 * length ws]"
    and count_ones: "64 * length ws < 2 ^ 32 \<Longrightarrow>
      bt_count_ones bt ws = length (filter (bt_test bt ws) [0..<64 * length ws])"
    and count_zeros: "64 * length ws < 2 ^ 32 \<Longrightarrow>
      bt_count_zeros bt ws = length (filter (\<lambda>i. \<not> bt_test bt ws i) [0..<64 * length ws])"

text \<open>A reference implementation, with bit \<open>i\<close> of a word its \<open>i\<close>-th least significant one.\<close>

definition ref_wtest :: "64 word \<Rightarrow> nat \<Rightarrow> bool" where
  "ref_wtest w i \<longleftrightarrow> i < 64 \<and> bit w i"

definition ref_test :: "64 word list \<Rightarrow> nat \<Rightarrow> bool" where
  "ref_test ws i \<longleftrightarrow> ref_wtest (ws ! (i div 64)) (i mod 64)"

definition bittle_ref :: bittle where
  "bittle_ref = \<lparr>
    bt_wtest = ref_wtest,
    bt_wclear = (\<lambda>w i. unset_bit i w),
    bt_witer_ones = (\<lambda>w. filter (ref_wtest w) [0..<64]),
    bt_test = ref_test,
    bt_set = (\<lambda>ws i. ws[i div 64 := set_bit (i mod 64) (ws ! (i div 64))]),
    bt_clear = (\<lambda>ws i. ws[i div 64 := unset_bit (i mod 64) (ws ! (i div 64))]),
    bt_count_ones = (\<lambda>ws. length (filter (ref_test ws) [0..<64 * length ws])),
    bt_count_zeros = (\<lambda>ws. length (filter (\<lambda>i. \<not> ref_test ws i) [0..<64 * length ws])),
    bt_iter_ones = (\<lambda>ws. filter (ref_test ws) [0..<64 * length ws]),
    bt_iter_zeros = (\<lambda>ws. filter (\<lambda>i. \<not> ref_test ws i) [0..<64 * length ws])\<rparr>"

lemma div_mod_64_eq: "i div 64 = j div 64 \<Longrightarrow> i mod 64 = j mod 64 \<Longrightarrow> i = (j :: nat)"
  by (metis div_mult_mod_eq)

interpretation ref: bittle_laws bittle_ref
proof (unfold_locales, goal_cases)
  case (6 ws i)
  then show ?case
    by (auto simp: bittle_ref_def ref_test_def ref_wtest_def nth_list_update bit_set_bit_iff
        less_mult_imp_div_less mult.commute dest: div_mod_64_eq)
next
  case (7 ws i)
  then show ?case
    by (auto simp: bittle_ref_def ref_test_def ref_wtest_def nth_list_update bit_unset_bit_iff
        less_mult_imp_div_less mult.commute dest: div_mod_64_eq)
qed (auto simp: bittle_ref_def ref_wtest_def ref_test_def bit_unset_bit_iff)

section \<open>The bitmap as a list of truth values\<close>

definition bitmap_abs :: "bittle \<Rightarrow> bitmap \<Rightarrow> bool list" where
  "bitmap_abs bt bm = map (bt_test bt (bm_bits bm)) [0..<bm_nbits bm]"

text \<open>There are just enough words, and the bits behind the last one in use are clear.\<close>

definition bitmap_inv :: "bittle \<Rightarrow> bitmap \<Rightarrow> bool" where
  "bitmap_inv bt bm \<longleftrightarrow>
    length (bm_bits bm) = (bm_nbits bm + 63) div 64 \<and> 64 * length (bm_bits bm) < 2 ^ 32 \<and>
    (\<forall>i \<in> set [bm_nbits bm..<64 * length (bm_bits bm)]. \<not> bt_test bt (bm_bits bm) i)"

lemma filter_upt_eqI:
  assumes "\<And>i. (a \<le> i \<and> i < b \<and> P i) = (c \<le> i \<and> i < d \<and> Q i)"
  shows "filter P [a..<b] = filter Q [c..<d]"
proof (rule sorted_distinct_set_unique)
  show "set (filter P [a..<b]) = set (filter Q [c..<d])"
    using assms by auto
qed (simp_all add: sorted_wrt_filter)

lemma find_as_filter: "find P xs = (case filter P xs of [] \<Rightarrow> None | x # _ \<Rightarrow> Some x)"
  by (induction xs) auto

lemma word_count_bounds:
  fixes n :: nat
  shows "n \<le> 64 * ((n + 63) div 64)" "64 * ((n + 63) div 64) < n + 64"
  using ceil_div_bounds [of 64 n] by (simp_all add: ceil_div_def mult.commute)

lemma bitmap_abs_length [simp]: "length (bitmap_abs bt bm) = bm_nbits bm"
  by (simp add: bitmap_abs_def)

lemma bitmap_abs_nth [simp]: "i < bm_nbits bm \<Longrightarrow> bitmap_abs bt bm ! i = bt_test bt (bm_bits bm) i"
  by (simp add: bitmap_abs_def)

lemma bitmap_invD:
  assumes "bitmap_inv bt bm"
  shows "bm_nbits bm \<le> 64 * length (bm_bits bm)" "64 * length (bm_bits bm) < bm_nbits bm + 64"
    "64 * length (bm_bits bm) < 2 ^ 32"
    "\<And>i. bm_nbits bm \<le> i \<Longrightarrow> i < 64 * length (bm_bits bm) \<Longrightarrow> \<not> bt_test bt (bm_bits bm) i"
  using assms word_count_bounds [of "bm_nbits bm"] by (auto simp: bitmap_inv_def)

lemma bitmap_inv_u32:
  assumes "bitmap_inv bt bm" "i < bm_nbits bm"
  shows "as_u32 i = i" "i < 64 * length (bm_bits bm)"
  using bitmap_invD(1,3) [OF assms(1)] assms(2) by (auto simp: as_u32_def)

context bittle_laws
begin

lemma test_drop:
  assumes "64 * length ws < 2 ^ 32" "k * 64 + i < 64 * length ws"
  shows "bt_test bt (drop k ws) i = bt_test bt ws (k * 64 + i)"
proof -
  have "64 * length (drop k ws) < 2 ^ 32" "i < 64 * length (drop k ws)"
    using assms by auto
  then show ?thesis
    using test [of "drop k ws" i] test [OF assms] by simp
qed

lemma shifted_filter:
  assumes "64 * length ws < 2 ^ 32" "k \<le> length ws"
  shows "map (\<lambda>i. k * 64 + i) (filter (\<lambda>i. bt_test bt (drop k ws) i = b) [0..<64 * length (drop k ws)])
    = filter (\<lambda>i. bt_test bt ws i = b) [64 * k..<64 * length ws]"
proof -
  let ?n = "64 * length (drop k ws)"
  have "map (\<lambda>i. k * 64 + i) (filter (\<lambda>i. bt_test bt (drop k ws) i = b) [0..<?n])
      = map (\<lambda>i. k * 64 + i) (filter (\<lambda>i. bt_test bt ws (k * 64 + i) = b) [0..<?n])"
    using assms by (intro arg_cong [where f = "map _"] filter_cong) (auto simp: test_drop)
  also have "\<dots> = filter (\<lambda>i. bt_test bt ws i = b) (map (\<lambda>i. k * 64 + i) [0..<?n])"
    by (simp add: filter_map comp_def)
  also have "map (\<lambda>i. k * 64 + i) [0..<?n] = [64 * k..<64 * length ws]"
    using assms(2) map_add_upt [of "64 * k" ?n] by (simp add: algebra_simps)
  finally show ?thesis .
qed

lemma bitmap_scan:
  assumes "bitmap_inv bt bm" "from < bm_nbits bm"
  shows "filter (\<lambda>i. from \<le> i \<and> i < bm_nbits bm)
      (map (\<lambda>i. from div 64 * 64 + i) (bt_iter_zeros bt (drop (from div 64) (bm_bits bm))))
    = filter (\<lambda>i. from \<le> i \<and> \<not> bitmap_abs bt bm ! i) [0..<bm_nbits bm]"
    and "filter (\<lambda>i. from \<le> i)
      (map (\<lambda>i. from div 64 * 64 + i) (bt_iter_ones bt (drop (from div 64) (bm_bits bm))))
    = filter (\<lambda>i. from \<le> i \<and> bitmap_abs bt bm ! i) [0..<bm_nbits bm]"
proof -
  let ?ws = "bm_bits bm" and ?k = "from div 64"
  note inv = bitmap_invD [OF assms(1)]
  have k: "?k \<le> length ?ws" "64 * ?k \<le> from"
    using assms(2) inv(1) by auto
  have len: "64 * length (drop ?k ?ws) < 2 ^ 32"
    using inv(3) by auto
  have "filter (\<lambda>i. from \<le> i \<and> i < bm_nbits bm) (map (\<lambda>i. ?k * 64 + i) (bt_iter_zeros bt (drop ?k ?ws)))
      = filter (\<lambda>i. (from \<le> i \<and> i < bm_nbits bm) \<and> \<not> bt_test bt ?ws i) [64 * ?k..<64 * length ?ws]"
    using shifted_filter [OF inv(3) k(1), of False] by (simp add: iter_zeros [OF len] conj_commute)
  also have "\<dots> = filter (\<lambda>i. from \<le> i \<and> \<not> bitmap_abs bt bm ! i) [0..<bm_nbits bm]"
    using k(2) inv(1) by (intro filter_upt_eqI) auto
  finally show "filter (\<lambda>i. from \<le> i \<and> i < bm_nbits bm)
      (map (\<lambda>i. ?k * 64 + i) (bt_iter_zeros bt (drop ?k ?ws))) = \<dots>" .
  have "filter (\<lambda>i. from \<le> i) (map (\<lambda>i. ?k * 64 + i) (bt_iter_ones bt (drop ?k ?ws)))
      = filter (\<lambda>i. from \<le> i \<and> bt_test bt ?ws i) [64 * ?k..<64 * length ?ws]"
    using shifted_filter [OF inv(3) k(1), of True] by (simp add: iter_ones [OF len] conj_commute)
  also have "\<dots> = filter (\<lambda>i. from \<le> i \<and> bitmap_abs bt bm ! i) [0..<bm_nbits bm]"
  proof (rule filter_upt_eqI)
    fix i
    show "(64 * ?k \<le> i \<and> i < 64 * length ?ws \<and> from \<le> i \<and> bt_test bt ?ws i)
      = (0 \<le> i \<and> i < bm_nbits bm \<and> from \<le> i \<and> bitmap_abs bt bm ! i)"
      using k(2) inv(1) inv(4) [of i] by (cases "i < bm_nbits bm") auto
  qed
  finally show "filter (\<lambda>i. from \<le> i) (map (\<lambda>i. ?k * 64 + i) (bt_iter_ones bt (drop ?k ?ws))) = \<dots>" .
qed

end

lemma less_div_mod_64:
  fixes i n :: nat
  shows "i < n \<longleftrightarrow> i div 64 < n div 64 \<or> (i div 64 = n div 64 \<and> i mod 64 < n mod 64)"
proof -
  have "i = 64 * (i div 64) + i mod 64" "n = 64 * (n div 64) + n mod 64" "i mod 64 < 64" "n mod 64 < 64"
    by simp_all
  then show ?thesis
    by (cases "i div 64" "n div 64" rule: linorder_cases) linarith+
qed

lemma word_count_cases:
  fixes n :: nat
  shows "(n + 63) div 64 = (if n mod 64 = 0 then n div 64 else n div 64 + 1)"
proof -
  have n: "n = 64 * (n div 64) + n mod 64" "n mod 64 < 64"
    by simp_all
  show ?thesis
  proof (cases "n mod 64 = 0")
    case True
    then have "(n + 63) div 64 = n div 64" using n word_count_bounds [of n] by linarith
    then show ?thesis using True by simp
  next
    case False
    then have "(n + 63) div 64 = n div 64 + 1" using n word_count_bounds [of n] by linarith
    then show ?thesis using False by simp
  qed
qed

context bittle_laws
begin

lemma bitmap_test_bit_spec:
  assumes "bitmap_inv bt bm" "i < bm_nbits bm"
  shows "bitmap_test_bit bt bm i = Ok (bitmap_abs bt bm ! i)"
  using assms(2) bitmap_inv_u32 [OF assms]
  by (simp add: bitmap_test_bit_def bitmap_check_index_def bitmap_len_def)

lemma bitmap_set_spec:
  assumes "bitmap_inv bt bm" "i < bm_nbits bm"
  shows "\<exists>bm'. bitmap_set bt bm i v = Ok bm' \<and> bitmap_inv bt bm' \<and> bm_nbits bm' = bm_nbits bm \<and>
    bitmap_abs bt bm' = (bitmap_abs bt bm)[i := v]"
proof -
  note inv = bitmap_invD [OF assms(1)] and u32 = bitmap_inv_u32 [OF assms]
  note upd = set [OF inv(3) u32(2)] clear [OF inv(3) u32(2)]
  define ws where "ws = (if v then bt_set bt (bm_bits bm) i else bt_clear bt (bm_bits bm) i)"
  have len: "length ws = length (bm_bits bm)"
    and ws: "\<And>j. j < 64 * length (bm_bits bm) \<Longrightarrow> bt_test bt ws j = (if j = i then v else bt_test bt (bm_bits bm) j)"
    using upd by (auto simp: ws_def)
  have "bitmap_set bt bm i v = Ok (bm\<lparr>bm_bits := ws\<rparr>)"
    using assms(2) u32(1)
    by (simp add: bitmap_set_def bitmap_set_bit_def bitmap_clear_bit_def bitmap_check_index_def
        bitmap_len_def ws_def)
  moreover have "bitmap_inv bt (bm\<lparr>bm_bits := ws\<rparr>)"
    using assms len ws inv(4) by (auto simp: bitmap_inv_def)
  moreover have "bitmap_abs bt (bm\<lparr>bm_bits := ws\<rparr>) = (bitmap_abs bt bm)[i := v]"
    using ws inv(1) by (intro nth_equalityI) (auto simp: nth_list_update)
  ultimately show ?thesis by auto
qed

lemma bitmap_first_zero_spec:
  assumes "bitmap_inv bt bm" "from < bm_nbits bm"
  shows "bitmap_first_zero bt bm from
    = Ok (find (\<lambda>i. from \<le> i \<and> \<not> bitmap_abs bt bm ! i) [0..<bm_nbits bm])"
  using assms(2) bitmap_invD(1) [OF assms(1)]
  by (simp add: bitmap_first_zero_def bitmap_check_index_def bitmap_len_def slice_range_def Let_def
      find_as_filter bitmap_scan [OF assms])

lemma bitmap_first_one_spec:
  assumes "bitmap_inv bt bm" "from < bm_nbits bm"
  shows "bitmap_first_one bt bm from
    = Ok (find (\<lambda>i. from \<le> i \<and> bitmap_abs bt bm ! i) [0..<bm_nbits bm])"
  using assms(2) bitmap_invD(1) [OF assms(1)]
  by (simp add: bitmap_first_one_def bitmap_check_index_def bitmap_len_def slice_range_def Let_def
      find_as_filter bitmap_scan [OF assms])

lemma bitmap_first_zeros_spec:
  assumes "bitmap_inv bt bm" "from + n \<le> bm_nbits bm" "0 < n"
  shows "bitmap_first_zeros bt bm from n
    = Ok (let zs = filter (\<lambda>i. from \<le> i \<and> \<not> bitmap_abs bt bm ! i) [0..<bm_nbits bm] in
        if n \<le> length zs then Some (take n zs) else None)"
proof -
  have lt: "from < bm_nbits bm" using assms(2,3) by simp
  note scan = bitmap_scan [OF assms(1) lt]
  have "from div 64 \<le> length (bm_bits bm)" "\<not> bm_nbits bm \<le> from + n - Suc 0"
    using assms(2,3) lt bitmap_invD(1) [OF assms(1)] by linarith+
  then show ?thesis
    using assms(2,3)
    by (simp add: bitmap_first_zeros_def bitmap_check_index_def bitmap_len_def slice_range_def Let_def
        scan min_def del: length_filter_map)
qed

lemma bitmap_first_ones_spec:
  assumes "bitmap_inv bt bm" "from + n \<le> bm_nbits bm" "0 < n"
  shows "bitmap_first_ones bt bm from n
    = Ok (let os = filter (\<lambda>i. from \<le> i \<and> bitmap_abs bt bm ! i) [0..<bm_nbits bm] in
        if n \<le> length os then Some (take n os) else None)"
proof -
  have lt: "from < bm_nbits bm" using assms(2,3) by simp
  note scan = bitmap_scan [OF assms(1) lt]
  have "from div 64 \<le> length (bm_bits bm)" "\<not> bm_nbits bm \<le> from + n - Suc 0"
    using assms(2,3) lt bitmap_invD(1) [OF assms(1)] by linarith+
  then show ?thesis
    using assms(2,3)
    by (simp add: bitmap_first_ones_def bitmap_check_index_def bitmap_len_def slice_range_def Let_def
        scan min_def del: length_filter_map)
qed

text \<open>Counting: the clear bits behind the last one in use are not counted.\<close>

lemma bitmap_counts:
  assumes "bitmap_inv bt bm"
  shows "bitmap_count_ones bt bm = length (filter id (bitmap_abs bt bm))"
    and "bitmap_count_zeros bt bm = Ok (length (filter Not (bitmap_abs bt bm)))"
proof -
  note inv = bitmap_invD [OF assms]
  let ?t = "bt_test bt (bm_bits bm)" and ?n = "bm_nbits bm" and ?m = "64 * length (bm_bits bm)"
  have split: "[0..<?m] = [0..<?n] @ [?n..<?m]"
    using inv(1) upt_add_eq_append [of 0 ?n "?m - ?n"] by simp
  have none: "filter ?t [?n..<?m] = []" "filter (\<lambda>i. \<not> ?t i) [?n..<?m] = [?n..<?m]"
    using inv(4) by (auto simp: filter_empty_conv filter_id_conv)
  have abs: "length (filter P (bitmap_abs bt bm)) = length (filter (\<lambda>i. P (?t i)) [0..<?n])" for P
    by (simp add: bitmap_abs_def filter_map comp_def)
  have unused: "bitmap_not_in_use bm = Ok (?m - ?n)"
    using inv(1) by (simp add: bitmap_not_in_use_def mult.commute)
  show "bitmap_count_ones bt bm = length (filter id (bitmap_abs bt bm))"
    unfolding bitmap_count_ones_def count_ones [OF inv(3)] split by (simp add: none abs)
  show "bitmap_count_zeros bt bm = Ok (length (filter Not (bitmap_abs bt bm)))"
    unfolding bitmap_count_zeros_def unused count_zeros [OF inv(3)] split
    using inv(1) by (simp add: none abs)
qed

lemma fold_wclear:
  assumes "\<forall>i \<in> set is. i < 64" "j < 64"
  shows "bt_wtest bt (fold (\<lambda>i w. bt_wclear bt w i) is w) j \<longleftrightarrow> bt_wtest bt w j \<and> j \<notin> set is"
  using assms by (induction "is" arbitrary: w) (auto simp: wclear)

lemma bitmap_repeat_spec:
  assumes "64 * ((nbits + 63) div 64) < 2 ^ 32"
  shows "\<exists>bm. bitmap_repeat bt v nbits = Ok bm \<and> bitmap_inv bt bm \<and> bitmap_abs bt bm = replicate nbits v"
proof -
  let ?n = "(nbits + 63) div 64"
  let ?f = "if v then - 1 else 0 :: 64 word"
  let ?w = "fold (\<lambda>i w. bt_wclear bt w i) (filter (\<lambda>i. nbits mod 64 \<le> i) (bt_witer_ones bt ?f)) ?f"
  define ws where "ws = (if nbits mod 64 = 0 then replicate ?n ?f else (replicate ?n ?f)[?n - 1 := ?w])"
  have f: "bt_wtest bt ?f j = v" if "j < 64" for j
    using that by (simp add: wtest_ones wtest_zero)
  have w: "bt_wtest bt ?w j = (v \<and> j < nbits mod 64)" if "j < 64" for j
    using that f by (subst fold_wclear) (auto simp: witer_ones)
  have len: "length ws = ?n" by (simp add: ws_def)
  have nth: "bt_test bt ws i = (v \<and> i < nbits)" if "i < 64 * ?n" for i
  proof -
    have "bt_test bt ws i = bt_wtest bt (ws ! (i div 64)) (i mod 64)"
      using test [of ws i] assms len that by simp
    moreover have "i div 64 < ?n"
      using that by auto
    moreover have "ws ! (i div 64) = (if nbits mod 64 \<noteq> 0 \<and> i div 64 = nbits div 64 then ?w else ?f)"
    proof -
      have "ws ! j = (if nbits mod 64 \<noteq> 0 \<and> j = ?n - 1 then ?w else ?f)" if "j < ?n" for j
        using that unfolding ws_def by (simp del: replicate_Suc)
      moreover have "nbits mod 64 \<noteq> 0 \<Longrightarrow> ?n - 1 = nbits div 64"
        using word_count_cases [of nbits] by simp
      ultimately show ?thesis using \<open>i div 64 < ?n\<close> by auto
    qed
    ultimately show ?thesis
      using f [of "i mod 64"] w [of "i mod 64"] less_div_mod_64 [of i nbits] word_count_cases [of nbits]
      by (auto split: if_splits)
  qed
  have diff: "nbits + 64 - 1 = nbits + 63"
    by simp
  have "bitmap_repeat bt v nbits = Ok \<lparr>bm_bits = ws, bm_nbits = nbits\<rparr>"
  proof (cases "nbits mod 64 = 0")
    case False
    then have "1 \<le> ?n" "?n - 1 < ?n" using word_count_cases [of nbits] by simp_all
    then show ?thesis
      using False unfolding bitmap_repeat_def Let_def ws_def
      by (simp only: checked_sub_Ok length_replicate nth_replicate if_True if_False rbind.simps
          diff) simp
  qed (simp add: bitmap_repeat_def Let_def ws_def)
  moreover have "bitmap_inv bt \<lparr>bm_bits = ws, bm_nbits = nbits\<rparr>"
    using assms len nth by (auto simp: bitmap_inv_def)
  moreover have "bitmap_abs bt \<lparr>bm_bits = ws, bm_nbits = nbits\<rparr> = replicate nbits v"
    using nth word_count_bounds(1) [of nbits] by (intro nth_equalityI) auto
  ultimately show ?thesis by blast
qed

end

context bittle_laws
begin

lemma bitmap_last_one_spec:
  assumes "bitmap_inv bt bm"
  shows "bitmap_last_one bt bm = find (\<lambda>i. bitmap_abs bt bm ! i) (rev [0..<bm_nbits bm])"
proof -
  note inv = bitmap_invD [OF assms]
  have "bt_iter_ones bt (bm_bits bm) = filter (\<lambda>i. bitmap_abs bt bm ! i) [0..<bm_nbits bm]"
    unfolding iter_ones [OF inv(3)]
  proof (rule filter_upt_eqI)
    fix i
    show "(0 \<le> i \<and> i < 64 * length (bm_bits bm) \<and> bt_test bt (bm_bits bm) i)
      = (0 \<le> i \<and> i < bm_nbits bm \<and> bitmap_abs bt bm ! i)"
      using inv(1) inv(4) [of i] by (cases "i < bm_nbits bm") auto
  qed
  then show ?thesis
    by (simp add: bitmap_last_one_def find_as_filter rev_filter)
qed

lemma bitmap_last_zero_spec:
  assumes "bitmap_inv bt bm"
  shows "bitmap_last_zero bt bm = Ok (find (\<lambda>i. \<not> bitmap_abs bt bm ! i) (rev [0..<bm_nbits bm]))"
proof -
  note inv = bitmap_invD [OF assms]
  let ?n = "bm_nbits bm" and ?m = "64 * length (bm_bits bm)"
  have "filter (\<lambda>i. \<not> bt_test bt (bm_bits bm) i) [?n..<?m] = [?n..<?m]"
    using inv(4) by (auto simp: filter_id_conv)
  moreover have "[0..<?m] = [0..<?n] @ [?n..<?m]"
    using inv(1) upt_add_eq_append [of 0 ?n "?m - ?n"] by simp
  moreover have "filter (\<lambda>i. \<not> bt_test bt (bm_bits bm) i) [0..<?n]
      = filter (\<lambda>i. \<not> bitmap_abs bt bm ! i) [0..<?n]"
    by (intro filter_upt_eqI) auto
  ultimately have "bt_iter_zeros bt (bm_bits bm)
      = filter (\<lambda>i. \<not> bitmap_abs bt bm ! i) [0..<?n] @ [?n..<?m]"
    unfolding iter_zeros [OF inv(3)] by simp
  then show ?thesis
    using inv(1)
    by (simp add: bitmap_last_zero_def bitmap_not_in_use_def find_as_filter rev_filter mult.commute)
qed

end

section \<open>Properties\<close>

text \<open>C25: \<open>BitMap::first_zero\<close> returns the least clear bit at or after the given index, and \<open>None\<close> only
  when all of them are set; the bits behind the end of the map are never returned.\<close>

theorem bitmap_first_zero_least:
  assumes "bittle_laws bt" "bitmap_inv bt bm" "from < bm_nbits bm"
  shows "\<exists>r. bitmap_first_zero bt bm from = Ok r \<and>
    (case r of
       None \<Rightarrow> \<forall>i. from \<le> i \<and> i < bm_nbits bm \<longrightarrow> bitmap_test_bit bt bm i = Ok True
     | Some k \<Rightarrow> from \<le> k \<and> k < bm_nbits bm \<and> bitmap_test_bit bt bm k = Ok False \<and>
         (\<forall>i. from \<le> i \<and> i < k \<longrightarrow> bitmap_test_bit bt bm i = Ok True))"
proof (cases "find (\<lambda>i. from \<le> i \<and> \<not> bitmap_abs bt bm ! i) [0..<bm_nbits bm]")
  case None
  then show ?thesis
    using bittle_laws.bitmap_first_zero_spec [OF assms] bittle_laws.bitmap_test_bit_spec [OF assms(1,2)]
      iffD1 [OF find_upt_None None]
    by (auto simp del: bitmap_abs_nth)
next
  case (Some k)
  then show ?thesis
    using bittle_laws.bitmap_first_zero_spec [OF assms] bittle_laws.bitmap_test_bit_spec [OF assms(1,2)]
      iffD1 [OF find_upt_Some Some]
    by (auto simp del: bitmap_abs_nth)
qed

theorem bitmap_first_zero_least_witness:
  "\<exists>r. bitmap_first_zero bittle_ref \<lparr>bm_bits = [5], bm_nbits = 3\<rparr> 0 = Ok r"
  using bitmap_first_zero_least [of bittle_ref "\<lparr>bm_bits = [5], bm_nbits = 3\<rparr>" 0] ref.bittle_laws_axioms
  by (auto simp: bitmap_inv_def bittle_ref_def ref_test_def ref_wtest_def bit_numeral_rec nth_Cons')

text \<open>Setting a bit to a value keeps the bitmap well-formed, is read back by \<open>test_bit\<close>, changes no
  other bit, and the two counters always add up to the length of the map.\<close>

theorem bitmap_set_test:
  assumes "bittle_laws bt" "bitmap_inv bt bm" "i < bm_nbits bm"
  shows "\<exists>bm' z. bitmap_set bt bm i v = Ok bm' \<and> bitmap_inv bt bm' \<and> bm_nbits bm' = bm_nbits bm \<and>
    (\<forall>j < bm_nbits bm. bitmap_test_bit bt bm' j = (if j = i then Ok v else bitmap_test_bit bt bm j)) \<and>
    bitmap_count_zeros bt bm' = Ok z \<and> bitmap_count_ones bt bm' + z = bm_nbits bm"
proof -
  obtain bm' where bm': "bitmap_set bt bm i v = Ok bm'" "bitmap_inv bt bm'" "bm_nbits bm' = bm_nbits bm"
      "bitmap_abs bt bm' = (bitmap_abs bt bm)[i := v]"
    using bittle_laws.bitmap_set_spec [OF assms] by blast
  note test = bittle_laws.bitmap_test_bit_spec [OF assms(1)]
  have "\<forall>j < bm_nbits bm. bitmap_test_bit bt bm' j = (if j = i then Ok v else bitmap_test_bit bt bm j)"
    using test [OF assms(2)] test [OF bm'(2)] bm'(3,4) assms(3)
    by (auto simp: nth_list_update simp del: bitmap_abs_nth)
  moreover have "length (filter id (bitmap_abs bt bm')) + length (filter Not (bitmap_abs bt bm')) = bm_nbits bm"
    using sum_length_filter_compl [of id "bitmap_abs bt bm'"] bm'(3) by simp
  ultimately show ?thesis
    using bm' bittle_laws.bitmap_counts [OF assms(1) bm'(2)] by auto
qed

theorem bitmap_set_test_witness:
  "\<exists>bm'. bitmap_set bittle_ref \<lparr>bm_bits = [5], bm_nbits = 3\<rparr> 1 True = Ok bm' \<and>
    bitmap_test_bit bittle_ref bm' 1 = Ok True"
  using bitmap_set_test [of bittle_ref "\<lparr>bm_bits = [5], bm_nbits = 3\<rparr>" 1 True] ref.bittle_laws_axioms
  by (auto simp: bitmap_inv_def bittle_ref_def ref_test_def ref_wtest_def bit_numeral_rec nth_Cons')

end
