(* ===== verification/Tx_Model.thy ===== *)
theory Tx_Model
  imports Mls_Prelude
begin

text \<open>
  Transactions (\<open>core/src/tx/mod.rs\<close> and \<open>current.rs\<close>).

  The provider keeps, for every thread inside \<open>Tx::context\<close>, a pointer to its transaction. The
  model keeps the transaction itself in the table while the context runs (\<open>te_table\<close>), because
  then it is reached through the pointer only. \<open>'w\<close> is the state of the components behind the
  provider, which the registered callbacks capture.

  The per-transaction data lives in a map indexed by types, from the crate \<open>anymap\<close>; its three
  operations are the parameter \<open>anymap_ops\<close>, its documented laws the locale \<open>anymap_laws\<close>, with
  \<open>'k\<close> for the type and \<open>'d\<close> for the data. Transaction identifiers are \<open>u64\<close> and wrap.
\<close>

record ('m, 'k, 'd) anymap_ops =
  am_new :: 'm
  am_contains :: "'m \<Rightarrow> 'k \<Rightarrow> bool"
  am_insert :: "'m \<Rightarrow> 'k \<Rightarrow> 'd \<Rightarrow> 'm"
  am_get :: "'m \<Rightarrow> 'k \<Rightarrow> 'd option"

datatype tx_status = Ongoing | Committed | Aborted

record 'm tx =
  tx_id :: nat
  tx_data_map :: 'm
  tx_status :: tx_status
  tx_is_accessing_data :: bool

type_synonym tid = nat

record ('w, 'm) tx_env =
  te_world :: 'w
  te_table :: "tid \<Rightarrow> 'm tx option"

type_synonym ('w, 'm, 'a) tx_op = "(('w, 'm) tx_env, 'a) sres"

record ('w, 'm) tx_provider =
  tp_initializer_map :: 'm
  tp_precommit_handlers :: "('w, 'm, unit) tx_op list"
  tp_commit_handlers :: "('w, 'm, unit) tx_op list"
  tp_abort_handlers :: "('w, 'm, unit) tx_op list"

definition tx_provider_new :: "('m, 'k, 'd) anymap_ops \<Rightarrow> ('w, 'm) tx_provider" where
  "tx_provider_new am = \<lparr>tp_initializer_map = am_new am, tp_precommit_handlers = [],
    tp_commit_handlers = [], tp_abort_handlers = []\<rparr>"

definition tx_new :: "('m, 'k, 'd) anymap_ops \<Rightarrow> nat \<Rightarrow> 'm tx \<times> nat" where
  "tx_new am next_id =
    (\<lparr>tx_id = next_id, tx_data_map = am_new am, tx_status = Ongoing, tx_is_accessing_data = False\<rparr>,
     (next_id + 1) mod 2 ^ 64)"

definition register_data_initializer ::
    "('m, 'k, 'd) anymap_ops \<Rightarrow> 'k \<Rightarrow> 'd \<Rightarrow> ('w, 'm) tx_provider \<Rightarrow> ('w, 'm) tx_provider" where
  "register_data_initializer am k d p =
    p\<lparr>tp_initializer_map := am_insert am (tp_initializer_map p) k d\<rparr>"

definition register_precommit_handler :: "('w, 'm, unit) tx_op \<Rightarrow> ('w, 'm) tx_provider \<Rightarrow> ('w, 'm) tx_provider" where
  "register_precommit_handler f p = p\<lparr>tp_precommit_handlers := tp_precommit_handlers p @ [f]\<rparr>"

definition register_commit_handler :: "('w, 'm, unit) tx_op \<Rightarrow> ('w, 'm) tx_provider \<Rightarrow> ('w, 'm) tx_provider" where
  "register_commit_handler f p = p\<lparr>tp_commit_handlers := tp_commit_handlers p @ [f]\<rparr>"

definition register_abort_handler :: "('w, 'm, unit) tx_op \<Rightarrow> ('w, 'm) tx_provider \<Rightarrow> ('w, 'm) tx_provider" where
  "register_abort_handler f p = p\<lparr>tp_abort_handlers := tp_abort_handlers p @ [f]\<rparr>"

definition init_data :: "('m, 'k, 'd) anymap_ops \<Rightarrow> ('w, 'm) tx_provider \<Rightarrow> 'k \<Rightarrow> 'd res" where
  "init_data am p k = res_unwrap (am_get am (tp_initializer_map p) k)"

section \<open>Access to the current transaction\<close>

text \<open>\<open>Tx::data_mut\<close>: the data of a type, made by its initializer at the first access.\<close>

definition tx_data_mut ::
    "('m, 'k, 'd) anymap_ops \<Rightarrow> ('w, 'm) tx_provider \<Rightarrow> 'k \<Rightarrow> 'm tx \<Rightarrow> ('d \<times> 'm tx) res" where
  "tx_data_mut am p k tx =
    rbind (if am_contains am (tx_data_map tx) k then Ok tx
           else rbind (init_data am p k) (\<lambda>d.
             Ok (tx\<lparr>tx_data_map := am_insert am (tx_data_map tx) k d\<rparr>)))
      (\<lambda>tx. rbind (res_unwrap (am_get am (tx_data_map tx) k)) (\<lambda>d. Ok (d, tx)))"

text \<open>
  \<open>get_current_mut_with\<close>: the closure gets the transaction of the thread and may work on the
  components meanwhile; the flag in the table makes a recursive call panic.
\<close>

definition get_current_mut_with ::
    "tid \<Rightarrow> ('m tx \<Rightarrow> ('w, 'm, 'a \<times> 'm tx) tx_op) \<Rightarrow> ('w, 'm, 'a) tx_op" where
  "get_current_mut_with tid f e =
    (case te_table e tid of
       None \<Rightarrow> (Panics, e)
     | Some tx \<Rightarrow>
         if tx_is_accessing_data tx then (Panics, e)
         else let tx1 = tx\<lparr>tx_is_accessing_data := True\<rparr> in
           sbind (f tx1) (\<lambda>(retval, tx2) e2.
             (Ok retval, e2\<lparr>te_table := (te_table e2)(tid \<mapsto> tx2\<lparr>tx_is_accessing_data := False\<rparr>)\<rparr>))
           (e\<lparr>te_table := (te_table e)(tid \<mapsto> tx1)\<rparr>))"

definition current_id :: "tid \<Rightarrow> ('w, 'm, nat) tx_op" where
  "current_id tid = get_current_mut_with tid (\<lambda>tx. sret (tx_id tx, tx))"

text \<open>\<open>data_with\<close> and \<open>data_mut_with\<close>; the closure works on the data and on the components.\<close>

definition data_mut_with ::
    "('m, 'k, 'd) anymap_ops \<Rightarrow> ('w, 'm) tx_provider \<Rightarrow> tid \<Rightarrow> 'k \<Rightarrow>
      ('d \<Rightarrow> ('w, 'a \<times> 'd) sres) \<Rightarrow> ('w, 'm, 'a) tx_op" where
  "data_mut_with am p tid k f = get_current_mut_with tid (\<lambda>tx.
    sbind (slift (tx_data_mut am p k tx)) (\<lambda>(d, tx) e.
      case f d (te_world e) of
        (Inl flt, w) \<Rightarrow> (Inl flt, e\<lparr>te_world := w\<rparr>)
      | (Inr (retval, d'), w) \<Rightarrow>
          (Ok (retval, tx\<lparr>tx_data_map := am_insert am (tx_data_map tx) k d'\<rparr>), e\<lparr>te_world := w\<rparr>)))"

definition data_with ::
    "('m, 'k, 'd) anymap_ops \<Rightarrow> ('w, 'm) tx_provider \<Rightarrow> tid \<Rightarrow> 'k \<Rightarrow>
      ('d \<Rightarrow> ('w, 'a) sres) \<Rightarrow> ('w, 'm, 'a) tx_op" where
  "data_with am p tid k f = get_current_mut_with tid (\<lambda>tx.
    sbind (slift (tx_data_mut am p k tx)) (\<lambda>(d, tx) e.
      case f d (te_world e) of
        (Inl flt, w) \<Rightarrow> (Inl flt, e\<lparr>te_world := w\<rparr>)
      | (Inr retval, w) \<Rightarrow> (Ok (retval, tx), e\<lparr>te_world := w\<rparr>)))"

text \<open>\<open>set_and_exec_with\<close>: the transaction is in the table while the closure runs.\<close>

definition set_and_exec_with :: "tid \<Rightarrow> 'm tx \<Rightarrow> ('w, 'm, 'a) tx_op \<Rightarrow> ('w, 'm, 'a \<times> 'm tx) tx_op" where
  "set_and_exec_with tid tx f e =
    (if te_table e tid \<noteq> None then (Panics, e\<lparr>te_table := (te_table e)(tid \<mapsto> tx)\<rparr>)
     else sbind f (\<lambda>retval e2.
       (case te_table e2 tid of
          None \<Rightarrow> (Panics, e2)
        | Some tx2 \<Rightarrow> (Ok (retval, tx2), e2\<lparr>te_table := (te_table e2)(tid := None)\<rparr>)))
       (e\<lparr>te_table := (te_table e)(tid \<mapsto> tx)\<rparr>))"

definition tx_context :: "tid \<Rightarrow> 'm tx \<Rightarrow> ('w, 'm, 'a) tx_op \<Rightarrow> ('w, 'm, 'a \<times> 'm tx) tx_op" where
  "tx_context tid tx f =
    (if tx_status tx = Ongoing then set_and_exec_with tid tx f else sfail Panic)"

section \<open>Commit and abort\<close>

definition call_precommit_handlers :: "('w, 'm) tx_provider \<Rightarrow> ('w, 'm, unit) tx_op" where
  "call_precommit_handlers p = sfor (\<lambda>h. h) (rev (tp_precommit_handlers p))"

definition call_commit_handlers :: "('w, 'm) tx_provider \<Rightarrow> ('w, 'm, unit) tx_op" where
  "call_commit_handlers p = sfor (\<lambda>h. h) (rev (tp_commit_handlers p))"

definition call_abort_handlers :: "('w, 'm) tx_provider \<Rightarrow> ('w, 'm, unit) tx_op" where
  "call_abort_handlers p = sfor (\<lambda>h. h) (rev (tp_abort_handlers p))"

text \<open>
  \<open>Tx::commit\<close>. The inner result is the value \<open>res\<close> of the closure: an error of a pre-commit
  handler is a value there, a panic is not.
\<close>

definition tx_commit :: "('w, 'm) tx_provider \<Rightarrow> tid \<Rightarrow> 'm tx \<Rightarrow> ('w, 'm, unit res \<times> 'm tx) tx_op" where
  "tx_commit p tid tx =
    (if tx_status tx \<noteq> Ongoing then sfail Panic
     else sbind (tx_context tid tx (\<lambda>e.
         case call_precommit_handlers p e of
           (Inr _, e1) \<Rightarrow> sbind (call_commit_handlers p) (\<lambda>_. sret (Ok ())) e1
         | (Inl (Err n), e1) \<Rightarrow> sbind (call_abort_handlers p) (\<lambda>_. sret (Fail n)) e1
         | (Inl Panic, e1) \<Rightarrow> (Panics, e1)))
       (\<lambda>(res, tx). sret (res, tx\<lparr>tx_status := (if is_ok res then Committed else Aborted)\<rparr>)))"

definition tx_abort :: "('w, 'm) tx_provider \<Rightarrow> tid \<Rightarrow> 'm tx \<Rightarrow> ('w, 'm, 'm tx) tx_op" where
  "tx_abort p tid tx =
    (if tx_status tx \<noteq> Ongoing then sfail Panic
     else sbind (tx_context tid tx (call_abort_handlers p))
       (\<lambda>(_, tx). sret (tx\<lparr>tx_status := Aborted\<rparr>)))"

text \<open>Dropping a transaction that is still ongoing panics.\<close>

definition tx_drop :: "'m tx \<Rightarrow> unit res" where
  "tx_drop tx = rassert (tx_status tx \<noteq> Ongoing)"

section \<open>What the type-indexed map promises\<close>

locale anymap_laws =
  fixes am :: "('m, 'k, 'd) anymap_ops"
  assumes get_new: "am_get am (am_new am) k = None"
    and contains_iff: "am_contains am m k \<longleftrightarrow> am_get am m k \<noteq> None"
    and get_insert: "am_get am (am_insert am m k d) k' = (if k' = k then Some d else am_get am m k')"

definition anymap_ref :: "('k \<Rightarrow> 'd option, 'k, 'd) anymap_ops" where
  "anymap_ref = \<lparr>am_new = (\<lambda>_. None), am_contains = (\<lambda>m k. m k \<noteq> None),
    am_insert = (\<lambda>m k d. m(k \<mapsto> d)), am_get = (\<lambda>m k. m k)\<rparr>"

interpretation am_ref: anymap_laws anymap_ref
  by unfold_locales (auto simp: anymap_ref_def)

section \<open>The frame of an operation\<close>

text \<open>
  What an operation run by thread \<open>tid\<close> inside a context does to the table: the entries of other
  threads are untouched, its own transaction stays there and keeps identity and status.
\<close>

definition tx_frame :: "tid \<Rightarrow> ('w, 'm) tx_env \<Rightarrow> ('w, 'm) tx_env \<Rightarrow> bool" where
  "tx_frame tid e e' \<longleftrightarrow>
    (\<forall>t. t \<noteq> tid \<longrightarrow> te_table e' t = te_table e t) \<and>
    (case te_table e tid of
       None \<Rightarrow> te_table e' tid = None
     | Some tx \<Rightarrow> (\<exists>tx'. te_table e' tid = Some tx' \<and> tx_id tx' = tx_id tx \<and> tx_status tx' = tx_status tx))"

definition tx_framed :: "tid \<Rightarrow> ('w, 'm, 'a) tx_op \<Rightarrow> bool" where
  "tx_framed tid f \<longleftrightarrow> (\<forall>e r e'. f e = (r, e') \<longrightarrow> tx_frame tid e e')"

lemma tx_frame_refl [simp]: "tx_frame tid e e"
  by (simp add: tx_frame_def split: option.splits)

lemma tx_frame_trans: "tx_frame tid e e1 \<Longrightarrow> tx_frame tid e1 e2 \<Longrightarrow> tx_frame tid e e2"
  by (auto simp: tx_frame_def split: option.splits)

lemma tx_framed_sfor:
  assumes "\<forall>h \<in> set hs. tx_framed tid h"
  shows "tx_framed tid (sfor (\<lambda>h. h) hs)"
  unfolding tx_framed_def
proof (intro allI impI)
  fix e e' r
  assume "sfor (\<lambda>h. h) hs e = (r, e')"
  then show "tx_frame tid e e'"
    by (rule sfor_relation) (use assms in \<open>auto simp: tx_framed_def intro: tx_frame_trans\<close>)
qed

lemma tx_framed_sbind:
  "tx_framed tid m \<Longrightarrow> (\<And>x. tx_framed tid (k x)) \<Longrightarrow> tx_framed tid (sbind m k)"
  unfolding tx_framed_def sbind_def
  by (auto split: prod.splits sum.splits) (meson tx_frame_trans)

text \<open>An access to the current transaction whose closure leaves the table alone is framed.\<close>

lemma tx_framed_get_current:
  assumes "\<And>tx e r e'. f tx e = (r, e') \<Longrightarrow> te_table e' = te_table e"
    and "\<And>tx e v tx' e'. f tx e = (Inr (v, tx'), e') \<Longrightarrow> tx_id tx' = tx_id tx \<and> tx_status tx' = tx_status tx"
  shows "tx_framed tid (get_current_mut_with tid f)"
  unfolding tx_framed_def
proof (intro allI impI)
  fix e e' r
  assume run: "get_current_mut_with tid f e = (r, e')"
  show "tx_frame tid e e'"
  proof (cases "te_table e tid")
    case None
    then show ?thesis using run by (simp add: get_current_mut_with_def)
  next
    case (Some tx)
    show ?thesis
    proof (cases "tx_is_accessing_data tx")
      case True
      then show ?thesis using run Some by (simp add: get_current_mut_with_def)
    next
      case False
      let ?tx1 = "tx\<lparr>tx_is_accessing_data := True\<rparr>" and ?e1 = "e\<lparr>te_table := (te_table e)(tid \<mapsto> tx\<lparr>tx_is_accessing_data := True\<rparr>)\<rparr>"
      obtain r1 e1 where f: "f ?tx1 ?e1 = (r1, e1)" by (cases "f ?tx1 ?e1")
      show ?thesis
        using run Some False f assms(1) [OF f] assms(2) [of ?tx1 ?e1 _ _ e1]
        by (cases r1) (auto simp: get_current_mut_with_def tx_frame_def Let_def)
    qed
  qed
qed

lemma tx_data_mut_keeps:
  "tx_data_mut am p k tx = Inr (d, tx') \<Longrightarrow> tx_id tx' = tx_id tx \<and> tx_status tx' = tx_status tx"
  by (auto simp: tx_data_mut_def res_simps split: if_splits)

lemma tx_framed_data_with: "tx_framed tid (data_with am p tid k f)"
  unfolding data_with_def
  by (rule tx_framed_get_current)
    (auto simp: sbind_def tx_data_mut_keeps split: prod.splits sum.splits)

lemma tx_framed_data_mut_with: "tx_framed tid (data_mut_with am p tid k f)"
  unfolding data_mut_with_def
  by (rule tx_framed_get_current)
    (auto simp: sbind_def dest: tx_data_mut_keeps split: prod.splits sum.splits)

text \<open>Running a framed closure in a context gives the table back as it was.\<close>

lemma set_and_exec_with_frame:
  assumes "tx_framed tid f" "te_table e tid = None"
    and "set_and_exec_with tid tx f e = (Inr (v, tx'), e')"
  shows "te_table e' = te_table e" "tx_id tx' = tx_id tx" "tx_status tx' = tx_status tx"
proof -
  let ?e1 = "e\<lparr>te_table := (te_table e)(tid \<mapsto> tx)\<rparr>"
  obtain e2 where e2: "f ?e1 = (Inr v, e2)" "te_table e2 tid = Some tx'"
      "e' = e2\<lparr>te_table := (te_table e2)(tid := None)\<rparr>"
    using assms(2,3)
    by (auto simp: set_and_exec_with_def res_simps split: option.splits)
  then have "tx_frame tid ?e1 e2"
    using assms(1) by (auto simp: tx_framed_def)
  then show "te_table e' = te_table e" "tx_id tx' = tx_id tx" "tx_status tx' = tx_status tx"
    using e2 assms(2) by (auto simp: tx_frame_def fun_eq_iff)
qed

text \<open>The data of a type as the thread's transaction sees it: its own, else the initial value.\<close>

definition current_data ::
    "('m, 'k, 'd) anymap_ops \<Rightarrow> ('w, 'm) tx_provider \<Rightarrow> ('w, 'm) tx_env \<Rightarrow> tid \<Rightarrow> 'k \<Rightarrow> 'd option" where
  "current_data am p e tid k =
    (case te_table e tid of
       None \<Rightarrow> None
     | Some tx \<Rightarrow> (case am_get am (tx_data_map tx) k of
         None \<Rightarrow> am_get am (tp_initializer_map p) k
       | Some d \<Rightarrow> Some d))"

definition tx_idle :: "('w, 'm) tx_env \<Rightarrow> tid \<Rightarrow> bool" where
  "tx_idle e tid \<longleftrightarrow> (case te_table e tid of None \<Rightarrow> False | Some tx \<Rightarrow> \<not> tx_is_accessing_data tx)"

context anymap_laws
begin

lemma tx_data_mut_spec:
  assumes "(case am_get am (tx_data_map tx) k of
      None \<Rightarrow> am_get am (tp_initializer_map p) k | Some d \<Rightarrow> Some d) = Some d"
  shows "\<exists>tx'. tx_data_mut am p k tx = Ok (d, tx') \<and> tx_is_accessing_data tx' = tx_is_accessing_data tx \<and>
    (\<forall>k'. am_get am (tx_data_map tx') k' = (if k' = k then Some d else am_get am (tx_data_map tx) k'))"
  using assms
  by (cases "am_get am (tx_data_map tx) k")
    (auto simp: tx_data_mut_def contains_iff init_data_def get_insert)

lemma data_mut_with_spec:
  assumes "tx_idle e tid" "current_data am p e tid k = Some d"
    and "f d (te_world e) = (Inr (v, d'), w')"
  shows "\<exists>e'. data_mut_with am p tid k f e = (Ok v, e') \<and> te_world e' = w' \<and> tx_idle e' tid \<and>
    tx_frame tid e e' \<and>
    (\<forall>t k'. current_data am p e' t k' = (if t = tid \<and> k' = k then Some d' else current_data am p e t k'))"
proof -
  obtain tx where tx: "te_table e tid = Some tx" "\<not> tx_is_accessing_data tx"
    using assms(1) by (auto simp: tx_idle_def split: option.splits)
  let ?tx1 = "tx\<lparr>tx_is_accessing_data := True\<rparr>"
  obtain tx' where tx': "tx_data_mut am p k ?tx1 = Ok (d, tx')"
      "\<And>k'. am_get am (tx_data_map tx') k' = (if k' = k then Some d else am_get am (tx_data_map tx) k')"
    using tx_data_mut_spec [where tx = ?tx1 and k = k and p = p and d = d] assms(2) tx by (auto simp: current_data_def)
  let ?tx2 = "tx'\<lparr>tx_data_map := am_insert am (tx_data_map tx') k d', tx_is_accessing_data := False\<rparr>"
  let ?e' = "e\<lparr>te_world := w', te_table := (te_table e)(tid \<mapsto> ?tx2)\<rparr>"
  have run: "data_mut_with am p tid k f e = (Ok v, ?e')"
    using tx tx'(1) assms(3)
    by (simp add: data_mut_with_def get_current_mut_with_def sbind_def Let_def)
  moreover have "tx_frame tid e ?e'"
    using tx_framed_data_mut_with [of tid am p k f] run unfolding tx_framed_def by blast
  moreover have "current_data am p ?e' t k' = (if t = tid \<and> k' = k then Some d' else current_data am p e t k')" for t k'
    using tx tx'(2) by (simp add: current_data_def get_insert)
  ultimately show ?thesis
    by (intro exI [of _ ?e']) (simp add: tx_idle_def)
qed

lemma data_with_spec:
  assumes "tx_idle e tid" "current_data am p e tid k = Some d" "g d (te_world e) = (Inr v, w')"
  shows "\<exists>e'. data_with am p tid k g e = (Ok v, e') \<and> te_world e' = w' \<and> tx_idle e' tid \<and>
    tx_frame tid e e' \<and> (\<forall>t k'. current_data am p e' t k' = current_data am p e t k')"
proof -
  obtain tx where tx: "te_table e tid = Some tx" "\<not> tx_is_accessing_data tx"
    using assms(1) by (auto simp: tx_idle_def split: option.splits)
  let ?tx1 = "tx\<lparr>tx_is_accessing_data := True\<rparr>"
  obtain tx' where tx': "tx_data_mut am p k ?tx1 = Ok (d, tx')"
      "\<And>k'. am_get am (tx_data_map tx') k' = (if k' = k then Some d else am_get am (tx_data_map tx) k')"
    using tx_data_mut_spec [where tx = ?tx1 and k = k and p = p and d = d] assms(2) tx by (auto simp: current_data_def)
  let ?e' = "e\<lparr>te_world := w', te_table := (te_table e)(tid \<mapsto> tx'\<lparr>tx_is_accessing_data := False\<rparr>)\<rparr>"
  have run: "data_with am p tid k g e = (Ok v, ?e')"
    using tx tx'(1) assms(3)
    by (simp add: data_with_def get_current_mut_with_def sbind_def Let_def)
  moreover have "tx_frame tid e ?e'"
    using tx_framed_data_with [of tid am p k g] run unfolding tx_framed_def by blast
  moreover have "current_data am p ?e' t k' = current_data am p e t k'" for t k'
    using tx tx'(2) assms(2) by (auto simp: current_data_def)
  ultimately show ?thesis
    by (intro exI [of _ ?e']) (simp add: tx_idle_def)
qed

end

text \<open>The body of a commit, and the order of the callbacks: the last one registered runs first.\<close>

definition tx_commit_body :: "('w, 'm) tx_provider \<Rightarrow> ('w, 'm, unit res) tx_op" where
  "tx_commit_body p e =
    (case call_precommit_handlers p e of
       (Inr _, e1) \<Rightarrow> sbind (call_commit_handlers p) (\<lambda>_. sret (Ok ())) e1
     | (Inl (Err n), e1) \<Rightarrow> sbind (call_abort_handlers p) (\<lambda>_. sret (Fail n)) e1
     | (Inl Panic, e1) \<Rightarrow> (Panics, e1))"

lemma call_handlers_register:
  "call_precommit_handlers (register_precommit_handler h p) = sbind h (\<lambda>_. call_precommit_handlers p)"
  "call_commit_handlers (register_commit_handler h p) = sbind h (\<lambda>_. call_commit_handlers p)"
  "call_abort_handlers (register_abort_handler h p) = sbind h (\<lambda>_. call_abort_handlers p)"
  by (simp_all add: call_precommit_handlers_def call_commit_handlers_def call_abort_handlers_def
      register_precommit_handler_def register_commit_handler_def register_abort_handler_def)

definition handlers_framed :: "tid \<Rightarrow> ('w, 'm) tx_provider \<Rightarrow> bool" where
  "handlers_framed tid p \<longleftrightarrow>
    (\<forall>h \<in> set (tp_precommit_handlers p @ tp_commit_handlers p @ tp_abort_handlers p). tx_framed tid h)"

lemma call_handlers_framed:
  assumes "handlers_framed tid p"
  shows "tx_framed tid (call_precommit_handlers p)" "tx_framed tid (call_commit_handlers p)"
    "tx_framed tid (call_abort_handlers p)"
  using assms unfolding handlers_framed_def call_precommit_handlers_def call_commit_handlers_def
    call_abort_handlers_def
  by (auto intro!: tx_framed_sfor)

lemma tx_framed_sret [simp]: "tx_framed tid (sret x)"
  by (simp add: tx_framed_def)

lemma tx_commit_body_framed:
  assumes "handlers_framed tid p"
  shows "tx_framed tid (tx_commit_body p)"
  unfolding tx_framed_def
proof (intro allI impI)
  fix e e' r
  assume run: "tx_commit_body p e = (r, e')"
  obtain r1 e1 where pre: "call_precommit_handlers p e = (r1, e1)"
    by (cases "call_precommit_handlers p e")
  then have e1: "tx_frame tid e e1"
    using call_handlers_framed(1) [OF assms] by (auto simp: tx_framed_def)
  have "tx_framed tid (sbind (call_commit_handlers p) (\<lambda>_. sret (Ok () :: unit res)))"
    "tx_framed tid (sbind (call_abort_handlers p) (\<lambda>_. sret (Fail n :: unit res)))" for n
    using call_handlers_framed(2,3) [OF assms] by (auto intro: tx_framed_sbind)
  then have "tx_frame tid e1 e'"
    using run pre unfolding tx_commit_body_def tx_framed_def
    by (cases r1) (auto split: fault.splits)
  then show "tx_frame tid e e'"
    using e1 tx_frame_trans by blast
qed

lemma tx_commit_alt:
  "tx_commit p tid tx = (if tx_status tx \<noteq> Ongoing then sfail Panic
    else sbind (set_and_exec_with tid tx (tx_commit_body p))
      (\<lambda>(res, tx). sret (res, tx\<lparr>tx_status := (if is_ok res then Committed else Aborted)\<rparr>)))"
  by (simp add: tx_commit_def tx_commit_body_def [abs_def] tx_context_def)

section \<open>Properties\<close>

text \<open>C24: A commit that returns leaves the transaction in a final state: committed exactly when its
  result is \<open>Ok\<close>, aborted otherwise; the table of running transactions is as before; the
  transaction may be dropped; and entering its context again, committing or aborting it once
  more panics without touching anything.\<close>

theorem tx_commit_final:
  assumes "handlers_framed tid p" "te_table e tid = None"
    and "tx_commit p tid tx e = (Inr (res, tx'), e')"
  shows "te_table e' = te_table e \<and> tx_id tx' = tx_id tx \<and>
    tx_status tx' = (if is_ok res then Committed else Aborted) \<and> tx_drop tx' = Ok () \<and>
    tx_commit p tid tx' e'' = (Panics, e'') \<and> tx_abort p tid tx' e'' = (Panics, e'') \<and>
    tx_context tid tx' f e'' = (Panics, e'')"
proof -
  obtain tx1 where tx1: "set_and_exec_with tid tx (tx_commit_body p) e = (Inr (res, tx1), e')"
      "tx' = tx1\<lparr>tx_status := (if is_ok res then Committed else Aborted)\<rparr>"
    using assms(3) by (auto simp: tx_commit_alt res_simps split: if_splits)
  then show ?thesis
    using set_and_exec_with_frame [OF tx_commit_body_framed [OF assms(1)] assms(2) tx1(1)]
    by (simp add: tx_drop_def tx_commit_def tx_abort_def tx_context_def)
qed

theorem tx_commit_final_witness:
  "let am = anymap_ref :: (unit \<Rightarrow> nat option, unit, nat) anymap_ops;
       p = register_commit_handler (\<lambda>e. (Ok (), e\<lparr>te_world := te_world e + 1\<rparr>)) (tx_provider_new am);
       tx = fst (tx_new am 5) in
   \<exists>tx' e'. tx_commit p 0 tx \<lparr>te_world = 7 :: nat, te_table = (\<lambda>_. None)\<rparr> = (Ok (Ok (), tx'), e') \<and>
     tx_status tx' = Committed \<and> te_world e' = 8 \<and> te_table e' = (\<lambda>_. None)"
proof -
  define am where "am = (anymap_ref :: (unit \<Rightarrow> nat option, unit, nat) anymap_ops)"
  define p where "p = register_commit_handler (\<lambda>e. (Ok (), e\<lparr>te_world := te_world e + 1\<rparr>))
    (tx_provider_new am :: (nat, unit \<Rightarrow> nat option) tx_provider)"
  define tx where "tx = fst (tx_new am 5)"
  let ?e = "\<lparr>te_world = 7 :: nat, te_table = (\<lambda>_. None)\<rparr>"
  have framed: "handlers_framed 0 p"
    by (auto simp: handlers_framed_def p_def register_commit_handler_def tx_provider_new_def
        tx_framed_def tx_frame_def split: option.splits)
  obtain tx' e' where run: "tx_commit p 0 tx ?e = (Ok (Ok (), tx'), e')" "te_world e' = 8"
    by (simp add: p_def tx_def tx_new_def tx_commit_alt set_and_exec_with_def tx_commit_body_def
        call_precommit_handlers_def call_commit_handlers_def tx_provider_new_def
        register_commit_handler_def sbind_def)
  have "tx_status tx' = Committed" "te_table e' = (\<lambda>_. None)"
    using tx_commit_final [OF framed _ run(1), of e' "sret ()"] by simp_all
  then show ?thesis
    using run unfolding p_def tx_def am_def Let_def by blast
qed

text \<open>Per-transaction data behaves as a variable of the running transaction: what the closure of
  \<open>data_mut_with\<close> leaves is what the next \<open>data_with\<close> of the thread sees, the data of other types
  and of other threads' transactions is unchanged, and so are the identity and the status of
  the transaction.\<close>

theorem tx_data_read_back:
  assumes "anymap_laws am" "tx_idle e tid" "current_data am p e tid k = Some d"
    and "f d (te_world e) = (Inr (v, d'), w')" "g d' w' = (Inr x, w'')"
  shows "\<exists>e' e''. data_mut_with am p tid k f e = (Ok v, e') \<and> te_world e' = w' \<and> tx_frame tid e e' \<and>
    (\<forall>t k'. (t, k') \<noteq> (tid, k) \<longrightarrow> current_data am p e' t k' = current_data am p e t k') \<and>
    data_with am p tid k g e' = (Ok x, e'') \<and> te_world e'' = w''"
proof -
  obtain e' where e': "data_mut_with am p tid k f e = (Ok v, e')" "te_world e' = w'" "tx_idle e' tid"
      "tx_frame tid e e'"
      "\<And>t k'. current_data am p e' t k' = (if t = tid \<and> k' = k then Some d' else current_data am p e t k')"
    using anymap_laws.data_mut_with_spec [OF assms(1-3), of f v d' w'] assms(4) by blast
  moreover obtain e'' where "data_with am p tid k g e' = (Ok x, e'')" "te_world e'' = w''"
    using anymap_laws.data_with_spec [OF assms(1) e'(3), of p k d' g x w''] e'(2,5) assms(5) by auto
  ultimately show ?thesis by auto
qed

theorem tx_data_read_back_witness:
  "\<exists>e' e''. data_mut_with (anymap_ref :: (unit \<Rightarrow> nat option, unit, nat) anymap_ops)
      (register_data_initializer anymap_ref () 3 (tx_provider_new anymap_ref)) 0 () (\<lambda>d w. (Ok ((), d + 1), w))
      \<lparr>te_world = (), te_table = (\<lambda>_. None)(0 \<mapsto> fst (tx_new anymap_ref 1))\<rparr> = (Ok (), e') \<and>
    data_with (anymap_ref :: (unit \<Rightarrow> nat option, unit, nat) anymap_ops)
      (register_data_initializer anymap_ref () 3 (tx_provider_new anymap_ref)) 0 () (\<lambda>d w. (Ok d, w)) e' = (Ok 4, e'')"
proof -
  let ?am = "anymap_ref :: (unit \<Rightarrow> nat option, unit, nat) anymap_ops"
  let ?p = "register_data_initializer ?am () 3 (tx_provider_new ?am) :: (unit, unit \<Rightarrow> nat option) tx_provider"
  let ?e = "\<lparr>te_world = (), te_table = (\<lambda>_. None)(0 \<mapsto> fst (tx_new ?am 1))\<rparr>"
  have "tx_idle ?e 0" "current_data ?am ?p ?e 0 () = Some 3"
    by (simp_all add: tx_idle_def current_data_def tx_new_def register_data_initializer_def anymap_ref_def)
  from tx_data_read_back [OF am_ref.anymap_laws_axioms this, of "\<lambda>d w. (Ok ((), d + 1), w)" "()" 4 "()"
      "\<lambda>d w. (Ok d, w)" 4 "()"]
  show ?thesis by auto
qed

end
