(* ===== verification/Chunk_Alloc.thy ===== *)
theory Chunk_Alloc
  imports Bit_Map Tx_Model
begin

text \<open>
  The chunk allocator of the log layer (\<open>core/src/layers/3-log/chunk.rs\<close>).

  \<open>chunk_alloc_state\<close> is \<open>ChunkAllocState\<close>: the bitmap of allocated chunks with its counters.
  \<open>chunk_alloc_edit\<close> is \<open>ChunkAllocEdit\<close>, the per-transaction record of allocations and
  deallocations, a hash map kept as an association list whose order is the (arbitrary) iteration
  order. The operations of \<open>ChunkAlloc\<close> take the shared state and the edit of the current
  transaction; an allocation takes effect in the state at once, a deallocation at commit.

  The last part puts concurrent transactions together as a transition system and shows that it
  implements a specification with a committed set of chunks and private pending changes.
\<close>

definition CHUNK_NBLOCKS :: nat where
  "CHUNK_NBLOCKS = 1024"

type_synonym chunk_id = nat

record chunk_alloc_state =
  ca_alloc_map :: bitmap
  ca_free_count :: nat
  ca_next_free :: nat
  ca_in_journal :: bool

definition chunk_state_new :: "bittle \<Rightarrow> nat \<Rightarrow> chunk_alloc_state res" where
  "chunk_state_new bt capacity =
    rbind (bitmap_repeat bt False capacity) (\<lambda>m.
      Ok \<lparr>ca_alloc_map = m, ca_free_count = capacity, ca_next_free = 0, ca_in_journal = False\<rparr>)"

definition chunk_state_new_in_journal :: "bittle \<Rightarrow> nat \<Rightarrow> chunk_alloc_state res" where
  "chunk_state_new_in_journal bt capacity =
    rbind (bitmap_repeat bt False capacity) (\<lambda>m.
      Ok \<lparr>ca_alloc_map = m, ca_free_count = capacity, ca_next_free = 0, ca_in_journal = True\<rparr>)"

definition chunk_state_alloc :: "bittle \<Rightarrow> chunk_alloc_state \<Rightarrow> (chunk_id option \<times> chunk_alloc_state) res" where
  "chunk_state_alloc bt s =
    (let next_free = (if ca_next_free s = bitmap_len (ca_alloc_map s) then 0 else ca_next_free s) in
     rbind (bitmap_first_zero bt (ca_alloc_map s) next_free) (\<lambda>found.
     rbind (case found of
              Some chunk_id \<Rightarrow> Ok chunk_id
            | None \<Rightarrow> rbind (bitmap_first_zero bt (ca_alloc_map s) 0) res_unwrap) (\<lambda>free_chunk_id.
     rbind (bitmap_set bt (ca_alloc_map s) free_chunk_id True) (\<lambda>m.
     rbind (checked_sub (ca_free_count s) 1) (\<lambda>n.
       Ok (Some free_chunk_id,
           s\<lparr>ca_alloc_map := m, ca_free_count := n, ca_next_free := free_chunk_id + 1\<rparr>))))))"

definition chunk_state_dealloc :: "bittle \<Rightarrow> chunk_id \<Rightarrow> chunk_alloc_state \<Rightarrow> chunk_alloc_state res" where
  "chunk_state_dealloc bt chunk_id s =
    rbind (bitmap_test_bit bt (ca_alloc_map s) chunk_id) (\<lambda>b.
    rbind (rassert b) (\<lambda>_.
    rbind (bitmap_set bt (ca_alloc_map s) chunk_id False) (\<lambda>m.
      Ok (s\<lparr>ca_alloc_map := m, ca_free_count := ca_free_count s + 1\<rparr>))))"

definition chunk_state_capacity :: "chunk_alloc_state \<Rightarrow> nat" where
  "chunk_state_capacity s = bitmap_len (ca_alloc_map s)"

definition chunk_state_free_count :: "chunk_alloc_state \<Rightarrow> nat" where
  "chunk_state_free_count s = ca_free_count s"

definition is_chunk_allocated :: "bittle \<Rightarrow> chunk_alloc_state \<Rightarrow> chunk_id \<Rightarrow> bool res" where
  "is_chunk_allocated bt s chunk_id = bitmap_test_bit bt (ca_alloc_map s) chunk_id"

section \<open>Edits\<close>

datatype chunk_edit = Alloc | Dealloc

type_synonym chunk_alloc_edit = "(chunk_id \<times> chunk_edit) list"

definition chunk_edit_new :: chunk_alloc_edit where
  "chunk_edit_new = []"

definition chunk_edit_alloc :: "chunk_id \<Rightarrow> chunk_alloc_edit \<Rightarrow> chunk_alloc_edit res" where
  "chunk_edit_alloc chunk_id edit =
    (let old_edit = map_of edit chunk_id; edit' = AList.update chunk_id Alloc edit in
     rbind (rassert (old_edit = None)) (\<lambda>_. Ok edit'))"

definition chunk_edit_dealloc :: "chunk_id \<Rightarrow> chunk_alloc_edit \<Rightarrow> (bool \<times> chunk_alloc_edit) res" where
  "chunk_edit_dealloc chunk_id edit =
    (case map_of edit chunk_id of
       None \<Rightarrow> Ok (False, AList.update chunk_id Dealloc edit)
     | Some Alloc \<Rightarrow> Ok (True, AList.delete chunk_id edit)
     | Some Dealloc \<Rightarrow> Panics)"

definition iter_allocated_chunks :: "chunk_alloc_edit \<Rightarrow> chunk_id list" where
  "iter_allocated_chunks edit = map fst (filter (\<lambda>(_, e). e = Alloc) edit)"

definition chunk_edit_is_empty :: "chunk_alloc_edit \<Rightarrow> bool" where
  "chunk_edit_is_empty edit = (edit = [])"

definition chunk_edit_apply_to :: "bittle \<Rightarrow> chunk_alloc_edit \<Rightarrow> chunk_alloc_state \<Rightarrow> chunk_alloc_state res" where
  "chunk_edit_apply_to bt edit state =
    rbind (rfold (\<lambda>(chunk_id, e) (state, to_be_deallocated).
        case e of
          Alloc \<Rightarrow>
            if ca_in_journal state
            then rbind (chunk_state_alloc bt state) (\<lambda>(r, state).
              rbind (res_unwrap r) (\<lambda>_. Ok (state, to_be_deallocated)))
            else Ok (state, to_be_deallocated)
        | Dealloc \<Rightarrow> Ok (state, to_be_deallocated @ [chunk_id]))
      edit (state, []))
    (\<lambda>(state, to_be_deallocated). rfold (chunk_state_dealloc bt) to_be_deallocated state)"

section \<open>The allocator\<close>

definition chunk_alloc_from_parts :: "chunk_alloc_state \<Rightarrow> chunk_alloc_state" where
  "chunk_alloc_from_parts state = state\<lparr>ca_in_journal := False\<rparr>"

definition chunk_alloc_alloc ::
    "bittle \<Rightarrow> chunk_alloc_state \<Rightarrow> chunk_alloc_edit \<Rightarrow> (chunk_id option \<times> chunk_alloc_state \<times> chunk_alloc_edit) res" where
  "chunk_alloc_alloc bt state edit =
    rbind (chunk_state_alloc bt state) (\<lambda>(r, state).
      case r of
        None \<Rightarrow> Ok (None, state, edit)
      | Some chunk_id \<Rightarrow> rbind (chunk_edit_alloc chunk_id edit) (\<lambda>edit. Ok (Some chunk_id, state, edit)))"

text \<open>The loop of \<open>alloc_batch\<close>: \<open>None\<close> when one allocation fails, after giving the others back.\<close>

fun alloc_batch_loop ::
    "bittle \<Rightarrow> nat \<Rightarrow> chunk_id list \<Rightarrow> chunk_alloc_state \<Rightarrow> (chunk_id list option \<times> chunk_alloc_state) res" where
  "alloc_batch_loop bt 0 ids state = Ok (Some ids, state)"
| "alloc_batch_loop bt (Suc n) ids state =
    rbind (chunk_state_alloc bt state) (\<lambda>(r, state).
      case r of
        Some chunk_id \<Rightarrow> alloc_batch_loop bt n (ids @ [chunk_id]) state
      | None \<Rightarrow> rbind (rfold (chunk_state_dealloc bt) ids state) (\<lambda>state. Ok (None, state)))"

definition chunk_alloc_batch ::
    "bittle \<Rightarrow> nat \<Rightarrow> chunk_alloc_state \<Rightarrow> chunk_alloc_edit \<Rightarrow>
      (chunk_id list option \<times> chunk_alloc_state \<times> chunk_alloc_edit) res" where
  "chunk_alloc_batch bt n state edit =
    rbind (alloc_batch_loop bt n [] state) (\<lambda>(r, state).
      case r of
        None \<Rightarrow> Ok (None, state, edit)
      | Some ids \<Rightarrow> let chunk_ids = sort ids in
          rbind (rfold chunk_edit_alloc chunk_ids edit) (\<lambda>edit. Ok (Some chunk_ids, state, edit)))"

definition chunk_alloc_dealloc ::
    "bittle \<Rightarrow> chunk_id \<Rightarrow> chunk_alloc_state \<times> chunk_alloc_edit \<Rightarrow> (chunk_alloc_state \<times> chunk_alloc_edit) res" where
  "chunk_alloc_dealloc bt chunk_id = (\<lambda>(state, edit).
    rbind (chunk_edit_dealloc chunk_id edit) (\<lambda>(should_dealloc_now, edit).
      if should_dealloc_now
      then rbind (chunk_state_dealloc bt chunk_id state) (\<lambda>state. Ok (state, edit))
      else Ok (state, edit)))"

definition chunk_alloc_dealloc_batch ::
    "bittle \<Rightarrow> chunk_id list \<Rightarrow> chunk_alloc_state \<times> chunk_alloc_edit \<Rightarrow> (chunk_alloc_state \<times> chunk_alloc_edit) res" where
  "chunk_alloc_dealloc_batch bt chunk_ids = rfold (chunk_alloc_dealloc bt) chunk_ids"

text \<open>The callbacks that \<open>from_parts\<close> registers with the transaction provider.\<close>

definition chunk_commit_handler :: "bittle \<Rightarrow> chunk_alloc_edit \<Rightarrow> chunk_alloc_state \<Rightarrow> chunk_alloc_state res" where
  "chunk_commit_handler bt edit state =
    (if edit = [] then Ok state else chunk_edit_apply_to bt edit state)"

definition chunk_abort_handler :: "bittle \<Rightarrow> chunk_alloc_edit \<Rightarrow> chunk_alloc_state \<Rightarrow> chunk_alloc_state res" where
  "chunk_abort_handler bt edit state = rfold (chunk_state_dealloc bt) (iter_allocated_chunks edit) state"

definition chunk_alloc_register ::
    "bittle \<Rightarrow> ('m, 'k, chunk_alloc_edit) anymap_ops \<Rightarrow> tid \<Rightarrow> 'k \<Rightarrow>
      (chunk_alloc_state, 'm) tx_provider \<Rightarrow> (chunk_alloc_state, 'm) tx_provider" where
  "chunk_alloc_register bt am tid k p =
    (let p = register_data_initializer am k chunk_edit_new p in
    register_abort_handler
      (data_with am p tid k (\<lambda>edit state. case chunk_abort_handler bt edit state of
        Inl f \<Rightarrow> (Inl f, state) | Inr state' \<Rightarrow> (Ok (), state')))
    (register_commit_handler
      (data_with am p tid k (\<lambda>edit state. case chunk_commit_handler bt edit state of
        Inl f \<Rightarrow> (Inl f, state) | Inr state' \<Rightarrow> (Ok (), state')))
    p))"

section \<open>The state as a set of chunks\<close>

definition chunk_inv :: "bittle \<Rightarrow> chunk_alloc_state \<Rightarrow> bool" where
  "chunk_inv bt s \<longleftrightarrow> bitmap_inv bt (ca_alloc_map s) \<and>
    ca_free_count s = length (filter Not (bitmap_abs bt (ca_alloc_map s))) \<and>
    ca_next_free s \<le> bm_nbits (ca_alloc_map s)"

definition used_chunks :: "bittle \<Rightarrow> chunk_alloc_state \<Rightarrow> chunk_id set" where
  "used_chunks bt s = {i. i < bm_nbits (ca_alloc_map s) \<and> bitmap_abs bt (ca_alloc_map s) ! i}"

abbreviation capacity :: "chunk_alloc_state \<Rightarrow> nat" where
  "capacity s \<equiv> bm_nbits (ca_alloc_map s)"

lemma used_chunks_finite [simp]: "finite (used_chunks bt s)"
  by (simp add: used_chunks_def)

lemma chunk_free_count:
  assumes "chunk_inv bt s"
  shows "ca_free_count s = capacity s - card (used_chunks bt s)" "card (used_chunks bt s) \<le> capacity s"
proof -
  let ?a = "bitmap_abs bt (ca_alloc_map s)"
  have "used_chunks bt s = {i. i < length ?a \<and> ?a ! i}"
    by (simp add: used_chunks_def)
  then have c: "card (used_chunks bt s) = length (filter id ?a)"
    by (simp add: length_filter_conv_card)
  have "length (filter id ?a) + length (filter Not ?a) = capacity s"
    using sum_length_filter_compl [of id ?a] by simp
  then show "ca_free_count s = capacity s - card (used_chunks bt s)" "card (used_chunks bt s) \<le> capacity s"
    using c assms by (auto simp: chunk_inv_def)
qed

lemma chunk_free_pos: "chunk_inv bt s \<Longrightarrow> 0 < ca_free_count s \<longleftrightarrow> (\<exists>i < capacity s. i \<notin> used_chunks bt s)"
  using length_filter_pos [of Not "bitmap_abs bt (ca_alloc_map s)"]
  by (auto simp: chunk_inv_def used_chunks_def simp del: bitmap_abs_nth length_greater_0_conv)

context bittle_laws
begin

lemma chunk_state_new_spec:
  assumes "64 * ((n + 63) div 64) < 2 ^ 32"
  shows "\<exists>s. chunk_state_new bt n = Ok s \<and> chunk_inv bt s \<and> used_chunks bt s = {} \<and> capacity s = n \<and>
    \<not> ca_in_journal s"
proof -
  obtain bm where bm: "bitmap_repeat bt False n = Ok bm" "bitmap_inv bt bm" "bitmap_abs bt bm = replicate n False"
    using bitmap_repeat_spec [OF assms] by blast
  have "bm_nbits bm = n"
    using bm(3) by (metis bitmap_abs_length length_replicate)
  then show ?thesis
    using bm by (simp add: chunk_state_new_def chunk_inv_def used_chunks_def del: bitmap_abs_nth)
qed

lemma chunk_set_spec:
  assumes "chunk_inv bt s" "i < capacity s"
  shows "\<exists>m. bitmap_set bt (ca_alloc_map s) i v = Ok m \<and> bitmap_inv bt m \<and> bm_nbits m = capacity s \<and>
    (\<forall>s'. ca_alloc_map s' = m \<longrightarrow>
      used_chunks bt s' = (if v then insert i (used_chunks bt s) else used_chunks bt s - {i})) \<and>
    length (filter Not (bitmap_abs bt m)) + (if i \<in> used_chunks bt s then 0 else 1)
      = ca_free_count s + (if v then 0 else 1)"
proof -
  let ?a = "bitmap_abs bt (ca_alloc_map s)"
  obtain m where m: "bitmap_set bt (ca_alloc_map s) i v = Ok m" "bitmap_inv bt m" "bm_nbits m = capacity s"
      "bitmap_abs bt m = ?a[i := v]"
    using bitmap_set_spec [of "ca_alloc_map s" i v] assms by (auto simp: chunk_inv_def)
  have "length (filter Not (?a[i := v])) + (if \<not> ?a ! i then 1 else 0)
      = length (filter Not ?a) + (if \<not> v then 1 else 0)"
    using length_filter_update [of i ?a Not v] assms(2) by simp
  then show ?thesis
    using m assms
    by (auto simp: used_chunks_def nth_list_update chunk_inv_def simp del: bitmap_abs_nth)
qed

text \<open>
  Allocation takes a free chunk as long as there is one, and panics otherwise.
\<close>

lemma chunk_state_alloc_spec:
  assumes "chunk_inv bt s" "0 < ca_free_count s"
  shows "\<exists>id s'. chunk_state_alloc bt s = Ok (Some id, s') \<and> id < capacity s \<and> id \<notin> used_chunks bt s \<and>
    chunk_inv bt s' \<and> capacity s' = capacity s \<and> used_chunks bt s' = insert id (used_chunks bt s) \<and>
    ca_free_count s' = ca_free_count s - 1 \<and> ca_in_journal s' = ca_in_journal s"
proof -
  let ?m = "ca_alloc_map s" and ?n = "capacity s"
  let ?nf = "if ca_next_free s = ?n then 0 else ca_next_free s"
  have bm: "bitmap_inv bt ?m" using assms(1) by (simp add: chunk_inv_def)
  obtain i where i: "i < ?n" "i \<notin> used_chunks bt s"
    using assms chunk_free_pos by blast
  have nf: "?nf < ?n"
    using assms(1) i(1) by (auto simp: chunk_inv_def)
  let ?P = "\<lambda>from i. from \<le> i \<and> \<not> bitmap_abs bt ?m ! i"
  obtain id where id: "id < ?n" "id \<notin> used_chunks bt s"
    "rbind (bitmap_first_zero bt ?m ?nf) (\<lambda>found. case found of
        Some chunk_id \<Rightarrow> Ok chunk_id
      | None \<Rightarrow> rbind (bitmap_first_zero bt ?m 0) res_unwrap) = Ok id"
  proof (cases "find (?P ?nf) [0..<?n]")
    case (Some id)
    then show thesis
      using that [of id] bitmap_first_zero_spec [OF bm nf] iffD1 [OF find_upt_Some Some]
      by (auto simp: used_chunks_def simp del: bitmap_abs_nth)
  next
    case None
    have "find (?P 0) [0..<?n] \<noteq> None"
      using i by (auto simp: find_upt_None used_chunks_def simp del: bitmap_abs_nth)
    then obtain id where some: "find (?P 0) [0..<?n] = Some id" by blast
    then show thesis
      using that [of id] bitmap_first_zero_spec [OF bm nf] bitmap_first_zero_spec [OF bm, of 0] None
        iffD1 [OF find_upt_Some some] i(1)
      by (auto simp: used_chunks_def simp del: bitmap_abs_nth)
  qed
  obtain m where m: "bitmap_set bt ?m id True = Ok m" "bitmap_inv bt m" "bm_nbits m = ?n"
      "\<And>s'. ca_alloc_map s' = m \<Longrightarrow> used_chunks bt s' = insert id (used_chunks bt s)"
      "length (filter Not (bitmap_abs bt m)) + 1 = ca_free_count s"
    using chunk_set_spec [OF assms(1) id(1), of True] id(2) by auto
  let ?s' = "s\<lparr>ca_alloc_map := m, ca_free_count := ca_free_count s - 1, ca_next_free := id + 1\<rparr>"
  have "chunk_state_alloc bt s = Ok (Some id, ?s')"
    using id(3) m(1) assms(2)
    by (auto simp: chunk_state_alloc_def bitmap_len_def Let_def res_simps)
  moreover have "chunk_inv bt ?s'"
    using m(2,3,5) id(1) by (simp add: chunk_inv_def)
  ultimately show ?thesis
    using id(1,2) m(3,4) by (intro exI [of _ id] exI [of _ ?s']) simp
qed

lemma chunk_state_alloc_full:
  assumes "chunk_inv bt s" "ca_free_count s = 0"
  shows "chunk_state_alloc bt s = Panics"
proof -
  let ?m = "ca_alloc_map s" and ?n = "capacity s"
  have bm: "bitmap_inv bt ?m" and nf: "ca_next_free s \<le> ?n" using assms(1) by (simp_all add: chunk_inv_def)
  have full: "\<And>i. i < ?n \<Longrightarrow> bitmap_abs bt ?m ! i"
    using assms chunk_free_pos [OF assms(1)] by (auto simp: used_chunks_def simp del: bitmap_abs_nth)
  show ?thesis
  proof (cases "?n = 0")
    case True
    then show ?thesis
      using nf by (simp add: chunk_state_alloc_def bitmap_first_zero_def bitmap_check_index_def bitmap_len_def)
  next
    case False
    have "bitmap_first_zero bt ?m from = Ok None" if "from < ?n" for "from"
      using bitmap_first_zero_spec [OF bm that] full by (auto simp: find_upt_None simp del: bitmap_abs_nth)
    then show ?thesis
      using nf False by (auto simp: chunk_state_alloc_def bitmap_len_def Let_def)
  qed
qed

lemma chunk_state_dealloc_spec:
  assumes "chunk_inv bt s" "cid \<in> used_chunks bt s"
  shows "\<exists>s'. chunk_state_dealloc bt cid s = Ok s' \<and> chunk_inv bt s' \<and> capacity s' = capacity s \<and>
    used_chunks bt s' = used_chunks bt s - {cid} \<and> ca_free_count s' = ca_free_count s + 1 \<and>
    ca_in_journal s' = ca_in_journal s"
proof -
  have id: "cid < capacity s" "bitmap_test_bit bt (ca_alloc_map s) cid = Ok True"
    using assms bitmap_test_bit_spec [of "ca_alloc_map s" cid] by (auto simp: used_chunks_def chunk_inv_def)
  obtain m where m: "bitmap_set bt (ca_alloc_map s) cid False = Ok m" "bitmap_inv bt m" "bm_nbits m = capacity s"
      "\<And>s'. ca_alloc_map s' = m \<Longrightarrow> used_chunks bt s' = used_chunks bt s - {cid}"
      "length (filter Not (bitmap_abs bt m)) = ca_free_count s + 1"
    using chunk_set_spec [OF assms(1) id(1), of False] assms(2) by auto
  then show ?thesis
    using id assms(1) by (auto simp: chunk_state_dealloc_def chunk_inv_def)
qed

end

section \<open>Edits as sets of chunks\<close>

definition edit_allocs :: "chunk_alloc_edit \<Rightarrow> chunk_id set" where
  "edit_allocs edit = {c. map_of edit c = Some Alloc}"

definition edit_deallocs :: "chunk_alloc_edit \<Rightarrow> chunk_id set" where
  "edit_deallocs edit = {c. map_of edit c = Some Dealloc}"

abbreviation edit_wf :: "chunk_alloc_edit \<Rightarrow> bool" where
  "edit_wf edit \<equiv> distinct (map fst edit)"

lemma edit_empty [simp]: "edit_allocs [] = {}" "edit_deallocs [] = {}"
  by (simp_all add: edit_allocs_def edit_deallocs_def)

lemma edit_disjoint: "edit_allocs edit \<inter> edit_deallocs edit = {}"
  by (auto simp: edit_allocs_def edit_deallocs_def)

lemma edit_none_iff: "map_of edit c = None \<longleftrightarrow> c \<notin> edit_allocs edit \<union> edit_deallocs edit"
  by (cases "map_of edit c") (auto simp: edit_allocs_def edit_deallocs_def intro: chunk_edit.exhaust)

lemma chunk_edit_alloc_spec:
  assumes "c \<notin> edit_allocs edit \<union> edit_deallocs edit" "edit_wf edit"
  shows "\<exists>edit'. chunk_edit_alloc c edit = Ok edit' \<and> edit_wf edit' \<and>
    edit_allocs edit' = insert c (edit_allocs edit) \<and> edit_deallocs edit' = edit_deallocs edit"
proof -
  have "map_of edit c = None"
    using assms(1) by (simp add: edit_none_iff)
  then show ?thesis
    using assms(2)
    by (auto simp: chunk_edit_alloc_def edit_allocs_def edit_deallocs_def update_conv' distinct_update)
qed

lemma chunk_edit_allocs_spec:
  assumes "set cs \<inter> (edit_allocs edit \<union> edit_deallocs edit) = {}" "distinct cs" "edit_wf edit"
  shows "\<exists>edit'. rfold chunk_edit_alloc cs edit = Ok edit' \<and> edit_wf edit' \<and>
    edit_allocs edit' = edit_allocs edit \<union> set cs \<and> edit_deallocs edit' = edit_deallocs edit"
  using assms
proof (induction cs arbitrary: edit)
  case (Cons c cs)
  obtain e1 where e1: "chunk_edit_alloc c edit = Ok e1" "edit_wf e1"
      "edit_allocs e1 = insert c (edit_allocs edit)" "edit_deallocs e1 = edit_deallocs edit"
    using chunk_edit_alloc_spec [of c edit] Cons.prems by auto
  then have "set cs \<inter> (edit_allocs e1 \<union> edit_deallocs e1) = {}" "distinct cs"
    using Cons.prems by auto
  then show ?case
    using Cons.IH [OF _ _ e1(2)] e1 by auto
qed simp

lemma chunk_edit_dealloc_alloc:
  assumes "c \<in> edit_allocs edit" "edit_wf edit"
  shows "\<exists>edit'. chunk_edit_dealloc c edit = Ok (True, edit') \<and> edit_wf edit' \<and>
    edit_allocs edit' = edit_allocs edit - {c} \<and> edit_deallocs edit' = edit_deallocs edit"
  using assms
  by (auto simp: chunk_edit_dealloc_def edit_allocs_def edit_deallocs_def delete_conv' distinct_delete
      simp del: map_of_eq_Some_iff)

lemma chunk_edit_dealloc_other:
  assumes "c \<notin> edit_allocs edit \<union> edit_deallocs edit" "edit_wf edit"
  shows "\<exists>edit'. chunk_edit_dealloc c edit = Ok (False, edit') \<and> edit_wf edit' \<and>
    edit_allocs edit' = edit_allocs edit \<and> edit_deallocs edit' = insert c (edit_deallocs edit)"
proof -
  have "map_of edit c = None"
    using assms(1) by (simp add: edit_none_iff)
  then show ?thesis
    using assms(2)
    by (auto simp: chunk_edit_dealloc_def edit_allocs_def edit_deallocs_def update_conv' distinct_update)
qed

lemma chunk_edit_dealloc_twice: "c \<in> edit_deallocs edit \<Longrightarrow> chunk_edit_dealloc c edit = Panics"
  by (simp add: chunk_edit_dealloc_def edit_deallocs_def)

lemma set_iter_filter:
  "edit_wf edit \<Longrightarrow> set (map fst (filter (\<lambda>(_, e). e = x) edit)) = {c. map_of edit c = Some x}"
  by (force simp: map_of_eq_Some_iff)

lemma distinct_iter_filter: "edit_wf edit \<Longrightarrow> distinct (map fst (filter P edit))"
  by (induction edit) auto

lemma iter_allocated_spec:
  "edit_wf edit \<Longrightarrow> set (iter_allocated_chunks edit) = edit_allocs edit \<and> distinct (iter_allocated_chunks edit)"
  unfolding iter_allocated_chunks_def edit_allocs_def
  by (auto simp only: set_iter_filter distinct_iter_filter)

text \<open>Outside the journal, applying an edit deallocates what it says and nothing else.\<close>

lemma apply_to_deallocs:
  assumes "\<not> ca_in_journal s"
  shows "chunk_edit_apply_to bt edit s
    = rfold (chunk_state_dealloc bt) (map fst (filter (\<lambda>(_, e). e = Dealloc) edit)) s"
proof -
  let ?f = "\<lambda>(chunk_id, e) (state, to_be_deallocated).
        case e of
          Alloc \<Rightarrow>
            if ca_in_journal state
            then rbind (chunk_state_alloc bt state) (\<lambda>(r, state).
              rbind (res_unwrap r) (\<lambda>_. Ok (state, to_be_deallocated)))
            else Ok (state, to_be_deallocated)
        | Dealloc \<Rightarrow> Ok (state, to_be_deallocated @ [chunk_id])"
  have "rfold ?f edit (s, acc) = Ok (s, acc @ map fst (filter (\<lambda>(_, e). e = Dealloc) edit))" for acc
    using assms
  proof (induction edit arbitrary: acc)
    case (Cons x edit)
    then show ?case by (cases x; cases "snd x") auto
  qed simp
  from this [of "[]"] show ?thesis
    by (simp add: chunk_edit_apply_to_def)
qed

context bittle_laws
begin

lemma chunk_state_deallocs_spec:
  assumes "chunk_inv bt s" "set cs \<subseteq> used_chunks bt s" "distinct cs"
  shows "\<exists>s'. rfold (chunk_state_dealloc bt) cs s = Ok s' \<and> chunk_inv bt s' \<and> capacity s' = capacity s \<and>
    used_chunks bt s' = used_chunks bt s - set cs \<and> ca_in_journal s' = ca_in_journal s"
  using assms
proof (induction cs arbitrary: s)
  case (Cons c cs)
  obtain s1 where s1: "chunk_state_dealloc bt c s = Ok s1" "chunk_inv bt s1" "capacity s1 = capacity s"
      "used_chunks bt s1 = used_chunks bt s - {c}" "ca_in_journal s1 = ca_in_journal s"
    using chunk_state_dealloc_spec [OF Cons.prems(1), of c] Cons.prems(2) by auto
  have "set cs \<subseteq> used_chunks bt s1" "distinct cs"
    using Cons.prems s1(4) by auto
  then show ?case
    using Cons.IH [OF s1(2)] s1 by auto
qed simp

lemma alloc_batch_loop_spec:
  assumes "chunk_inv bt s" "n \<le> ca_free_count s"
  shows "\<exists>new s'. alloc_batch_loop bt n ids s = Ok (Some (ids @ new), s') \<and> length new = n \<and> distinct new \<and>
    set new \<inter> used_chunks bt s = {} \<and> set new \<subseteq> {..<capacity s} \<and> chunk_inv bt s' \<and> capacity s' = capacity s \<and>
    used_chunks bt s' = used_chunks bt s \<union> set new \<and> ca_free_count s' = ca_free_count s - n \<and>
    ca_in_journal s' = ca_in_journal s"
  using assms
proof (induction n arbitrary: ids s)
  case (Suc n)
  obtain c s1 where s1: "chunk_state_alloc bt s = Ok (Some c, s1)" "c < capacity s" "c \<notin> used_chunks bt s"
      "chunk_inv bt s1" "capacity s1 = capacity s" "used_chunks bt s1 = insert c (used_chunks bt s)"
      "ca_free_count s1 = ca_free_count s - 1" "ca_in_journal s1 = ca_in_journal s"
    using chunk_state_alloc_spec [OF Suc.prems(1)] Suc.prems(2) by auto
  have "n \<le> ca_free_count s1"
    using Suc.prems(2) s1(7) by simp
  then obtain new s' where n: "alloc_batch_loop bt n (ids @ [c]) s1 = Ok (Some ((ids @ [c]) @ new), s')"
      "length new = n" "distinct new" "set new \<inter> used_chunks bt s1 = {}" "set new \<subseteq> {..<capacity s1}"
      "chunk_inv bt s'" "capacity s' = capacity s1" "used_chunks bt s' = used_chunks bt s1 \<union> set new"
      "ca_free_count s' = ca_free_count s1 - n" "ca_in_journal s' = ca_in_journal s1"
    using Suc.IH [OF s1(4), of "ids @ [c]"] by blast
  show ?case
    by (rule exI [of _ "c # new"], rule exI [of _ s']) (use s1 n in auto)
qed simp

lemma alloc_batch_loop_full:
  assumes "chunk_inv bt s" "ca_free_count s < n"
  shows "alloc_batch_loop bt n ids s = Panics"
  using assms
proof (induction n arbitrary: ids s)
  case (Suc n)
  show ?case
  proof (cases "ca_free_count s = 0")
    case True
    then show ?thesis using chunk_state_alloc_full [OF Suc.prems(1)] by simp
  next
    case False
    then obtain c s1 where "chunk_state_alloc bt s = Ok (Some c, s1)" "chunk_inv bt s1"
        "ca_free_count s1 = ca_free_count s - 1"
      using chunk_state_alloc_spec [OF Suc.prems(1)] by auto
    then show ?thesis
      using Suc.IH [of s1 "ids @ [c]"] Suc.prems(2) False by auto
  qed
qed simp

end

section \<open>Concurrent transactions\<close>

text \<open>
  The allocator with the edits of all ongoing transactions. A deallocation is one a client of the
  allocator may ask for: of an allocated chunk that no other ongoing transaction has in its edit
  and that this one has not deallocated already.
\<close>

record chunk_sys =
  cs_state :: chunk_alloc_state
  cs_edits :: "tid \<Rightarrow> chunk_alloc_edit option"

datatype chunk_label =
    Begin tid
  | AllocOne tid
  | AllocBatch tid nat
  | DeallocOne tid chunk_id
  | Commit tid
  | Abort tid

definition edit_of :: "chunk_sys \<Rightarrow> tid \<Rightarrow> chunk_alloc_edit" where
  "edit_of y t = (case cs_edits y t of None \<Rightarrow> [] | Some edit \<Rightarrow> edit)"

definition touched :: "chunk_alloc_edit \<Rightarrow> chunk_id set" where
  "touched edit = edit_allocs edit \<union> edit_deallocs edit"

inductive chunk_step :: "bittle \<Rightarrow> chunk_sys \<Rightarrow> chunk_label \<Rightarrow> chunk_sys \<Rightarrow> bool" for bt where
  begin_step: "cs_edits y t = None \<Longrightarrow>
    chunk_step bt y (Begin t) (y\<lparr>cs_edits := (cs_edits y)(t \<mapsto> chunk_edit_new)\<rparr>)"
| alloc_step: "cs_edits y t = Some edit \<Longrightarrow> chunk_alloc_alloc bt (cs_state y) edit = Ok (r, s', edit') \<Longrightarrow>
    chunk_step bt y (AllocOne t) (y\<lparr>cs_state := s', cs_edits := (cs_edits y)(t \<mapsto> edit')\<rparr>)"
| batch_step: "cs_edits y t = Some edit \<Longrightarrow> chunk_alloc_batch bt n (cs_state y) edit = Ok (r, s', edit') \<Longrightarrow>
    chunk_step bt y (AllocBatch t n) (y\<lparr>cs_state := s', cs_edits := (cs_edits y)(t \<mapsto> edit')\<rparr>)"
| dealloc_step: "cs_edits y t = Some edit \<Longrightarrow> c \<in> used_chunks bt (cs_state y) \<Longrightarrow>
    (\<And>t'. t' \<noteq> t \<Longrightarrow> c \<notin> touched (edit_of y t')) \<Longrightarrow>
    chunk_alloc_dealloc bt c (cs_state y, edit) = Ok (s', edit') \<Longrightarrow>
    chunk_step bt y (DeallocOne t c) (y\<lparr>cs_state := s', cs_edits := (cs_edits y)(t \<mapsto> edit')\<rparr>)"
| commit_step: "cs_edits y t = Some edit \<Longrightarrow> chunk_commit_handler bt edit (cs_state y) = Ok s' \<Longrightarrow>
    chunk_step bt y (Commit t) (y\<lparr>cs_state := s', cs_edits := (cs_edits y)(t := None)\<rparr>)"
| abort_step: "cs_edits y t = Some edit \<Longrightarrow> chunk_abort_handler bt edit (cs_state y) = Ok s' \<Longrightarrow>
    chunk_step bt y (Abort t) (y\<lparr>cs_state := s', cs_edits := (cs_edits y)(t := None)\<rparr>)"

inductive_simps chunk_step_simps:
  "chunk_step bt y (Begin t) y'" "chunk_step bt y (AllocOne t) y'" "chunk_step bt y (AllocBatch t n) y'"
  "chunk_step bt y (DeallocOne t c) y'" "chunk_step bt y (Commit t) y'" "chunk_step bt y (Abort t) y'"

inductive chunk_reach :: "bittle \<Rightarrow> nat \<Rightarrow> chunk_sys \<Rightarrow> bool" for bt n where
  start: "chunk_state_new bt n = Ok s \<Longrightarrow>
    chunk_reach bt n \<lparr>cs_state = chunk_alloc_from_parts s, cs_edits = (\<lambda>_. None)\<rparr>"
| step: "chunk_reach bt n y \<Longrightarrow> chunk_step bt y l y' \<Longrightarrow> chunk_reach bt n y'"

text \<open>The specification state: the chunks no ongoing transaction is about to give back on abort.\<close>

definition committed :: "bittle \<Rightarrow> chunk_sys \<Rightarrow> chunk_id set" where
  "committed bt y = used_chunks bt (cs_state y) - (\<Union>t. edit_allocs (edit_of y t))"

definition chunk_sys_inv :: "bittle \<Rightarrow> nat \<Rightarrow> chunk_sys \<Rightarrow> bool" where
  "chunk_sys_inv bt n y \<longleftrightarrow> chunk_inv bt (cs_state y) \<and> capacity (cs_state y) = n \<and>
    \<not> ca_in_journal (cs_state y) \<and>
    (\<forall>t. edit_wf (edit_of y t) \<and> touched (edit_of y t) \<subseteq> used_chunks bt (cs_state y)) \<and>
    (\<forall>t t'. t \<noteq> t' \<longrightarrow> touched (edit_of y t) \<inter> touched (edit_of y t') = {})"

definition spec_step :: "(tid \<Rightarrow> chunk_alloc_edit) \<Rightarrow> chunk_label \<Rightarrow> chunk_id set \<Rightarrow> chunk_id set" where
  "spec_step ed l c = (case l of
     Commit t \<Rightarrow> (c \<union> edit_allocs (ed t)) - edit_deallocs (ed t)
   | _ \<Rightarrow> c)"

lemma edit_of_upd [simp]:
  "edit_of (y\<lparr>cs_state := s, cs_edits := (cs_edits y)(t \<mapsto> e)\<rparr>) t' = (if t' = t then e else edit_of y t')"
  "edit_of (y\<lparr>cs_edits := (cs_edits y)(t \<mapsto> e)\<rparr>) t' = (if t' = t then e else edit_of y t')"
  "edit_of (y\<lparr>cs_state := s, cs_edits := (cs_edits y)(t := None)\<rparr>) t' = (if t' = t then [] else edit_of y t')"
  by (simp_all add: edit_of_def)

lemma edit_of_Some [simp]: "cs_edits y t = Some edit \<Longrightarrow> edit_of y t = edit"
  by (simp add: edit_of_def)

text \<open>
  Every step is a change of the shared chunks and of one edit; this is what such a change has to
  satisfy to keep the invariant, and what it does to the committed chunks.
\<close>

lemma chunk_sys_inv_change:
  assumes "chunk_sys_inv bt n y" "chunk_inv bt s'" "capacity s' = n" "\<not> ca_in_journal s'"
    and "\<And>t'. edit_of y' t' = (if t' = t then edit' else edit_of y t')" "cs_state y' = s'"
    and "edit_wf edit'" "touched edit' \<subseteq> used_chunks bt s'"
    and "\<And>t'. t' \<noteq> t \<Longrightarrow> touched (edit_of y t') \<inter> touched edit' = {}"
    and "\<And>t'. t' \<noteq> t \<Longrightarrow> touched (edit_of y t') \<subseteq> used_chunks bt s'"
  shows "chunk_sys_inv bt n y'"
  using assms unfolding chunk_sys_inv_def by (simp add: Int_commute)

lemma committed_change:
  assumes "\<And>t'. edit_of y' t' = (if t' = t then edit' else edit_of y t')"
  shows "committed bt y' = used_chunks bt (cs_state y') - edit_allocs edit' -
    (\<Union>t' \<in> - {t}. edit_allocs (edit_of y t'))"
  using assms by (auto simp: committed_def split: if_splits)

lemma committed_split:
  "committed bt y = used_chunks bt (cs_state y) - edit_allocs (edit_of y t) -
    (\<Union>t' \<in> - {t}. edit_allocs (edit_of y t'))"
  by (rule committed_change) simp

text \<open>The change an allocation of the chunks \<open>new\<close> makes to the state and to the edit.\<close>

definition alloc_change ::
    "bittle \<Rightarrow> chunk_id set \<Rightarrow> chunk_alloc_state \<Rightarrow> chunk_alloc_edit \<Rightarrow> chunk_alloc_state \<Rightarrow> chunk_alloc_edit \<Rightarrow> bool" where
  "alloc_change bt new s edit s' edit' \<longleftrightarrow> chunk_inv bt s' \<and> capacity s' = capacity s \<and>
    ca_in_journal s' = ca_in_journal s \<and> edit_wf edit' \<and> new \<inter> used_chunks bt s = {} \<and>
    used_chunks bt s' = used_chunks bt s \<union> new \<and> edit_allocs edit' = edit_allocs edit \<union> new \<and>
    edit_deallocs edit' = edit_deallocs edit"

context bittle_laws
begin

lemma chunk_alloc_alloc_spec:
  assumes "chunk_inv bt s" "edit_wf edit" "touched edit \<subseteq> used_chunks bt s" "0 < ca_free_count s"
  shows "\<exists>c s' edit'. chunk_alloc_alloc bt s edit = Ok (Some c, s', edit') \<and> c < capacity s \<and>
    alloc_change bt {c} s edit s' edit'"
proof -
  obtain c s' where s': "chunk_state_alloc bt s = Ok (Some c, s')" "c < capacity s" "c \<notin> used_chunks bt s"
      "chunk_inv bt s'" "capacity s' = capacity s" "used_chunks bt s' = insert c (used_chunks bt s)"
      "ca_in_journal s' = ca_in_journal s"
    using chunk_state_alloc_spec [OF assms(1,4)] by auto
  obtain edit' where "chunk_edit_alloc c edit = Ok edit'" "edit_wf edit'"
      "edit_allocs edit' = insert c (edit_allocs edit)" "edit_deallocs edit' = edit_deallocs edit"
    using chunk_edit_alloc_spec [of c edit] assms(2,3) s'(3) by (auto simp: touched_def)
  then show ?thesis
    using s' by (auto simp: chunk_alloc_alloc_def alloc_change_def)
qed

lemma chunk_alloc_alloc_full:
  "chunk_inv bt s \<Longrightarrow> ca_free_count s = 0 \<Longrightarrow> chunk_alloc_alloc bt s edit = Panics"
  by (simp add: chunk_alloc_alloc_def chunk_state_alloc_full)

lemma chunk_alloc_batch_spec:
  assumes "chunk_inv bt s" "edit_wf edit" "touched edit \<subseteq> used_chunks bt s" "n \<le> ca_free_count s"
  shows "\<exists>cs s' edit'. chunk_alloc_batch bt n s edit = Ok (Some cs, s', edit') \<and> length cs = n \<and>
    sorted cs \<and> distinct cs \<and> set cs \<subseteq> {..<capacity s} \<and> alloc_change bt (set cs) s edit s' edit'"
proof -
  obtain new s' where s': "alloc_batch_loop bt n [] s = Ok (Some new, s')" "length new = n" "distinct new"
      "set new \<inter> used_chunks bt s = {}" "set new \<subseteq> {..<capacity s}" "chunk_inv bt s'" "capacity s' = capacity s"
      "used_chunks bt s' = used_chunks bt s \<union> set new" "ca_in_journal s' = ca_in_journal s"
    using alloc_batch_loop_spec [OF assms(1,4), of "[]"] by auto
  obtain edit' where "rfold chunk_edit_alloc (sort new) edit = Ok edit'" "edit_wf edit'"
      "edit_allocs edit' = edit_allocs edit \<union> set new" "edit_deallocs edit' = edit_deallocs edit"
    using chunk_edit_allocs_spec [of "sort new" edit] assms(2,3) s'(3,4) by (auto simp: touched_def)
  then show ?thesis
    using s' by (auto simp: chunk_alloc_batch_def alloc_change_def Let_def)
qed

lemma chunk_alloc_batch_full:
  "chunk_inv bt s \<Longrightarrow> ca_free_count s < n \<Longrightarrow> chunk_alloc_batch bt n s edit = Panics"
  by (simp add: chunk_alloc_batch_def alloc_batch_loop_full)

lemma chunk_alloc_dealloc_own:
  assumes "chunk_inv bt s" "edit_wf edit" "touched edit \<subseteq> used_chunks bt s" "c \<in> edit_allocs edit"
  shows "\<exists>s' edit'. chunk_alloc_dealloc bt c (s, edit) = Ok (s', edit') \<and> chunk_inv bt s' \<and>
    capacity s' = capacity s \<and> ca_in_journal s' = ca_in_journal s \<and> edit_wf edit' \<and>
    used_chunks bt s' = used_chunks bt s - {c} \<and> edit_allocs edit' = edit_allocs edit - {c} \<and>
    edit_deallocs edit' = edit_deallocs edit"
proof -
  have "c \<in> used_chunks bt s" using assms(3,4) by (auto simp: touched_def)
  then obtain s' where "chunk_state_dealloc bt c s = Ok s'" "chunk_inv bt s'" "capacity s' = capacity s"
      "used_chunks bt s' = used_chunks bt s - {c}" "ca_in_journal s' = ca_in_journal s"
    using chunk_state_dealloc_spec [OF assms(1)] by blast
  then show ?thesis
    using chunk_edit_dealloc_alloc [OF assms(4,2)] by (auto simp: chunk_alloc_dealloc_def)
qed

lemma chunk_alloc_dealloc_later:
  assumes "edit_wf edit" "c \<notin> touched edit"
  shows "\<exists>edit'. chunk_alloc_dealloc bt c (s, edit) = Ok (s, edit') \<and> edit_wf edit' \<and>
    edit_allocs edit' = edit_allocs edit \<and> edit_deallocs edit' = insert c (edit_deallocs edit)"
  using chunk_edit_dealloc_other [of c edit] assms by (auto simp: chunk_alloc_dealloc_def touched_def)

lemma dealloc_batch_later:
  assumes "edit_wf edit" "distinct cs" "set cs \<inter> touched edit = {}"
  shows "\<exists>edit'. chunk_alloc_dealloc_batch bt cs (s, edit) = Ok (s, edit') \<and> edit_wf edit' \<and>
    edit_allocs edit' = edit_allocs edit \<and> edit_deallocs edit' = edit_deallocs edit \<union> set cs"
  using assms
proof (induction cs arbitrary: edit)
  case (Cons c cs)
  obtain edit1 where e1: "chunk_alloc_dealloc bt c (s, edit) = Ok (s, edit1)" "edit_wf edit1"
      "edit_allocs edit1 = edit_allocs edit" "edit_deallocs edit1 = insert c (edit_deallocs edit)"
    using chunk_alloc_dealloc_later [of edit c s] Cons.prems by auto
  have "set cs \<inter> touched edit1 = {}"
    using Cons.prems e1(3,4) by (auto simp: touched_def)
  from Cons.IH [OF e1(2) _ this] Cons.prems(2) show ?case
    using e1 by (auto simp: chunk_alloc_dealloc_batch_def)
qed (simp add: chunk_alloc_dealloc_batch_def)

lemma chunk_commit_spec:
  assumes "chunk_inv bt s" "\<not> ca_in_journal s" "edit_wf edit" "touched edit \<subseteq> used_chunks bt s"
  shows "\<exists>s'. chunk_commit_handler bt edit s = Ok s' \<and> chunk_inv bt s' \<and> capacity s' = capacity s \<and>
    ca_in_journal s' = ca_in_journal s \<and> used_chunks bt s' = used_chunks bt s - edit_deallocs edit"
proof (cases "edit = []")
  case True
  then show ?thesis using assms by (simp add: chunk_commit_handler_def)
next
  case False
  let ?cs = "map fst (filter (\<lambda>(_, e). e = Dealloc) edit)"
  have "set ?cs = edit_deallocs edit" "distinct ?cs"
    unfolding edit_deallocs_def by (rule set_iter_filter [OF assms(3)] distinct_iter_filter [OF assms(3)])+
  then show ?thesis
    using chunk_state_deallocs_spec [OF assms(1), of ?cs] assms(4) False apply_to_deallocs [OF assms(2), of bt edit]
    by (auto simp: chunk_commit_handler_def touched_def)
qed

lemma chunk_abort_spec:
  assumes "chunk_inv bt s" "edit_wf edit" "touched edit \<subseteq> used_chunks bt s"
  shows "\<exists>s'. chunk_abort_handler bt edit s = Ok s' \<and> chunk_inv bt s' \<and> capacity s' = capacity s \<and>
    ca_in_journal s' = ca_in_journal s \<and> used_chunks bt s' = used_chunks bt s - edit_allocs edit"
  using chunk_state_deallocs_spec [OF assms(1), of "iter_allocated_chunks edit"] iter_allocated_spec [OF assms(2)]
    assms(3)
  by (auto simp: chunk_abort_handler_def touched_def)

end

lemma chunk_sys_invD:
  assumes "chunk_sys_inv bt n y" "cs_edits y t = Some edit"
  shows "chunk_inv bt (cs_state y)" "capacity (cs_state y) = n" "\<not> ca_in_journal (cs_state y)"
    "edit_wf edit" "touched edit \<subseteq> used_chunks bt (cs_state y)"
    "\<And>t'. t' \<noteq> t \<Longrightarrow> touched (edit_of y t') \<inter> touched edit = {}"
    "\<And>t'. touched (edit_of y t') \<subseteq> used_chunks bt (cs_state y)"
  using assms(1) edit_of_Some [OF assms(2)] unfolding chunk_sys_inv_def by metis+

context bittle_laws
begin

lemma alloc_change_sim:
  assumes "chunk_sys_inv bt n y" "cs_edits y t = Some edit" "alloc_change bt new (cs_state y) edit s' edit'"
    and y': "y' = y\<lparr>cs_state := s', cs_edits := (cs_edits y)(t \<mapsto> edit')\<rparr>"
  shows "chunk_sys_inv bt n y' \<and> committed bt y' = committed bt y"
proof
  note inv = chunk_sys_invD [OF assms(1,2)]
  note chg = assms(3) [unfolded alloc_change_def]
  have touched': "touched edit' = touched edit \<union> new"
    using chg by (auto simp: touched_def)
  have new: "touched (edit_of y t') \<inter> new = {}" for t'
    using inv(7) [of t'] chg by blast
  show "chunk_sys_inv bt n y'"
  proof (rule chunk_sys_inv_change [OF assms(1), where t = t and edit' = edit' and s' = s'])
    fix t' assume "t' \<noteq> t"
    then show "touched (edit_of y t') \<inter> touched edit' = {}" "touched (edit_of y t') \<subseteq> used_chunks bt s'"
      using inv(6,7) [of t'] new [of t'] touched' chg by auto
  qed (use inv chg touched' in \<open>auto simp: y'\<close>)
  have "edit_allocs (edit_of y t') \<inter> new = {}" for t'
    using new [of t'] by (auto simp: touched_def)
  then show "committed bt y' = committed bt y"
    using assms(2) chg committed_split [of bt y t]
    by (subst committed_change [where t = t and edit' = edit' and y = y]) (auto simp: y')
qed

lemma dealloc_own_sim:
  assumes "chunk_sys_inv bt n y" "cs_edits y t = Some edit" "c \<in> edit_allocs edit"
    and "\<And>t'. t' \<noteq> t \<Longrightarrow> c \<notin> touched (edit_of y t')"
    and "chunk_alloc_dealloc bt c (cs_state y, edit) = Ok (s', edit')"
    and y': "y' = y\<lparr>cs_state := s', cs_edits := (cs_edits y)(t \<mapsto> edit')\<rparr>"
  shows "chunk_sys_inv bt n y' \<and> committed bt y' = committed bt y"
proof
  note inv = chunk_sys_invD [OF assms(1,2)]
  have chg: "chunk_inv bt s'" "capacity s' = n" "\<not> ca_in_journal s'" "edit_wf edit'"
      "used_chunks bt s' = used_chunks bt (cs_state y) - {c}" "edit_allocs edit' = edit_allocs edit - {c}"
      "edit_deallocs edit' = edit_deallocs edit"
    using chunk_alloc_dealloc_own [OF inv(1,4,5) assms(3)] assms(5) inv(2,3) by auto
  have touched': "touched edit' = touched edit - {c}"
    using chg assms(3) edit_disjoint [of edit] by (auto simp: touched_def)
  show "chunk_sys_inv bt n y'"
  proof (rule chunk_sys_inv_change [OF assms(1), where t = t and edit' = edit' and s' = s'])
    fix t' assume "t' \<noteq> t"
    then show "touched (edit_of y t') \<inter> touched edit' = {}" "touched (edit_of y t') \<subseteq> used_chunks bt s'"
      using inv(6,7) [of t'] assms(4) [of t'] touched' chg(5) by auto
  qed (use inv chg touched' in \<open>auto simp: y'\<close>)
  show "committed bt y' = committed bt y"
    using assms(2-4) chg committed_split [of bt y t]
    by (subst committed_change [where t = t and edit' = edit' and y = y]) (auto simp: y' touched_def)
qed

lemma dealloc_later_sim:
  assumes "chunk_sys_inv bt n y" "cs_edits y t = Some edit" "c \<notin> touched edit"
    and "c \<in> used_chunks bt (cs_state y)" "\<And>t'. t' \<noteq> t \<Longrightarrow> c \<notin> touched (edit_of y t')"
    and "chunk_alloc_dealloc bt c (cs_state y, edit) = Ok (s', edit')"
    and y': "y' = y\<lparr>cs_state := s', cs_edits := (cs_edits y)(t \<mapsto> edit')\<rparr>"
  shows "chunk_sys_inv bt n y' \<and> committed bt y' = committed bt y"
proof
  note inv = chunk_sys_invD [OF assms(1,2)]
  have chg: "s' = cs_state y" "edit_wf edit'" "edit_allocs edit' = edit_allocs edit"
      "edit_deallocs edit' = insert c (edit_deallocs edit)"
    using chunk_alloc_dealloc_later [OF inv(4) assms(3), of "cs_state y"] assms(6) by auto
  have touched': "touched edit' = insert c (touched edit)"
    using chg by (auto simp: touched_def)
  show "chunk_sys_inv bt n y'"
    by (rule chunk_sys_inv_change [OF assms(1), where t = t and edit' = edit' and s' = s'])
      (use inv chg touched' assms(4,5) in \<open>auto simp: y'\<close>)
  show "committed bt y' = committed bt y"
    using assms(2) chg committed_split [of bt y t]
    by (subst committed_change [where t = t and edit' = edit' and y = y]) (auto simp: y')
qed

lemma finish_sim:
  assumes "chunk_sys_inv bt n y" "cs_edits y t = Some edit"
    and "chunk_inv bt s'" "capacity s' = n" "\<not> ca_in_journal s'"
    and "used_chunks bt s' = used_chunks bt (cs_state y) - gone" "gone \<subseteq> touched edit"
    and y': "y' = y\<lparr>cs_state := s', cs_edits := (cs_edits y)(t := None)\<rparr>"
  shows "chunk_sys_inv bt n y' \<and> committed bt y' = committed bt y \<union> edit_allocs edit - gone"
proof
  note inv = chunk_sys_invD [OF assms(1,2)]
  show "chunk_sys_inv bt n y'"
  proof (rule chunk_sys_inv_change [OF assms(1), where t = t and edit' = "[]" and s' = s'])
    fix t' assume "t' \<noteq> t"
    then show "touched (edit_of y t') \<subseteq> used_chunks bt s'"
      using inv(6,7) [of t'] assms(6,7) by blast
  qed (use assms(3-5) in \<open>auto simp: y' touched_def\<close>)
  have "edit_allocs edit \<inter> (\<Union>t' \<in> - {t}. edit_allocs (edit_of y t')) = {}" "edit_allocs edit \<subseteq> used_chunks bt (cs_state y)"
    using inv(5,6) by (auto simp: touched_def)
  then show "committed bt y' = committed bt y \<union> edit_allocs edit - gone"
    using assms(2,6) committed_split [of bt y t]
    by (subst committed_change [where t = t and edit' = "[]" and y = y]) (auto simp: y')
qed

lemma chunk_step_sim:
  assumes "chunk_step bt y l y'" "chunk_sys_inv bt n y"
  shows "chunk_sys_inv bt n y' \<and> committed bt y' = spec_step (edit_of y) l (committed bt y)"
  using assms
proof (cases rule: chunk_step.cases)
  case (begin_step t)
  then have "edit_of y' t' = edit_of y t'" for t'
    by (simp add: chunk_edit_new_def edit_of_def)
  then show ?thesis
    using assms(2) begin_step by (simp add: chunk_sys_inv_def committed_def spec_step_def)
next
  case (alloc_step t edit r s' edit')
  note inv = chunk_sys_invD [OF assms(2) alloc_step(3)]
  have "0 < ca_free_count (cs_state y)"
    using chunk_alloc_alloc_full [OF inv(1)] alloc_step(4) by force
  then obtain c where "alloc_change bt {c} (cs_state y) edit s' edit'"
    using chunk_alloc_alloc_spec [OF inv(1,4,5)] alloc_step(4) by auto
  then show ?thesis
    using alloc_change_sim [OF assms(2) alloc_step(3)] alloc_step by (simp add: spec_step_def)
next
  case (batch_step t edit k r s' edit')
  note inv = chunk_sys_invD [OF assms(2) batch_step(3)]
  have "k \<le> ca_free_count (cs_state y)"
    using chunk_alloc_batch_full [OF inv(1), of k edit] batch_step(4) by (cases "k \<le> ca_free_count (cs_state y)") auto
  then obtain cs where "alloc_change bt (set cs) (cs_state y) edit s' edit'"
    using chunk_alloc_batch_spec [OF inv(1,4,5), of k] batch_step(4) by auto
  then show ?thesis
    using alloc_change_sim [OF assms(2) batch_step(3)] batch_step by (simp add: spec_step_def)
next
  case (dealloc_step t edit c s' edit')
  have "c \<notin> edit_deallocs edit"
    using chunk_edit_dealloc_twice [of c edit] dealloc_step(6)
    by (cases "c \<in> edit_deallocs edit") (auto simp: chunk_alloc_dealloc_def)
  then consider "c \<in> edit_allocs edit" | "c \<notin> touched edit"
    by (auto simp: touched_def)
  then show ?thesis
    using dealloc_own_sim [OF assms(2) dealloc_step(3) _ dealloc_step(5,6,2)]
      dealloc_later_sim [OF assms(2) dealloc_step(3) _ dealloc_step(4,5,6,2)] dealloc_step(1)
    by cases (simp_all add: spec_step_def)
next
  case (commit_step t edit s')
  note inv = chunk_sys_invD [OF assms(2) commit_step(3)]
  show ?thesis
    using finish_sim [OF assms(2) commit_step(3), of s' "edit_deallocs edit"]
      chunk_commit_spec [OF inv(1,3,4,5)] inv(2,3) commit_step
    by (auto simp: spec_step_def touched_def)
next
  case (abort_step t edit s')
  note inv = chunk_sys_invD [OF assms(2) abort_step(3)]
  have "committed bt y \<inter> edit_allocs edit = {}"
    using abort_step(3) by (auto simp: committed_def dest: edit_of_Some)
  then show ?thesis
    using finish_sim [OF assms(2) abort_step(3), of s' "edit_allocs edit"]
      chunk_abort_spec [OF inv(1,4,5)] inv(2,3) abort_step
    by (auto simp: spec_step_def touched_def)
qed

lemma chunk_reach_inv:
  assumes "chunk_reach bt n y" "64 * ((n + 63) div 64) < 2 ^ 32"
  shows "chunk_sys_inv bt n y"
  using assms(1)
proof induction
  case (start s)
  then show ?case
    using chunk_state_new_spec [OF assms(2)]
    by (auto simp: chunk_sys_inv_def chunk_alloc_from_parts_def edit_of_def touched_def chunk_inv_def
        used_chunks_def)
next
  case (step y l y')
  then show ?case using chunk_step_sim by blast
qed

end

section \<open>Properties\<close>





text \<open>C27: \<open>alloc_batch\<close> either returns exactly the requested number of distinct chunks in ascending order,
  all of them free before and now allocated and recorded in the edit, or, when fewer chunks are
  free, panics: the \<open>None\<close> that its documentation announces for a failed allocation and the
  roll-back in its code are never reached.\<close>

theorem chunk_alloc_batch_outcome:
  assumes "bittle_laws bt" "chunk_inv bt s" "distinct (map fst edit)" "touched edit \<subseteq> used_chunks bt s"
  shows "if n \<le> chunk_state_free_count s
    then \<exists>cs s' edit'. chunk_alloc_batch bt n s edit = Ok (Some cs, s', edit') \<and> length cs = n \<and>
      sorted cs \<and> distinct cs \<and> set cs \<inter> used_chunks bt s = {} \<and> chunk_inv bt s' \<and>
      used_chunks bt s' = used_chunks bt s \<union> set cs \<and> edit_allocs edit' = edit_allocs edit \<union> set cs
    else chunk_alloc_batch bt n s edit = Panics"
  using bittle_laws.chunk_alloc_batch_spec [OF assms, of n]
    bittle_laws.chunk_alloc_batch_full [OF assms(1,2), of n edit]
  by (auto simp: chunk_state_free_count_def alloc_change_def)

theorem chunk_alloc_batch_outcome_witness:
  "\<exists>s. chunk_state_new bittle_ref 2 = Ok s \<and> chunk_alloc_batch bittle_ref 3 s [] = Panics"
proof -
  obtain s where s: "chunk_state_new bittle_ref 2 = Ok s" "chunk_inv bittle_ref s" "capacity s = 2"
      "used_chunks bittle_ref s = {}"
    using ref.chunk_state_new_spec [of 2] by auto
  then have "ca_free_count s = 2"
    using chunk_free_count(1) [OF s(2)] by simp
  then show ?thesis
    using chunk_alloc_batch_outcome [OF ref.bittle_laws_axioms s(2), of "[]" 3] s(1)
    by (auto simp: touched_def chunk_state_free_count_def)
qed

text \<open>C31: The copy of the allocator state in the journal does not follow the allocator: applying to a fresh
  journal state the edit of a transaction that allocated chunk 1 (as happens after an earlier
  transaction took chunk 0 and aborted) marks chunk 0, because the state allocates its own next
  free chunk instead of the one the edit names. The chunk the transaction committed stays free.\<close>

theorem chunk_journal_diverges:
  assumes "bittle_laws bt" "64 * ((n + 63) div 64) < 2 ^ 32" "2 \<le> n"
    and "chunk_state_new_in_journal bt n = Ok s"
  shows "\<exists>s'. chunk_edit_apply_to bt [(1, Alloc)] s = Ok s' \<and> used_chunks bt s' = {0} \<and>
    is_chunk_allocated bt s' 1 = Ok False"
proof -
  obtain bm where bm: "bitmap_repeat bt False n = Ok bm" "bitmap_inv bt bm" "bitmap_abs bt bm = replicate n False"
    using bittle_laws.bitmap_repeat_spec [OF assms(1,2)] by blast
  have n: "bm_nbits bm = n"
    using bm(3) by (metis bitmap_abs_length length_replicate)
  have s: "s = \<lparr>ca_alloc_map = bm, ca_free_count = n, ca_next_free = 0, ca_in_journal = True\<rparr>"
    using assms(4) bm(1) by (simp add: chunk_state_new_in_journal_def)
  have inv: "chunk_inv bt s" "used_chunks bt s = {}" "0 < ca_free_count s" "capacity s = n"
    using bm n assms(3) by (auto simp: s chunk_inv_def used_chunks_def simp del: bitmap_abs_nth)
  obtain c s' where s': "chunk_state_alloc bt s = Ok (Some c, s')" "chunk_inv bt s'" "used_chunks bt s' = {c}"
      "capacity s' = n"
    using bittle_laws.chunk_state_alloc_spec [OF assms(1) inv(1,3)] inv(2,4) by auto
  have "find (\<lambda>i. 0 \<le> i \<and> \<not> bitmap_abs bt bm ! i) [0..<n] = Some 0"
    using bm(3) assms(3) by (simp add: find_upt_Some)
  then have "bitmap_first_zero bt bm 0 = Ok (Some 0)"
    using bittle_laws.bitmap_first_zero_spec [OF assms(1) bm(2), of 0] n assms(3) by simp
  then have "chunk_state_alloc bt s = rbind (bitmap_set bt bm 0 True) (\<lambda>m. rbind (checked_sub n 1) (\<lambda>k.
      Ok (Some 0, s\<lparr>ca_alloc_map := m, ca_free_count := k, ca_next_free := 1\<rparr>)))"
    using n assms(3) by (simp add: chunk_state_alloc_def s bitmap_len_def Let_def)
  then have "c = 0"
    using s'(1) by (cases "bitmap_set bt bm 0 True"; cases "checked_sub n 1") simp_all
  then have ch: "used_chunks bt s' = {0}" using s'(3) by simp
  then have "1 \<notin> used_chunks bt s'" by simp
  then have "bitmap_abs bt (ca_alloc_map s') ! 1 = False"
    using s'(4) assms(3) unfolding used_chunks_def by (simp del: bitmap_abs_nth)
  moreover have "is_chunk_allocated bt s' 1 = Ok (bitmap_abs bt (ca_alloc_map s') ! 1)"
    using s'(2,4) assms(3) bittle_laws.bitmap_test_bit_spec [OF assms(1), of "ca_alloc_map s'" 1]
    by (simp add: is_chunk_allocated_def chunk_inv_def)
  moreover have "chunk_edit_apply_to bt [(1, Alloc)] s = Ok s'"
    using s'(1) by (simp add: chunk_edit_apply_to_def s)
  ultimately show ?thesis using ch by simp
qed

theorem chunk_journal_diverges_witness:
  "\<exists>s s'. chunk_state_new_in_journal bittle_ref 4 = Ok s \<and>
    chunk_edit_apply_to bittle_ref [(1, Alloc)] s = Ok s' \<and> is_chunk_allocated bittle_ref s' 1 = Ok False"
proof -
  have n: "64 * ((4 + 63) div 64) < (2 :: nat) ^ 32" by simp
  obtain s where "chunk_state_new_in_journal bittle_ref 4 = Ok s"
    using ref.bitmap_repeat_spec [OF n, of False] by (auto simp: chunk_state_new_in_journal_def)
  then show ?thesis
    using chunk_journal_diverges [OF ref.bittle_laws_axioms n] by fastforce
qed

end
