(* ===== verification/Lazy_Delete.thy ===== *)
theory Lazy_Delete
  imports Mls_Prelude
begin

text \<open>
  Lazy deletion (\<open>core/src/util/lazy_delete.rs\<close>) and the reference counting that triggers it.

  A \<open>LazyDelete\<close> carries an object and a flag; when it is dropped with the flag set, its closure
  runs on the object. The log layer shares it through \<open>Arc\<close>, so that the drop happens when the
  last handle goes away: \<open>arc_heap\<close> is the store of these shared objects with their counts, and
  \<open>arc_drop\<close> tells whether the closure has to run.
\<close>

record 'a lazy_delete =
  ld_obj :: 'a
  ld_is_deleted :: bool

definition lazy_new :: "'a \<Rightarrow> 'a lazy_delete" where
  "lazy_new obj = \<lparr>ld_obj = obj, ld_is_deleted = False\<rparr>"

definition lazy_delete_mark :: "'a lazy_delete \<Rightarrow> 'a lazy_delete" where
  "lazy_delete_mark ld = ld\<lparr>ld_is_deleted := True\<rparr>"

definition lazy_is_deleted :: "'a lazy_delete \<Rightarrow> bool" where
  "lazy_is_deleted ld = ld_is_deleted ld"

text \<open>\<open>drop\<close>: the object the closure is called with, if it is called.\<close>

definition lazy_drop :: "'a lazy_delete \<Rightarrow> 'a option" where
  "lazy_drop ld = (if lazy_is_deleted ld then Some (ld_obj ld) else None)"

section \<open>Shared lazy deletes\<close>

type_synonym arc_id = nat

record 'a arc_heap =
  ah_cells :: "arc_id \<Rightarrow> ('a lazy_delete \<times> nat) option"
  ah_next :: arc_id

definition arc_new :: "'a lazy_delete \<Rightarrow> 'a arc_heap \<Rightarrow> arc_id \<times> 'a arc_heap" where
  "arc_new ld h = (ah_next h,
    h\<lparr>ah_cells := (ah_cells h)(ah_next h \<mapsto> (ld, 1)), ah_next := ah_next h + 1\<rparr>)"

definition arc_clone :: "arc_id \<Rightarrow> 'a arc_heap \<Rightarrow> 'a arc_heap" where
  "arc_clone i h = (case ah_cells h i of
     None \<Rightarrow> h
   | Some (ld, n) \<Rightarrow> h\<lparr>ah_cells := (ah_cells h)(i \<mapsto> (ld, n + 1))\<rparr>)"

definition arc_mark_deleted :: "arc_id \<Rightarrow> 'a arc_heap \<Rightarrow> 'a arc_heap" where
  "arc_mark_deleted i h = (case ah_cells h i of
     None \<Rightarrow> h
   | Some (ld, n) \<Rightarrow> h\<lparr>ah_cells := (ah_cells h)(i \<mapsto> (lazy_delete_mark ld, n))\<rparr>)"

text \<open>Dropping a handle; the object to delete for real when it was the last one.\<close>

definition arc_drop :: "arc_id \<Rightarrow> 'a arc_heap \<Rightarrow> 'a option \<times> 'a arc_heap" where
  "arc_drop i h = (case ah_cells h i of
     None \<Rightarrow> (None, h)
   | Some (ld, n) \<Rightarrow>
       if n \<le> 1 then (lazy_drop ld, h\<lparr>ah_cells := (ah_cells h)(i := None)\<rparr>)
       else (None, h\<lparr>ah_cells := (ah_cells h)(i \<mapsto> (ld, n - 1))\<rparr>))"

text \<open>The real deletion happens at most once, at the last drop, and only for marked objects.\<close>

lemma arc_drop_deletes:
  "fst (arc_drop i h) = Some obj \<longleftrightarrow>
    (\<exists>ld n. ah_cells h i = Some (ld, n) \<and> n \<le> 1 \<and> ld_is_deleted ld \<and> obj = ld_obj ld)"
  by (auto simp: arc_drop_def lazy_drop_def lazy_is_deleted_def split: option.splits)

lemma arc_drop_last: "fst (arc_drop i h) = Some obj \<Longrightarrow> fst (arc_drop i (snd (arc_drop i h))) = None"
  by (auto simp: arc_drop_def split: option.splits if_splits)

end
