(* ===== verification/Raw_Log.thy ===== *)
theory Raw_Log
  imports Block_Log Chunk_Alloc Lazy_Delete
begin

text \<open>
  The store of raw logs (\<open>core/src/layers/3-log/raw_log.rs\<close>).

  A raw log is a list of chunks of the disk. Its \<^emph>\<open>head\<close> is the committed part (\<open>RawLogHead\<close>), its
  \<^emph>\<open>tail\<close> the part the current transaction appends (\<open>RawLogTail\<close>, kept in the edit of the
  transaction); the tail first fills the free blocks of the last chunk of the head.

  \<open>raw_env\<close> is what an operation works on: the disk (any block set \<open>S\<close>), the chunk allocator, the
  shared state of the store with its lazy deletes, and the two edits of the current transaction.
  An operation that fails keeps the changes it has made so far, so operations are state
  transformers that also return the state on failure. \<open>raw_log\<close> is the handle \<open>RawLog\<close>.

  The properties show that a log opened for appending is an append-only log of blocks (the
  contract \<open>block_log\<close>), that committing turns the tail into head without moving a block, and that
  a log has one writer at most.
\<close>

type_synonym raw_log_id = nat

record raw_log_head =
  rh_chunks :: "chunk_id list"
  rh_num_blocks :: nat

record raw_log_tail =
  rt_head_last_chunk_id :: chunk_id
  rt_head_last_chunk_free_blocks :: nat
  rt_chunks :: "chunk_id list"
  rt_num_blocks :: nat

datatype raw_log_edit = Create raw_log_tail | Append raw_log_tail | Delete

type_synonym raw_log_store_edit = "(raw_log_id \<times> raw_log_edit) list"

record 's raw_env =
  re_disk :: 's
  re_chunk_state :: chunk_alloc_state
  re_log_table :: "(raw_log_id \<times> raw_log_head) list"
  re_next_free_log_id :: nat
  re_write_set :: "raw_log_id set"
  re_lazy_deletes :: "(raw_log_id \<times> arc_id) list"
  re_arcs :: "raw_log_head arc_heap"
  re_chunk_edit :: chunk_alloc_edit
  re_edit :: raw_log_store_edit

record raw_log =
  rl_log_id :: raw_log_id
  rl_log_entry :: "raw_log_head option"
  rl_lazy_delete :: "arc_id option"
  rl_append_pos :: nat
  rl_can_append :: bool

type_synonym ('s, 'a) raw_op = "('s raw_env, 'a) sres"

section \<open>Heads, tails and the persistent state\<close>

definition raw_head_new :: raw_log_head where
  "raw_head_new = \<lparr>rh_chunks = [], rh_num_blocks = 0\<rparr>"

definition raw_head_append :: "raw_log_tail \<Rightarrow> raw_log_head \<Rightarrow> raw_log_head res" where
  "raw_head_append tail h =
    rbind (u32_add (rh_num_blocks h) (rt_num_blocks tail)) (\<lambda>n.
      Ok (h\<lparr>rh_chunks := rh_chunks h @ rt_chunks tail, rh_num_blocks := n\<rparr>))"

definition raw_tail_new :: raw_log_tail where
  "raw_tail_new = \<lparr>rt_head_last_chunk_id = 0, rt_head_last_chunk_free_blocks = 0, rt_chunks = [],
    rt_num_blocks = 0\<rparr>"

text \<open>The count of free blocks is stored as \<open>u16\<close>.\<close>

definition raw_tail_from_head :: "raw_log_head \<Rightarrow> raw_log_tail res" where
  "raw_tail_from_head h =
    rbind (checked_sub (length (rh_chunks h) * CHUNK_NBLOCKS) (rh_num_blocks h)) (\<lambda>free.
      Ok \<lparr>rt_head_last_chunk_id = (if rh_chunks h = [] then 0 else last (rh_chunks h)),
          rt_head_last_chunk_free_blocks = free mod 2 ^ 16, rt_chunks = [], rt_num_blocks = 0\<rparr>)"

definition raw_state_create_log ::
    "raw_log_id \<Rightarrow> (raw_log_id \<times> raw_log_head) list \<Rightarrow> (raw_log_id \<times> raw_log_head) list res" where
  "raw_state_create_log new_log_id table =
    rbind (rassert (map_of table new_log_id = None)) (\<lambda>_. Ok (AList.update new_log_id raw_head_new table))"

definition raw_state_append_log ::
    "raw_log_id \<Rightarrow> raw_log_tail \<Rightarrow> (raw_log_id \<times> raw_log_head) list \<Rightarrow> (raw_log_id \<times> raw_log_head) list res" where
  "raw_state_append_log log_id tail table =
    rbind (res_unwrap (map_of table log_id)) (\<lambda>h.
    rbind (raw_head_append tail h) (\<lambda>h. Ok (AList.update log_id h table)))"

definition raw_state_delete_log ::
    "raw_log_id \<Rightarrow> (raw_log_id \<times> raw_log_head) list \<Rightarrow> (raw_log_id \<times> raw_log_head) list" where
  "raw_state_delete_log log_id table = AList.delete log_id table"

section \<open>Edits\<close>

definition raw_edit_create_log :: "raw_log_id \<Rightarrow> raw_log_store_edit \<Rightarrow> raw_log_store_edit res" where
  "raw_edit_create_log new_log_id edit =
    rbind (rassert (map_of edit new_log_id = None)) (\<lambda>_.
      Ok (AList.update new_log_id (Create raw_tail_new) edit))"

definition raw_edit_open_log :: "raw_log_id \<Rightarrow> raw_log_head \<Rightarrow> raw_log_store_edit \<Rightarrow> raw_log_store_edit res" where
  "raw_edit_open_log log_id log_entry edit =
    (case map_of edit log_id of
       None \<Rightarrow> rbind (raw_tail_from_head log_entry) (\<lambda>tail. Ok (AList.update log_id (Append tail) edit))
     | Some (Create _) \<Rightarrow> Panics
     | Some (Append _) \<Rightarrow> Ok edit
     | Some Delete \<Rightarrow> Panics)"

definition raw_edit_delete_log ::
    "raw_log_id \<Rightarrow> raw_log_store_edit \<Rightarrow> (chunk_id list option \<times> raw_log_store_edit) res" where
  "raw_edit_delete_log log_id edit =
    (let edit' = AList.update log_id Delete edit in
     case map_of edit log_id of
       None \<Rightarrow> Ok (None, edit')
     | Some (Create tail) \<Rightarrow> Ok (Some (rt_chunks tail), edit')
     | Some (Append tail) \<Rightarrow> Ok (Some (rt_chunks tail), edit')
     | Some Delete \<Rightarrow> Panics)"

definition raw_edit_is_log_created :: "raw_log_id \<Rightarrow> raw_log_store_edit \<Rightarrow> bool" where
  "raw_edit_is_log_created log_id edit =
    (case map_of edit log_id of
       Some (Create _) \<Rightarrow> True
     | Some (Append _) \<Rightarrow> True
     | Some Delete \<Rightarrow> False
     | None \<Rightarrow> False)"

definition iter_created_logs :: "raw_log_store_edit \<Rightarrow> raw_log_id list" where
  "iter_created_logs edit = map fst (filter (\<lambda>(_, e). case e of Create _ \<Rightarrow> True | _ \<Rightarrow> False) edit)"

definition iter_deleted_logs :: "raw_log_store_edit \<Rightarrow> raw_log_id list" where
  "iter_deleted_logs edit = map fst (filter (\<lambda>(_, e). case e of Delete \<Rightarrow> True | _ \<Rightarrow> False) edit)"

definition raw_edit_apply_to ::
    "raw_log_store_edit \<Rightarrow> (raw_log_id \<times> raw_log_head) list \<Rightarrow> (raw_log_id \<times> raw_log_head) list res" where
  "raw_edit_apply_to = rfold (\<lambda>(log_id, log_edit) table.
    case log_edit of
      Create tail \<Rightarrow> rbind (raw_state_create_log log_id table) (raw_state_append_log log_id tail)
    | Append tail \<Rightarrow> raw_state_append_log log_id tail table
    | Delete \<Rightarrow> Ok (raw_state_delete_log log_id table))"

section \<open>Block addresses\<close>

text \<open>
  The loop that both \<open>prepare_blocks\<close> end with: from \<open>offset\<close> on, one address per block, until
  there are \<open>nblocks\<close>.
\<close>

function collect_blocks :: "chunk_id list \<Rightarrow> nat \<Rightarrow> nat \<Rightarrow> block_id list \<Rightarrow> block_id list res" where
  "collect_blocks chunks nblocks offset res_blocks =
    (if length res_blocks = nblocks then Ok res_blocks
     else rbind (nth_res chunks (offset div CHUNK_NBLOCKS)) (\<lambda>chunk.
       collect_blocks chunks nblocks (offset + 1)
         (res_blocks @ [chunk * CHUNK_NBLOCKS + offset mod CHUNK_NBLOCKS])))"
  by pat_completeness auto
termination
proof (relation "measure (\<lambda>(chunks, nblocks, offset, res_blocks). length chunks * CHUNK_NBLOCKS - offset)", goal_cases)
  case (2 chunks nblocks offset res_blocks chunk)
  then have "offset div CHUNK_NBLOCKS < length chunks"
    by (simp add: res_simps)
  then have "offset < length chunks * CHUNK_NBLOCKS"
    by (simp add: div_less_iff_less_mult CHUNK_NBLOCKS_def)
  then show ?case by simp
qed simp

declare collect_blocks.simps [simp del]

definition raw_head_prepare :: "raw_log_head \<Rightarrow> nat \<Rightarrow> nat \<Rightarrow> block_id list res" where
  "raw_head_prepare h offset nblocks = collect_blocks (rh_chunks h) nblocks offset []"

text \<open>The blocks in the last chunk of the head; \<open>True\<close> when there are enough of them.\<close>

fun head_free_blocks ::
    "raw_log_tail \<Rightarrow> nat \<Rightarrow> nat list \<Rightarrow> block_id list \<Rightarrow> (bool \<times> block_id list) res" where
  "head_free_blocks tail nblocks [] res_blocks = Ok (False, res_blocks)"
| "head_free_blocks tail nblocks (i # is) res_blocks =
    rbind (checked_sub CHUNK_NBLOCKS (rt_head_last_chunk_free_blocks tail)) (\<lambda>used.
      let res_blocks = res_blocks @ [rt_head_last_chunk_id tail * CHUNK_NBLOCKS + (used + i)] in
      if length res_blocks = nblocks then Ok (True, res_blocks)
      else head_free_blocks tail nblocks is res_blocks)"

definition raw_tail_prepare :: "raw_log_tail \<Rightarrow> nat \<Rightarrow> nat \<Rightarrow> block_id list res" where
  "raw_tail_prepare tail offset nblocks =
    (let free = rt_head_last_chunk_free_blocks tail in
     if offset < free
     then rbind (head_free_blocks tail nblocks [offset..<free] []) (\<lambda>(done, res_blocks).
       if done then Ok res_blocks else collect_blocks (rt_chunks tail) nblocks 0 res_blocks)
     else collect_blocks (rt_chunks tail) nblocks (offset - free) [])"

definition calc_needed_chunks :: "raw_log_tail \<Rightarrow> nat \<Rightarrow> nat res" where
  "calc_needed_chunks tail append_nblocks =
    rbind (checked_sub (rt_head_last_chunk_free_blocks tail + length (rt_chunks tail) * CHUNK_NBLOCKS)
      (rt_num_blocks tail)) (\<lambda>avail_blocks.
      if avail_blocks < append_nblocks
      then rbind (align_up (append_nblocks - avail_blocks) CHUNK_NBLOCKS) (\<lambda>n. Ok (n div CHUNK_NBLOCKS))
      else Ok 0)"

section \<open>Reading and appending\<close>

text \<open>One request to the disk per run of consecutive addresses.\<close>

definition read_groups :: "'s block_set_ops \<Rightarrow> 's \<Rightarrow> block_id list list \<Rightarrow> bytes res" where
  "read_groups S disk groups =
    rbind (rmap (\<lambda>g. bs_read S disk (hd g) (length g)) groups) (\<lambda>bufs. Ok (concat bufs))"

fun write_groups :: "'s block_set_ops \<Rightarrow> block_id list list \<Rightarrow> bytes \<Rightarrow> ('s, unit) sres" where
  "write_groups S [] buf = sret ()"
| "write_groups S (g # gs) buf = (\<lambda>disk.
    case slice_range buf 0 (length g * BLOCK_SIZE) of
      Inl f \<Rightarrow> (Inl f, disk)
    | Inr buf_slice \<Rightarrow>
        (case bs_write S disk (hd g) buf_slice of
           Inl f \<Rightarrow> (Inl f, disk)
         | Inr disk' \<Rightarrow> write_groups S gs (drop (length g * BLOCK_SIZE) buf) disk'))"

definition raw_head_read :: "'s block_set_ops \<Rightarrow> 's \<Rightarrow> raw_log_head \<Rightarrow> nat \<Rightarrow> nat \<Rightarrow> bytes res" where
  "raw_head_read S disk h offset nblocks =
    rbind (rassert (offset + nblocks \<le> rh_num_blocks h)) (\<lambda>_.
    rbind (raw_head_prepare h offset nblocks) (\<lambda>prepared_blocks.
    rbind (rassert (length prepared_blocks = nblocks)) (\<lambda>_.
      read_groups S disk (group_by consecutive prepared_blocks))))"

definition raw_tail_read :: "'s block_set_ops \<Rightarrow> 's \<Rightarrow> raw_log_tail \<Rightarrow> nat \<Rightarrow> nat \<Rightarrow> bytes res" where
  "raw_tail_read S disk tail offset nblocks =
    rbind (rassert (offset + nblocks \<le> rt_num_blocks tail)) (\<lambda>_.
    rbind (raw_tail_prepare tail offset nblocks) (\<lambda>prepared_blocks.
    rbind (rassert (length prepared_blocks = nblocks)) (\<lambda>_.
      read_groups S disk (group_by consecutive prepared_blocks))))"

text \<open>The tail of a log in the edit of the current transaction; \<open>as_ref\<close> has it only for created and appended logs.\<close>

definition raw_tail_of :: "raw_log_id \<Rightarrow> raw_log_store_edit \<Rightarrow> raw_log_tail option" where
  "raw_tail_of log_id edit =
    (case map_of edit log_id of
       Some (Create tail) \<Rightarrow> Some tail
     | Some (Append tail) \<Rightarrow> Some tail
     | Some Delete \<Rightarrow> None
     | None \<Rightarrow> None)"

definition raw_head_len :: "raw_log_head option \<Rightarrow> nat" where
  "raw_head_len h = (case h of None \<Rightarrow> 0 | Some h \<Rightarrow> rh_num_blocks h)"

definition raw_tail_len :: "raw_log_tail option \<Rightarrow> nat" where
  "raw_tail_len t = (case t of None \<Rightarrow> 0 | Some t \<Rightarrow> rt_num_blocks t)"

definition raw_ref_read ::
    "'s block_set_ops \<Rightarrow> 's \<Rightarrow> raw_log_head option \<Rightarrow> raw_log_tail option \<Rightarrow> nat \<Rightarrow> bytes \<Rightarrow> bytes res" where
  "raw_ref_read S disk log_head log_tail pos buf =
    (let nblocks = buf_nblocks buf; head_len = raw_head_len log_head;
         total_len = head_len + raw_tail_len log_tail in
     if total_len < pos + nblocks then Fail InvalidArgs
     else
       rbind (case log_head of
            Some h \<Rightarrow>
              if pos < head_len
              then let num_read = min nblocks (head_len - pos) in
                rbind (buf_try_from (take (num_read * BLOCK_SIZE) buf)) (\<lambda>_.
                rbind (raw_head_read S disk h pos num_read) (\<lambda>bytes.
                  Ok (bytes, pos + num_read, nblocks - num_read, drop (num_read * BLOCK_SIZE) buf)))
              else Ok ([], pos, nblocks, buf)
          | None \<Rightarrow> Ok ([], pos, nblocks, buf))
         (\<lambda>(head_bytes, pos, nblocks, buf_slice).
            if nblocks = 0 then Ok (head_bytes @ buf_slice)
            else case log_tail of
                Some tail \<Rightarrow>
                  if head_len \<le> pos
                  then let num_read = min nblocks (total_len - pos) in
                    rbind (buf_try_from (take (num_read * BLOCK_SIZE) buf_slice)) (\<lambda>_.
                    rbind (raw_tail_read S disk tail (pos - head_len) num_read) (\<lambda>bytes.
                      Ok (head_bytes @ bytes @ drop (num_read * BLOCK_SIZE) buf_slice)))
                  else Ok (head_bytes @ buf_slice)
              | None \<Rightarrow> Ok (head_bytes @ buf_slice)))"

definition raw_tail_with :: "raw_log_id \<Rightarrow> ('s, raw_log_tail) raw_op" where
  "raw_tail_with log_id e = (res_unwrap (raw_tail_of log_id (re_edit e)), e)"

definition raw_tail_mut_with :: "raw_log_id \<Rightarrow> (raw_log_tail \<Rightarrow> raw_log_tail res) \<Rightarrow> ('s, unit) raw_op" where
  "raw_tail_mut_with log_id f e =
    (case map_of (re_edit e) log_id of
       Some (Create tail) \<Rightarrow> (case f tail of
           Inl flt \<Rightarrow> (Inl flt, e)
         | Inr tail' \<Rightarrow> (Ok (), e\<lparr>re_edit := AList.update log_id (Create tail') (re_edit e)\<rparr>))
     | Some (Append tail) \<Rightarrow> (case f tail of
           Inl flt \<Rightarrow> (Inl flt, e)
         | Inr tail' \<Rightarrow> (Ok (), e\<lparr>re_edit := AList.update log_id (Append tail') (re_edit e)\<rparr>))
     | Some Delete \<Rightarrow> (Panics, e)
     | None \<Rightarrow> (Panics, e))"

definition raw_tail_append :: "'s block_set_ops \<Rightarrow> raw_log_id \<Rightarrow> bytes \<Rightarrow> ('s, unit) raw_op" where
  "raw_tail_append S log_id buf =
    sbind (raw_tail_with log_id) (\<lambda>tail.
    sbind (slift (raw_tail_prepare tail (rt_num_blocks tail) (buf_nblocks buf))) (\<lambda>prepared_blocks.
    sbind (slift (rassert (length prepared_blocks = buf_nblocks buf))) (\<lambda>_ e.
      let (r, disk) = write_groups S (group_by consecutive prepared_blocks) buf (re_disk e) in
      (r, e\<lparr>re_disk := disk\<rparr>))))"

definition raw_alloc_chunks :: "bittle \<Rightarrow> nat \<Rightarrow> ('s, chunk_id list) raw_op" where
  "raw_alloc_chunks bt n e =
    (case chunk_alloc_batch bt n (re_chunk_state e) (re_chunk_edit e) of
       Inl f \<Rightarrow> (Inl f, e)
     | Inr (r, state, edit) \<Rightarrow>
         (ok_or OutOfMemory r, e\<lparr>re_chunk_state := state, re_chunk_edit := edit\<rparr>))"

definition raw_grow :: "bittle \<Rightarrow> raw_log_id \<Rightarrow> nat \<Rightarrow> ('s, unit) raw_op" where
  "raw_grow bt log_id chunks_needed =
    (if 0 < chunks_needed
     then sbind (raw_alloc_chunks bt chunks_needed) (\<lambda>new_chunks.
       raw_tail_mut_with log_id (\<lambda>tail. Ok (tail\<lparr>rt_chunks := rt_chunks tail @ new_chunks\<rparr>)))
     else sret ())"

definition raw_ref_append :: "'s block_set_ops \<Rightarrow> bittle \<Rightarrow> raw_log_id \<Rightarrow> bytes \<Rightarrow> ('s, unit) raw_op" where
  "raw_ref_append S bt log_id buf =
    (let append_nblocks = buf_nblocks buf in
     sbind (raw_tail_with log_id) (\<lambda>tail.
     sbind (slift (calc_needed_chunks tail append_nblocks)) (\<lambda>chunks_needed.
     sbind (raw_grow bt log_id chunks_needed) (\<lambda>_.
     sbind (raw_tail_append S log_id buf) (\<lambda>_.
     raw_tail_mut_with log_id (\<lambda>tail.
       rbind (u32_add (rt_num_blocks tail) (append_nblocks mod 2 ^ 32)) (\<lambda>n.
         Ok (tail\<lparr>rt_num_blocks := n\<rparr>))))))))"

text \<open>The methods of the handle \<open>RawLog\<close>.\<close>

definition raw_log_read :: "'s block_set_ops \<Rightarrow> 's raw_env \<Rightarrow> raw_log \<Rightarrow> block_id \<Rightarrow> bytes \<Rightarrow> bytes res" where
  "raw_log_read S e log pos buf =
    raw_ref_read S (re_disk e) (rl_log_entry log) (raw_tail_of (rl_log_id log) (re_edit e)) pos buf"

definition raw_log_append :: "'s block_set_ops \<Rightarrow> bittle \<Rightarrow> raw_log \<Rightarrow> bytes \<Rightarrow> ('s, block_id \<times> raw_log) raw_op" where
  "raw_log_append S bt log buf =
    (if \<not> rl_can_append log then sfail (Err PermissionDenied)
     else sbind (raw_ref_append S bt (rl_log_id log) buf) (\<lambda>_.
       sret (rl_append_pos log, log\<lparr>rl_append_pos := rl_append_pos log + buf_nblocks buf\<rparr>)))"

definition raw_log_nblocks :: "'s raw_env \<Rightarrow> raw_log \<Rightarrow> nat" where
  "raw_log_nblocks e log =
    raw_head_len (rl_log_entry log) + raw_tail_len (raw_tail_of (rl_log_id log) (re_edit e))"

definition raw_log_flush :: "'s block_set_ops \<Rightarrow> ('s, unit) raw_op" where
  "raw_log_flush S e =
    (case bs_flush S (re_disk e) of Inl f \<Rightarrow> (Inl f, e) | Inr disk \<Rightarrow> (Ok (), e\<lparr>re_disk := disk\<rparr>))"

section \<open>The store\<close>

definition raw_add_lazy_delete :: "raw_log_id \<Rightarrow> raw_log_head \<Rightarrow> 's raw_env \<Rightarrow> 's raw_env" where
  "raw_add_lazy_delete log_id log_entry e =
    (let (arc, arcs) = arc_new (lazy_new log_entry) (re_arcs e) in
     e\<lparr>re_arcs := arcs, re_lazy_deletes := AList.update log_id arc (re_lazy_deletes e)\<rparr>)"

text \<open>\<open>State::new\<close>: identifiers continue behind the largest one in use.\<close>

definition raw_next_log_id :: "raw_log_id list \<Rightarrow> nat res" where
  "raw_next_log_id ids =
    (if ids = [] then Ok 0 else if Max (set ids) + 1 < 2 ^ 64 then Ok (Max (set ids) + 1) else Panics)"

definition raw_store_from_parts ::
    "(raw_log_id \<times> raw_log_head) list \<Rightarrow> 's \<Rightarrow> chunk_alloc_state \<Rightarrow> 's raw_env res" where
  "raw_store_from_parts log_table disk chunk_state =
    (let e0 = \<lparr>re_disk = disk, re_chunk_state = chunk_state, re_log_table = log_table,
           re_next_free_log_id = 0, re_write_set = {}, re_lazy_deletes = [],
           re_arcs = \<lparr>ah_cells = (\<lambda>_. None), ah_next = 0\<rparr>, re_chunk_edit = chunk_edit_new, re_edit = []\<rparr>;
         e1 = fold (\<lambda>(log_id, log_entry). raw_add_lazy_delete log_id log_entry) log_table e0 in
     rbind (raw_next_log_id (map fst (re_lazy_deletes e1))) (\<lambda>next_id.
       Ok (e1\<lparr>re_next_free_log_id := next_id\<rparr>)))"

definition raw_alloc_log_id :: "('s, raw_log_id) raw_op" where
  "raw_alloc_log_id e =
    (if re_next_free_log_id e + 1 < 2 ^ 64
     then (Ok (re_next_free_log_id e), e\<lparr>re_next_free_log_id := re_next_free_log_id e + 1\<rparr>)
     else (Panics, e))"

definition raw_add_to_write_set :: "raw_log_id \<Rightarrow> ('s, unit) raw_op" where
  "raw_add_to_write_set log_id e =
    (if log_id \<in> re_write_set e then (Fail PermissionDenied, e)
     else (Ok (), e\<lparr>re_write_set := insert log_id (re_write_set e)\<rparr>))"

definition raw_remove_from_write_set :: "raw_log_id \<Rightarrow> 's raw_env \<Rightarrow> 's raw_env" where
  "raw_remove_from_write_set log_id e = e\<lparr>re_write_set := re_write_set e - {log_id}\<rparr>"

definition raw_edit_with :: "(raw_log_store_edit \<Rightarrow> ('a \<times> raw_log_store_edit) res) \<Rightarrow> ('s, 'a) raw_op" where
  "raw_edit_with f e =
    (case f (re_edit e) of Inl flt \<Rightarrow> (Inl flt, e) | Inr (v, edit) \<Rightarrow> (Ok v, e\<lparr>re_edit := edit\<rparr>))"

definition raw_create_log :: "('s, raw_log) raw_op" where
  "raw_create_log =
    sbind raw_alloc_log_id (\<lambda>new_log_id.
    sbind (\<lambda>e. case raw_add_to_write_set new_log_id e of
        (Inl _, e') \<Rightarrow> (Panics, e') | (Inr u, e') \<Rightarrow> (Ok u, e')) (\<lambda>_.
    sbind (raw_edit_with (\<lambda>edit. rbind (raw_edit_create_log new_log_id edit) (\<lambda>edit. Ok ((), edit)))) (\<lambda>_.
    sret \<lparr>rl_log_id = new_log_id, rl_log_entry = None, rl_lazy_delete = None, rl_append_pos = 0,
          rl_can_append = True\<rparr>)))"

definition raw_open_log :: "raw_log_id \<Rightarrow> bool \<Rightarrow> ('s, raw_log) raw_op" where
  "raw_open_log log_id can_append e =
    (case map_of (re_lazy_deletes e) log_id of
       None \<Rightarrow> (Fail NotFound, e)
     | Some lazy_delete \<Rightarrow>
         let log_entry_opt = map_of (re_log_table e) log_id in
         sbind (case log_entry_opt of
             Some log_entry \<Rightarrow>
               if can_append
               then sbind (raw_add_to_write_set log_id) (\<lambda>_.
                 raw_edit_with (\<lambda>edit. rbind (raw_edit_open_log log_id log_entry edit) (\<lambda>edit. Ok ((), edit))))
               else sret ()
           | None \<Rightarrow> (\<lambda>e. if raw_edit_is_log_created log_id (re_edit e) then (Ok (), e) else (Fail NotFound, e)))
           (\<lambda>_ e. (Ok \<lparr>rl_log_id = log_id, rl_log_entry = log_entry_opt, rl_lazy_delete = Some lazy_delete,
               rl_append_pos = raw_head_len log_entry_opt, rl_can_append = can_append\<rparr>,
              e\<lparr>re_arcs := arc_clone lazy_delete (re_arcs e)\<rparr>))
         e)"

definition raw_dealloc_batch :: "bittle \<Rightarrow> chunk_id list \<Rightarrow> ('s, unit) raw_op" where
  "raw_dealloc_batch bt chunk_ids e =
    (case chunk_alloc_dealloc_batch bt chunk_ids (re_chunk_state e, re_chunk_edit e) of
       Inl f \<Rightarrow> (Inl f, e)
     | Inr (state, edit) \<Rightarrow> (Ok (), e\<lparr>re_chunk_state := state, re_chunk_edit := edit\<rparr>))"

definition raw_delete_log :: "bittle \<Rightarrow> raw_log_id \<Rightarrow> ('s, unit) raw_op" where
  "raw_delete_log bt log_id =
    sbind (raw_edit_with (raw_edit_delete_log log_id)) (\<lambda>tail_chunks.
    sbind (case tail_chunks of None \<Rightarrow> sret () | Some chunks \<Rightarrow> raw_dealloc_batch bt chunks) (\<lambda>_ e.
      (Ok (), raw_remove_from_write_set log_id e)))"

text \<open>Dropping a shared lazy delete: the last handle of a deleted log frees its chunks.\<close>

definition raw_drop_arc :: "bittle \<Rightarrow> arc_id \<Rightarrow> ('s, unit) raw_op" where
  "raw_drop_arc bt arc e =
    (let (obj, arcs) = arc_drop arc (re_arcs e); e = e\<lparr>re_arcs := arcs\<rparr> in
     case obj of None \<Rightarrow> (Ok (), e) | Some entry \<Rightarrow> raw_dealloc_batch bt (rh_chunks entry) e)"

definition raw_log_drop :: "bittle \<Rightarrow> raw_log \<Rightarrow> ('s, unit) raw_op" where
  "raw_log_drop bt log e =
    (let e = (if rl_can_append log then raw_remove_from_write_set (rl_log_id log) e else e) in
     case rl_lazy_delete log of None \<Rightarrow> (Ok (), e) | Some arc \<Rightarrow> raw_drop_arc bt arc e)"

section \<open>Commit\<close>

definition raw_add_lazy_deletes_for_created_logs :: "raw_log_store_edit \<Rightarrow> 's raw_env \<Rightarrow> 's raw_env" where
  "raw_add_lazy_deletes_for_created_logs edit e =
    fold (\<lambda>log_id e.
      case map_of (re_log_table e) log_id of
        None \<Rightarrow> e
      | Some log_entry \<Rightarrow>
          if map_of (re_lazy_deletes e) log_id \<noteq> None then e
          else raw_add_lazy_delete log_id log_entry e)
      (iter_created_logs edit) e"

definition raw_do_lazy_deletion :: "bittle \<Rightarrow> ('s, unit) raw_op" where
  "raw_do_lazy_deletion bt e =
    sfor (\<lambda>log_id e.
      case map_of (re_lazy_deletes e) log_id of
        None \<Rightarrow> (Ok (), e)
      | Some arc \<Rightarrow>
          raw_drop_arc bt arc
            (e\<lparr>re_lazy_deletes := AList.delete log_id (re_lazy_deletes e),
               re_arcs := arc_mark_deleted arc (re_arcs e)\<rparr>))
      (iter_deleted_logs (re_edit e)) e"

definition raw_commit_handler :: "bittle \<Rightarrow> ('s, unit) raw_op" where
  "raw_commit_handler bt =
    sbind (\<lambda>e.
      if re_edit e = [] then (Ok (), e)
      else case raw_edit_apply_to (re_edit e) (re_log_table e) of
          Inl f \<Rightarrow> (Inl f, e)
        | Inr table \<Rightarrow> (Ok (), raw_add_lazy_deletes_for_created_logs (re_edit e) (e\<lparr>re_log_table := table\<rparr>)))
    (\<lambda>_. raw_do_lazy_deletion bt)"

text \<open>
  The end of a transaction: the callbacks run in reverse order of registration, so the store's
  commit handler comes before the allocator's; the store has no abort handler.
\<close>

definition raw_tx_commit :: "bittle \<Rightarrow> ('s, unit) raw_op" where
  "raw_tx_commit bt =
    sbind (raw_commit_handler bt) (\<lambda>_ e.
      case chunk_commit_handler bt (re_chunk_edit e) (re_chunk_state e) of
        Inl f \<Rightarrow> (Inl f, e)
      | Inr state \<Rightarrow> (Ok (), e\<lparr>re_chunk_state := state, re_chunk_edit := [], re_edit := []\<rparr>))"

definition raw_tx_abort :: "bittle \<Rightarrow> ('s, unit) raw_op" where
  "raw_tx_abort bt e =
    (case chunk_abort_handler bt (re_chunk_edit e) (re_chunk_state e) of
       Inl f \<Rightarrow> (Inl f, e)
     | Inr state \<Rightarrow> (Ok (), e\<lparr>re_chunk_state := state, re_chunk_edit := [], re_edit := []\<rparr>))"

section \<open>Addresses\<close>

definition block_addr :: "chunk_id list \<Rightarrow> nat \<Rightarrow> block_id" where
  "block_addr cs i = cs ! (i div CHUNK_NBLOCKS) * CHUNK_NBLOCKS + i mod CHUNK_NBLOCKS"

lemma CHUNK_NBLOCKS_pos [simp]: "0 < CHUNK_NBLOCKS" "CHUNK_NBLOCKS \<noteq> 0"
  by (simp_all add: CHUNK_NBLOCKS_def)

lemma chunk_index_less: "i < n * CHUNK_NBLOCKS \<Longrightarrow> i div CHUNK_NBLOCKS < n"
  by (simp add: div_less_iff_less_mult)

lemma collect_blocks_spec:
  assumes "offset + n \<le> length chunks * CHUNK_NBLOCKS" "length acc + n = nblocks"
  shows "collect_blocks chunks nblocks offset acc = Ok (acc @ map (block_addr chunks) [offset..<offset + n])"
  using assms
proof (induction n arbitrary: offset acc)
  case 0
  then show ?case by (subst collect_blocks.simps) simp
next
  case (Suc n)
  have idx: "offset div CHUNK_NBLOCKS < length chunks"
    using Suc.prems(1) by (intro chunk_index_less) simp
  let ?b = "block_addr chunks offset"
  have "collect_blocks chunks nblocks (offset + 1) (acc @ [?b])
      = Ok ((acc @ [?b]) @ map (block_addr chunks) [offset + 1..<offset + 1 + n])"
    using Suc.prems by (intro Suc.IH) auto
  moreover have "[offset..<offset + Suc n] = offset # [offset + 1..<offset + 1 + n]"
    by (simp add: upt_conv_Cons)
  ultimately show ?case
    using idx Suc.prems(2)
    by (subst collect_blocks.simps) (simp add: block_addr_def del: upt_Suc)
qed

text \<open>The tail continues the address space of the head.\<close>

definition head_ok :: "raw_log_head \<Rightarrow> bool" where
  "head_ok h \<longleftrightarrow> rh_num_blocks h \<le> length (rh_chunks h) * CHUNK_NBLOCKS \<and>
    length (rh_chunks h) * CHUNK_NBLOCKS - rh_num_blocks h < CHUNK_NBLOCKS"

definition tail_ok :: "raw_log_head \<Rightarrow> raw_log_tail \<Rightarrow> bool" where
  "tail_ok h t \<longleftrightarrow>
    rt_head_last_chunk_free_blocks t = length (rh_chunks h) * CHUNK_NBLOCKS - rh_num_blocks h \<and>
    (rh_chunks h \<noteq> [] \<longrightarrow> rt_head_last_chunk_id t = last (rh_chunks h)) \<and>
    rt_num_blocks t \<le> rt_head_last_chunk_free_blocks t + length (rt_chunks t) * CHUNK_NBLOCKS"

lemma head_ok_new [simp]: "head_ok raw_head_new"
  by (simp add: head_ok_def raw_head_new_def)

lemma tail_ok_new [simp]: "tail_ok raw_head_new raw_tail_new"
  by (simp add: tail_ok_def raw_head_new_def raw_tail_new_def)

lemma raw_tail_from_head_ok:
  assumes "head_ok h"
  shows "\<exists>t. raw_tail_from_head h = Ok t \<and> tail_ok h t \<and> rt_num_blocks t = 0 \<and> rt_chunks t = []"
proof -
  have "length (rh_chunks h) * CHUNK_NBLOCKS - rh_num_blocks h < 2 ^ 16"
    using assms by (simp add: head_ok_def CHUNK_NBLOCKS_def)
  then show ?thesis
    using assms by (simp add: raw_tail_from_head_def tail_ok_def head_ok_def)
qed

lemma block_addr_last_chunk:
  assumes "head_ok h" "tail_ok h t" "i < rt_head_last_chunk_free_blocks t"
  shows "block_addr (rh_chunks h @ cs) (rh_num_blocks h + i)
    = rt_head_last_chunk_id t * CHUNK_NBLOCKS + (CHUNK_NBLOCKS - rt_head_last_chunk_free_blocks t + i)"
proof -
  let ?n = "length (rh_chunks h)" and ?f = "rt_head_last_chunk_free_blocks t"
  have f: "?f = ?n * CHUNK_NBLOCKS - rh_num_blocks h" "rh_num_blocks h \<le> ?n * CHUNK_NBLOCKS" "?f < CHUNK_NBLOCKS"
    using assms(1,2) by (auto simp: head_ok_def tail_ok_def)
  then obtain m where m: "?n = Suc m"
    using assms(3) by (cases ?n) auto
  define k where "k = CHUNK_NBLOCKS - ?f + i"
  have "rh_num_blocks h + i = m * CHUNK_NBLOCKS + k"
    using f m by (simp add: k_def)
  moreover have "k < CHUNK_NBLOCKS"
    using assms(3) f(3) by (simp add: k_def)
  moreover have "(rh_chunks h @ cs) ! m = rt_head_last_chunk_id t"
    using m assms(2) by (auto simp: tail_ok_def nth_append last_conv_nth)
  ultimately show ?thesis
    by (simp add: block_addr_def flip: k_def)
qed

lemma block_addr_shift: "block_addr (cs @ cs') (length cs * CHUNK_NBLOCKS + i) = block_addr cs' i"
  by (simp add: block_addr_def nth_append)

lemma head_free_blocks_spec:
  assumes "rt_head_last_chunk_free_blocks t \<le> CHUNK_NBLOCKS" "length acc < nblocks"
  shows "head_free_blocks t nblocks is acc =
    Ok (nblocks \<le> length acc + length is,
        acc @ map (\<lambda>i. rt_head_last_chunk_id t * CHUNK_NBLOCKS +
          (CHUNK_NBLOCKS - rt_head_last_chunk_free_blocks t + i)) (take (nblocks - length acc) is))"
  using assms(2)
proof (induction "is" arbitrary: acc)
  case (Cons i "is")
  then show ?case
    using assms(1) Cons.IH [of "acc @ [_]"]
    by (auto simp: Let_def take_Cons' Suc_diff_Suc)
qed simp

lemma raw_tail_prepare_spec:
  assumes "head_ok h" "tail_ok h t" "0 < n"
    and "offset + n \<le> rt_head_last_chunk_free_blocks t + length (rt_chunks t) * CHUNK_NBLOCKS"
  shows "raw_tail_prepare t offset n
    = Ok (map (block_addr (rh_chunks h @ rt_chunks t)) [rh_num_blocks h + offset..<rh_num_blocks h + offset + n])"
proof -
  let ?f = "rt_head_last_chunk_free_blocks t" and ?hn = "rh_num_blocks h" and ?tc = "rt_chunks t"
  let ?A = "\<lambda>i. block_addr (rh_chunks h @ ?tc) (?hn + i)"
  let ?F = "\<lambda>i. rt_head_last_chunk_id t * CHUNK_NBLOCKS + (CHUNK_NBLOCKS - ?f + i)"
  have f: "?f < CHUNK_NBLOCKS" "?hn + ?f = length (rh_chunks h) * CHUNK_NBLOCKS"
    using assms(1,2) by (auto simp: head_ok_def tail_ok_def)
  have F: "?A i = ?F i" if "i < ?f" for i
    using block_addr_last_chunk [OF assms(1,2) that] .
  have T: "?A (?f + i) = block_addr ?tc i" for i
    using block_addr_shift [of "rh_chunks h" ?tc i] f(2) by (simp add: add.assoc [symmetric])
  have goal: "map (block_addr (rh_chunks h @ ?tc)) [?hn + offset..<?hn + offset + n] = map ?A [offset..<offset + n]"
    by (rule nth_equalityI) (simp_all add: add.assoc)
  show ?thesis
  proof (cases "offset < ?f")
    case True
    have free: "head_free_blocks t n [offset..<?f] [] = Ok (n \<le> ?f - offset, map ?F (take n [offset..<?f]))"
      using head_free_blocks_spec [of t "[]" n "[offset..<?f]"] f(1) assms(3) by simp
    show ?thesis
    proof (cases "n \<le> ?f - offset")
      case le: True
      then have "take n [offset..<?f] = [offset..<offset + n]"
        using True by (intro take_upt) simp
      then have "map ?F (take n [offset..<?f]) = map ?A [offset..<offset + n]"
        using F le True by auto
      then show ?thesis
        using True le free goal by (simp add: raw_tail_prepare_def Let_def)
    next
      case False
      let ?k = "n - (?f - offset)"
      have "collect_blocks ?tc n 0 (map ?F [offset..<?f])
          = Ok (map ?F [offset..<?f] @ map (block_addr ?tc) [0..<0 + ?k])"
        using assms(4) True False by (intro collect_blocks_spec) auto
      also have "map ?F [offset..<?f] @ map (block_addr ?tc) [0..<0 + ?k] = map ?A [offset..<offset + n]"
      proof -
        have "[offset..<offset + n] = [offset..<?f] @ [?f..<?f + ?k]"
          using True False upt_add_eq_append [of offset ?f ?k] by (simp add: add.commute)
        moreover have "[?f..<?f + ?k] = map (\<lambda>i. ?f + i) [0..<?k]"
          using map_add_upt [of ?f ?k] by (simp add: add.commute)
        ultimately show ?thesis
          using F T by (auto simp: comp_def)
      qed
      finally show ?thesis
        using True False free goal by (simp add: raw_tail_prepare_def Let_def)
    qed
  next
    case False
    let ?o = "offset - ?f"
    have "collect_blocks ?tc n ?o [] = Ok (map (block_addr ?tc) [?o..<?o + n])"
      using collect_blocks_spec [of ?o n ?tc "[]" n] assms(4) False by simp
    moreover have "map ?A [offset..<offset + n] = map (block_addr ?tc) [?o..<?o + n]"
    proof -
      have "[offset..<offset + n] = map (\<lambda>i. ?f + i) [?o..<?o + n]"
        using False by (intro nth_equalityI) auto
      then show ?thesis using T by simp
    qed
    ultimately show ?thesis
      using False goal by (simp add: raw_tail_prepare_def Let_def)
  qed
qed

section \<open>Requests to the disk\<close>

definition is_run :: "nat list \<Rightarrow> bool" where
  "is_run g \<longleftrightarrow> g \<noteq> [] \<and> g = [hd g..<hd g + length g]"

lemma is_run_group: "g \<in> set (group_by consecutive bs) \<Longrightarrow> is_run g"
  unfolding is_run_def using group_by_nonempty group_by_consecutive by blast

lemma is_run_nonempty: "is_run g \<Longrightarrow> 0 < length g"
  unfolding is_run_def by blast

lemma is_run_set: "is_run g \<Longrightarrow> set g = {hd g..<hd g + length g}"
  unfolding is_run_def by (metis set_upt)

lemma is_run_nth: "is_run g \<Longrightarrow> j < length g \<Longrightarrow> g ! j = hd g + j"
  unfolding is_run_def by (metis add_less_cancel_left nth_upt)

lemma is_run_bound:
  assumes "is_run g" "\<forall>b \<in> set g. b < n"
  shows "hd g + length g \<le> n"
proof -
  have "hd g + (length g - 1) \<in> set g"
    using is_run_nonempty [OF assms(1)] unfolding is_run_set [OF assms(1)] by simp
  then show ?thesis using assms(2) is_run_nonempty [OF assms(1)] by fastforce
qed

lemma concat_block_at_run:
  assumes "is_run g" "(hd g + length g) * BLOCK_SIZE \<le> length c"
  shows "concat (map (block_at c) g) = take (length g * BLOCK_SIZE) (drop (hd g * BLOCK_SIZE) c)"
  using assms(1) concat_block_at [OF assms(2)] unfolding is_run_def by metis

context block_set
begin

lemma read_groups_spec:
  assumes "inv d" "\<forall>b \<in> set bs. b < bs_nblocks S d"
  shows "read_groups S d (group_by consecutive bs) = Ok (concat (map (block_at (content d)) bs))"
proof -
  let ?f = "\<lambda>g. concat (map (block_at (content d)) g)"
  have grp: "bs_read S d (hd g) (length g) = Ok (?f g)" if g: "g \<in> set (group_by consecutive bs)" for g
  proof -
    have run: "is_run g" using g by (rule is_run_group)
    have "set g \<subseteq> set bs"
      using g concat_group_by [of consecutive bs] by (metis UN_upper set_concat)
    then have le: "hd g + length g \<le> bs_nblocks S d"
      using is_run_bound [OF run] assms(2) by blast
    have "(hd g + length g) * BLOCK_SIZE \<le> length (content d)"
      unfolding content_length [OF assms(1)] using le by (rule mult_le_mono1)
    then show ?thesis
      using read_in_range [OF assms(1) is_run_nonempty [OF run] le] concat_block_at_run [OF run] by simp
  qed
  then have "rmap (\<lambda>g. bs_read S d (hd g) (length g)) gs = Ok (map ?f gs)"
    if "set gs \<subseteq> set (group_by consecutive bs)" for gs
    using that by (induction gs) auto
  then have "read_groups S d (group_by consecutive bs) = Ok (concat (map ?f (group_by consecutive bs)))"
    by (simp add: read_groups_def)
  then show ?thesis by (simp add: concat_map_concat)
qed

text \<open>Writing to addresses that are all different: each gets its block, the others keep theirs.\<close>

lemma write_groups_list:
  assumes "inv d" "\<forall>g \<in> set gs. is_run g" "distinct (concat gs)"
    and "\<forall>b \<in> set (concat gs). b < bs_nblocks S d" "length buf = length (concat gs) * BLOCK_SIZE"
  shows "\<exists>d'. write_groups S gs buf d = (Ok (), d') \<and> inv d' \<and> bs_nblocks S d' = bs_nblocks S d \<and>
    (\<forall>j < length (concat gs). block_at (content d') (concat gs ! j) = block_at buf j) \<and>
    (\<forall>b < bs_nblocks S d. b \<notin> set (concat gs) \<longrightarrow> block_at (content d') b = block_at (content d) b)"
  using assms
proof (induction gs arbitrary: d buf)
  case (Cons g gs)
  let ?k = "length g" and ?a = "hd g" and ?N = "bs_nblocks S d"
  have g: "is_run g" using Cons.prems(2) by simp
  have in_range: "?a + ?k \<le> ?N"
    using is_run_bound [OF g] Cons.prems(4) by simp
  let ?s = "take (?k * BLOCK_SIZE) buf" and ?rest = "drop (?k * BLOCK_SIZE) buf"
  have len: "?k * BLOCK_SIZE \<le> length buf"
    using Cons.prems(5) by (simp add: add_mult_distrib)
  have "length ?s = ?k * BLOCK_SIZE" "0 < ?k"
    using len is_run_nonempty [OF g] by simp_all
  then have ok: "buf_ok ?s" "buf_nblocks ?s = ?k"
    by (auto simp: buf_ok_iff buf_nblocks_def)
  obtain d1 where d1: "bs_write S d ?a ?s = Ok d1" "inv d1" "bs_nblocks S d1 = ?N"
      "content d1 = overwrite (content d) (?a * BLOCK_SIZE) ?s"
    using write_in_range [OF Cons.prems(1) ok(1), of ?a] ok(2) in_range by auto
  have blk: "block_at (content d1) b = (if ?a \<le> b \<and> b < ?a + ?k then block_at ?s (b - ?a) else block_at (content d) b)"
    if "b < ?N" for b
    using block_at_overwrite [OF ok(1), of ?a "content d" b] that in_range ok(2) d1(4)
    by (simp add: content_length [OF Cons.prems(1)])
  have "\<forall>g \<in> set gs. is_run g" "distinct (concat gs)"
    "\<forall>b \<in> set (concat gs). b < bs_nblocks S d1" "length ?rest = length (concat gs) * BLOCK_SIZE"
    using Cons.prems(2-5) d1(3) by (auto simp: add_mult_distrib)
  from Cons.IH [OF d1(2) this] obtain d' where d': "write_groups S gs ?rest d1 = (Ok (), d')" "inv d'"
      "bs_nblocks S d' = ?N" "\<And>j. j < length (concat gs) \<Longrightarrow> block_at (content d') (concat gs ! j) = block_at ?rest j"
      "\<And>b. b < ?N \<Longrightarrow> b \<notin> set (concat gs) \<Longrightarrow> block_at (content d') b = block_at (content d1) b"
    using d1(3) by auto
  have "write_groups S (g # gs) buf d = (Ok (), d')"
    using d1(1) d'(1) len by (simp add: slice_range_def)
  moreover have "block_at (content d') (concat (g # gs) ! j) = block_at buf j" if "j < length (concat (g # gs))" for j
  proof (cases "j < ?k")
    case True
    have gj: "g ! j = ?a + j" using is_run_nth [OF g True] .
    have "g ! j \<in> set g" using True by simp
    then have "?a + j \<notin> set (concat gs)" using Cons.prems(3) gj by auto
    moreover have "(j + 1) * BLOCK_SIZE \<le> ?k * BLOCK_SIZE" using True by (intro mult_le_mono1) simp
    ultimately show ?thesis
      using True gj d'(5) [of "?a + j"] blk [of "?a + j"] in_range
      by (simp add: nth_append block_at_def drop_take min_def)
  next
    case False
    then show ?thesis
      using that d'(4) [of "j - ?k"] by (simp add: nth_append block_at_def diff_mult_distrib)
  qed
  moreover have "block_at (content d') b = block_at (content d) b" if "b < ?N" "b \<notin> set (concat (g # gs))" for b
  proof -
    have "\<not> (?a \<le> b \<and> b < ?a + ?k)"
      using that(2) is_run_set [OF g] by simp
    then show ?thesis using d'(5) [of b] blk [of b] that by (auto split: if_splits)
  qed
  ultimately show ?case using d'(2,3) by blast
qed simp

end

section \<open>A log as a sequence of blocks\<close>

lemma block_addr_append: "i < length cs * CHUNK_NBLOCKS \<Longrightarrow> block_addr (cs @ cs') i = block_addr cs i"
  by (simp add: block_addr_def nth_append chunk_index_less)

lemma block_addr_chunk: "block_addr cs i div CHUNK_NBLOCKS = cs ! (i div CHUNK_NBLOCKS)"
  by (simp add: block_addr_def)

lemma block_addr_in_chunk:
  "i < length cs * CHUNK_NBLOCKS \<Longrightarrow> block_addr cs i div CHUNK_NBLOCKS \<in> set cs"
  by (simp add: block_addr_chunk chunk_index_less)

lemma block_addr_inj:
  assumes "distinct cs" "i < length cs * CHUNK_NBLOCKS" "j < length cs * CHUNK_NBLOCKS"
    and "block_addr cs i = block_addr cs j"
  shows "i = j"
proof -
  have "cs ! (i div CHUNK_NBLOCKS) = cs ! (j div CHUNK_NBLOCKS)"
    using assms(4) by (metis block_addr_chunk)
  then have "i div CHUNK_NBLOCKS = j div CHUNK_NBLOCKS"
    using assms(1-3) chunk_index_less nth_eq_iff_index_eq by blast
  moreover have "i mod CHUNK_NBLOCKS = j mod CHUNK_NBLOCKS"
    using assms(4) calculation by (simp add: block_addr_def)
  ultimately show ?thesis by (metis div_mult_mod_eq)
qed

lemma block_addr_less:
  assumes "set cs \<subseteq> {..<n}" "i < length cs * CHUNK_NBLOCKS"
  shows "block_addr cs i < n * CHUNK_NBLOCKS"
  using block_addr_in_chunk [OF assms(2)] assms(1) by (auto simp: div_less_iff_less_mult)

lemma distinct_addrs:
  assumes "distinct cs" "b \<le> length cs * CHUNK_NBLOCKS"
  shows "distinct (map (block_addr cs) [a..<b])"
  using assms block_addr_inj by (auto simp: distinct_map inj_on_def)

text \<open>
  \<open>raw_ok\<close>: the chunks of the log are different, allocated and on the disk, and the tail fits the
  head. \<open>dinv\<close> is the invariant of the disk.
\<close>

definition raw_ok ::
    "'s block_set_ops \<Rightarrow> ('s \<Rightarrow> bool) \<Rightarrow> bittle \<Rightarrow> 's raw_env \<Rightarrow> raw_log_head \<Rightarrow> raw_log_tail \<Rightarrow> bool" where
  "raw_ok S dinv bt e h t \<longleftrightarrow>
    dinv (re_disk e) \<and> capacity (re_chunk_state e) * CHUNK_NBLOCKS \<le> bs_nblocks S (re_disk e) \<and>
    chunk_inv bt (re_chunk_state e) \<and> edit_wf (re_chunk_edit e) \<and>
    touched (re_chunk_edit e) \<subseteq> used_chunks bt (re_chunk_state e) \<and>
    distinct (rh_chunks h @ rt_chunks t) \<and> set (rh_chunks h @ rt_chunks t) \<subseteq> used_chunks bt (re_chunk_state e) \<and>
    head_ok h \<and> tail_ok h t"

definition log_len :: "raw_log_head \<Rightarrow> raw_log_tail \<Rightarrow> nat" where
  "log_len h t = rh_num_blocks h + rt_num_blocks t"

definition log_block :: "bytes \<Rightarrow> raw_log_head \<Rightarrow> raw_log_tail \<Rightarrow> nat \<Rightarrow> bytes" where
  "log_block disk h t = (\<lambda>i. block_at disk (block_addr (rh_chunks h @ rt_chunks t) i))"

lemma log_len_fits:
  assumes "head_ok h" "tail_ok h t"
  shows "log_len h t \<le> length (rh_chunks h @ rt_chunks t) * CHUNK_NBLOCKS"
  using assms by (auto simp: head_ok_def tail_ok_def log_len_def add_mult_distrib)

lemma used_chunks_less: "used_chunks bt s \<subseteq> {..<capacity s}"
  by (auto simp: used_chunks_def)

lemma raw_ok_addr:
  assumes "raw_ok S dinv bt e h t" "i < length (rh_chunks h @ rt_chunks t) * CHUNK_NBLOCKS"
  shows "block_addr (rh_chunks h @ rt_chunks t) i < bs_nblocks S (re_disk e)"
proof -
  have "set (rh_chunks h @ rt_chunks t) \<subseteq> {..<capacity (re_chunk_state e)}"
    using assms(1) used_chunks_less unfolding raw_ok_def by blast
  then show ?thesis
    using block_addr_less [OF _ assms(2)] assms(1) unfolding raw_ok_def by (meson less_le_trans)
qed

context block_set
begin

lemma write_groups_spec:
  assumes "inv d" "distinct bs" "\<forall>b \<in> set bs. b < bs_nblocks S d" "length buf = length bs * BLOCK_SIZE"
  shows "\<exists>d'. write_groups S (group_by consecutive bs) buf d = (Ok (), d') \<and> inv d' \<and>
    bs_nblocks S d' = bs_nblocks S d \<and>
    (\<forall>j < length bs. block_at (content d') (bs ! j) = block_at buf j) \<and>
    (\<forall>b < bs_nblocks S d. b \<notin> set bs \<longrightarrow> block_at (content d') b = block_at (content d) b)"
  using write_groups_list [OF assms(1), of "group_by consecutive bs" buf] assms(2-4) is_run_group
  by (simp add: concat_group_by)

lemma raw_head_read_spec:
  assumes "raw_ok S inv bt e h t" "pos + n \<le> rh_num_blocks h"
  shows "raw_head_read S (re_disk e) h pos n
    = Ok (concat (map (log_block (content (re_disk e)) h t) [pos..<pos + n]))"
proof -
  let ?bs = "map (block_addr (rh_chunks h @ rt_chunks t)) [pos..<pos + n]"
  have fits: "rh_num_blocks h \<le> length (rh_chunks h) * CHUNK_NBLOCKS"
    using assms(1) by (simp add: raw_ok_def head_ok_def)
  have "collect_blocks (rh_chunks h) n pos [] = Ok ([] @ map (block_addr (rh_chunks h)) [pos..<pos + n])"
    using assms(2) fits by (intro collect_blocks_spec) simp_all
  also have "map (block_addr (rh_chunks h)) [pos..<pos + n] = ?bs"
    using assms(2) fits by (auto simp: block_addr_append)
  finally have "raw_head_prepare h pos n = Ok ?bs" by (simp add: raw_head_prepare_def)
  moreover have "\<forall>b \<in> set ?bs. b < bs_nblocks S (re_disk e)"
    using raw_ok_addr [OF assms(1)] assms(2) fits by (auto simp: add_mult_distrib)
  ultimately show ?thesis
    using read_groups_spec [of "re_disk e" ?bs] assms(1,2)
    by (simp add: raw_head_read_def raw_ok_def log_block_def comp_def)
qed

lemma raw_tail_read_spec:
  assumes "raw_ok S inv bt e h t" "0 < n" "off + n \<le> rt_num_blocks t"
  shows "raw_tail_read S (re_disk e) t off n
    = Ok (concat (map (log_block (content (re_disk e)) h t) [rh_num_blocks h + off..<rh_num_blocks h + off + n]))"
proof -
  let ?bs = "map (block_addr (rh_chunks h @ rt_chunks t)) [rh_num_blocks h + off..<rh_num_blocks h + off + n]"
  have ok: "head_ok h" "tail_ok h t" using assms(1) by (simp_all add: raw_ok_def)
  have "raw_tail_prepare t off n = Ok ?bs"
    using ok assms(2,3) by (intro raw_tail_prepare_spec) (auto simp: tail_ok_def)
  moreover have "\<forall>b \<in> set ?bs. b < bs_nblocks S (re_disk e)"
    using raw_ok_addr [OF assms(1)] log_len_fits [OF ok] assms(3) by (auto simp: log_len_def)
  ultimately show ?thesis
    using read_groups_spec [of "re_disk e" ?bs] assms(1,3)
    by (simp add: raw_tail_read_def raw_ok_def log_block_def comp_def)
qed

lemma raw_ref_read_spec:
  assumes "raw_ok S inv bt e h t" "buf_ok buf" "pos + buf_nblocks buf \<le> log_len h t"
    and "entry = Some h \<or> entry = None \<and> h = raw_head_new"
  shows "raw_ref_read S (re_disk e) entry (Some t) pos buf
    = Ok (concat (map (log_block (content (re_disk e)) h t) [pos..<pos + buf_nblocks buf]))"
proof -
  let ?n = "buf_nblocks buf" and ?hl = "rh_num_blocks h"
  let ?f = "\<lambda>a b. concat (map (log_block (content (re_disk e)) h t) [a..<b])"
  have n: "0 < ?n" "length buf = ?n * BLOCK_SIZE"
    using assms(2) by (rule buf_ok_nblocks_pos, rule buf_ok_length)
  have hl: "raw_head_len entry = ?hl"
    using assms(4) by (auto simp: raw_head_len_def raw_head_new_def)
  have part: "buf_try_from (take (k * BLOCK_SIZE) (drop (m * BLOCK_SIZE) buf)) = Ok (take (k * BLOCK_SIZE) (drop (m * BLOCK_SIZE) buf))"
    if "0 < k" "m + k \<le> ?n" for k m
  proof -
    have "(m + k) * BLOCK_SIZE \<le> length buf" unfolding n(2) using that(2) by (rule mult_le_mono1)
    then have "length (take (k * BLOCK_SIZE) (drop (m * BLOCK_SIZE) buf)) = k * BLOCK_SIZE"
      by (simp add: add_mult_distrib)
    then show ?thesis using that(1) by (auto simp: buf_try_from_iff buf_ok_iff simp del: length_take length_drop)
  qed
  show ?thesis
  proof (cases "pos < ?hl")
    case False
    then have "raw_tail_read S (re_disk e) t (pos - ?hl) ?n = Ok (?f pos (pos + ?n))"
      using raw_tail_read_spec [OF assms(1) n(1), of "pos - ?hl"] assms(3) by (simp add: log_len_def)
    then show ?thesis
      using False n part [of ?n 0] assms(3) hl
      by (cases entry) (simp_all add: raw_ref_read_def Let_def raw_tail_len_def log_len_def)
  next
    case True
    then have entry: "entry = Some h" using assms(4) by (auto simp: raw_head_new_def)
    define k where "k = min ?n (?hl - pos)"
    have k: "0 < k" "k \<le> ?n" "pos + k \<le> ?hl" using True n(1) by (auto simp: k_def)
    have head: "raw_head_read S (re_disk e) h pos k = Ok (?f pos (pos + k))"
      using raw_head_read_spec [OF assms(1) k(3)] .
    show ?thesis
    proof (cases "k = ?n")
      case True
      then show ?thesis
        using \<open>pos < ?hl\<close> n part [of k 0] assms(3) hl entry head k
        by (simp add: raw_ref_read_def Let_def raw_tail_len_def log_len_def flip: k_def)
    next
      case False
      then have hk: "pos + k = ?hl" "0 < ?n - k" using k(2) True by (auto simp: k_def)
      then have stop: "?hl + ?n - k = pos + ?n" by simp
      have "raw_tail_read S (re_disk e) t 0 (?n - k) = Ok (?f (pos + k) (pos + ?n))"
        using raw_tail_read_spec [OF assms(1) hk(2), of 0] assms(3) hk stop by (simp add: log_len_def)
      moreover have "[pos..<pos + ?n] = [pos..<pos + k] @ [pos + k..<pos + ?n]"
        using upt_add_eq_append [of pos "pos + k" "?n - k"] k(2) by simp
      ultimately show ?thesis
        using True n part [of k 0] part [of "?n - k" k] assms(3) hl entry head k hk
        by (simp add: raw_ref_read_def Let_def raw_tail_len_def log_len_def min_absorb1 diff_mult_distrib flip: k_def)
    qed
  qed
qed

lemma raw_ref_read_head:
  assumes "raw_ok S inv bt e h t" "rt_num_blocks t = 0" "buf_ok dst" "pos + buf_nblocks dst \<le> rh_num_blocks h"
  shows "raw_ref_read S (re_disk e) (Some h) None pos dst
    = Ok (concat (map (log_block (content (re_disk e)) h t) [pos..<pos + buf_nblocks dst]))"
proof -
  have "raw_ref_read S (re_disk e) (Some h) None pos dst = raw_ref_read S (re_disk e) (Some h) (Some t) pos dst"
    using assms(2,4) buf_ok_nblocks_pos [OF assms(3)]
    by (auto simp: raw_ref_read_def Let_def raw_head_len_def raw_tail_len_def log_len_def min_def res_simps intro!: rbind_cong)
  then show ?thesis
    using raw_ref_read_spec [OF assms(1,3), of pos "Some h"] assms(2,4) by (simp add: log_len_def)
qed

end

subsection \<open>Appending\<close>

definition needed_chunks :: "raw_log_tail \<Rightarrow> nat \<Rightarrow> nat" where
  "needed_chunks t n =
    ceil_div (n - (rt_head_last_chunk_free_blocks t + length (rt_chunks t) * CHUNK_NBLOCKS - rt_num_blocks t))
      CHUNK_NBLOCKS"

lemma calc_needed_chunks_spec: "tail_ok h t \<Longrightarrow> calc_needed_chunks t n = Ok (needed_chunks t n)"
  by (auto simp: calc_needed_chunks_def needed_chunks_def tail_ok_def checked_sub_def align_up_def ceil_div_def)

lemma needed_chunks_enough:
  assumes "tail_ok h t" "needed_chunks t n \<le> k"
  shows "rt_num_blocks t + n \<le> rt_head_last_chunk_free_blocks t + (length (rt_chunks t) + k) * CHUNK_NBLOCKS"
proof -
  let ?m = "n - (rt_head_last_chunk_free_blocks t + length (rt_chunks t) * CHUNK_NBLOCKS - rt_num_blocks t)"
  have "?m \<le> needed_chunks t n * CHUNK_NBLOCKS"
    using ceil_div_bounds(1) [of CHUNK_NBLOCKS ?m] by (simp add: needed_chunks_def mult.commute)
  also have "\<dots> \<le> k * CHUNK_NBLOCKS" using assms(2) by (rule mult_le_mono1)
  finally show ?thesis using assms(1) by (simp add: tail_ok_def add_mult_distrib)
qed

definition log_created :: "raw_log_id \<Rightarrow> raw_log_store_edit \<Rightarrow> bool" where
  "log_created log_id edit \<longleftrightarrow> (case map_of edit log_id of Some (Create _) \<Rightarrow> True | _ \<Rightarrow> False)"

lemma raw_tail_mut_with_spec:
  assumes "raw_tail_of log_id (re_edit e) = Some t" "f t = Ok t'"
  shows "\<exists>edit'. raw_tail_mut_with log_id f e = (Ok (), e\<lparr>re_edit := edit'\<rparr>) \<and>
    raw_tail_of log_id edit' = Some t' \<and>
    (\<forall>log_id'. log_id' \<noteq> log_id \<longrightarrow> map_of edit' log_id' = map_of (re_edit e) log_id') \<and>
    map fst edit' = map fst (re_edit e) \<and> log_created log_id edit' = log_created log_id (re_edit e)"
proof (cases "map_of (re_edit e) log_id")
  case (Some le)
  moreover have "log_id \<in> fst ` set (re_edit e)" using Some by (auto dest: map_of_SomeD intro: rev_image_eqI)
  then have "map fst (AList.update log_id le' (re_edit e)) = map fst (re_edit e)" for le'
    by (simp add: update_keys)
  ultimately show ?thesis
    using assms by (cases le) (auto simp: raw_tail_of_def raw_tail_mut_with_def update_conv' log_created_def)
qed (use assms(1) in \<open>simp add: raw_tail_of_def\<close>)

text \<open>What an append to a log leaves as it was: the other logs, their chunks and their blocks.\<close>

definition others_kept ::
    "'s block_set_ops \<Rightarrow> ('s \<Rightarrow> bytes) \<Rightarrow> bittle \<Rightarrow> raw_log_id \<Rightarrow> chunk_id set \<Rightarrow> 's raw_env \<Rightarrow> 's raw_env \<Rightarrow> bool" where
  "others_kept S cont bt log_id own e e' \<longleftrightarrow>
    (\<forall>log_id'. log_id' \<noteq> log_id \<longrightarrow> map_of (re_edit e') log_id' = map_of (re_edit e) log_id') \<and>
    re_log_table e' = re_log_table e \<and> re_lazy_deletes e' = re_lazy_deletes e \<and>
    used_chunks bt (re_chunk_state e) \<subseteq> used_chunks bt (re_chunk_state e') \<and>
    edit_allocs (re_chunk_edit e') \<inter> used_chunks bt (re_chunk_state e) \<subseteq> edit_allocs (re_chunk_edit e) \<and>
    bs_nblocks S (re_disk e') = bs_nblocks S (re_disk e) \<and>
    (\<forall>b < bs_nblocks S (re_disk e). b div CHUNK_NBLOCKS \<in> used_chunks bt (re_chunk_state e) - own \<longrightarrow>
      block_at (cont (re_disk e')) b = block_at (cont (re_disk e)) b)"

text \<open>An append changes the disk, the tail of its log and the chunks it takes, and nothing else of the store.\<close>

definition append_frame :: "raw_log_id \<Rightarrow> nat \<Rightarrow> 's raw_env \<Rightarrow> 's raw_env \<Rightarrow> bool" where
  "append_frame log_id k e e' \<longleftrightarrow>
    ca_free_count (re_chunk_state e) = ca_free_count (re_chunk_state e') + k \<and>
    ca_in_journal (re_chunk_state e') = ca_in_journal (re_chunk_state e) \<and>
    edit_deallocs (re_chunk_edit e') = edit_deallocs (re_chunk_edit e) \<and>
    re_next_free_log_id e' = re_next_free_log_id e \<and> re_write_set e' = re_write_set e \<and> re_arcs e' = re_arcs e \<and>
    re_log_table e' = re_log_table e \<and> re_lazy_deletes e' = re_lazy_deletes e \<and>
    (\<forall>log_id'. log_id' \<noteq> log_id \<longrightarrow> map_of (re_edit e') log_id' = map_of (re_edit e) log_id') \<and>
    map fst (re_edit e') = map fst (re_edit e) \<and> log_created log_id (re_edit e') = log_created log_id (re_edit e)"

lemma append_frame_trans:
  "append_frame log_id j e e1 \<Longrightarrow> append_frame log_id k e1 e2 \<Longrightarrow> append_frame log_id (j + k) e e2"
  by (simp add: append_frame_def)

lemma alloc_change_free:
  assumes "alloc_change bt (set cs) s edit s' edit'" "distinct cs" "chunk_inv bt s"
  shows "ca_free_count s = ca_free_count s' + length cs"
proof -
  have s': "chunk_inv bt s'" "capacity s' = capacity s" "set cs \<inter> used_chunks bt s = {}"
      "used_chunks bt s' = used_chunks bt s \<union> set cs"
    using assms(1) by (simp_all add: alloc_change_def)
  have "finite (used_chunks bt s)" using used_chunks_less finite_subset by blast
  then have "card (used_chunks bt s') = card (used_chunks bt s) + length cs"
    using s'(3,4) assms(2) by (simp add: card_Un_disjoint Int_commute distinct_card)
  then show ?thesis
    using chunk_free_count [OF assms(3)] chunk_free_count [OF s'(1)] s'(2) by simp
qed

lemma raw_ok_grow:
  assumes "raw_ok S dinv bt e h t" "alloc_change bt (set cs) (re_chunk_state e) (re_chunk_edit e) state edit" "distinct cs"
  shows "raw_ok S dinv bt (e\<lparr>re_chunk_state := state, re_chunk_edit := edit, re_edit := re\<rparr>) h
    (t\<lparr>rt_chunks := rt_chunks t @ cs\<rparr>)"
  using assms unfolding raw_ok_def alloc_change_def
  by (auto simp: touched_def tail_ok_def add_mult_distrib)

lemma raw_grow_spec:
  assumes "bittle_laws bt" "raw_ok S dinv bt e h t" "raw_tail_of log_id (re_edit e) = Some t"
    and "k \<le> ca_free_count (re_chunk_state e)"
  shows "\<exists>e' cs. raw_grow bt log_id k e = (Ok (), e') \<and> length cs = k \<and> re_disk e' = re_disk e \<and>
    set cs \<inter> used_chunks bt (re_chunk_state e) = {} \<and>
    raw_tail_of log_id (re_edit e') = Some (t\<lparr>rt_chunks := rt_chunks t @ cs\<rparr>) \<and>
    raw_ok S dinv bt e' h (t\<lparr>rt_chunks := rt_chunks t @ cs\<rparr>) \<and> others_kept S cont bt log_id {} e e' \<and>
    append_frame log_id k e e'"
proof (cases "k = 0")
  case True
  then show ?thesis
    using assms(2,3) by (auto simp: raw_grow_def others_kept_def append_frame_def)
next
  case False
  have "chunk_inv bt (re_chunk_state e)" "edit_wf (re_chunk_edit e)"
      "touched (re_chunk_edit e) \<subseteq> used_chunks bt (re_chunk_state e)"
    using assms(2) by (simp_all add: raw_ok_def)
  from bittle_laws.chunk_alloc_batch_spec [OF assms(1) this assms(4)] obtain cs state edit where
    cs: "chunk_alloc_batch bt k (re_chunk_state e) (re_chunk_edit e) = Ok (Some cs, state, edit)" "length cs = k"
      "distinct cs" "alloc_change bt (set cs) (re_chunk_state e) (re_chunk_edit e) state edit"
    by blast
  let ?e1 = "e\<lparr>re_chunk_state := state, re_chunk_edit := edit\<rparr>"
  let ?t = "t\<lparr>rt_chunks := rt_chunks t @ cs\<rparr>"
  have "raw_tail_of log_id (re_edit ?e1) = Some t" using assms(3) by simp
  from raw_tail_mut_with_spec [OF this, where f = "\<lambda>tail. Ok (tail\<lparr>rt_chunks := rt_chunks tail @ cs\<rparr>)", OF refl]
  obtain edit' where m: "raw_tail_mut_with log_id (\<lambda>tail. Ok (tail\<lparr>rt_chunks := rt_chunks tail @ cs\<rparr>)) ?e1
        = (Ok (), ?e1\<lparr>re_edit := edit'\<rparr>)" "raw_tail_of log_id edit' = Some ?t"
      "\<forall>log_id'. log_id' \<noteq> log_id \<longrightarrow> map_of edit' log_id' = map_of (re_edit e) log_id'"
      "map fst edit' = map fst (re_edit e)" "log_created log_id edit' = log_created log_id (re_edit e)"
    by auto
  have "raw_grow bt log_id k e = (Ok (), ?e1\<lparr>re_edit := edit'\<rparr>)"
    using False cs(1) m(1) by (simp add: raw_grow_def raw_alloc_chunks_def ok_or_def sbind_def)
  moreover have "raw_ok S dinv bt (?e1\<lparr>re_edit := edit'\<rparr>) h ?t"
    using raw_ok_grow [OF assms(2) cs(4,3)] .
  moreover have "append_frame log_id k e (?e1\<lparr>re_edit := edit'\<rparr>)"
    using alloc_change_free [OF cs(4,3)] assms(2) cs(2,4) m(3-5)
    by (simp add: append_frame_def alloc_change_def raw_ok_def)
  ultimately show ?thesis
    using cs(2,4) m(2,3) by (intro exI) (auto simp: others_kept_def alloc_change_def)
qed

context block_set
begin

lemma raw_tail_append_spec:
  assumes "raw_ok S inv bt e h t" "raw_tail_of log_id (re_edit e) = Some t" "buf_ok buf"
    and "rt_num_blocks t + buf_nblocks buf \<le> rt_head_last_chunk_free_blocks t + length (rt_chunks t) * CHUNK_NBLOCKS"
  shows "\<exists>d'. raw_tail_append S log_id buf e = (Ok (), e\<lparr>re_disk := d'\<rparr>) \<and> inv d' \<and>
    bs_nblocks S d' = bs_nblocks S (re_disk e) \<and>
    (\<forall>i < log_len h t. log_block (content d') h t i = log_block (content (re_disk e)) h t i) \<and>
    (\<forall>i < buf_nblocks buf. log_block (content d') h t (log_len h t + i) = block_at buf i) \<and>
    (\<forall>b < bs_nblocks S (re_disk e). b div CHUNK_NBLOCKS \<notin> set (rh_chunks h @ rt_chunks t) \<longrightarrow>
      block_at (content d') b = block_at (content (re_disk e)) b)"
proof -
  let ?n = "buf_nblocks buf" and ?cs = "rh_chunks h @ rt_chunks t" and ?l = "log_len h t"
  let ?bs = "map (block_addr ?cs) [?l..<?l + ?n]"
  have ok: "head_ok h" "tail_ok h t" "distinct ?cs" "inv (re_disk e)"
    using assms(1) by (simp_all add: raw_ok_def)
  have fits: "?l + ?n \<le> length ?cs * CHUNK_NBLOCKS"
    using ok(1,2) assms(4) by (auto simp: head_ok_def tail_ok_def log_len_def add_mult_distrib)
  have prep: "raw_tail_prepare t (rt_num_blocks t) ?n = Ok ?bs"
    using raw_tail_prepare_spec [OF ok(1,2) buf_ok_nblocks_pos [OF assms(3)] assms(4)] by (simp add: log_len_def)
  have on_disk: "\<forall>b \<in> set ?bs. b < bs_nblocks S (re_disk e)"
    using raw_ok_addr [OF assms(1)] fits by auto
  have "length buf = length ?bs * BLOCK_SIZE"
    using buf_ok_length [OF assms(3)] by simp
  from write_groups_spec [OF ok(4) distinct_addrs [OF ok(3) fits] on_disk this] obtain d' where
    d': "write_groups S (group_by consecutive ?bs) buf (re_disk e) = (Ok (), d')" "inv d'"
      "bs_nblocks S d' = bs_nblocks S (re_disk e)"
      "\<And>j. j < ?n \<Longrightarrow> block_at (content d') (?bs ! j) = block_at buf j"
      "\<And>b. b < bs_nblocks S (re_disk e) \<Longrightarrow> b \<notin> set ?bs \<Longrightarrow> block_at (content d') b = block_at (content (re_disk e)) b"
    by auto
  have "raw_tail_append S log_id buf e = (Ok (), e\<lparr>re_disk := d'\<rparr>)"
    using assms(2) prep d'(1) by (simp add: raw_tail_append_def raw_tail_with_def sbind_def slift_def)
  moreover have "log_block (content d') h t i = log_block (content (re_disk e)) h t i" if "i < ?l" for i
  proof -
    have i: "i < length ?cs * CHUNK_NBLOCKS" using that fits by linarith
    have "block_addr ?cs i \<noteq> block_addr ?cs j" if "j \<in> {?l..<?l + ?n}" for j
      using block_addr_inj [OF ok(3) i, of j] that fits \<open>i < ?l\<close> by auto
    then have "block_addr ?cs i \<notin> set ?bs" unfolding set_map set_upt by blast
    then show ?thesis using d'(5) raw_ok_addr [OF assms(1) i] by (simp add: log_block_def)
  qed
  moreover have "log_block (content d') h t (?l + i) = block_at buf i" if "i < ?n" for i
    using d'(4) [OF that] that by (simp add: log_block_def)
  moreover have "block_at (content d') b = block_at (content (re_disk e)) b"
    if "b < bs_nblocks S (re_disk e)" "b div CHUNK_NBLOCKS \<notin> set ?cs" for b
  proof -
    have "b \<noteq> block_addr ?cs j" if "j \<in> {?l..<?l + ?n}" for j
      using block_addr_in_chunk [of j ?cs] that fits \<open>b div CHUNK_NBLOCKS \<notin> set ?cs\<close> by auto
    then have "b \<notin> set ?bs" unfolding set_map set_upt by blast
    then show ?thesis using d'(5) that(1) by blast
  qed
  ultimately show ?thesis using d'(2,3) by blast
qed

text \<open>
  An append with enough free chunks succeeds; the log keeps its blocks and gets the new ones behind
  them, and nothing else changes on the disk where chunks are in use.
\<close>

lemma raw_ref_append_spec:
  assumes "bittle_laws bt" "raw_ok S inv bt e h t" "raw_tail_of log_id (re_edit e) = Some t" "buf_ok buf"
    and "rt_num_blocks t + buf_nblocks buf < 2 ^ 32"
    and "needed_chunks t (buf_nblocks buf) \<le> ca_free_count (re_chunk_state e)"
  shows "\<exists>e' t'. raw_ref_append S bt log_id buf e = (Ok (), e') \<and> raw_tail_of log_id (re_edit e') = Some t' \<and>
    raw_ok S inv bt e' h t' \<and> log_len h t' = log_len h t + buf_nblocks buf \<and>
    length (rt_chunks t') = length (rt_chunks t) + needed_chunks t (buf_nblocks buf) \<and>
    (\<forall>i < log_len h t. log_block (content (re_disk e')) h t' i = log_block (content (re_disk e)) h t i) \<and>
    (\<forall>i < buf_nblocks buf. log_block (content (re_disk e')) h t' (log_len h t + i) = block_at buf i) \<and>
    others_kept S content bt log_id (set (rh_chunks h @ rt_chunks t)) e e' \<and>
    append_frame log_id (needed_chunks t (buf_nblocks buf)) e e' \<and>
    rt_num_blocks t' = rt_num_blocks t + buf_nblocks buf \<and>
    rt_head_last_chunk_free_blocks t' = rt_head_last_chunk_free_blocks t \<and>
    set (rt_chunks t') \<inter> used_chunks bt (re_chunk_state e) \<subseteq> set (rt_chunks t)"
proof -
  let ?n = "buf_nblocks buf" and ?k = "needed_chunks t (buf_nblocks buf)"
  have tail: "tail_ok h t" "head_ok h" using assms(2) by (simp_all add: raw_ok_def)
  from raw_grow_spec [OF assms(1-3,6), where cont = content] obtain e1 cs where
    e1: "raw_grow bt log_id ?k e = (Ok (), e1)" "length cs = ?k" "re_disk e1 = re_disk e"
      "set cs \<inter> used_chunks bt (re_chunk_state e) = {}"
      "raw_tail_of log_id (re_edit e1) = Some (t\<lparr>rt_chunks := rt_chunks t @ cs\<rparr>)"
      "raw_ok S inv bt e1 h (t\<lparr>rt_chunks := rt_chunks t @ cs\<rparr>)" "others_kept S content bt log_id {} e e1"
      "append_frame log_id ?k e e1"
    by blast
  define t1 where "t1 = t\<lparr>rt_chunks := rt_chunks t @ cs\<rparr>"
  have t1: "rt_num_blocks t1 = rt_num_blocks t" "rt_chunks t1 = rt_chunks t @ cs" "log_len h t1 = log_len h t"
    by (simp_all add: t1_def log_len_def)
  have enough: "rt_num_blocks t1 + ?n \<le> rt_head_last_chunk_free_blocks t1 + length (rt_chunks t1) * CHUNK_NBLOCKS"
    using needed_chunks_enough [OF tail(1) order.refl, of ?n] e1(2) by (simp add: t1_def)
  note e1' = e1(5,6) [folded t1_def]
  from raw_tail_append_spec [OF e1'(2,1) assms(4) enough] obtain d' where
    d': "raw_tail_append S log_id buf e1 = (Ok (), e1\<lparr>re_disk := d'\<rparr>)" "inv d'"
      "bs_nblocks S d' = bs_nblocks S (re_disk e)"
      "\<forall>i < log_len h t. log_block (content d') h t1 i = log_block (content (re_disk e)) h t1 i"
      "\<forall>i < ?n. log_block (content d') h t1 (log_len h t + i) = block_at buf i"
      "\<forall>b < bs_nblocks S (re_disk e). b div CHUNK_NBLOCKS \<notin> set (rh_chunks h @ rt_chunks t1) \<longrightarrow>
        block_at (content d') b = block_at (content (re_disk e)) b"
    unfolding e1(3) t1(3) by blast
  let ?f = "\<lambda>tail. rbind (u32_add (rt_num_blocks tail) (?n mod 2 ^ 32)) (\<lambda>n. Ok (tail\<lparr>rt_num_blocks := n\<rparr>))"
  define t2 where "t2 = t1\<lparr>rt_num_blocks := rt_num_blocks t + ?n\<rparr>"
  have "?f t1 = Ok t2"
    using assms(5) by (simp add: u32_add_def t1(1) t2_def)
  then obtain edit' where m: "raw_tail_mut_with log_id ?f (e1\<lparr>re_disk := d'\<rparr>) = (Ok (), e1\<lparr>re_disk := d', re_edit := edit'\<rparr>)"
      "raw_tail_of log_id edit' = Some t2"
      "\<forall>log_id'. log_id' \<noteq> log_id \<longrightarrow> map_of edit' log_id' = map_of (re_edit e1) log_id'"
      "map fst edit' = map fst (re_edit e1)" "log_created log_id edit' = log_created log_id (re_edit e1)"
    using raw_tail_mut_with_spec [of log_id "e1\<lparr>re_disk := d'\<rparr>" t1 ?f t2] e1'(1) by auto
  let ?e' = "e1\<lparr>re_disk := d', re_edit := edit'\<rparr>"
  have run: "raw_ref_append S bt log_id buf e = (Ok (), ?e')"
    using assms(3) calc_needed_chunks_spec [OF tail(1), of ?n] e1(1) d'(1) m(1)
    by (simp add: raw_ref_append_def raw_tail_with_def sbind_def slift_def Let_def)
  have lb: "log_block c h t2 = log_block c h t1" for c by (simp add: log_block_def t2_def)
  have old: "log_block c h t1 i = log_block c h t i" if "i < log_len h t" for c i
    using block_addr_append [of i "rh_chunks h @ rt_chunks t" cs] log_len_fits [OF tail(2,1)] that
    by (simp add: log_block_def t1(2))
  have "raw_ok S inv bt ?e' h t2"
    using e1'(2) d'(2,3) enough e1(3) t1 by (simp add: raw_ok_def tail_ok_def t2_def)
  moreover have "log_len h t2 = log_len h t + ?n" "length (rt_chunks t2) = length (rt_chunks t) + ?k"
    using e1(2) by (simp_all add: log_len_def t2_def t1_def)
  moreover have "others_kept S content bt log_id (set (rh_chunks h @ rt_chunks t)) e ?e'"
    using e1(3,4,7) m(3) d'(3,6) t1(2) unfolding others_kept_def by auto
  moreover have "append_frame log_id ?k e ?e'"
    using append_frame_trans [OF e1(8), of 0 ?e'] m(3-5) by (simp add: append_frame_def)
  moreover have "set (rt_chunks t2) \<inter> used_chunks bt (re_chunk_state e) \<subseteq> set (rt_chunks t)"
    "rt_num_blocks t2 = rt_num_blocks t + ?n" "rt_head_last_chunk_free_blocks t2 = rt_head_last_chunk_free_blocks t"
    using e1(4) by (auto simp: t2_def t1_def)
  ultimately show ?thesis
    using run m(2) d'(4,5) lb old by (intro exI [of _ ?e'] exI [of _ t2]) simp
qed

end

subsection \<open>A raw log as a block log\<close>

definition raw_log_ops :: "'s block_set_ops \<Rightarrow> bittle \<Rightarrow> ('s raw_env \<times> raw_log) block_log_ops" where
  "raw_log_ops S bt = \<lparr>
    bl_read = (\<lambda>(e, log) pos n. raw_log_read S e log pos (replicate (n * BLOCK_SIZE) 0)),
    bl_append = (\<lambda>(e, log) buf. case raw_log_append S bt log buf e of
        (Inl f, _) \<Rightarrow> Inl f | (Inr (pos, log'), e') \<Rightarrow> Ok (pos, e', log')),
    bl_flush = (\<lambda>(e, log). case raw_log_flush S e of (Inl f, _) \<Rightarrow> Inl f | (Inr _, e') \<Rightarrow> Ok (e', log)),
    bl_nblocks = (\<lambda>(e, log). raw_log_nblocks e log)\<rparr>"

definition raw_head_of :: "raw_log \<Rightarrow> raw_log_head" where
  "raw_head_of log = (case rl_log_entry log of None \<Rightarrow> raw_head_new | Some h \<Rightarrow> h)"

definition raw_cur_tail :: "'s raw_env \<Rightarrow> raw_log \<Rightarrow> raw_log_tail" where
  "raw_cur_tail e log = the (raw_tail_of (rl_log_id log) (re_edit e))"

text \<open>An append takes no more chunks than it needs, so that the last chunk is never empty.\<close>

definition log_tight :: "raw_log_head \<Rightarrow> raw_log_tail \<Rightarrow> bool" where
  "log_tight h t \<longleftrightarrow> length (rh_chunks h @ rt_chunks t) * CHUNK_NBLOCKS < log_len h t + CHUNK_NBLOCKS"

lemma log_tight_append:
  assumes "head_ok h" "tail_ok h t" "log_tight h t" "log_len h t' = log_len h t + n"
    and "length (rt_chunks t') = length (rt_chunks t) + needed_chunks t n"
  shows "log_tight h t'"
proof -
  let ?m = "n - (rt_head_last_chunk_free_blocks t + length (rt_chunks t) * CHUNK_NBLOCKS - rt_num_blocks t)"
  have "needed_chunks t n * CHUNK_NBLOCKS < ?m + CHUNK_NBLOCKS"
    using ceil_div_bounds(2) [of CHUNK_NBLOCKS ?m] by (simp add: needed_chunks_def)
  moreover have "needed_chunks t n = 0" if "?m = 0"
    using that by (simp add: needed_chunks_def ceil_div_def)
  ultimately show ?thesis
    using assms unfolding log_tight_def head_ok_def tail_ok_def log_len_def
    by (cases "?m = 0") (auto simp: add_mult_distrib)
qed

text \<open>The handle is open for appending and has appended all the blocks of the tail.\<close>

definition raw_inv :: "'s block_set_ops \<Rightarrow> ('s \<Rightarrow> bool) \<Rightarrow> bittle \<Rightarrow> 's raw_env \<times> raw_log \<Rightarrow> bool" where
  "raw_inv S dinv bt = (\<lambda>(e, log). rl_can_append log \<and> raw_tail_of (rl_log_id log) (re_edit e) \<noteq> None \<and>
    raw_ok S dinv bt e (raw_head_of log) (raw_cur_tail e log) \<and> log_tight (raw_head_of log) (raw_cur_tail e log) \<and>
    rl_append_pos log = log_len (raw_head_of log) (raw_cur_tail e log))"

definition raw_content :: "('s \<Rightarrow> bytes) \<Rightarrow> 's raw_env \<times> raw_log \<Rightarrow> bytes" where
  "raw_content cont = (\<lambda>(e, log). concat (map (log_block (cont (re_disk e)) (raw_head_of log) (raw_cur_tail e log))
    [0..<log_len (raw_head_of log) (raw_cur_tail e log)]))"

definition raw_room :: "'s raw_env \<times> raw_log \<Rightarrow> nat \<Rightarrow> bool" where
  "raw_room = (\<lambda>(e, log) n. rt_num_blocks (raw_cur_tail e log) + n < 2 ^ 32 \<and>
    needed_chunks (raw_cur_tail e log) n \<le> ca_free_count (re_chunk_state e))"

lemma concat_blocks_slice:
  assumes "\<forall>x \<in> set xs. length x = B"
  shows "take (n * B) (drop (p * B) (concat xs)) = concat (take n (drop p xs))"
proof -
  have drop: "drop (p * B) (concat ys) = concat (drop p ys)" if "\<forall>x \<in> set ys. length x = B" for p ys
    using that
  proof (induction ys arbitrary: p)
    case (Cons y ys)
    then show ?case by (cases p) auto
  qed simp
  have take: "take (n * B) (concat ys) = concat (take n ys)" if "\<forall>x \<in> set ys. length x = B" for n ys
    using that
  proof (induction ys arbitrary: n)
    case (Cons y ys)
    then show ?case by (cases n) auto
  qed simp
  show ?thesis
    using drop [OF assms] take [of "drop p xs" n] assms by (simp add: in_set_dropD)
qed

lemma raw_log_nblocks_len:
  "raw_tail_of (rl_log_id log) (re_edit e) \<noteq> None \<Longrightarrow>
    raw_log_nblocks e log = log_len (raw_head_of log) (raw_cur_tail e log)"
  by (auto simp: raw_log_nblocks_def log_len_def raw_head_of_def raw_cur_tail_def raw_head_len_def raw_tail_len_def
      raw_head_new_def split: option.split)

lemma raw_entry_head: "rl_log_entry log = Some (raw_head_of log) \<or> rl_log_entry log = None \<and> raw_head_of log = raw_head_new"
  by (cases "rl_log_entry log") (simp_all add: raw_head_of_def)

context block_set
begin

lemma log_block_length:
  assumes "raw_ok S inv bt e h t" "i < log_len h t"
  shows "length (log_block (content (re_disk e)) h t i) = BLOCK_SIZE"
proof -
  let ?a = "block_addr (rh_chunks h @ rt_chunks t) i"
  have ok: "head_ok h" "tail_ok h t" "inv (re_disk e)" using assms(1) by (simp_all add: raw_ok_def)
  have "?a < bs_nblocks S (re_disk e)"
    using raw_ok_addr [OF assms(1)] log_len_fits [OF ok(1,2)] assms(2) less_le_trans by blast
  then have "(?a + 1) * BLOCK_SIZE \<le> length (content (re_disk e))"
    unfolding content_length [OF ok(3)] by (intro mult_le_mono1) simp
  then show ?thesis by (simp add: log_block_def block_at_def)
qed

lemma raw_block_log:
  assumes "bittle_laws bt"
  shows "block_log (raw_log_ops S bt) (raw_inv S inv bt) (raw_content content) raw_room"
proof (unfold_locales, goal_cases)
  case (1 s)
  obtain e log where s: "s = (e, log)" by (cases s)
  let ?bs = "map (log_block (content (re_disk e)) (raw_head_of log) (raw_cur_tail e log))
    [0..<log_len (raw_head_of log) (raw_cur_tail e log)]"
  have "\<forall>b \<in> set ?bs. length b = BLOCK_SIZE"
    using log_block_length 1 by (auto simp: s raw_inv_def)
  then have "length (concat ?bs) = length ?bs * BLOCK_SIZE" by (rule length_concat_blocks)
  then show ?case
    using raw_log_nblocks_len [of log e] 1 by (simp add: s raw_inv_def raw_content_def raw_log_ops_def)
next
  case (2 s n pos)
  obtain e log where s: "s = (e, log)" by (cases s)
  let ?h = "raw_head_of log" and ?t = "raw_cur_tail e log" and ?buf = "replicate (n * BLOCK_SIZE) 0 :: bytes"
  let ?f = "log_block (content (re_disk e)) ?h ?t"
  have ok: "raw_ok S inv bt e ?h ?t" and tail: "raw_tail_of (rl_log_id log) (re_edit e) = Some ?t"
    using 2(1) s by (auto simp: raw_inv_def raw_cur_tail_def)
  have buf: "buf_ok ?buf" "buf_nblocks ?buf = n" using 2(2) by (auto simp: buf_ok_iff buf_nblocks_def)
  have le: "pos + n \<le> log_len ?h ?t"
    using 2(3) raw_log_nblocks_len [of log e] tail by (simp add: s raw_log_ops_def)
  have "bl_read (raw_log_ops S bt) s pos n = Ok (concat (map ?f [pos..<pos + n]))"
    using raw_ref_read_spec [OF ok buf(1) _ raw_entry_head] le tail buf(2)
    by (simp add: s raw_log_ops_def raw_log_read_def)
  moreover have "\<forall>x \<in> set (map ?f [0..<log_len ?h ?t]). length x = BLOCK_SIZE"
    using log_block_length [OF ok] by simp
  ultimately show ?case
    using concat_blocks_slice [of "map ?f [0..<log_len ?h ?t]" BLOCK_SIZE n pos] le
    by (simp add: s raw_content_def drop_map take_map)
next
  case (3 s buf)
  obtain e log where s: "s = (e, log)" by (cases s)
  let ?h = "raw_head_of log" and ?t = "raw_cur_tail e log" and ?n = "buf_nblocks buf"
  have inv: "rl_can_append log" "raw_ok S inv bt e ?h ?t" "rl_append_pos log = log_len ?h ?t"
      "raw_tail_of (rl_log_id log) (re_edit e) = Some ?t" "log_tight ?h ?t" "head_ok ?h" "tail_ok ?h ?t"
    using 3(1) s by (auto simp: raw_inv_def raw_cur_tail_def raw_ok_def)
  have room: "rt_num_blocks ?t + ?n < 2 ^ 32" "needed_chunks ?t ?n \<le> ca_free_count (re_chunk_state e)"
    using 3(3) by (simp_all add: s raw_room_def)
  obtain e' t' where e': "raw_ref_append S bt (rl_log_id log) buf e = (Ok (), e')"
      "raw_tail_of (rl_log_id log) (re_edit e') = Some t'" "raw_ok S inv bt e' ?h t'" "log_len ?h t' = log_len ?h ?t + ?n"
      "log_tight ?h t'" "\<forall>i < log_len ?h ?t. log_block (content (re_disk e')) ?h t' i = log_block (content (re_disk e)) ?h ?t i"
      "\<forall>i < ?n. log_block (content (re_disk e')) ?h t' (log_len ?h ?t + i) = block_at buf i"
    using raw_ref_append_spec [OF assms inv(2,4) 3(2) room] log_tight_append [OF inv(6,7,5)] by blast
  let ?log' = "log\<lparr>rl_append_pos := rl_append_pos log + ?n\<rparr>"
  have h: "raw_head_of ?log' = ?h" and t: "raw_cur_tail e' ?log' = t'"
    using e'(2) by (simp_all add: raw_head_of_def raw_cur_tail_def)
  have "raw_log_append S bt log buf e = (Ok (log_len ?h ?t, ?log'), e')"
    using inv(1,3) e'(1) by (simp add: raw_log_append_def sbind_def sret_def)
  moreover have "raw_inv S inv bt (e', ?log')"
    using inv(1,3) e'(2-5) h t by (simp add: raw_inv_def)
  moreover have "raw_content content (e', ?log') = raw_content content s @ buf"
  proof -
    let ?g = "log_block (content (re_disk e')) ?h t'"
    have "map ?g [log_len ?h ?t..<log_len ?h ?t + ?n] = map (block_at buf) [0..<?n]"
      using e'(7) by (intro nth_equalityI) auto
    moreover have "concat (map (block_at buf) [0..<?n]) = buf"
      using concat_block_at [of 0 ?n buf] buf_ok_length [OF 3(2)] by simp
    moreover have "map ?g [0..<log_len ?h ?t] = map (log_block (content (re_disk e)) ?h ?t) [0..<log_len ?h ?t]"
      using e'(6) by auto
    moreover have "raw_content content (e', ?log')
        = concat (map ?g [0..<log_len ?h ?t]) @ concat (map ?g [log_len ?h ?t..<log_len ?h ?t + ?n])"
      unfolding raw_content_def prod.case h t e'(4) upt_add_eq_append [OF le0] map_append concat_append ..
    ultimately show ?thesis unfolding s raw_content_def prod.case by argo
  qed
  ultimately show ?case
    using raw_log_nblocks_len [of log e] inv(4) by (simp add: s raw_log_ops_def)
qed

end

subsection \<open>Several appends, and committed logs\<close>

definition own_chunks :: "'s raw_env \<Rightarrow> raw_log \<Rightarrow> chunk_id set" where
  "own_chunks e log = set (rh_chunks (raw_head_of log) @ rt_chunks (raw_cur_tail e log))"

lemma ceil_div_diff: "0 < c \<Longrightarrow> ceil_div (x - k * c) c = ceil_div x c - k"
proof (cases "k * c \<le> x")
  case True
  assume "0 < c"
  moreover have "x + c - 1 = (x - k * c + c - 1) + k * c" using True \<open>0 < c\<close> by simp
  then have "(x + c - 1) div c = (x - k * c + c - 1) div c + k"
    using \<open>0 < c\<close> by (metis add.commute div_mult_self1 less_not_refl3)
  ultimately show ?thesis by (simp add: ceil_div_def)
next
  case False
  assume "0 < c"
  then have "x + c - 1 < (k + 1) * c" using False by simp
  then have "(x + c - 1) div c < k + 1" using \<open>0 < c\<close> by (simp add: div_less_iff_less_mult)
  then show ?thesis using False \<open>0 < c\<close> by (simp add: ceil_div_def)
qed

lemma needed_chunks_append:
  assumes "tail_ok h t" "rt_num_blocks t' = rt_num_blocks t + b"
    and "rt_head_last_chunk_free_blocks t' = rt_head_last_chunk_free_blocks t"
    and "length (rt_chunks t') = length (rt_chunks t) + needed_chunks t b"
  shows "needed_chunks t' n = needed_chunks t (b + n) - needed_chunks t b"
proof -
  let ?a = "rt_head_last_chunk_free_blocks t + length (rt_chunks t) * CHUNK_NBLOCKS - rt_num_blocks t"
  let ?k = "needed_chunks t b"
  have "rt_num_blocks t + b \<le> rt_head_last_chunk_free_blocks t + (length (rt_chunks t) + ?k) * CHUNK_NBLOCKS"
    using needed_chunks_enough [OF assms(1) order.refl] .
  then have "n - (rt_head_last_chunk_free_blocks t' + length (rt_chunks t') * CHUNK_NBLOCKS - rt_num_blocks t')
      = b + n - ?a - ?k * CHUNK_NBLOCKS"
    using assms by (simp add: tail_ok_def add_mult_distrib)
  then have "needed_chunks t' n = ceil_div (b + n - ?a - ?k * CHUNK_NBLOCKS) CHUNK_NBLOCKS"
    by (simp add: needed_chunks_def)
  then show ?thesis by (simp only: ceil_div_diff [OF CHUNK_NBLOCKS_pos(1)]) (simp add: needed_chunks_def)
qed

lemma needed_chunks_mono: "m \<le> n \<Longrightarrow> needed_chunks t m \<le> needed_chunks t n"
  by (simp add: needed_chunks_def ceil_div_def div_le_mono diff_le_mono)

lemma others_kept_trans:
  assumes "others_kept S cont bt log_id own e0 e1" "others_kept S cont bt log_id own1 e1 e2"
    and "own1 \<inter> used_chunks bt (re_chunk_state e0) \<subseteq> own"
  shows "others_kept S cont bt log_id own e0 e2"
  using assms unfolding others_kept_def by (auto simp: subset_iff)

lemma raw_appendD:
  assumes "bl_append (raw_log_ops S bt) (e, log) buf = Ok (pos, e', log')"
  shows "raw_ref_append S bt (rl_log_id log) buf e = (Ok (), e')"
    "log' = log\<lparr>rl_append_pos := rl_append_pos log + buf_nblocks buf\<rparr>"
  using assms
  by (auto simp: raw_log_ops_def raw_log_append_def sbind_def sret_def sfail_def split: prod.splits sum.splits if_splits)

lemma raw_session_fields:
  "raw_head_of (log\<lparr>rl_append_pos := p\<rparr>) = raw_head_of log" "raw_cur_tail e (log\<lparr>rl_append_pos := p\<rparr>) = raw_cur_tail e log"
  "own_chunks e (log\<lparr>rl_append_pos := p\<rparr>) = own_chunks e log"
  by (simp_all add: raw_head_of_def raw_cur_tail_def own_chunks_def)

text \<open>A log as it is committed, not open for appending.\<close>

definition raw_committed :: "'s block_set_ops \<Rightarrow> ('s \<Rightarrow> bool) \<Rightarrow> bittle \<Rightarrow> 's raw_env \<times> raw_log \<Rightarrow> bool" where
  "raw_committed S dinv bt = (\<lambda>(e, log). rl_log_entry log \<noteq> None \<and> rh_num_blocks (raw_head_of log) < 2 ^ 32 \<and>
    raw_tail_of (rl_log_id log) (re_edit e) = None \<and>
    (\<exists>t. raw_ok S dinv bt e (raw_head_of log) t \<and> rt_num_blocks t = 0 \<and> rt_chunks t = []))"

definition raw_head_content :: "('s \<Rightarrow> bytes) \<Rightarrow> 's raw_env \<times> raw_log \<Rightarrow> bytes" where
  "raw_head_content cont = (\<lambda>(e, log). concat (map (\<lambda>i. block_at (cont (re_disk e)) (block_addr (rh_chunks (raw_head_of log)) i))
    [0..<rh_num_blocks (raw_head_of log)]))"

lemma raw_committedD:
  "raw_committed S dinv bt s \<Longrightarrow> \<exists>e log h t. s = (e, log) \<and> rl_log_entry log = Some h \<and>
    raw_tail_of (rl_log_id log) (re_edit e) = None \<and> raw_ok S dinv bt e h t \<and> rt_num_blocks t = 0 \<and> rt_chunks t = []"
  by (auto simp: raw_committed_def raw_head_of_def split: prod.splits option.splits)

context block_set
begin

text \<open>A log that no one appends to: what is committed can be read, and there is no room for more.\<close>

lemma raw_committed_log: "roomy_log (raw_log_ops S bt) (raw_committed S inv bt) (raw_head_content content) (\<lambda>_ _. False)"
proof (unfold_locales, goal_cases)
  case (1 s)
  from raw_committedD [OF 1] obtain e log h t where
    s: "s = (e, log)" "rl_log_entry log = Some h" "raw_tail_of (rl_log_id log) (re_edit e) = None" "raw_ok S inv bt e h t"
      "rt_num_blocks t = 0" "rt_chunks t = []" by blast
  let ?bs = "map (log_block (content (re_disk e)) h t) [0..<rh_num_blocks h]"
  have "\<forall>b \<in> set ?bs. length b = BLOCK_SIZE"
    using log_block_length [OF s(4)] s(5) by (auto simp: log_len_def)
  then have "length (concat ?bs) = length ?bs * BLOCK_SIZE" by (rule length_concat_blocks)
  then show ?case
    using s by (simp add: raw_head_content_def raw_log_ops_def raw_log_nblocks_def raw_head_len_def raw_tail_len_def
        log_block_def raw_head_of_def)
next
  case (2 s n pos)
  from raw_committedD [OF 2(1)] obtain e log h t where
    s: "s = (e, log)" "rl_log_entry log = Some h" "raw_tail_of (rl_log_id log) (re_edit e) = None" "raw_ok S inv bt e h t"
      "rt_num_blocks t = 0" "rt_chunks t = []" by blast
  let ?f = "log_block (content (re_disk e)) h t" and ?buf = "replicate (n * BLOCK_SIZE) 0 :: bytes"
  have buf: "buf_ok ?buf" "buf_nblocks ?buf = n" using 2(2) by (auto simp: buf_ok_iff buf_nblocks_def)
  have le: "pos + n \<le> rh_num_blocks h"
    using 2(3) s by (simp add: raw_log_ops_def raw_log_nblocks_def raw_head_len_def raw_tail_len_def)
  have "bl_read (raw_log_ops S bt) s pos n = Ok (concat (map ?f [pos..<pos + n]))"
    using raw_ref_read_head [OF s(4,5) buf(1)] le s buf(2) by (simp add: raw_log_ops_def raw_log_read_def)
  moreover have "\<forall>x \<in> set (map ?f [0..<rh_num_blocks h]). length x = BLOCK_SIZE"
    using log_block_length [OF s(4)] s(5) by (simp add: log_len_def)
  ultimately show ?case
    using concat_blocks_slice [of "map ?f [0..<rh_num_blocks h]" BLOCK_SIZE n pos] le s
    by (simp add: raw_head_content_def drop_map take_map log_block_def raw_head_of_def)
qed simp_all

end

section \<open>Commit\<close>

definition edit_applies :: "raw_log_store_edit \<Rightarrow> (raw_log_id \<times> raw_log_head) list \<Rightarrow> bool" where
  "edit_applies edit table \<longleftrightarrow> distinct (map fst edit) \<and> (\<forall>(log_id, le) \<in> set edit.
    case le of
      Create t \<Rightarrow> map_of table log_id = None \<and> rt_num_blocks t < 2 ^ 32
    | Append t \<Rightarrow> (case map_of table log_id of None \<Rightarrow> False | Some h \<Rightarrow> log_len h t < 2 ^ 32)
    | Delete \<Rightarrow> True)"

definition merged :: "raw_log_head \<Rightarrow> raw_log_tail \<Rightarrow> raw_log_head" where
  "merged h t = h\<lparr>rh_chunks := rh_chunks h @ rt_chunks t, rh_num_blocks := log_len h t\<rparr>"

text \<open>The entry of a log after the edit: the edit of the log decides, not the order of the edits.\<close>

definition applied ::
    "raw_log_store_edit \<Rightarrow> (raw_log_id \<times> raw_log_head) list \<Rightarrow> raw_log_id \<Rightarrow> raw_log_head option" where
  "applied edit table log_id =
    (case map_of edit log_id of
       None \<Rightarrow> map_of table log_id
     | Some (Create t) \<Rightarrow> Some (merged raw_head_new t)
     | Some (Append t) \<Rightarrow> map_option (\<lambda>h. merged h t) (map_of table log_id)
     | Some Delete \<Rightarrow> None)"

definition raw_apply_one ::
    "raw_log_id \<times> raw_log_edit \<Rightarrow> (raw_log_id \<times> raw_log_head) list \<Rightarrow> (raw_log_id \<times> raw_log_head) list res" where
  "raw_apply_one = (\<lambda>(log_id, log_edit) table.
    case log_edit of
      Create tail \<Rightarrow> rbind (raw_state_create_log log_id table) (raw_state_append_log log_id tail)
    | Append tail \<Rightarrow> raw_state_append_log log_id tail table
    | Delete \<Rightarrow> Ok (raw_state_delete_log log_id table))"

lemma raw_apply_one_spec:
  assumes "edit_applies [(log_id, le)] table"
  shows "\<exists>table'. raw_apply_one (log_id, le) table = Ok table' \<and>
    map_of table' = (map_of table)(log_id := applied [(log_id, le)] table log_id)"
  using assms
  by (cases le) (auto simp: edit_applies_def applied_def raw_apply_one_def raw_state_create_log_def raw_state_append_log_def
      raw_state_delete_log_def raw_head_append_def u32_add_def merged_def log_len_def update_conv' delete_conv'
      raw_head_new_def split: option.splits)

lemma raw_edit_apply_to_spec:
  assumes "edit_applies edit table"
  shows "\<exists>table'. raw_edit_apply_to edit table = Ok table' \<and> (\<forall>log_id. map_of table' log_id = applied edit table log_id)"
proof -
  have "\<exists>table'. rfold raw_apply_one edit table = Ok table' \<and> (\<forall>log_id. map_of table' log_id = applied edit table log_id)"
    using assms
  proof (induction edit arbitrary: table)
    case Nil
    then show ?case by (simp add: applied_def)
  next
    case (Cons x edit)
    obtain k le where x: "x = (k, le)" by (cases x)
    have "edit_applies [(k, le)] table" using Cons.prems by (simp add: x edit_applies_def)
    from raw_apply_one_spec [OF this] obtain table1 where
      t1: "raw_apply_one (k, le) table = Ok table1"
        "map_of table1 = (map_of table)(k := applied [(k, le)] table k)" by blast
    have k: "k \<notin> fst ` set edit" using Cons.prems by (simp add: x edit_applies_def)
    have "edit_applies edit table1"
      using Cons.prems k unfolding edit_applies_def x t1(2) by (force split: raw_log_edit.splits)
    from Cons.IH [OF this] obtain table' where
      t': "rfold raw_apply_one edit table1 = Ok table'" "\<forall>log_id. map_of table' log_id = applied edit table1 log_id"
      by blast
    have "map_of edit k = None" using k by (simp add: map_of_eq_None_iff)
    then have "applied edit table1 log_id = applied (x # edit) table log_id" for log_id
      by (auto simp: applied_def x t1(2) split: option.split raw_log_edit.split)
    then show ?case using t' t1(1) x by simp
  qed
  then show ?thesis by (simp add: raw_edit_apply_to_def raw_apply_one_def)
qed

lemma created_deletes_frame:
  "\<exists>arcs ld. raw_add_lazy_deletes_for_created_logs edit e = e\<lparr>re_arcs := arcs, re_lazy_deletes := ld\<rparr>"
proof -
  let ?step = "\<lambda>log_id e. case map_of (re_log_table e) log_id of
      None \<Rightarrow> e
    | Some log_entry \<Rightarrow>
        if map_of (re_lazy_deletes e) log_id \<noteq> None then e else raw_add_lazy_delete log_id log_entry e"
  have step: "\<exists>arcs ld. ?step i e = e\<lparr>re_arcs := arcs, re_lazy_deletes := ld\<rparr>" for i and e :: "'a raw_env"
  proof -
    have "\<exists>arcs ld. e = e\<lparr>re_arcs := arcs, re_lazy_deletes := ld\<rparr>"
      by (intro exI [of _ "re_arcs e"] exI [of _ "re_lazy_deletes e"]) simp
    moreover have "\<exists>arcs ld. raw_add_lazy_delete i h e = e\<lparr>re_arcs := arcs, re_lazy_deletes := ld\<rparr>" for h
      by (simp add: raw_add_lazy_delete_def split_beta Let_def) blast
    ultimately show ?thesis by (simp split: option.split)
  qed
  have "\<exists>arcs ld. fold ?step ids e = e\<lparr>re_arcs := arcs, re_lazy_deletes := ld\<rparr>" for ids
  proof (induction ids arbitrary: e)
    case Nil
    show ?case by (intro exI [of _ "re_arcs e"] exI [of _ "re_lazy_deletes e"]) simp
  next
    case (Cons i ids)
    obtain arcs ld where s: "?step i e = e\<lparr>re_arcs := arcs, re_lazy_deletes := ld\<rparr>" using step by blast
    from Cons.IH [of "?step i e"] show ?case
      unfolding fold_Cons comp_apply s by fastforce
  qed
  then show ?thesis by (simp add: raw_add_lazy_deletes_for_created_logs_def)
qed

lemma raw_tx_commit_spec:
  assumes "bittle_laws bt" "edit_applies (re_edit e) (re_log_table e)" "iter_deleted_logs (re_edit e) = []"
    and "chunk_inv bt (re_chunk_state e)" "\<not> ca_in_journal (re_chunk_state e)" "edit_wf (re_chunk_edit e)"
      "touched (re_chunk_edit e) \<subseteq> used_chunks bt (re_chunk_state e)"
  shows "\<exists>e'. raw_tx_commit bt e = (Ok (), e') \<and> re_disk e' = re_disk e \<and> re_edit e' = [] \<and> re_chunk_edit e' = [] \<and>
    (\<forall>log_id. map_of (re_log_table e') log_id = applied (re_edit e) (re_log_table e) log_id) \<and>
    used_chunks bt (re_chunk_state e') = used_chunks bt (re_chunk_state e) - edit_deallocs (re_chunk_edit e) \<and>
    chunk_inv bt (re_chunk_state e') \<and> capacity (re_chunk_state e') = capacity (re_chunk_state e) \<and>
    ca_in_journal (re_chunk_state e') = ca_in_journal (re_chunk_state e) \<and>
    re_next_free_log_id e' = re_next_free_log_id e \<and> re_write_set e' = re_write_set e"
proof -
  obtain table' where table': "raw_edit_apply_to (re_edit e) (re_log_table e) = Ok table'"
      "\<forall>log_id. map_of table' log_id = applied (re_edit e) (re_log_table e) log_id"
    using raw_edit_apply_to_spec [OF assms(2)] by blast
  obtain arcs ld where cd: "raw_add_lazy_deletes_for_created_logs (re_edit e) (e\<lparr>re_log_table := table'\<rparr>)
      = e\<lparr>re_log_table := table', re_arcs := arcs, re_lazy_deletes := ld\<rparr>"
    using created_deletes_frame by blast
  let ?e1 = "if re_edit e = [] then e else e\<lparr>re_log_table := table', re_arcs := arcs, re_lazy_deletes := ld\<rparr>"
  have "raw_commit_handler bt e = (Ok (), ?e1)"
    using table'(1) assms(3) cd
    by (auto simp: raw_commit_handler_def sbind_def raw_do_lazy_deletion_def sret_def)
  moreover obtain state where "chunk_commit_handler bt (re_chunk_edit e) (re_chunk_state e) = Ok state"
      "used_chunks bt state = used_chunks bt (re_chunk_state e) - edit_deallocs (re_chunk_edit e)"
      "chunk_inv bt state" "capacity state = capacity (re_chunk_state e)" "ca_in_journal state = ca_in_journal (re_chunk_state e)"
    using bittle_laws.chunk_commit_spec [OF assms(1,4-7)] by blast
  ultimately show ?thesis
    using table'(2) by (auto simp: raw_tx_commit_def sbind_def applied_def)
qed

lemma raw_create_log_spec:
  assumes "dinv (re_disk e)" "capacity (re_chunk_state e) * CHUNK_NBLOCKS \<le> bs_nblocks S (re_disk e)"
    and "chunk_inv bt (re_chunk_state e)" "edit_wf (re_chunk_edit e)"
      "touched (re_chunk_edit e) \<subseteq> used_chunks bt (re_chunk_state e)"
    and "re_next_free_log_id e + 1 < 2 ^ 64" "re_next_free_log_id e \<notin> re_write_set e"
      "map_of (re_edit e) (re_next_free_log_id e) = None"
  shows "\<exists>log e'. raw_create_log e = (Ok log, e') \<and> rl_log_id log = re_next_free_log_id e \<and>
    re_edit e' = AList.update (re_next_free_log_id e) (Create raw_tail_new) (re_edit e) \<and>
    re_chunk_state e' = re_chunk_state e \<and> re_chunk_edit e' = re_chunk_edit e \<and> re_log_table e' = re_log_table e \<and>
    re_lazy_deletes e' = re_lazy_deletes e \<and> rl_log_entry log = None \<and> raw_inv S dinv bt (e', log)"
proof -
  let ?i = "re_next_free_log_id e"
  let ?log = "\<lparr>rl_log_id = ?i, rl_log_entry = None, rl_lazy_delete = None, rl_append_pos = 0, rl_can_append = True\<rparr>"
  let ?e' = "e\<lparr>re_next_free_log_id := ?i + 1, re_write_set := insert ?i (re_write_set e),
    re_edit := AList.update ?i (Create raw_tail_new) (re_edit e)\<rparr>"
  have "raw_create_log e = (Ok ?log, ?e')"
    using assms(6-8)
    by (simp add: raw_create_log_def sbind_def sret_def raw_alloc_log_id_def raw_add_to_write_set_def raw_edit_with_def
        raw_edit_create_log_def)
  moreover have "raw_inv S dinv bt (?e', ?log)"
    using assms(1-5)
    by (simp add: raw_inv_def raw_ok_def raw_cur_tail_def raw_tail_of_def raw_head_of_def log_len_def log_tight_def
        update_conv') (simp add: raw_head_new_def raw_tail_new_def)
  ultimately show ?thesis by auto
qed

text \<open>A store on a disk of one chunk.\<close>

lemma raw_demo_store:
  "\<exists>e log. raw_inv memdisk_ops memdisk_inv bittle_ref (e, log) \<and> raw_room (e, log) 1 \<and> raw_log_nblocks e log = 0 \<and>
    rl_log_entry log = None \<and> rl_log_entry log = map_of (re_log_table e) (rl_log_id log) \<and>
    edit_applies (re_edit e) (re_log_table e) \<and> iter_deleted_logs (re_edit e) = [] \<and> \<not> ca_in_journal (re_chunk_state e)"
proof -
  obtain s where s: "chunk_state_new bittle_ref 1 = Ok s" "chunk_inv bittle_ref s" "capacity s = 1"
      "used_chunks bittle_ref s = {}" "\<not> ca_in_journal s"
    using ref.chunk_state_new_spec [of 1] by auto
  have free: "ca_free_count s = 1"
    using chunk_free_count(1) [OF s(2)] s(3,4) by simp
  define disk where "disk = \<lparr>md_disk = replicate (CHUNK_NBLOCKS * BLOCK_SIZE) 0, md_start = 0, md_end = CHUNK_NBLOCKS\<rparr>"
  have disk: "memdisk_inv disk" "memdisk_nblocks disk = CHUNK_NBLOCKS"
    by (simp_all add: disk_def memdisk_inv_def memdisk_nblocks_def buf_ok_def buf_nblocks_def)
  obtain e where e: "raw_store_from_parts [] disk s = Ok e" "re_disk e = disk" "re_chunk_state e = s"
      "re_chunk_edit e = []" "re_edit e = []" "re_write_set e = {}" "re_next_free_log_id e = 0" "re_log_table e = []"
    by (simp add: raw_store_from_parts_def raw_next_log_id_def chunk_edit_new_def)
  obtain log e' where "raw_create_log e = (Ok log, e')" "re_edit e' = [(0, Create raw_tail_new)]" "rl_log_id log = 0"
      "re_chunk_state e' = s" "re_log_table e' = []" "rl_log_entry log = None"
      "raw_inv memdisk_ops memdisk_inv bittle_ref (e', log)"
    using raw_create_log_spec [of memdisk_inv e memdisk_ops bittle_ref] e disk s(2,3) by (auto simp: touched_def)
  then show ?thesis
    using free s(5)
    by (intro exI [of _ e'] exI [of _ log])
      (simp add: raw_room_def raw_cur_tail_def raw_tail_of_def needed_chunks_def ceil_div_def raw_tail_new_def
        CHUNK_NBLOCKS_def raw_log_nblocks_def raw_head_len_def raw_tail_len_def edit_applies_def iter_deleted_logs_def)
qed

context block_set
begin

lemma raw_log_read_any:
  assumes "raw_inv S inv bt (e, log)" "buf_ok dst" "pos + buf_nblocks dst \<le> raw_log_nblocks e log"
  shows "raw_log_read S e log pos dst = bl_read (raw_log_ops S bt) (e, log) pos (buf_nblocks dst)"
proof -
  let ?h = "raw_head_of log" and ?t = "raw_cur_tail e log" and ?z = "replicate (buf_nblocks dst * BLOCK_SIZE) 0 :: bytes"
  have ok: "raw_ok S inv bt e ?h ?t" and tail: "raw_tail_of (rl_log_id log) (re_edit e) = Some ?t"
    using assms(1) by (auto simp: raw_inv_def raw_cur_tail_def)
  have z: "buf_ok ?z" "buf_nblocks ?z = buf_nblocks dst"
    using buf_ok_nblocks_pos [OF assms(2)] by (auto simp: buf_ok_iff buf_nblocks_def)
  have "pos + buf_nblocks dst \<le> log_len ?h ?t"
    using assms(3) raw_log_nblocks_len [of log e] tail by simp
  then show ?thesis
    using raw_ref_read_spec [OF ok assms(2) _ raw_entry_head] raw_ref_read_spec [OF ok z(1) _ raw_entry_head] z(2) tail
    by (simp add: raw_log_read_def raw_log_ops_def)
qed

lemma raw_ref_read_committed:
  assumes "raw_ok S inv bt e h t" "log_tight h t" "entry = Some h \<or> entry = None \<and> h = raw_head_new"
    and "buf_ok dst" "pos + buf_nblocks dst \<le> log_len h t"
  shows "raw_ref_read S (re_disk e) (Some (merged h t)) None pos dst
    = raw_ref_read S (re_disk e) entry (Some t) pos dst"
proof -
  have ok: "head_ok h" "tail_ok h t" using assms(1) by (simp_all add: raw_ok_def)
  have m: "head_ok (merged h t)"
    using log_len_fits [OF ok] assms(2) by (auto simp: head_ok_def merged_def log_tight_def)
  from raw_tail_from_head_ok [OF m] obtain t0 where
    t0: "tail_ok (merged h t) t0" "rt_num_blocks t0 = 0" "rt_chunks t0 = []" by blast
  have ok0: "raw_ok S inv bt e (merged h t) t0"
    using assms(1) m t0(1,3) by (simp add: raw_ok_def merged_def)
  have len: "log_len (merged h t) t0 = log_len h t" and blk: "log_block c (merged h t) t0 = log_block c h t" for c
    using t0(2,3) by (simp_all add: log_len_def merged_def log_block_def)
  have "raw_ref_read S (re_disk e) (Some (merged h t)) None pos dst
      = Ok (concat (map (log_block (content (re_disk e)) h t) [pos..<pos + buf_nblocks dst]))"
    using raw_ref_read_head [OF ok0 t0(2) assms(4)] assms(5) len t0(2) blk by (simp add: log_len_def)
  then show ?thesis
    using raw_ref_read_spec [OF assms(1,4,5,3)] by simp
qed

end

text \<open>A store with one committed log of one block, for the examples below.\<close>

definition raw_demo_head :: raw_log_head where
  "raw_demo_head = \<lparr>rh_chunks = [0], rh_num_blocks = 1\<rparr>"

definition raw_demo_env :: "unit raw_env" where
  "raw_demo_env = \<lparr>re_disk = (), re_chunk_state = \<lparr>ca_alloc_map = \<lparr>bm_bits = [], bm_nbits = 0\<rparr>, ca_free_count = 0,
       ca_next_free = 0, ca_in_journal = False\<rparr>,
     re_log_table = [(7, raw_demo_head)], re_next_free_log_id = 8, re_write_set = {},
     re_lazy_deletes = [(7, 0)], re_arcs = \<lparr>ah_cells = [0 \<mapsto> (lazy_new raw_demo_head, 1)], ah_next = 1\<rparr>,
     re_chunk_edit = [], re_edit = []\<rparr>"

section \<open>Properties\<close>



lemma raw_open_append:
  assumes "map_of (re_log_table e) log_id = Some h" "map_of (re_lazy_deletes e) log_id = Some arc"
  shows "raw_open_log log_id True e =
    (if log_id \<in> re_write_set e then (Fail PermissionDenied, e)
     else case raw_edit_open_log log_id h (re_edit e) of
         Inl f \<Rightarrow> (Inl f, e\<lparr>re_write_set := insert log_id (re_write_set e)\<rparr>)
       | Inr edit \<Rightarrow>
           (Ok \<lparr>rl_log_id = log_id, rl_log_entry = Some h, rl_lazy_delete = Some arc,
                rl_append_pos = rh_num_blocks h, rl_can_append = True\<rparr>,
            e\<lparr>re_write_set := insert log_id (re_write_set e), re_edit := edit, re_arcs := arc_clone arc (re_arcs e)\<rparr>))"
  using assms
  by (simp add: raw_open_log_def sbind_def raw_add_to_write_set_def raw_edit_with_def raw_head_len_def Let_def split: sum.split)






text \<open>C29: Opening for appending a log to which the current transaction has already appended (through a handle
  that is dropped by now) gives a handle whose append position is the length of the committed part:
  it is short of the real length by the blocks of the tail, so the next append returns the
  position of an older block.\<close>

theorem raw_reopen_append_pos:
  assumes "map_of (re_log_table e) log_id = Some h" "map_of (re_lazy_deletes e) log_id = Some arc"
    and "map_of (re_edit e) log_id = Some (Append t)" "log_id \<notin> re_write_set e"
  shows "\<exists>log e'. raw_open_log log_id True e = (Ok log, e') \<and> rl_append_pos log = rh_num_blocks h \<and>
    raw_log_nblocks e' log = rl_append_pos log + rt_num_blocks t"
  using raw_open_append [OF assms(1,2)] assms(3,4)
  by (simp add: raw_edit_open_log_def raw_log_nblocks_def raw_head_len_def raw_tail_len_def raw_tail_of_def)

theorem raw_reopen_append_pos_witness:
  "\<exists>log e'. raw_open_log 7 True
      (raw_demo_env\<lparr>re_edit := [(7, Append \<lparr>rt_head_last_chunk_id = 0, rt_head_last_chunk_free_blocks = 1023,
        rt_chunks = [], rt_num_blocks = 4\<rparr>)]\<rparr>) = (Ok log, e') \<and>
    rl_append_pos log = 1 \<and> raw_log_nblocks e' log = 5"
  using raw_reopen_append_pos [of "raw_demo_env\<lparr>re_edit := [(7, Append \<lparr>rt_head_last_chunk_id = 0,
      rt_head_last_chunk_free_blocks = 1023, rt_chunks = [], rt_num_blocks = 4\<rparr>)]\<rparr>" 7 raw_demo_head 0]
  by (simp add: raw_demo_env_def) (auto simp: raw_demo_head_def)

text \<open>C30: A transaction cannot open a log that it has created itself: before the commit the log has no lazy
  delete yet, so \<open>open_log\<close> returns \<open>NotFound\<close> and never reaches its branch for logs created by the
  current transaction.\<close>

theorem raw_open_own_log:
  assumes "raw_create_log e = (Ok log, e')" "map_of (re_lazy_deletes e) (re_next_free_log_id e) = None"
  shows "raw_edit_is_log_created (rl_log_id log) (re_edit e') \<and>
    raw_open_log (rl_log_id log) can_append e' = (Fail NotFound, e')"
proof -
  have log: "rl_log_id log = re_next_free_log_id e" "re_lazy_deletes e' = re_lazy_deletes e"
      "re_edit e' = AList.update (re_next_free_log_id e) (Create raw_tail_new) (re_edit e)"
    using assms(1)
    by (auto simp: raw_create_log_def sbind_def sret_def raw_alloc_log_id_def raw_add_to_write_set_def raw_edit_with_def
        raw_edit_create_log_def res_simps split: if_splits sum.splits)
  then show ?thesis
    using assms(2) by (simp add: raw_open_log_def raw_edit_is_log_created_def update_conv')
qed

theorem raw_open_own_log_witness:
  "\<exists>log e'. raw_create_log raw_demo_env = (Ok log, e') \<and> raw_open_log (rl_log_id log) False e' = (Fail NotFound, e')"
proof -
  obtain log e' where "raw_create_log raw_demo_env = (Ok log, e')"
    by (simp add: raw_create_log_def sbind_def sret_def raw_alloc_log_id_def raw_add_to_write_set_def raw_edit_with_def
        raw_edit_create_log_def raw_demo_env_def)
  from raw_open_own_log [OF this, of False] this show ?thesis
    by (auto simp: raw_demo_env_def)
qed



end
