(* ===== verification/Aead_Model.thy ===== *)
theory Aead_Model
  imports Block_Buf
begin

text \<open>
  Authenticated encryption and the byte layout of fixed-size values.

  The cipher itself is the crate \<open>openssl\<close>: its functions \<open>encrypt_aead\<close> and \<open>decrypt_aead\<close> for
  AES-128-GCM are the fields of the parameter \<open>openssl\<close>, and \<open>openssl_laws\<close> states what is documented of
  them: for a key of 16 and an initialisation vector of 12 bytes encryption gives a ciphertext as
  long as the input with a MAC of 16 bytes, decryption with the same key, vector, associated data
  and MAC gives the plaintext back, and what decrypts is what encryption gives. \<open>aead_encrypt\<close> and \<open>aead_decrypt\<close> are the methods
  of \<open>Aead\<close> (\<open>core/src/os/std/mod.rs\<close>), which turn its failures into error numbers and copy the result to
  the output slice.

  Values that the sources view as bytes (\<open>as_bytes\<close>, \<open>from_bytes\<close> of \<open>repr(C)\<close> structs) are laid out
  field by field, integers with the least significant byte first.
\<close>

definition AES_GCM_KEY_SIZE :: nat where "AES_GCM_KEY_SIZE = 16"
definition AES_GCM_IV_SIZE :: nat where "AES_GCM_IV_SIZE = 12"
definition AES_GCM_MAC_SIZE :: nat where "AES_GCM_MAC_SIZE = 16"

lemmas aes_sizes = AES_GCM_KEY_SIZE_def AES_GCM_IV_SIZE_def AES_GCM_MAC_SIZE_def

type_synonym aead_key = bytes
type_synonym aead_iv = bytes
type_synonym aead_mac = bytes

record openssl =
  encrypt_aead :: "aead_key \<Rightarrow> aead_iv \<Rightarrow> bytes \<Rightarrow> bytes \<Rightarrow> (bytes \<times> aead_mac) option"
  decrypt_aead :: "aead_key \<Rightarrow> aead_iv \<Rightarrow> bytes \<Rightarrow> bytes \<Rightarrow> aead_mac \<Rightarrow> bytes option"

text \<open>\<open>outlen\<close> is the length of the slice the result is copied to.\<close>

definition aead_encrypt :: "openssl \<Rightarrow> bytes \<Rightarrow> aead_key \<Rightarrow> aead_iv \<Rightarrow> bytes \<Rightarrow> nat \<Rightarrow> (bytes \<times> aead_mac) res" where
  "aead_encrypt ssl input key iv aad outlen =
    rbind (ok_or EncryptFailed (encrypt_aead ssl key iv aad input)) (\<lambda>(output, mac).
    rbind (rassert (length output = outlen)) (\<lambda>_. Ok (output, mac)))"

definition aead_decrypt :: "openssl \<Rightarrow> bytes \<Rightarrow> aead_key \<Rightarrow> aead_iv \<Rightarrow> bytes \<Rightarrow> aead_mac \<Rightarrow> nat \<Rightarrow> bytes res" where
  "aead_decrypt ssl input key iv aad mac outlen =
    rbind (ok_or DecryptFailed (decrypt_aead ssl key iv aad input mac)) (\<lambda>output.
    rbind (rassert (length output = outlen)) (\<lambda>_. Ok output))"

section \<open>What is documented of the cipher\<close>

locale openssl_laws =
  fixes ssl :: openssl
  assumes encrypt_total: "length key = AES_GCM_KEY_SIZE \<Longrightarrow> length iv = AES_GCM_IV_SIZE \<Longrightarrow>
      \<exists>c mac. encrypt_aead ssl key iv aad p = Some (c, mac) \<and> length c = length p \<and> length mac = AES_GCM_MAC_SIZE"
    and decrypt_encrypt: "encrypt_aead ssl key iv aad p = Some (c, mac) \<Longrightarrow> decrypt_aead ssl key iv aad c mac = Some p"
    and encrypt_decrypt: "decrypt_aead ssl key iv aad c mac = Some p \<Longrightarrow> length mac = AES_GCM_MAC_SIZE \<Longrightarrow>
      encrypt_aead ssl key iv aad p = Some (c, mac)"
begin

lemma aead_encrypt_ok:
  assumes "length key = AES_GCM_KEY_SIZE" "length iv = AES_GCM_IV_SIZE"
  shows "\<exists>c mac. aead_encrypt ssl p key iv aad (length p) = Ok (c, mac) \<and> length c = length p \<and>
    length mac = AES_GCM_MAC_SIZE \<and> aead_decrypt ssl c key iv aad mac (length p) = Ok p"
proof -
  obtain c mac where "encrypt_aead ssl key iv aad p = Some (c, mac)" "length c = length p" "length mac = AES_GCM_MAC_SIZE"
    using encrypt_total [OF assms] by blast
  then show ?thesis
    using decrypt_encrypt by (simp add: aead_encrypt_def aead_decrypt_def ok_or_def)
qed

text \<open>A ciphertext and MAC that decrypt are those of the plaintext.\<close>

lemma aead_decrypt_only:
  assumes "aead_decrypt ssl c key iv aad mac n = Ok p" "length mac = AES_GCM_MAC_SIZE"
  shows "encrypt_aead ssl key iv aad p = Some (c, mac)" "length p = n"
  using assms encrypt_decrypt by (auto simp: aead_decrypt_def res_simps ok_or_def split: option.splits)

end

text \<open>
  A cipher with these laws: it returns the input and the key as the MAC. It shows that the laws can
  hold; it protects nothing.
\<close>

definition openssl_ref :: openssl where
  "openssl_ref = \<lparr>
    encrypt_aead = (\<lambda>key iv aad p. if length key = 16 then Some (p, key) else None),
    decrypt_aead = (\<lambda>key iv aad c mac. if length key = 16 \<and> mac = key then Some c else None)\<rparr>"

interpretation ssl_ref: openssl_laws openssl_ref
  by unfold_locales (auto simp: openssl_ref_def aes_sizes split: if_splits)

lemma openssl_ref_cipher: "encrypt_aead openssl_ref key iv aad p = Some (c, mac) \<Longrightarrow> c = p"
  by (simp add: openssl_ref_def split: if_splits)

section \<open>Bytes of integers\<close>

fun le_bytes :: "nat \<Rightarrow> nat \<Rightarrow> bytes" where
  "le_bytes 0 x = []"
| "le_bytes (Suc n) x = word_of_nat x # le_bytes n (x div 256)"

fun le_nat :: "bytes \<Rightarrow> nat" where
  "le_nat [] = 0"
| "le_nat (b # bs) = unat b + 256 * le_nat bs"

lemma length_le_bytes [simp]: "length (le_bytes n x) = n"
  by (induction n arbitrary: x) auto

lemma le_nat_bytes: "le_nat (le_bytes n x) = x mod 256 ^ n"
proof (induction n arbitrary: x)
  case (Suc n)
  have "unat (word_of_nat x :: byte) = x mod 256"
    by (simp add: unat_of_nat)
  then show ?case
    using Suc.IH [of "x div 256"] mod_mult2_eq [of x 256 "256 ^ n"] by simp
qed simp

lemma le_nat_bytes_exact: "x < 256 ^ n \<Longrightarrow> le_nat (le_bytes n x) = x"
  by (simp add: le_nat_bytes)

lemma le_nat_less: "le_nat bs < 256 ^ length bs"
proof (induction bs)
  case (Cons b bs)
  have "unat b < 256" using unsigned_less [of b, where ?'a = nat] by simp
  then have "unat b + 256 * le_nat bs < 256 * (le_nat bs + 1)" by simp
  also have "\<dots> \<le> 256 * 256 ^ length bs"
    using Cons.IH by (intro mult_le_mono2) simp
  finally show ?case by simp
qed simp

lemma le_bytes_inject: "le_bytes n x = le_bytes n y \<Longrightarrow> x < 256 ^ n \<Longrightarrow> y < 256 ^ n \<Longrightarrow> x = y"
  by (metis le_nat_bytes_exact)

text \<open>An initialisation vector whose first bytes are a version number, the rest zero.\<close>

definition iv_of_version :: "nat \<Rightarrow> aead_iv" where
  "iv_of_version version = le_bytes 8 version @ replicate (AES_GCM_IV_SIZE - 8) 0"

lemma length_iv_of_version [simp]: "length (iv_of_version v) = AES_GCM_IV_SIZE"
  by (simp add: iv_of_version_def AES_GCM_IV_SIZE_def)

end
