(* ===== verification/Crypto_Blob.thy ===== *)
theory Crypto_Blob
  imports Block_Set Aead_Model
begin

text \<open>
  Encrypted blobs (\<open>core/src/layers/1-crypto/crypto_blob.rs\<close>).

  A blob keeps one variable-length payload on a block set of its own: a header with version, MAC and
  length, then the ciphertext. The version is the initialisation vector. \<open>crypto_blob\<close> is the
  struct, with the header the last successful operation left in memory; the random key of
  \<open>create\<close> is an argument. Operations that fail leave the blob as it was.

  The properties: what is written is read back, through the same object and after a new
  \<open>open\<close>, with a version one higher; and a blob whose disk is changed behind its back never
  returns anything but the payload written last.
\<close>

record blob_header =
  bh_version :: nat
  bh_mac :: aead_mac
  bh_payload_len :: nat

record 's crypto_blob =
  cb_block_set :: 's
  cb_key :: aead_key
  cb_header :: "blob_header option"

definition HEADER_NBYTES :: nat where "HEADER_NBYTES = 32"

definition header_bytes :: "blob_header \<Rightarrow> bytes" where
  "header_bytes h = le_bytes 8 (bh_version h) @ bh_mac h @ le_bytes 8 (bh_payload_len h)"

definition header_from_bytes :: "bytes \<Rightarrow> blob_header" where
  "header_from_bytes bs = \<lparr>bh_version = le_nat (take 8 bs), bh_mac = take 16 (drop 8 bs),
    bh_payload_len = le_nat (take 8 (drop 24 bs))\<rparr>"

definition blob_nblocks_for :: "nat \<Rightarrow> nat" where
  "blob_nblocks_for len = (HEADER_NBYTES + len + BLOCK_SIZE - 1) div BLOCK_SIZE"

definition blob_open :: "aead_key \<Rightarrow> 's \<Rightarrow> 's crypto_blob" where
  "blob_open key bset = \<lparr>cb_block_set = bset, cb_key = key, cb_header = None\<rparr>"

definition blob_capacity :: "'s block_set_ops \<Rightarrow> 's crypto_blob \<Rightarrow> nat res" where
  "blob_capacity S b = checked_sub (bs_nblocks S (cb_block_set b) * BLOCK_SIZE) HEADER_NBYTES"

definition blob_version_id :: "'s crypto_blob \<Rightarrow> nat option" where
  "blob_version_id b = map_option bh_version (cb_header b)"

definition blob_current_mac :: "'s crypto_blob \<Rightarrow> aead_mac option" where
  "blob_current_mac b = map_option bh_mac (cb_header b)"

text \<open>Encryption into a buffer, and the header in front: the same lines in \<open>create\<close>, \<open>write\<close> and \<open>recover_from\<close>.\<close>

definition blob_seal :: "openssl \<Rightarrow> aead_key \<Rightarrow> nat \<Rightarrow> bytes \<Rightarrow> bytes \<Rightarrow> (blob_header \<times> bytes) res" where
  "blob_seal ssl key version payload block_buf =
    rbind (slice_range block_buf HEADER_NBYTES (HEADER_NBYTES + length payload)) (\<lambda>output.
    rbind (aead_encrypt ssl payload key (iv_of_version version) [] (length output)) (\<lambda>(cipher, mac).
    rbind (copy_range block_buf HEADER_NBYTES (HEADER_NBYTES + length payload) cipher) (\<lambda>block_buf.
    let header = \<lparr>bh_version = version, bh_mac = mac, bh_payload_len = length payload\<rparr> in
    rbind (copy_range block_buf 0 HEADER_NBYTES (header_bytes header)) (\<lambda>block_buf.
      Ok (header, block_buf)))))"

definition blob_create ::
    "page_alloc \<Rightarrow> openssl \<Rightarrow> 's block_set_ops \<Rightarrow> aead_key \<Rightarrow> 's \<Rightarrow> bytes \<Rightarrow> 's crypto_blob res" where
  "blob_create pg ssl S random_key bset init_data =
    rbind (checked_sub (bs_nblocks S bset * BLOCK_SIZE) HEADER_NBYTES) (\<lambda>capacity.
    if capacity < length init_data then Fail OutOfDisk
    else
      rbind (buf_alloc pg (blob_nblocks_for (length init_data))) (\<lambda>block_buf.
      rbind (blob_seal ssl random_key 0 init_data block_buf) (\<lambda>(header, block_buf).
      rbind (bs_write S bset 0 block_buf) (\<lambda>bset.
        Ok \<lparr>cb_block_set = bset, cb_key = random_key, cb_header = Some header\<rparr>))))"

definition blob_write ::
    "page_alloc \<Rightarrow> openssl \<Rightarrow> 's block_set_ops \<Rightarrow> bytes \<Rightarrow> 's crypto_blob \<Rightarrow> (nat \<times> 's crypto_blob) res" where
  "blob_write pg ssl S buf b =
    rbind (blob_capacity S b) (\<lambda>capacity.
    if capacity < length buf then Fail OutOfDisk
    else
      rbind (buf_alloc pg (blob_nblocks_for (length buf))) (\<lambda>block_buf.
      case blob_version_id b of
        None \<Rightarrow> Fail NotFound
      | Some version \<Rightarrow>
          rbind (rassert (version + 1 < 2 ^ 64)) (\<lambda>_.
          rbind (blob_seal ssl (cb_key b) (version + 1) buf block_buf) (\<lambda>(header, block_buf).
          rbind (bs_write S (cb_block_set b) 0 block_buf) (\<lambda>bset.
            Ok (version + 1, b\<lparr>cb_block_set := bset, cb_header := Some header\<rparr>))))))"

text \<open>\<open>read\<close> returns the payload length, the filled buffer and the blob with its header.\<close>

definition blob_load_header :: "page_alloc \<Rightarrow> 's block_set_ops \<Rightarrow> 's crypto_blob \<Rightarrow> blob_header res" where
  "blob_load_header pg S b =
    (case cb_header b of
       Some header \<Rightarrow> Ok header
     | None \<Rightarrow> rbind (read_slice pg S (cb_block_set b) 0 HEADER_NBYTES) (\<lambda>bs. Ok (header_from_bytes bs)))"

definition blob_read ::
    "page_alloc \<Rightarrow> openssl \<Rightarrow> 's block_set_ops \<Rightarrow> bytes \<Rightarrow> 's crypto_blob \<Rightarrow> (nat \<times> bytes \<times> 's crypto_blob) res" where
  "blob_read pg ssl S buf b =
    rbind (blob_load_header pg S b) (\<lambda>header.
    let payload_len = bh_payload_len header in
    rbind (blob_capacity S b) (\<lambda>capacity.
    if capacity < payload_len then Fail OutOfDisk
    else if length buf < payload_len then Fail OutOfDisk
    else
      rbind (buf_alloc pg (blob_nblocks_for payload_len)) (\<lambda>block_buf.
      rbind (bs_read S (cb_block_set b) 0 (buf_nblocks block_buf)) (\<lambda>block_buf.
      rbind (slice_range block_buf HEADER_NBYTES (HEADER_NBYTES + payload_len)) (\<lambda>input.
      rbind (aead_decrypt ssl input (cb_key b) (iv_of_version (bh_version header)) [] (bh_mac header) payload_len) (\<lambda>output.
      rbind (copy_range buf 0 payload_len output) (\<lambda>buf.
        Ok (payload_len, buf, b\<lparr>cb_header := Some header\<rparr>))))))))"

definition blob_recover_from ::
    "page_alloc \<Rightarrow> openssl \<Rightarrow> 's block_set_ops \<Rightarrow> 's crypto_blob \<Rightarrow> 's crypto_blob \<Rightarrow> ('s crypto_blob \<times> 's crypto_blob) res" where
  "blob_recover_from pg ssl S other b =
    rbind (blob_capacity S b) (\<lambda>capacity.
    rbind (blob_capacity S other) (\<lambda>other_capacity.
    if capacity \<noteq> other_capacity then Fail InvalidArgs
    else if cb_header b \<noteq> None then Fail InvalidArgs
    else
      let nblocks = bs_nblocks S (cb_block_set b) in
      rbind (buf_alloc pg nblocks) (\<lambda>read_buf.
      rbind (blob_read pg ssl S read_buf other) (\<lambda>(payload_len, read_buf, other).
      rbind (res_unwrap (blob_version_id other)) (\<lambda>version.
      rbind (slice_range read_buf 0 payload_len) (\<lambda>input.
      rbind (buf_alloc pg nblocks) (\<lambda>write_buf.
      rbind (blob_seal ssl (cb_key b) version input write_buf) (\<lambda>(header, write_buf).
      rbind (bs_write S (cb_block_set b) 0 write_buf) (\<lambda>bset.
        Ok (other, b\<lparr>cb_block_set := bset, cb_header := Some header\<rparr>))))))))))"

section \<open>The image on the disk\<close>

lemma length_header_bytes [simp]: "length (bh_mac h) = 16 \<Longrightarrow> length (header_bytes h) = HEADER_NBYTES"
  by (simp add: header_bytes_def HEADER_NBYTES_def)

lemma header_from_bytes_roundtrip:
  assumes "bh_version h < 2 ^ 64" "length (bh_mac h) = 16" "bh_payload_len h < 2 ^ 64"
  shows "header_from_bytes (header_bytes h) = h"
proof -
  have "(2 :: nat) ^ 64 = 256 ^ 8" by simp
  then show ?thesis
    using assms by (simp add: header_from_bytes_def header_bytes_def le_nat_bytes_exact)
qed

text \<open>A buffer that starts with the header and the ciphertext of a payload.\<close>

definition blob_image :: "openssl \<Rightarrow> aead_key \<Rightarrow> blob_header \<Rightarrow> bytes \<Rightarrow> bytes \<Rightarrow> bool" where
  "blob_image ssl key h payload img \<longleftrightarrow>
    bh_version h < 2 ^ 64 \<and> length (bh_mac h) = AES_GCM_MAC_SIZE \<and> bh_payload_len h = length payload \<and>
    HEADER_NBYTES + length payload \<le> length img \<and> take HEADER_NBYTES img = header_bytes h \<and>
    encrypt_aead ssl key (iv_of_version (bh_version h)) [] payload
      = Some (take (length payload) (drop HEADER_NBYTES img), bh_mac h)"

lemma blob_nblocks_for_bounds:
  "HEADER_NBYTES + len \<le> blob_nblocks_for len * BLOCK_SIZE" "0 < blob_nblocks_for len"
  "HEADER_NBYTES + len \<le> n * BLOCK_SIZE \<Longrightarrow> blob_nblocks_for len \<le> n"
proof -
  show 1: "HEADER_NBYTES + len \<le> blob_nblocks_for len * BLOCK_SIZE"
    using ceil_div_bounds(1) [of BLOCK_SIZE "HEADER_NBYTES + len"] by (simp add: blob_nblocks_for_def ceil_div_def)
  then show "0 < blob_nblocks_for len"
    by (cases "blob_nblocks_for len") (simp_all add: HEADER_NBYTES_def)
  assume "HEADER_NBYTES + len \<le> n * BLOCK_SIZE"
  then have "blob_nblocks_for len * BLOCK_SIZE < Suc n * BLOCK_SIZE"
    using ceil_div_bounds(2) [of BLOCK_SIZE "HEADER_NBYTES + len"]
    by (simp add: blob_nblocks_for_def ceil_div_def add_mult_distrib)
  then show "blob_nblocks_for len \<le> n" unfolding mult_less_cancel2 by simp
qed

lemma blob_seal_spec:
  assumes "openssl_laws ssl" "length key = AES_GCM_KEY_SIZE" "version < 2 ^ 64"
    and "HEADER_NBYTES + length payload \<le> length buf"
  shows "\<exists>h img. blob_seal ssl key version payload buf = Ok (h, img) \<and> length img = length buf \<and>
    bh_version h = version \<and> blob_image ssl key h payload img"
proof -
  obtain c mac where enc: "encrypt_aead ssl key (iv_of_version version) [] payload = Some (c, mac)"
      "length c = length payload" "length mac = AES_GCM_MAC_SIZE"
    using openssl_laws.encrypt_total [OF assms(1,2)] by (metis length_iv_of_version)
  let ?h = "\<lparr>bh_version = version, bh_mac = mac, bh_payload_len = length payload\<rparr>"
  let ?b1 = "overwrite buf HEADER_NBYTES c"
  let ?img = "overwrite ?b1 0 (header_bytes ?h)"
  have lens: "length ?b1 = length buf" "length (header_bytes ?h) = HEADER_NBYTES"
    using assms(4) enc(2,3) by (simp_all add: length_overwrite aes_sizes)
  have "length ?img = length buf" using lens assms(4) by (simp add: length_overwrite)
  moreover have "take HEADER_NBYTES ?img = header_bytes ?h"
    using overwrite_same_range [of 0 "header_bytes ?h" ?b1] lens assms(4) by simp
  moreover have "take (length payload) (drop HEADER_NBYTES ?img) = c"
    using overwrite_disjoint [of 0 "header_bytes ?h" ?b1 HEADER_NBYTES "length payload"] lens assms(4)
      overwrite_same_range [of HEADER_NBYTES c buf] enc(2) by simp
  moreover have "blob_seal ssl key version payload buf = Ok (?h, ?img)"
    using assms(4) enc lens
    by (simp add: blob_seal_def slice_range_def aead_encrypt_def ok_or_def rassert_def copy_range_def Let_def)
  ultimately show ?thesis
    using assms(3,4) enc by (auto simp: blob_image_def)
qed

section \<open>Invariant\<close>

text \<open>The blob is on a disk large enough for its header, and the disk has the image of the payload.\<close>

definition blob_holds ::
    "openssl \<Rightarrow> 's block_set_ops \<Rightarrow> ('s \<Rightarrow> bool) \<Rightarrow> ('s \<Rightarrow> bytes) \<Rightarrow> aead_key \<Rightarrow> blob_header \<Rightarrow> bytes \<Rightarrow> 's \<Rightarrow> bool" where
  "blob_holds ssl S dinv cont key h payload s \<longleftrightarrow>
    dinv s \<and> length key = AES_GCM_KEY_SIZE \<and> 0 < bs_nblocks S s \<and> bs_nblocks S s * BLOCK_SIZE < 2 ^ 64 \<and>
    blob_image ssl key h payload (cont s)"

context block_set
begin

lemma blob_write_image:
  assumes "inv s" "blob_image ssl key h payload img" "buf_ok img" "buf_nblocks img \<le> bs_nblocks S s"
  shows "\<exists>s'. bs_write S s 0 img = Ok s' \<and> inv s' \<and> bs_nblocks S s' = bs_nblocks S s \<and>
    blob_image ssl key h payload (content s')"
proof -
  obtain s' where s': "bs_write S s 0 img = Ok s'" "inv s'" "bs_nblocks S s' = bs_nblocks S s"
      "content s' = overwrite (content s) 0 img"
    using write_in_range [OF assms(1,3), of 0] assms(4) by auto
  have fits: "length img \<le> length (content s)"
    using write_fits [OF assms(1,3), of 0] assms(4) by simp
  then have "content s' = img @ drop (length img) (content s)"
    using s'(4) by (simp add: overwrite_def)
  then have "blob_image ssl key h payload (content s')"
    using assms(2) by (simp add: blob_image_def)
  then show ?thesis using s' by blast
qed


lemma blob_seal_write:
  assumes "openssl_laws ssl" "length key = AES_GCM_KEY_SIZE" "inv s" "bs_nblocks S s * BLOCK_SIZE < 2 ^ 64"
    and "v < 2 ^ 64" "length bb = n * BLOCK_SIZE" "n \<le> bs_nblocks S s" "HEADER_NBYTES + length payload \<le> n * BLOCK_SIZE"
  shows "\<exists>h img s'. blob_seal ssl key v payload bb = Ok (h, img) \<and> bs_write S s 0 img = Ok s' \<and>
    bh_version h = v \<and> bs_nblocks S s' = bs_nblocks S s \<and> blob_holds ssl S inv content key h payload s'"
proof -
  have n: "0 < n" using assms(8) by (cases n) (simp_all add: HEADER_NBYTES_def)
  obtain h img where seal: "blob_seal ssl key v payload bb = Ok (h, img)" "length img = length bb"
      "bh_version h = v" "blob_image ssl key h payload img"
    using blob_seal_spec [OF assms(1,2,5)] assms(6,8) by metis
  have img: "buf_ok img" "buf_nblocks img = n"
    using seal(2) assms(6) n by (auto simp: buf_ok_iff buf_nblocks_def)
  obtain s' where s': "bs_write S s 0 img = Ok s'" "inv s'" "bs_nblocks S s' = bs_nblocks S s"
      "blob_image ssl key h payload (content s')"
    using blob_write_image [OF assms(3) seal(4) img(1)] img(2) assms(7) by auto
  have "blob_holds ssl S inv content key h payload s'"
    using s' assms(2,4,7) n by (simp add: blob_holds_def)
  then show ?thesis using s' seal by blast
qed

lemma blob_create_spec:
  assumes "openssl_laws ssl" "pages_ready pg" "length key = AES_GCM_KEY_SIZE" "inv s"
    and "bs_nblocks S s * BLOCK_SIZE < 2 ^ 64" "HEADER_NBYTES + length payload \<le> bs_nblocks S s * BLOCK_SIZE"
  shows "\<exists>h s'. blob_create pg ssl S key s payload = Ok \<lparr>cb_block_set = s', cb_key = key, cb_header = Some h\<rparr> \<and>
    bh_version h = 0 \<and> bs_nblocks S s' = bs_nblocks S s \<and> blob_holds ssl S inv content key h payload s'"
proof -
  let ?n = "blob_nblocks_for (length payload)"
  have n: "0 < ?n" "HEADER_NBYTES + length payload \<le> ?n * BLOCK_SIZE" "?n \<le> bs_nblocks S s"
    using blob_nblocks_for_bounds assms(6) by blast+
  obtain bb where bb: "buf_alloc pg ?n = Ok bb" "length bb = ?n * BLOCK_SIZE"
    using buf_alloc_ready [OF assms(2) n(1)] by blast
  from blob_seal_write [OF assms(1,3,4,5) _ bb(2) n(3,2), of 0] obtain h img s' where
    "blob_seal ssl key 0 payload bb = Ok (h, img)" "bs_write S s 0 img = Ok s'" "bh_version h = 0"
    "bs_nblocks S s' = bs_nblocks S s" "blob_holds ssl S inv content key h payload s'"
    by auto
  then show ?thesis
    using assms(6) bb(1) by (simp add: blob_create_def checked_sub_def)
qed

lemma blob_write_spec:
  assumes "openssl_laws ssl" "pages_ready pg" "length (cb_key b) = AES_GCM_KEY_SIZE" "inv (cb_block_set b)"
    and "bs_nblocks S (cb_block_set b) * BLOCK_SIZE < 2 ^ 64" "blob_version_id b = Some v" "v + 1 < 2 ^ 64"
    and "HEADER_NBYTES + length buf \<le> bs_nblocks S (cb_block_set b) * BLOCK_SIZE"
  shows "\<exists>h s'. blob_write pg ssl S buf b = Ok (v + 1, b\<lparr>cb_block_set := s', cb_header := Some h\<rparr>) \<and>
    bh_version h = v + 1 \<and> bs_nblocks S s' = bs_nblocks S (cb_block_set b) \<and>
    blob_holds ssl S inv content (cb_key b) h buf s'"
proof -
  let ?n = "blob_nblocks_for (length buf)" and ?s = "cb_block_set b"
  have n: "0 < ?n" "HEADER_NBYTES + length buf \<le> ?n * BLOCK_SIZE" "?n \<le> bs_nblocks S ?s"
    using blob_nblocks_for_bounds assms(8) by blast+
  obtain bb where bb: "buf_alloc pg ?n = Ok bb" "length bb = ?n * BLOCK_SIZE"
    using buf_alloc_ready [OF assms(2) n(1)] by blast
  from blob_seal_write [OF assms(1,3,4,5,7) bb(2) n(3,2)] obtain h img s' where
    "blob_seal ssl (cb_key b) (v + 1) buf bb = Ok (h, img)" "bs_write S ?s 0 img = Ok s'" "bh_version h = v + 1"
    "bs_nblocks S s' = bs_nblocks S ?s" "blob_holds ssl S inv content (cb_key b) h buf s'"
    by auto
  then show ?thesis
    using assms(6-8) bb(1) by (intro exI [of _ h] exI [of _ s']) (simp add: blob_write_def blob_capacity_def checked_sub_def rassert_def)
qed

lemma blob_read_spec:
  assumes "openssl_laws ssl" "pages_ready pg" "blob_holds ssl S inv content (cb_key b) h payload (cb_block_set b)"
    and "cb_header b = None \<or> cb_header b = Some h" "length payload \<le> length buf"
  shows "blob_read pg ssl S buf b =
    Ok (length payload, payload @ drop (length payload) buf, b\<lparr>cb_header := Some h\<rparr>)"
proof -
  let ?s = "cb_block_set b" and ?n = "blob_nblocks_for (length payload)" and ?c = "content (cb_block_set b)"
  have holds: "inv ?s" "0 < bs_nblocks S ?s" "bs_nblocks S ?s * BLOCK_SIZE < 2 ^ 64" "blob_image ssl (cb_key b) h payload ?c"
    using assms(3) by (simp_all add: blob_holds_def)
  have len: "length ?c = bs_nblocks S ?s * BLOCK_SIZE" using content_length [OF holds(1)] .
  have img: "bh_version h < 2 ^ 64" "length (bh_mac h) = 16" "bh_payload_len h = length payload"
      "HEADER_NBYTES + length payload \<le> length ?c" "take HEADER_NBYTES ?c = header_bytes h"
      "encrypt_aead ssl (cb_key b) (iv_of_version (bh_version h)) [] payload
        = Some (take (length payload) (drop HEADER_NBYTES ?c), bh_mac h)"
    using holds(4) by (simp_all add: blob_image_def aes_sizes)
  have "blob_load_header pg S b = Ok h"
  proof (cases "cb_header b")
    case None
    have "read_slice pg S ?s 0 HEADER_NBYTES = Ok (header_bytes h)"
      using read_slice_correct [OF holds(1), of pg HEADER_NBYTES 0] assms(2) img(4,5) len
      by (simp add: pages_ready_def HEADER_NBYTES_def)
    then show ?thesis
      using None header_from_bytes_roundtrip [of h] img(1-4) len holds(3) by (simp add: blob_load_header_def)
  qed (use assms(4) in \<open>simp add: blob_load_header_def\<close>)
  moreover have n: "0 < ?n" "HEADER_NBYTES + length payload \<le> ?n * BLOCK_SIZE" "?n \<le> bs_nblocks S ?s"
    using blob_nblocks_for_bounds img(4) len by metis+
  moreover obtain bb where bb: "buf_alloc pg ?n = Ok bb" "buf_nblocks bb = ?n"
    using buf_alloc_ready [OF assms(2) n(1)] by blast
  moreover have "bs_read S ?s 0 ?n = Ok (take (?n * BLOCK_SIZE) ?c)"
    using read_in_range [OF holds(1) n(1), of 0] n(3) by simp
  moreover have "slice_range (take (?n * BLOCK_SIZE) ?c) HEADER_NBYTES (HEADER_NBYTES + length payload)
      = Ok (take (length payload) (drop HEADER_NBYTES ?c))"
    using n(2) img(4) by (simp add: slice_range_def drop_take min_def)
  moreover have "aead_decrypt ssl (take (length payload) (drop HEADER_NBYTES ?c)) (cb_key b) (iv_of_version (bh_version h)) []
      (bh_mac h) (length payload) = Ok payload"
    using openssl_laws.decrypt_encrypt [OF assms(1) img(6)] by (simp add: aead_decrypt_def ok_or_def rassert_def)
  ultimately show ?thesis
    using assms(5) img(3,4) len
    by (simp add: blob_read_def blob_capacity_def checked_sub_def copy_range_def overwrite_def Let_def)
qed


lemma blob_recover_spec:
  assumes "openssl_laws ssl" "pages_ready pg" "length (cb_key b) = AES_GCM_KEY_SIZE" "inv (cb_block_set b)"
    and "cb_header b = None" "bs_nblocks S (cb_block_set other) = bs_nblocks S (cb_block_set b)"
    and "blob_holds ssl S inv content (cb_key other) h payload (cb_block_set other)"
    and "cb_header other = None \<or> cb_header other = Some h"
  shows "\<exists>h' s'. blob_recover_from pg ssl S other b
      = Ok (other\<lparr>cb_header := Some h\<rparr>, b\<lparr>cb_block_set := s', cb_header := Some h'\<rparr>) \<and>
    bh_version h' = bh_version h \<and> blob_holds ssl S inv content (cb_key b) h' payload s'"
proof -
  let ?n = "bs_nblocks S (cb_block_set b)"
  have o: "inv (cb_block_set other)" "0 < ?n" "?n * BLOCK_SIZE < 2 ^ 64" "bh_version h < 2 ^ 64"
      "HEADER_NBYTES + length payload \<le> ?n * BLOCK_SIZE"
    using assms(6,7) content_length [of "cb_block_set other"] by (simp_all add: blob_holds_def blob_image_def)
  obtain rb where rb: "buf_alloc pg ?n = Ok rb" "length rb = ?n * BLOCK_SIZE"
    using buf_alloc_ready [OF assms(2) o(2)] by blast
  have rd: "blob_read pg ssl S rb other = Ok (length payload, payload @ drop (length payload) rb, other\<lparr>cb_header := Some h\<rparr>)"
    using blob_read_spec [OF assms(1,2,7,8)] rb(2) o(5) by simp
  from blob_seal_write [OF assms(1,3,4) o(3,4) rb(2) order.refl o(5)] obtain h' img s' where
    "blob_seal ssl (cb_key b) (bh_version h) payload rb = Ok (h', img)" "bs_write S (cb_block_set b) 0 img = Ok s'"
    "bh_version h' = bh_version h" "blob_holds ssl S inv content (cb_key b) h' payload s'"
    by auto
  then show ?thesis
    using assms(5,6) rb(1) rd o(5)
    by (intro exI [of _ h'] exI [of _ s']) (simp add: blob_recover_from_def blob_capacity_def checked_sub_def Let_def blob_version_id_def slice_range_def
        res_unwrap_def)
qed

text \<open>A read through a handle with a header uses nothing of the disk but the ciphertext.\<close>

lemma blob_read_genuine:
  assumes "openssl_laws ssl" "cb_header b = Some h" "length (bh_mac h) = AES_GCM_MAC_SIZE" "inv (cb_block_set b)"
    and "page_alloc_ok pg" "blob_read pg ssl S dst b = Ok (n, dst', b')"
  shows "n = bh_payload_len h \<and> encrypt_aead ssl (cb_key b) (iv_of_version (bh_version h)) [] (take n dst')
    = Some (take n (drop HEADER_NBYTES (content (cb_block_set b))), bh_mac h)"
proof -
  let ?len = "bh_payload_len h" and ?s = "cb_block_set b"
  let ?n = "blob_nblocks_for ?len"
  obtain bb0 bb input out where r: "buf_alloc pg ?n = Ok bb0" "bs_read S ?s 0 (buf_nblocks bb0) = Ok bb"
      "slice_range bb HEADER_NBYTES (HEADER_NBYTES + ?len) = Ok input"
      "aead_decrypt ssl input (cb_key b) (iv_of_version (bh_version h)) [] (bh_mac h) ?len = Ok out"
      "copy_range dst 0 ?len out = Ok dst'" "n = ?len" "HEADER_NBYTES + ?len \<le> bs_nblocks S ?s * BLOCK_SIZE"
    using assms(2,6)
    by (auto simp: blob_read_def blob_load_header_def Let_def res_simps blob_capacity_def checked_sub_def split: if_splits)
  have nn: "?n \<le> bs_nblocks S ?s" "0 < ?n" "HEADER_NBYTES + ?len \<le> ?n * BLOCK_SIZE"
    using blob_nblocks_for_bounds r(7) by blast+
  have "buf_nblocks bb0 = ?n" using buf_alloc_Ok [OF assms(5) r(1)] by blast
  then have "bb = take (?n * BLOCK_SIZE) (content ?s)"
    using r(2) read_in_range [OF assms(4) nn(2), of 0] nn(1) by simp
  then have "input = take ?len (drop HEADER_NBYTES (content ?s))"
    using r(3) nn(3) by (auto simp: res_simps drop_take min_def)
  moreover have "encrypt_aead ssl (cb_key b) (iv_of_version (bh_version h)) [] out = Some (input, bh_mac h)" "length out = ?len"
    using openssl_laws.aead_decrypt_only [OF assms(1) r(4) assms(3)] by blast+
  moreover have "take ?len dst' = out"
    using r(5) by (auto simp: res_simps overwrite_def)
  ultimately show ?thesis using r(6) by simp
qed

end

section \<open>Properties\<close>

text \<open>C9: A payload that fits is written as the next version of a blob and read back: through the same
  object, and after opening the blob anew with its key, when version, length and MAC come from the
  disk. Both reads fill the front of the buffer with the payload and leave the rest of it.\<close>

theorem blob_write_read:
  assumes "openssl_laws ssl" "pages_ready pg" "length (cb_key b) = AES_GCM_KEY_SIZE" "memdisk_inv (cb_block_set b)"
    and "memdisk_nblocks (cb_block_set b) * BLOCK_SIZE < 2 ^ 64" "blob_version_id b = Some v" "v + 1 < 2 ^ 64"
    and "blob_capacity memdisk_ops b = Ok capacity" "length buf \<le> capacity" "length buf \<le> length dst"
  shows "\<exists>b'. blob_write pg ssl memdisk_ops buf b = Ok (v + 1, b') \<and> blob_version_id b' = Some (v + 1) \<and>
    blob_read pg ssl memdisk_ops dst b' = Ok (length buf, buf @ drop (length buf) dst, b') \<and>
    blob_read pg ssl memdisk_ops dst (blob_open (cb_key b) (cb_block_set b'))
      = Ok (length buf, buf @ drop (length buf) dst, b')"
proof -
  have fits: "HEADER_NBYTES + length buf \<le> memdisk_nblocks (cb_block_set b) * BLOCK_SIZE"
    using assms(8,9) by (auto simp: blob_capacity_def checked_sub_def split: if_splits)
  obtain h s' where w: "blob_write pg ssl memdisk_ops buf b = Ok (v + 1, b\<lparr>cb_block_set := s', cb_header := Some h\<rparr>)"
      "bh_version h = v + 1" "blob_holds ssl memdisk_ops memdisk_inv memdisk_content (cb_key b) h buf s'"
    using md.blob_write_spec [OF assms(1-4) _ assms(6,7), of buf] assms(5) fits by auto
  let ?b' = "b\<lparr>cb_block_set := s', cb_header := Some h\<rparr>"
  have "blob_read pg ssl memdisk_ops dst ?b' = Ok (length buf, buf @ drop (length buf) dst, ?b')"
    using md.blob_read_spec [OF assms(1,2), of ?b' h buf dst] w(3) assms(10) by simp
  moreover have "blob_read pg ssl memdisk_ops dst (blob_open (cb_key b) s') = Ok (length buf, buf @ drop (length buf) dst, ?b')"
    using md.blob_read_spec [OF assms(1,2), of "blob_open (cb_key b) s'" h buf dst] w(3) assms(10)
    by (simp add: blob_open_def)
  ultimately show ?thesis
    using w(1,2) by (simp add: blob_version_id_def)
qed

lemma blob_demo:
  "\<exists>b. blob_create zero_pages openssl_ref memdisk_ops (replicate 16 1) (\<lparr>md_disk = replicate BLOCK_SIZE 0, md_start = 0, md_end = 1\<rparr>) [1, 2]
      = Ok b \<and> cb_key b = replicate 16 1 \<and> memdisk_inv (cb_block_set b) \<and> memdisk_nblocks (cb_block_set b) = 1 \<and>
    blob_version_id b = Some 0 \<and> blob_capacity memdisk_ops b = Ok (BLOCK_SIZE - 32) \<and> 32 + 3 \<le> BLOCK_SIZE"
proof -
  let ?d = "\<lparr>md_disk = replicate BLOCK_SIZE 0, md_start = 0, md_end = 1\<rparr> :: memdisk"
  have d: "memdisk_inv ?d" "memdisk_nblocks ?d = 1" and bs: "BLOCK_SIZE = 4096"
    by (simp_all add: memdisk_inv_def memdisk_nblocks_def buf_ok_def buf_nblocks_def BLOCK_SIZE_def)
  obtain h s' where "blob_create zero_pages openssl_ref memdisk_ops (replicate 16 1) ?d [1, 2]
      = Ok \<lparr>cb_block_set = s', cb_key = replicate 16 1, cb_header = Some h\<rparr>" "bh_version h = 0" "memdisk_nblocks s' = 1"
      "blob_holds openssl_ref memdisk_ops memdisk_inv memdisk_content (replicate 16 1) h [1, 2] s'"
    using md.blob_create_spec [OF ssl_ref.openssl_laws_axioms zero_pages_ready, of "replicate 16 1" ?d "[1, 2]"] d bs
    by (auto simp: aes_sizes HEADER_NBYTES_def)
  then show ?thesis
    by (simp add: blob_holds_def blob_version_id_def blob_capacity_def checked_sub_def bs HEADER_NBYTES_def)
qed

theorem blob_write_read_witness:
  "\<exists>b b'. blob_write zero_pages openssl_ref memdisk_ops [7, 8, 9] (b :: memdisk crypto_blob) = Ok (1, b') \<and>
    blob_read zero_pages openssl_ref memdisk_ops [0, 0, 0, 5] (blob_open (cb_key b) (cb_block_set b')) = Ok (3, [7, 8, 9, 5], b')"
proof -
  obtain b where b: "cb_key b = replicate 16 1" "memdisk_inv (cb_block_set b)" "memdisk_nblocks (cb_block_set b) = 1"
      "blob_version_id b = Some 0" "blob_capacity memdisk_ops b = Ok (BLOCK_SIZE - 32)" "32 + 3 \<le> BLOCK_SIZE"
    using blob_demo by blast
  have "\<exists>b'. blob_write zero_pages openssl_ref memdisk_ops [7, 8, 9] b = Ok (0 + 1, b') \<and> blob_version_id b' = Some (0 + 1) \<and>
    blob_read zero_pages openssl_ref memdisk_ops [0, 0, 0, 5] b' = Ok (length [7 :: byte, 8, 9], [7, 8, 9] @ drop (length [7 :: byte, 8, 9]) [0, 0, 0, 5], b') \<and>
    blob_read zero_pages openssl_ref memdisk_ops [0, 0, 0, 5] (blob_open (cb_key b) (cb_block_set b'))
      = Ok (length [7 :: byte, 8, 9], [7, 8, 9] @ drop (length [7 :: byte, 8, 9]) [0, 0, 0, 5], b')"
    by (rule blob_write_read [OF ssl_ref.openssl_laws_axioms zero_pages_ready])
      (use b in \<open>auto simp: aes_sizes BLOCK_SIZE_def\<close>)
  then show ?thesis by (auto simp: numeral_3_eq_3)
qed

text \<open>C10: Whatever happens to the disk under a blob, a read through the object that wrote the payload returns
  this payload or fails, unless the bytes now at the place of the ciphertext are a forgery: the
  ciphertext of another message with the same key, version and MAC.\<close>

theorem blob_read_tamper_evident:
  assumes "openssl_laws ssl" "pages_ready pg" "length (cb_key b) = AES_GCM_KEY_SIZE" "memdisk_inv (cb_block_set b)"
    and "memdisk_nblocks (cb_block_set b) * BLOCK_SIZE < 2 ^ 64" "blob_version_id b = Some v" "v + 1 < 2 ^ 64"
    and "blob_write pg ssl memdisk_ops buf b = Ok (v + 1, b')"
    and "memdisk_inv disk" "blob_current_mac b' = Some mac"
    and "\<And>p. encrypt_aead ssl (cb_key b) (iv_of_version (v + 1)) [] p
        = Some (take (length buf) (drop HEADER_NBYTES (memdisk_content disk)), mac) \<Longrightarrow> p = buf"
    and "blob_read pg ssl memdisk_ops dst (b'\<lparr>cb_block_set := disk\<rparr>) = Ok (n, dst', b'')"
  shows "n = length buf \<and> take n dst' = buf"
proof -
  have cap: "HEADER_NBYTES + length buf \<le> memdisk_nblocks (cb_block_set b) * BLOCK_SIZE"
    using assms(8) by (auto simp: blob_write_def blob_capacity_def checked_sub_def res_simps split: if_splits)
  obtain h s' where w: "b' = b\<lparr>cb_block_set := s', cb_header := Some h\<rparr>"
      "bh_version h = v + 1" "blob_holds ssl memdisk_ops memdisk_inv memdisk_content (cb_key b) h buf s'"
    using md.blob_write_spec [OF assms(1-4) _ assms(6,7), of buf] assms(5,8) cap by auto
  have h: "length (bh_mac h) = AES_GCM_MAC_SIZE" "bh_payload_len h = length buf" "mac = bh_mac h"
    using w(1,3) assms(10) by (simp_all add: blob_holds_def blob_image_def blob_current_mac_def)
  have "n = length buf \<and> encrypt_aead ssl (cb_key b) (iv_of_version (v + 1)) [] (take n dst')
      = Some (take n (drop HEADER_NBYTES (memdisk_content disk)), mac)"
    using md.blob_read_genuine [OF assms(1) _ h(1) _ _ assms(12)] assms(2,9) w(1,2) h(2,3)
    by (auto simp: pages_ready_def)
  then show ?thesis using assms(11) [of "take n dst'"] by auto
qed

theorem blob_read_tamper_evident_witness:
  "\<exists>(b :: memdisk crypto_blob) b' b'' n dst'. blob_write zero_pages openssl_ref memdisk_ops [7, 8, 9] b = Ok (1, b') \<and>
    blob_read zero_pages openssl_ref memdisk_ops [0, 0, 0, 0] b' = Ok (n, dst', b'') \<and> n = 3 \<and> take n dst' = [7, 8, 9]"
proof -
  obtain b where b: "cb_key b = replicate 16 1" "memdisk_inv (cb_block_set b)" "memdisk_nblocks (cb_block_set b) = 1"
      "blob_version_id b = Some 0" "32 + 3 \<le> BLOCK_SIZE"
    using blob_demo by blast
  have key: "length (cb_key b) = AES_GCM_KEY_SIZE" and small: "BLOCK_SIZE < 2 ^ 64"
    using b(1) by (simp_all add: aes_sizes BLOCK_SIZE_def)
  let ?p = "[7, 8, 9] :: bytes" and ?dst = "[0, 0, 0, 0] :: bytes"
  obtain h s' where w: "blob_write zero_pages openssl_ref memdisk_ops ?p b = Ok (0 + 1, b\<lparr>cb_block_set := s', cb_header := Some h\<rparr>)"
      "blob_holds openssl_ref memdisk_ops memdisk_inv memdisk_content (cb_key b) h ?p s'"
    using md.blob_write_spec [OF ssl_ref.openssl_laws_axioms zero_pages_ready key b(2) _ b(4), of ?p] b(3,5) small
    by (auto simp: HEADER_NBYTES_def)
  let ?b' = "b\<lparr>cb_block_set := s', cb_header := Some h\<rparr>"
  have "encrypt_aead openssl_ref (cb_key b) (iv_of_version (bh_version h)) [] ?p
      = Some (take (length ?p) (drop HEADER_NBYTES (memdisk_content s')), bh_mac h)"
    and inv': "memdisk_inv s'"
    using w(2) unfolding blob_holds_def blob_image_def by blast+
  then have s': "take (length ?p) (drop HEADER_NBYTES (memdisk_content s')) = ?p"
    by (intro openssl_ref_cipher)
  have same: "?b'\<lparr>cb_block_set := s'\<rparr> = ?b'" by (cases b) simp
  obtain n dst' b'' where rd: "blob_read zero_pages openssl_ref memdisk_ops ?dst (?b'\<lparr>cb_block_set := s'\<rparr>) = Ok (n, dst', b'')"
    unfolding same using md.blob_read_spec [OF ssl_ref.openssl_laws_axioms zero_pages_ready, of ?b' h ?p ?dst] w(2) by simp
  have "n = length ?p \<and> take n dst' = ?p"
  proof (rule blob_read_tamper_evident [OF ssl_ref.openssl_laws_axioms zero_pages_ready key b(2) _ b(4) _ w(1) inv' _ _ rd])
    show "blob_current_mac ?b' = Some (bh_mac h)" by (simp add: blob_current_mac_def)
    show "p = ?p" if "encrypt_aead openssl_ref (cb_key b) (iv_of_version (0 + 1)) [] p
        = Some (take (length ?p) (drop HEADER_NBYTES (memdisk_content s')), bh_mac h)" for p
      using that unfolding s' by (simp add: openssl_ref_def b(1))
  qed (use b(3) small in simp_all)
  then show ?thesis using w(1) rd unfolding same 
    by - (rule exI [of _ b], rule exI [of _ ?b'], rule exI [of _ b''], rule exI [of _ n], rule exI [of _ dst'], auto)
qed

text \<open>C33: A blob without a valid header recovers version and payload from a backup of the same size: both
  then read the same payload, each under its own key.\<close>

theorem blob_recover_reads:
  assumes "openssl_laws ssl" "pages_ready pg" "length (cb_key b) = AES_GCM_KEY_SIZE" "memdisk_inv (cb_block_set b)"
    and "cb_header b = None" "memdisk_nblocks (cb_block_set other) = memdisk_nblocks (cb_block_set b)"
    and "blob_holds ssl memdisk_ops memdisk_inv memdisk_content (cb_key other) h payload (cb_block_set other)"
    and "cb_header other = None \<or> cb_header other = Some h" "length payload \<le> length dst"
  shows "\<exists>other' b'. blob_recover_from pg ssl memdisk_ops other b = Ok (other', b') \<and>
    blob_version_id b' = Some (bh_version h) \<and> blob_version_id other' = Some (bh_version h) \<and>
    blob_read pg ssl memdisk_ops dst b' = Ok (length payload, payload @ drop (length payload) dst, b') \<and>
    blob_read pg ssl memdisk_ops dst other' = Ok (length payload, payload @ drop (length payload) dst, other')"
proof -
  obtain h' s' where r: "blob_recover_from pg ssl memdisk_ops other b
      = Ok (other\<lparr>cb_header := Some h\<rparr>, b\<lparr>cb_block_set := s', cb_header := Some h'\<rparr>)"
      "bh_version h' = bh_version h" "blob_holds ssl memdisk_ops memdisk_inv memdisk_content (cb_key b) h' payload s'"
    using md.blob_recover_spec [OF assms(1-5) _ assms(7,8)] assms(6) by auto
  moreover have "blob_read pg ssl memdisk_ops dst (b\<lparr>cb_block_set := s', cb_header := Some h'\<rparr>)
      = Ok (length payload, payload @ drop (length payload) dst, b\<lparr>cb_block_set := s', cb_header := Some h'\<rparr>)"
    using md.blob_read_spec [OF assms(1,2), of "b\<lparr>cb_block_set := s', cb_header := Some h'\<rparr>" h' payload dst] r(3) assms(9)
    by simp
  moreover have "blob_read pg ssl memdisk_ops dst (other\<lparr>cb_header := Some h\<rparr>)
      = Ok (length payload, payload @ drop (length payload) dst, other\<lparr>cb_header := Some h\<rparr>)"
    using md.blob_read_spec [OF assms(1,2), of "other\<lparr>cb_header := Some h\<rparr>" h payload dst] assms(7,9) by simp
  ultimately show ?thesis by (auto simp: blob_version_id_def)
qed

theorem blob_recover_reads_witness:
  "\<exists>(b :: memdisk crypto_blob) other other' b'. cb_header b = None \<and>
    blob_recover_from zero_pages openssl_ref memdisk_ops other b = Ok (other', b') \<and>
    blob_read zero_pages openssl_ref memdisk_ops [0, 0] b' = Ok (2, [1, 2], b')"
proof -
  let ?d = "\<lparr>md_disk = replicate BLOCK_SIZE 0, md_start = 0, md_end = 1\<rparr> :: memdisk"
  have d: "memdisk_inv ?d" "memdisk_nblocks ?d = 1" and bs: "BLOCK_SIZE = 4096"
    by (simp_all add: memdisk_inv_def memdisk_nblocks_def buf_ok_def buf_nblocks_def BLOCK_SIZE_def)
  let ?k = "replicate 16 1 :: bytes"
  obtain h s' where o: "memdisk_nblocks s' = 1" "blob_holds openssl_ref memdisk_ops memdisk_inv memdisk_content ?k h [1, 2] s'"
    using md.blob_create_spec [OF ssl_ref.openssl_laws_axioms zero_pages_ready, of ?k ?d "[1, 2]"] d bs
    by (auto simp: aes_sizes HEADER_NBYTES_def)
  let ?b = "blob_open (replicate 16 2) ?d" and ?o = "blob_open ?k s'"
  have "\<exists>other' b'. blob_recover_from zero_pages openssl_ref memdisk_ops ?o ?b = Ok (other', b') \<and>
    blob_version_id b' = Some (bh_version h) \<and> blob_version_id other' = Some (bh_version h) \<and>
    blob_read zero_pages openssl_ref memdisk_ops [0, 0] b' = Ok (length [1 :: byte, 2], [1, 2] @ drop (length [1 :: byte, 2]) [0, 0], b') \<and>
    blob_read zero_pages openssl_ref memdisk_ops [0, 0] other'
      = Ok (length [1 :: byte, 2], [1, 2] @ drop (length [1 :: byte, 2]) [0, 0], other')"
    by (rule blob_recover_reads [OF ssl_ref.openssl_laws_axioms zero_pages_ready])
      (use o d in \<open>simp_all add: blob_open_def aes_sizes\<close>)
  then obtain other' b' where "blob_recover_from zero_pages openssl_ref memdisk_ops ?o ?b = Ok (other', b')"
      "blob_read zero_pages openssl_ref memdisk_ops [0, 0] b' = Ok (2, [1, 2], b')"
    by (auto simp: numeral_2_eq_2)
  then show ?thesis
    by - (rule exI [of _ ?b], rule exI [of _ ?o], rule exI [of _ other'], rule exI [of _ b'], simp add: blob_open_def)
qed

end
