(* ===== verification/Crypto_Chain.thy ===== *)
theory Crypto_Chain
  imports Block_Log Aead_Model
begin

text \<open>
  Chains of encrypted blocks (\<open>core/src/layers/1-crypto/crypto_chain.rs\<close>).

  Each block of a chain has a payload and a footer with the MACs of the block itself and of the
  block before it; the latter is the associated data of the encryption. \<open>crypto_chain\<close> is the struct
  over any block log \<open>L\<close>; the random key and vectors are arguments. \<open>recovery\<close> is the
  \<open>Recovery\<close> iterator; its two scratch buffers are values local to \<open>recovery_next\<close>.

  The properties: a block reads back what was appended, trimmed chains keep the rest readable;
  recovery finds exactly the blocks of the chain; and a recovered sequence that ends with the
  MAC of the real one agrees with it, as far back as both go.
\<close>

record 's crypto_chain =
  cc_block_log :: 's
  cc_key :: aead_key
  cc_start :: block_id
  cc_end :: block_id
  cc_block_macs :: "aead_mac list"

record footer =
  ft_len :: nat
  ft_pre_mac :: aead_mac
  ft_this_mac :: aead_mac
  ft_this_iv :: aead_iv

definition FOOTER_SIZE :: nat where "FOOTER_SIZE = 48"

definition AVAIL_BLOCK_SIZE :: nat where
  "AVAIL_BLOCK_SIZE = BLOCK_SIZE - FOOTER_SIZE"

definition footer_bytes :: "footer \<Rightarrow> bytes" where
  "footer_bytes f = le_bytes 4 (ft_len f) @ ft_pre_mac f @ ft_this_mac f @ ft_this_iv f"

definition footer_from_bytes :: "bytes \<Rightarrow> footer" where
  "footer_from_bytes bs = \<lparr>ft_len = le_nat (take 4 bs), ft_pre_mac = take 16 (drop 4 bs),
    ft_this_mac = take 16 (drop 20 bs), ft_this_iv = take 12 (drop 36 bs)\<rparr>"

definition chain_new :: "aead_key \<Rightarrow> 's \<Rightarrow> 's crypto_chain" where
  "chain_new random_key blog = \<lparr>cc_block_log = blog, cc_key = random_key, cc_start = 0, cc_end = 0,
    cc_block_macs = []\<rparr>"

definition chain_read ::
    "page_alloc \<Rightarrow> openssl \<Rightarrow> 's block_log_ops \<Rightarrow> 's crypto_chain \<Rightarrow> block_id \<Rightarrow> bytes \<Rightarrow> (nat \<times> bytes) res" where
  "chain_read pg ssl L c pos buf =
    (if \<not> (cc_start c \<le> pos \<and> pos < cc_end c) then Fail NotFound
     else
       rbind (buf_alloc pg 1) (\<lambda>block_buf.
       rbind (bl_read L (cc_block_log c) pos (buf_nblocks block_buf)) (\<lambda>block_buf.
       rbind (slice_range block_buf AVAIL_BLOCK_SIZE (length block_buf)) (\<lambda>tail_bytes.
       let footer = footer_from_bytes tail_bytes; payload_len = ft_len footer in
       if AVAIL_BLOCK_SIZE < payload_len \<or> length buf < payload_len then Fail OutOfDisk
       else
         rbind (nth_res (cc_block_macs c) (pos - cc_start c)) (\<lambda>this_mac.
         if ft_this_mac footer \<noteq> this_mac then Fail NotFound
         else
           rbind (slice_range block_buf 0 payload_len) (\<lambda>input.
           rbind (aead_decrypt ssl input (cc_key c) (ft_this_iv footer) (ft_pre_mac footer) (ft_this_mac footer) payload_len)
             (\<lambda>output.
           rbind (copy_range buf 0 payload_len output) (\<lambda>buf. Ok (payload_len, buf)))))))))"

definition chain_append ::
    "page_alloc \<Rightarrow> openssl \<Rightarrow> 's block_log_ops \<Rightarrow> aead_iv \<Rightarrow> bytes \<Rightarrow> 's crypto_chain \<Rightarrow> 's crypto_chain res" where
  "chain_append pg ssl L this_iv buf c =
    (if AVAIL_BLOCK_SIZE < length buf then Fail OutOfDisk
     else
       rbind (buf_alloc pg 1) (\<lambda>block_buf.
       let pre_mac = (if cc_block_macs c = [] then replicate AES_GCM_MAC_SIZE 0 else last (cc_block_macs c)) in
       rbind (slice_range block_buf 0 (length buf)) (\<lambda>output.
       rbind (aead_encrypt ssl buf (cc_key c) this_iv pre_mac (length output)) (\<lambda>(cipher, this_mac).
       rbind (copy_range block_buf 0 (length buf) cipher) (\<lambda>block_buf.
       let footer = \<lparr>ft_len = length buf mod 2 ^ 32, ft_pre_mac = pre_mac, ft_this_mac = this_mac, ft_this_iv = this_iv\<rparr> in
       rbind (copy_range block_buf AVAIL_BLOCK_SIZE (length block_buf) (footer_bytes footer)) (\<lambda>block_buf.
       rbind (bl_append L (cc_block_log c) block_buf) (\<lambda>(_, blog).
         Ok (c\<lparr>cc_block_log := blog, cc_end := cc_end c + 1,
               cc_block_macs := cc_block_macs c @ [this_mac]\<rparr>))))))))"

definition chain_flush :: "'s block_log_ops \<Rightarrow> 's crypto_chain \<Rightarrow> 's crypto_chain res" where
  "chain_flush L c = rbind (bl_flush L (cc_block_log c)) (\<lambda>log. Ok (c\<lparr>cc_block_log := log\<rparr>))"

definition chain_trim :: "block_id \<Rightarrow> 's crypto_chain \<Rightarrow> 's crypto_chain res" where
  "chain_trim before_block c =
    rbind (rassert (before_block < cc_end c)) (\<lambda>_.
    if before_block \<le> cc_start c then Ok c
    else
      let num_blocks_trimmed = before_block - cc_start c in
      rbind (rassert (num_blocks_trimmed \<le> length (cc_block_macs c))) (\<lambda>_.
        Ok (c\<lparr>cc_start := before_block, cc_block_macs := drop num_blocks_trimmed (cc_block_macs c)\<rparr>)))"

section \<open>Recovery\<close>

record 's recovery =
  rc_block_log :: 's
  rc_key :: aead_key
  rc_start :: block_id
  rc_end :: block_id
  rc_block_macs :: "aead_mac list"

definition recovery_new :: "page_alloc \<Rightarrow> 's \<Rightarrow> aead_key \<Rightarrow> block_id \<Rightarrow> 's recovery res" where
  "recovery_new pg blog key first_block =
    (case (buf_alloc pg 1, buf_alloc pg 1) of
       (Inr _, Inr _) \<Rightarrow> Ok \<lparr>rc_block_log = blog, rc_key = key, rc_start = first_block, rc_end = first_block,
         rc_block_macs = []\<rparr>
     | _ \<Rightarrow> Panics)"

definition recovery_num_blocks :: "'s recovery \<Rightarrow> nat" where
  "recovery_num_blocks r = rc_end r - rc_start r"

definition recovery_open :: "'s recovery \<Rightarrow> 's crypto_chain" where
  "recovery_open r = \<lparr>cc_block_log = rc_block_log r, cc_key = rc_key r, cc_start = rc_start r, cc_end = rc_end r,
    cc_block_macs = rc_block_macs r\<rparr>"

text \<open>\<open>ok()?\<close>: an error ends the iteration, a panic is not caught.\<close>

definition or_none :: "'a res \<Rightarrow> 'r \<Rightarrow> ('a \<Rightarrow> ('b option \<times> 'r) res) \<Rightarrow> ('b option \<times> 'r) res" where
  "or_none m r k = (case m of Inl (Err _) \<Rightarrow> Ok (None, r) | Inl Panic \<Rightarrow> Panics | Inr x \<Rightarrow> k x)"

definition recovery_next ::
    "openssl \<Rightarrow> 's block_log_ops \<Rightarrow> 's recovery \<Rightarrow> (bytes option \<times> 's recovery) res" where
  "recovery_next ssl L r =
    or_none (bl_read L (rc_block_log r) (rc_end r) 1) r (\<lambda>read_buf.
    rbind (slice_range read_buf AVAIL_BLOCK_SIZE (length read_buf)) (\<lambda>tail_bytes.
    let footer = footer_from_bytes tail_bytes; payload_len = ft_len footer in
    if AVAIL_BLOCK_SIZE < payload_len then Ok (None, r)
    else
      rbind (slice_range read_buf 0 payload_len) (\<lambda>input.
      or_none (aead_decrypt ssl input (rc_key r) (ft_this_iv footer) (ft_pre_mac footer) (ft_this_mac footer) payload_len) r
        (\<lambda>payload.
      if rc_block_macs r \<noteq> [] \<and> last (rc_block_macs r) \<noteq> ft_pre_mac footer then Ok (None, r)
      else Ok (Some payload,
        r\<lparr>rc_end := rc_end r + 1, rc_block_macs := rc_block_macs r @ [ft_this_mac footer]\<rparr>)))))"

text \<open>The loop \<open>while let Some(payload) = recovery.next()\<close>, for \<open>fuel\<close> rounds.\<close>

fun recovery_run ::
    "openssl \<Rightarrow> 's block_log_ops \<Rightarrow> nat \<Rightarrow> 's recovery \<Rightarrow> (bytes list \<times> 's recovery) res" where
  "recovery_run ssl L 0 r = Ok ([], r)"
| "recovery_run ssl L (Suc fuel) r =
    rbind (recovery_next ssl L r) (\<lambda>(p, r').
      case p of
        None \<Rightarrow> Ok ([], r')
      | Some payload \<Rightarrow> rbind (recovery_run ssl L fuel r') (\<lambda>(ps, r''). Ok (payload # ps, r'')))"

section \<open>Blocks of a chain\<close>

lemma footer_size_fits: "FOOTER_SIZE \<le> BLOCK_SIZE" "AVAIL_BLOCK_SIZE \<le> BLOCK_SIZE" "AVAIL_BLOCK_SIZE + FOOTER_SIZE = BLOCK_SIZE"
    "AVAIL_BLOCK_SIZE < 2 ^ 32"
  by (simp_all add: FOOTER_SIZE_def AVAIL_BLOCK_SIZE_def BLOCK_SIZE_def)

lemma footer_roundtrip:
  assumes "ft_len f < 2 ^ 32" "length (ft_pre_mac f) = 16" "length (ft_this_mac f) = 16" "length (ft_this_iv f) = 12"
  shows "footer_from_bytes (footer_bytes f) = f" "length (footer_bytes f) = FOOTER_SIZE"
proof -
  have "(2 :: nat) ^ 32 = 256 ^ 4" by simp
  then show "footer_from_bytes (footer_bytes f) = f"
    using assms by (simp add: footer_from_bytes_def footer_bytes_def le_nat_bytes_exact)
  show "length (footer_bytes f) = FOOTER_SIZE"
    using assms by (simp add: footer_bytes_def FOOTER_SIZE_def)
qed

definition block_footer :: "bytes \<Rightarrow> footer" where
  "block_footer blk = footer_from_bytes (drop AVAIL_BLOCK_SIZE blk)"

definition block_payload :: "openssl \<Rightarrow> aead_key \<Rightarrow> bytes \<Rightarrow> bytes option" where
  "block_payload ssl key blk =
    (let f = block_footer blk in
     decrypt_aead ssl key (ft_this_iv f) (ft_pre_mac f) (take (ft_len f) blk) (ft_this_mac f))"

text \<open>A block that holds the payload \<open>p\<close> with the MAC \<open>mac\<close>, behind a block with the MAC \<open>pre\<close>.\<close>

definition chain_block :: "openssl \<Rightarrow> aead_key \<Rightarrow> aead_mac \<Rightarrow> aead_mac \<Rightarrow> bytes \<Rightarrow> bytes \<Rightarrow> bool" where
  "chain_block ssl key pre mac p blk \<longleftrightarrow>
    length blk = BLOCK_SIZE \<and> length p \<le> AVAIL_BLOCK_SIZE \<and> ft_len (block_footer blk) = length p \<and>
    ft_pre_mac (block_footer blk) = pre \<and> ft_this_mac (block_footer blk) = mac \<and>
    block_payload ssl key blk = Some p"

fun chain_seq :: "openssl \<Rightarrow> aead_key \<Rightarrow> aead_mac \<Rightarrow> aead_mac list \<Rightarrow> bytes list \<Rightarrow> bytes list \<Rightarrow> bool" where
  "chain_seq ssl key pre [] [] [] = True"
| "chain_seq ssl key pre (m # ms) (p # ps) (b # bs) = (chain_block ssl key pre m p b \<and> chain_seq ssl key m ms ps bs)"
| "chain_seq ssl key pre _ _ _ = False"

lemma chain_seq_length: "chain_seq ssl key pre ms ps bs \<Longrightarrow> length ms = length bs \<and> length ps = length bs"
  by (induction ssl key pre ms ps bs rule: chain_seq.induct) auto

lemma chain_seq_nth:
  "chain_seq ssl key pre ms ps bs \<Longrightarrow> i < length bs \<Longrightarrow> chain_block ssl key ((pre # ms) ! i) (ms ! i) (ps ! i) (bs ! i)"
proof (induction ssl key pre ms ps bs arbitrary: i rule: chain_seq.induct)
  case (2 ssl key pre m ms p ps b bs)
  then show ?case by (cases i) auto
qed auto

lemma chain_seq_append:
  "chain_seq ssl key pre ms ps bs \<Longrightarrow> chain_block ssl key (last (pre # ms)) m p b \<Longrightarrow>
    chain_seq ssl key pre (ms @ [m]) (ps @ [p]) (bs @ [b])"
proof (induction ssl key pre ms ps bs rule: chain_seq.induct)
  case (2 ssl key pre m' ms p' ps b' bs)
  then show ?case by (cases ms) auto
qed auto

lemma chain_seq_drop:
  assumes "chain_seq ssl key pre ms ps bs" "k \<le> length bs"
  shows "\<exists>pre'. chain_seq ssl key pre' (drop k ms) (drop k ps) (drop k bs)"
  using assms
proof (induction ssl key pre ms ps bs arbitrary: k rule: chain_seq.induct)
  case (2 ssl key pre m ms p ps b bs)
  then show ?case by (cases k) auto
qed auto

section \<open>Invariant\<close>

text \<open>
  The accessible blocks of the chain hold the payloads \<open>ps\<close>; \<open>linv\<close> and \<open>blk\<close> are the invariant and
  the blocks of the log below.
\<close>

definition chain_inv ::
    "openssl \<Rightarrow> 's block_log_ops \<Rightarrow> ('s \<Rightarrow> bool) \<Rightarrow> ('s \<Rightarrow> block_id \<Rightarrow> bytes) \<Rightarrow> bytes list \<Rightarrow> 's crypto_chain \<Rightarrow> bool" where
  "chain_inv ssl L linv blk ps c \<longleftrightarrow>
    linv (cc_block_log c) \<and> length (cc_key c) = AES_GCM_KEY_SIZE \<and> cc_start c \<le> cc_end c \<and>
    cc_end c = bl_nblocks L (cc_block_log c) \<and> (\<forall>m \<in> set (cc_block_macs c). length m = AES_GCM_MAC_SIZE) \<and>
    (\<exists>pre. chain_seq ssl (cc_key c) pre (cc_block_macs c) ps
      (map (blk (cc_block_log c)) [cc_start c..<cc_end c]))"

lemma chain_inv_new:
  "linv log \<Longrightarrow> bl_nblocks L log = 0 \<Longrightarrow> length key = AES_GCM_KEY_SIZE \<Longrightarrow> chain_inv ssl L linv blk [] (chain_new key log)"
  by (simp add: chain_inv_def chain_new_def)

lemma chain_trim_spec:
  assumes "chain_inv ssl L linv blk ps c" "cc_start c < k" "k < cc_end c"
  shows "\<exists>c'. chain_trim k c = Ok c' \<and> chain_inv ssl L linv blk (drop (k - cc_start c) ps) c' \<and>
    cc_start c' = k \<and> cc_end c' = cc_end c"
proof -
  let ?bs = "map (blk (cc_block_log c)) [cc_start c..<cc_end c]" and ?d = "k - cc_start c"
  obtain pre where seq: "chain_seq ssl (cc_key c) pre (cc_block_macs c) ps ?bs"
    using assms(1) by (auto simp: chain_inv_def)
  have "length (cc_block_macs c) = cc_end c - cc_start c" using chain_seq_length [OF seq] by simp
  moreover obtain pre' where "chain_seq ssl (cc_key c) pre' (drop ?d (cc_block_macs c)) (drop ?d ps) (drop ?d ?bs)"
    using chain_seq_drop [OF seq, of ?d] assms(3) diff_le_mono [of k "cc_end c" "cc_start c"] by auto
  moreover have "drop ?d ?bs = map (blk (cc_block_log c)) [k..<cc_end c]"
    using assms(2) by (simp add: drop_map)
  ultimately show ?thesis
    using assms by (auto simp: chain_trim_def rassert_def Let_def chain_inv_def dest: in_set_dropD)
qed

text \<open>The block that \<open>append\<close> writes.\<close>

lemma chain_build_block:
  assumes "openssl_laws ssl" "length key = AES_GCM_KEY_SIZE" "length iv = AES_GCM_IV_SIZE" "length pre = AES_GCM_MAC_SIZE"
    and "length p \<le> AVAIL_BLOCK_SIZE" "length b0 = BLOCK_SIZE" "encrypt_aead ssl key iv pre p = Some (cipher, mac)"
  shows "chain_block ssl key pre mac p (overwrite (overwrite b0 0 cipher) AVAIL_BLOCK_SIZE
      (footer_bytes \<lparr>ft_len = length p, ft_pre_mac = pre, ft_this_mac = mac, ft_this_iv = iv\<rparr>))"
    "length cipher = length p" "length mac = AES_GCM_MAC_SIZE"
    "length (footer_bytes \<lparr>ft_len = length p, ft_pre_mac = pre, ft_this_mac = mac, ft_this_iv = iv\<rparr>) = FOOTER_SIZE"
proof -
  let ?f = "\<lparr>ft_len = length p, ft_pre_mac = pre, ft_this_mac = mac, ft_this_iv = iv\<rparr>"
  let ?b1 = "overwrite b0 0 cipher"
  let ?b2 = "overwrite ?b1 AVAIL_BLOCK_SIZE (footer_bytes ?f)"
  show c: "length cipher = length p" "length mac = AES_GCM_MAC_SIZE"
    using openssl_laws.encrypt_total [OF assms(1-3), of pre p] assms(7) by auto
  have "length p < 2 ^ 32" using assms(5) footer_size_fits(4) by linarith
  then have f: "footer_from_bytes (footer_bytes ?f) = ?f" "length (footer_bytes ?f) = FOOTER_SIZE"
    using footer_roundtrip [of ?f] assms(3,4) c(2) by (simp_all add: aes_sizes)
  then show "length (footer_bytes ?f) = FOOTER_SIZE" by simp
  have len1: "length ?b1 = BLOCK_SIZE"
    using assms(5,6) c(1) footer_size_fits(2) by (simp add: length_overwrite)
  have "drop AVAIL_BLOCK_SIZE ?b2 = footer_bytes ?f"
    using overwrite_same_range [of AVAIL_BLOCK_SIZE "footer_bytes ?f" ?b1] len1 f(2) footer_size_fits(3)
      length_overwrite [of AVAIL_BLOCK_SIZE "footer_bytes ?f" ?b1] by (simp add: take_all)
  then have foot: "block_footer ?b2 = ?f" by (simp add: block_footer_def f(1))
  have "take (length p) ?b2 = take (length p) ?b1"
    using overwrite_disjoint [of AVAIL_BLOCK_SIZE "footer_bytes ?f" ?b1 0 "length p"] len1 f(2) footer_size_fits(3) assms(5)
    by simp
  also have "\<dots> = cipher"
    using overwrite_same_range [of 0 cipher b0] assms(5,6) c(1) footer_size_fits(2) by simp
  finally have "block_payload ssl key ?b2 = Some p"
    using openssl_laws.decrypt_encrypt [OF assms(1,7)] by (simp add: block_payload_def foot Let_def)
  then show "chain_block ssl key pre mac p ?b2"
    using foot assms(5) len1 f(2) footer_size_fits(3) by (simp add: chain_block_def length_overwrite)
qed

context window_log
begin

text \<open>
  An append needs room for a block. The blocks of the chain that the log keeps, from some position \<open>k\<close>
  on, form a chain with the new one.
\<close>

lemma chain_append_suffix:
  assumes "openssl_laws ssl" "pages_ready pg" "chain_inv ssl L inv blk ps c" "can (cc_block_log c)"
    and k: "cc_start c \<le> k" "k \<le> cc_end c" "\<forall>pos \<in> {k..<cc_end c}. keeps (cc_block_log c) pos"
    and "length iv = AES_GCM_IV_SIZE" "length p \<le> AVAIL_BLOCK_SIZE"
  shows "\<exists>c' mac b. chain_append pg ssl L iv p c = Ok c' \<and>
    chain_inv ssl L inv blk (drop (k - cc_start c) ps @ [p]) (c'\<lparr>cc_start := k, cc_block_macs := drop (k - cc_start c) (cc_block_macs c')\<rparr>) \<and>
    cc_start c' = cc_start c \<and> cc_end c' = cc_end c + 1 \<and> cc_key c' = cc_key c \<and>
    cc_block_macs c' = cc_block_macs c @ [mac] \<and> length b = BLOCK_SIZE \<and> bl_append L (cc_block_log c) b = Ok (cc_end c, cc_block_log c')"
proof -
  let ?log = "cc_block_log c" and ?key = "cc_key c" and ?ms = "cc_block_macs c"
  define pre where "pre = (if ?ms = [] then replicate AES_GCM_MAC_SIZE 0 else last ?ms)"
  have inv: "inv ?log" "length ?key = AES_GCM_KEY_SIZE" "cc_start c \<le> cc_end c" "cc_end c = bl_nblocks L ?log"
      "\<forall>m \<in> set ?ms. length m = AES_GCM_MAC_SIZE"
    using assms(3) by (simp_all add: chain_inv_def)
  obtain pre0 where seq0: "chain_seq ssl ?key pre0 ?ms ps (map (blk ?log) [cc_start c..<cc_end c])"
    using assms(3) by (auto simp: chain_inv_def)
  have pre: "length pre = AES_GCM_MAC_SIZE" using inv(5) by (simp add: pre_def)
  obtain b0 where b0: "buf_alloc pg 1 = Ok b0" "length b0 = BLOCK_SIZE"
    using buf_alloc_ready [OF assms(2), of 1] by auto
  obtain cipher mac where enc: "encrypt_aead ssl ?key iv pre p = Some (cipher, mac)"
    using openssl_laws.encrypt_total [OF assms(1) inv(2) assms(8)] by blast
  note built = chain_build_block [OF assms(1) inv(2) assms(8) pre assms(9) b0(2) enc]
  define b2 where "b2 = overwrite (overwrite b0 0 cipher) AVAIL_BLOCK_SIZE
      (footer_bytes \<lparr>ft_len = length p, ft_pre_mac = pre, ft_this_mac = mac, ft_this_iv = iv\<rparr>)"
  have b2: "length b2 = BLOCK_SIZE" "chain_block ssl ?key pre mac p b2"
    using built(1) by (simp_all add: b2_def chain_block_def)
  obtain log' where log': "bl_append L ?log b2 = Ok (cc_end c, log')" "inv log'" "bl_nblocks L log' = cc_end c + 1"
      "blk log' (cc_end c) = b2" "\<forall>pos < cc_end c. keeps ?log pos \<longrightarrow> blk log' pos = blk ?log pos"
    using win_append [OF inv(1) b2(1) assms(4)] inv(4) by auto
  let ?c' = "c\<lparr>cc_block_log := log', cc_end := cc_end c + 1, cc_block_macs := ?ms @ [mac]\<rparr>"
  let ?d = "k - cc_start c" and ?bs = "map (blk ?log) [k..<cc_end c]"
  have len: "length ?ms = cc_end c - cc_start c" using chain_seq_length [OF seq0] by simp
  have "\<exists>pre'. chain_seq ssl ?key pre' (drop ?d ?ms) (drop ?d ps) ?bs \<and> last (pre' # drop ?d ?ms) = pre"
  proof (cases "k = cc_end c")
    case True
    then show ?thesis using len chain_seq_length [OF seq0] by (intro exI [of _ pre]) simp
  next
    case False
    then have d: "?d < length ?ms" using k len by simp
    then obtain pre' where "chain_seq ssl ?key pre' (drop ?d ?ms) (drop ?d ps) (drop ?d (map (blk ?log) [cc_start c..<cc_end c]))"
      using chain_seq_drop [OF seq0, of ?d] len by auto
    then show ?thesis using d k(1) by (intro exI [of _ pre']) (auto simp: pre_def drop_map last_drop)
  qed
  then obtain pre' where seq': "chain_seq ssl ?key pre' (drop ?d ?ms) (drop ?d ps) ?bs" "last (pre' # drop ?d ?ms) = pre" by blast
  have "map (blk log') [k..<cc_end c + 1] = ?bs @ [b2]"
    using log'(4,5) k by simp
  with chain_seq_append [OF seq'(1)] seq'(2) b2(2)
  have "chain_seq ssl ?key pre' (drop ?d ?ms @ [mac]) (drop ?d ps @ [p]) (map (blk log') [k..<cc_end c + 1])" by metis
  then have "chain_inv ssl L inv blk (drop ?d ps @ [p]) (?c'\<lparr>cc_start := k, cc_block_macs := drop ?d (cc_block_macs ?c')\<rparr>)"
    using log'(2,3) inv built(3) k len by (auto simp: chain_inv_def dest: in_set_dropD)
  moreover have "chain_append pg ssl L iv p c = Ok ?c'"
  proof -
    have small: "length p < 2 ^ 32" using assms(9) footer_size_fits(4) by linarith
    then show ?thesis
      using assms(9) b0 enc built(2-4) log'(1) footer_size_fits
      by (simp add: chain_append_def slice_range_def aead_encrypt_def ok_or_def rassert_def copy_range_def Let_def
          length_overwrite flip: pre_def b2_def)
  qed
  ultimately show ?thesis using log'(1) b2(1) by (intro exI [of _ ?c'] exI [of _ mac] exI [of _ b2]) simp
qed

lemma chain_append_spec:
  assumes "openssl_laws ssl" "pages_ready pg" "chain_inv ssl L inv blk ps c" "can (cc_block_log c)"
    and "\<forall>pos \<in> {cc_start c..<cc_end c}. keeps (cc_block_log c) pos"
    and "length iv = AES_GCM_IV_SIZE" "length p \<le> AVAIL_BLOCK_SIZE"
  shows "\<exists>c'. chain_append pg ssl L iv p c = Ok c' \<and> chain_inv ssl L inv blk (ps @ [p]) c' \<and>
    cc_start c' = cc_start c \<and> cc_end c' = cc_end c + 1 \<and> cc_key c' = cc_key c"
proof -
  have "cc_start c \<le> cc_end c" using assms(3) by (simp add: chain_inv_def)
  from chain_append_suffix [OF assms(1-4) order_refl this assms(5-7)] obtain c' mac where c':
    "chain_append pg ssl L iv p c = Ok c'" "chain_inv ssl L inv blk (ps @ [p]) (c'\<lparr>cc_start := cc_start c, cc_block_macs := cc_block_macs c'\<rparr>)"
    "cc_start c' = cc_start c" "cc_end c' = cc_end c + 1" "cc_key c' = cc_key c" by auto
  moreover have "c'\<lparr>cc_start := cc_start c, cc_block_macs := cc_block_macs c'\<rparr> = c'" using c'(3) by simp
  ultimately show ?thesis by metis
qed


lemma chain_read_spec:
  assumes "pages_ready pg" "chain_inv ssl L inv blk ps c" "cc_start c \<le> pos" "pos < cc_end c"
    and "p = ps ! (pos - cc_start c)" "length p \<le> length buf"
  shows "chain_read pg ssl L c pos buf = Ok (length p, p @ drop (length p) buf)"
proof -
  let ?log = "cc_block_log c" and ?ms = "cc_block_macs c" and ?i = "pos - cc_start c"
  let ?bs = "map (blk ?log) [cc_start c..<cc_end c]" and ?b = "blk ?log pos"
  obtain pre where seq: "chain_seq ssl (cc_key c) pre ?ms ps ?bs"
    using assms(2) by (auto simp: chain_inv_def)
  have i: "?i < length ?bs" using assms(3,4) by simp
  then have "chain_block ssl (cc_key c) ((pre # ?ms) ! ?i) (?ms ! ?i) p ?b" and ms: "?i < length ?ms"
    using chain_seq_nth [OF seq i] chain_seq_length [OF seq] assms(3,5) by (simp_all add: nth_append)
  then have b: "length ?b = BLOCK_SIZE" "length p \<le> AVAIL_BLOCK_SIZE" "ft_len (block_footer ?b) = length p"
      "ft_this_mac (block_footer ?b) = ?ms ! ?i" "block_payload ssl (cc_key c) ?b = Some p"
    by (simp_all add: chain_block_def)
  obtain b0 where b0: "buf_alloc pg 1 = Ok b0" "buf_nblocks b0 = 1"
    using buf_alloc_ready [OF assms(1), of 1] by auto
  have "bl_read L ?log pos 1 = Ok ?b"
    using win_read [of ?log pos] assms(2,4) by (simp add: chain_inv_def)
  then show ?thesis
    using assms(3,4,6) b b0 ms footer_size_fits(2)
    by (simp add: chain_read_def slice_range_def Let_def block_payload_def aead_decrypt_def ok_or_def rassert_def
        copy_range_def overwrite_def flip: block_footer_def)
qed

end

section \<open>Recovery of a chain\<close>

lemma recovery_next_spec:
  assumes "bl_read L (rc_block_log r) (rc_end r) 1 = Ok b" "chain_block ssl (rc_key r) pre mac p b"
    and "rc_block_macs r = [] \<or> last (rc_block_macs r) = pre"
  shows "recovery_next ssl L r = Ok (Some p, r\<lparr>rc_end := rc_end r + 1, rc_block_macs := rc_block_macs r @ [mac]\<rparr>)"
  using assms footer_size_fits(2)
  by (auto simp: recovery_next_def or_none_def slice_range_def Let_def chain_block_def block_payload_def aead_decrypt_def
      ok_or_def rassert_def simp flip: block_footer_def)

text \<open>
  Recovery returns the blocks of a chain as long as the log returns them, and ends at a position where
  the log has no continuation of the chain.
\<close>

lemma recovery_run_spec:
  assumes "chain_seq ssl (rc_key r) pre ms ps bs" "\<forall>i < length bs. bl_read L (rc_block_log r) (rc_end r + i) 1 = Ok (bs ! i)"
    and "rc_block_macs r = [] \<or> last (rc_block_macs r) = pre" "length ps < fuel"
    and "recovery_next ssl L (r\<lparr>rc_end := rc_end r + length bs, rc_block_macs := rc_block_macs r @ ms\<rparr>)
      = Ok (None, r\<lparr>rc_end := rc_end r + length bs, rc_block_macs := rc_block_macs r @ ms\<rparr>)"
  shows "recovery_run ssl L fuel r = Ok (ps, r\<lparr>rc_end := rc_end r + length bs, rc_block_macs := rc_block_macs r @ ms\<rparr>)"
  using assms
proof (induction fuel arbitrary: r pre ms ps bs)
  case (Suc fuel)
  show ?case
  proof (cases bs)
    case Nil
    then have "ms = []" "ps = []" using chain_seq_length [OF Suc.prems(1)] by auto
    then show ?thesis using Suc.prems(5) Nil by simp
  next
    case (Cons b bs')
    obtain m ms' p ps' where cons: "ms = m # ms'" "ps = p # ps'" "chain_block ssl (rc_key r) pre m p b"
        "chain_seq ssl (rc_key r) m ms' ps' bs'"
      using Suc.prems(1) Cons by (cases ms; cases ps) auto
    let ?r = "r\<lparr>rc_end := rc_end r + 1, rc_block_macs := rc_block_macs r @ [m]\<rparr>"
    have rd: "bl_read L (rc_block_log r) (rc_end r) 1 = Ok b"
        "\<forall>i < length bs'. bl_read L (rc_block_log r) (rc_end r + 1 + i) 1 = Ok (bs' ! i)"
      using Suc.prems(2) Cons by (auto dest: spec [of _ 0] spec [of _ "Suc _"])
    have "recovery_run ssl L fuel ?r
        = Ok (ps', ?r\<lparr>rc_end := rc_end ?r + length bs', rc_block_macs := rc_block_macs ?r @ ms'\<rparr>)"
      using Suc.IH [of ?r m ms' ps' bs'] Suc.prems(4,5) cons(1,2,4) rd(2) Cons by simp
    then show ?thesis
      using recovery_next_spec [OF rd(1) cons(3) Suc.prems(3)] cons(1,2) Cons by simp
  qed
qed simp

section \<open>Recovery of an untrusted log\<close>

lemma chain_seq_snoc:
  "chain_seq ssl key pre (ms @ [m]) ps bs \<longleftrightarrow> (\<exists>ps0 p bs0 b. ps = ps0 @ [p] \<and> bs = bs0 @ [b] \<and>
    chain_seq ssl key pre ms ps0 bs0 \<and> chain_block ssl key (last (pre # ms)) m p b)"
proof
  assume seq: "chain_seq ssl key pre (ms @ [m]) ps bs"
  then have len: "length ps = length ms + 1" "length bs = length ms + 1"
    using chain_seq_length by fastforce+
  then obtain ps0 p bs0 b where split: "ps = ps0 @ [p]" "bs = bs0 @ [b]" "length ps0 = length ms" "length bs0 = length ms"
    by (metis One_nat_def add_diff_cancel_right' append_butlast_last_id length_0_conv length_butlast nat.simps(3) Suc_eq_plus1)
  have "chain_seq ssl key pre ms ps0 bs0 \<and> chain_block ssl key (last (pre # ms)) m p b"
    using seq split
  proof (induction ms arbitrary: pre ps ps0 bs bs0)
    case Nil
    then show ?case by simp
  next
    case (Cons m' ms)
    then obtain p' ps1 b' bs1 where "ps0 = p' # ps1" "bs0 = b' # bs1" by (metis length_Suc_conv)
    then show ?case using Cons by auto
  qed
  then show "\<exists>ps0 p bs0 b. ps = ps0 @ [p] \<and> bs = bs0 @ [b] \<and>
      chain_seq ssl key pre ms ps0 bs0 \<and> chain_block ssl key (last (pre # ms)) m p b"
    using split by blast
qed (auto intro: chain_seq_append)

text \<open>
  What recovery accepts is a chain, whatever the log returns. The blocks are those the log
  returned at the recovered positions.
\<close>

lemma recovery_next_sound:
  assumes "\<forall>i blk. bl_read L (rc_block_log r) i 1 = Ok blk \<longrightarrow> length blk = BLOCK_SIZE"
    and "recovery_next ssl L r = Ok (Some p, r')"
  shows "\<exists>b. bl_read L (rc_block_log r) (rc_end r) 1 = Ok b \<and>
    chain_block ssl (rc_key r) (ft_pre_mac (block_footer b)) (ft_this_mac (block_footer b)) p b \<and>
    (rc_block_macs r \<noteq> [] \<longrightarrow> last (rc_block_macs r) = ft_pre_mac (block_footer b)) \<and>
    r' = r\<lparr>rc_end := rc_end r + 1, rc_block_macs := rc_block_macs r @ [ft_this_mac (block_footer b)]\<rparr>"
proof -
  obtain b where b: "bl_read L (rc_block_log r) (rc_end r) 1 = Ok b"
    using assms(2) by (auto simp: recovery_next_def or_none_def split: sum.splits fault.splits)
  have len: "length b = BLOCK_SIZE" using assms(1) b by blast
  let ?f = "block_footer b"
  have slice: "slice_range b AVAIL_BLOCK_SIZE (length b) = Ok (drop AVAIL_BLOCK_SIZE b)"
    using len footer_size_fits(2) by (simp add: slice_range_def)
  have small: "ft_len ?f \<le> AVAIL_BLOCK_SIZE"
    using assms(2) b slice by (simp add: recovery_next_def or_none_def Let_def flip: block_footer_def split: if_splits)
  then have "slice_range b 0 (ft_len ?f) = Ok (take (ft_len ?f) b)"
    using len footer_size_fits(2) by (simp add: slice_range_def)
  with assms(2) b slice small have dec: "aead_decrypt ssl (take (ft_len ?f) b) (rc_key r) (ft_this_iv ?f) (ft_pre_mac ?f) (ft_this_mac ?f) (ft_len ?f) = Ok p"
      and rest: "\<not> (rc_block_macs r \<noteq> [] \<and> last (rc_block_macs r) \<noteq> ft_pre_mac ?f)"
        "r' = r\<lparr>rc_end := rc_end r + 1, rc_block_macs := rc_block_macs r @ [ft_this_mac ?f]\<rparr>"
    by (auto simp: recovery_next_def or_none_def Let_def simp flip: block_footer_def split: sum.splits fault.splits if_splits)
  have "block_payload ssl (rc_key r) b = Some p" "length p = ft_len ?f"
    using dec by (auto simp: aead_decrypt_def block_payload_def Let_def ok_or_def res_simps split: option.splits)
  then show ?thesis using b len small rest by (auto simp: chain_block_def)
qed

lemma recovery_run_sound:
  assumes "\<forall>i blk. bl_read L (rc_block_log r) i 1 = Ok blk \<longrightarrow> length blk = BLOCK_SIZE"
    and "recovery_run ssl L fuel r = Ok (ps, r')"
  shows "\<exists>pre ms bs. chain_seq ssl (rc_key r) pre ms ps bs \<and> rc_block_macs r' = rc_block_macs r @ ms \<and>
    (rc_block_macs r \<noteq> [] \<longrightarrow> pre = last (rc_block_macs r)) \<and>
    (\<forall>i < length bs. bl_read L (rc_block_log r) (rc_end r + i) 1 = Ok (bs ! i))"
  using assms
proof (induction fuel arbitrary: r ps)
  case 0
  then show ?case by (intro exI [of _ "last (rc_block_macs r)"] exI [of _ "[]"]) simp
next
  case (Suc fuel)
  obtain q r1 where q: "recovery_next ssl L r = Ok (q, r1)"
    using Suc.prems(2) by (auto simp: res_simps)
  show ?case
  proof (cases q)
    case None
    then have "ps = []" "r' = r1" using Suc.prems(2) q by simp_all
    moreover have "rc_block_macs r1 = rc_block_macs r"
      using q None by (auto simp: recovery_next_def or_none_def Let_def res_simps split: sum.splits fault.splits if_splits)
    ultimately show ?thesis by (intro exI [of _ "last (rc_block_macs r)"] exI [of _ "[]"]) simp
  next
    case (Some p)
    obtain b where b: "bl_read L (rc_block_log r) (rc_end r) 1 = Ok b"
        "chain_block ssl (rc_key r) (ft_pre_mac (block_footer b)) (ft_this_mac (block_footer b)) p b"
        "rc_block_macs r \<noteq> [] \<longrightarrow> last (rc_block_macs r) = ft_pre_mac (block_footer b)"
        "r1 = r\<lparr>rc_end := rc_end r + 1, rc_block_macs := rc_block_macs r @ [ft_this_mac (block_footer b)]\<rparr>"
      using recovery_next_sound [OF Suc.prems(1)] q Some by blast
    obtain ps1 where ps1: "recovery_run ssl L fuel r1 = Ok (ps1, r')" "ps = p # ps1"
      using Suc.prems(2) q Some by (auto simp: res_simps)
    obtain pre ms bs where "chain_seq ssl (rc_key r) pre ms ps1 bs" "pre = ft_this_mac (block_footer b)"
        "rc_block_macs r' = rc_block_macs r @ ft_this_mac (block_footer b) # ms"
        "\<forall>i < length bs. bl_read L (rc_block_log r) (rc_end r + 1 + i) 1 = Ok (bs ! i)"
      using Suc.IH [OF _ ps1(1)] Suc.prems(1) b(4) by auto
    then show ?thesis
      using b(1-3) ps1(2)
      by (intro exI [of _ "ft_pre_mac (block_footer b)"] exI [of _ "ft_this_mac (block_footer b) # ms"] exI [of _ "b # bs"])
        (auto simp: nth_Cons split: nat.split)
  qed
qed

text \<open>Two blocks collide when they have the same MAC and differ in payload or predecessor.\<close>

definition no_collision :: "openssl \<Rightarrow> aead_key \<Rightarrow> bytes \<Rightarrow> bytes \<Rightarrow> bool" where
  "no_collision ssl key b b' \<longleftrightarrow> (ft_this_mac (block_footer b) = ft_this_mac (block_footer b') \<longrightarrow>
    ft_pre_mac (block_footer b) = ft_pre_mac (block_footer b') \<and> block_payload ssl key b = block_payload ssl key b')"

lemma chain_agree:
  assumes "chain_seq ssl key pre ms ps bs" "chain_seq ssl key pre' ms' ps' bs'"
    and "ms \<noteq> []" "ms' \<noteq> []" "last ms = last ms'" "\<forall>b \<in> set bs. \<forall>b' \<in> set bs'. no_collision ssl key b b'"
  shows "take (min (length ms) (length ms')) (rev ps) = take (min (length ms) (length ms')) (rev ps')"
  using assms
proof (induction ms arbitrary: ps bs ms' ps' bs' rule: rev_induct)
  case (snoc m ms)
  obtain ps0 p bs0 b where s: "ps = ps0 @ [p]" "bs = bs0 @ [b]" "chain_seq ssl key pre ms ps0 bs0"
      "chain_block ssl key (last (pre # ms)) m p b"
    using snoc.prems(1) chain_seq_snoc by metis
  obtain ms0' where ms': "ms' = ms0' @ [m]"
    using snoc.prems(4,5) by (metis append_butlast_last_id last_snoc)
  then obtain ps0' p' bs0' b' where s': "ps' = ps0' @ [p']" "bs' = bs0' @ [b']" "chain_seq ssl key pre' ms0' ps0' bs0'"
      "chain_block ssl key (last (pre' # ms0')) m p' b'"
    using snoc.prems(2) chain_seq_snoc by metis
  have "no_collision ssl key b b'" using snoc.prems(6) s(2) s'(2) by simp
  then have eq: "p = p'" "last (pre # ms) = last (pre' # ms0')"
    using s(4) s'(4) by (simp_all add: no_collision_def chain_block_def)
  show ?case
  proof (cases "ms = [] \<or> ms0' = []")
    case True
    then show ?thesis using eq(1) s(1) s'(1) ms' by auto
  next
    case False
    then have "take (min (length ms) (length ms0')) (rev ps0) = take (min (length ms) (length ms0')) (rev ps0')"
      using snoc.IH [OF s(3) s'(3)] eq(2) snoc.prems(6) s(2) s'(2) by simp
    then show ?thesis using eq(1) s(1) s'(1) ms' by simp
  qed
qed simp

section \<open>Properties\<close>


text \<open>A chain on a \<open>MemLog\<close>, for the examples.\<close>

definition demo_chain :: "memlog crypto_chain" where
  "demo_chain = chain_new (replicate 16 1) \<lparr>ml_log = replicate (2 * BLOCK_SIZE) 0, ml_append_pos = 0\<rparr>"

lemma demo_chain_inv: "chain_inv openssl_ref memlog_ops memlog_inv (\<lambda>s. block_at (memlog_content s)) [] demo_chain"
    "memlog_room (cc_block_log demo_chain) 1"
proof -
  have ml: "memlog_inv \<lparr>ml_log = replicate (2 * BLOCK_SIZE) 0, ml_append_pos = 0\<rparr>"
    by (simp add: memlog_inv_def buf_ok_def buf_nblocks_def)
  then show "chain_inv openssl_ref memlog_ops memlog_inv (\<lambda>s. block_at (memlog_content s)) [] demo_chain"
    by (auto simp: demo_chain_def aes_sizes memlog_nblocks_def intro!: chain_inv_new)
  show "memlog_room (cc_block_log demo_chain) 1"
    by (simp add: demo_chain_def chain_new_def memlog_room_def buf_nblocks_def)
qed


text \<open>C34: Recovery finds a chain again: started at the first accessible block of a chain, with its key, on a log that
  has nothing to read behind the chain, it yields all payloads in order and then ends, and
  opening it gives the chain itself.\<close>

theorem chain_recover_exact:
  assumes "window_log L linv blk can keeps" "pages_ready pg" "chain_inv ssl L linv blk ps c"
    and "bl_read L (cc_block_log c) (cc_end c) 1 = Fail e" "length ps < fuel"
  shows "\<exists>r r'. recovery_new pg (cc_block_log c) (cc_key c) (cc_start c) = Ok r \<and>
    recovery_run ssl L fuel r = Ok (ps, r') \<and> recovery_next ssl L r' = Ok (None, r') \<and> recovery_open r' = c"
proof -
  obtain b0 where "buf_alloc pg 1 = Ok b0" using buf_alloc_ready [OF assms(2), of 1] by auto
  define r where "r = \<lparr>rc_block_log = cc_block_log c, rc_key = cc_key c, rc_start = cc_start c, rc_end = cc_start c,
    rc_block_macs = []\<rparr>"
  have r: "recovery_new pg (cc_block_log c) (cc_key c) (cc_start c) = Ok r"
    using \<open>buf_alloc pg 1 = Ok b0\<close> by (simp add: recovery_new_def r_def)
  let ?log = "cc_block_log c" and ?r' = "r\<lparr>rc_end := cc_end c, rc_block_macs := cc_block_macs c\<rparr>"
  let ?bs = "map (blk ?log) [cc_start c..<cc_end c]"
  have c: "linv ?log" "cc_start c \<le> cc_end c" "cc_end c = bl_nblocks L ?log"
    using assms(3) by (simp_all add: chain_inv_def)
  obtain pre where seq: "chain_seq ssl (cc_key c) pre (cc_block_macs c) ps ?bs"
    using assms(3) by (auto simp: chain_inv_def)
  have rd: "\<forall>i < length ?bs. bl_read L ?log (cc_start c + i) 1 = Ok (?bs ! i)"
    using window_log.win_read [OF assms(1) c(1)] c(3) by simp
  have stop: "recovery_next ssl L ?r' = Ok (None, ?r')"
    using assms(4) by (simp add: recovery_next_def or_none_def r_def)
  moreover have "recovery_run ssl L fuel r = Ok (ps, ?r')"
    using recovery_run_spec [of ssl r pre "cc_block_macs c" ps ?bs L fuel] seq rd stop c(2) assms(5)
    by (simp add: r_def)
  moreover have "recovery_open ?r' = c"
    by (cases c) (simp add: recovery_open_def r_def)
  ultimately show ?thesis using r by blast
qed

theorem chain_recover_exact_witness:
  "\<exists>c r r'. recovery_new zero_pages (cc_block_log c) (cc_key c) 0 = Ok r \<and>
    recovery_run openssl_ref memlog_ops 5 r = Ok ([[7, 8]], r') \<and> recovery_open r' = (c :: memlog crypto_chain)"
proof -
  obtain c' where c': "chain_inv openssl_ref memlog_ops memlog_inv (\<lambda>s. block_at (memlog_content s)) ([] @ [[7, 8]]) c'" "cc_start c' = 0"
    using ml.win.chain_append_spec [OF ssl_ref.openssl_laws_axioms zero_pages_ready demo_chain_inv _, of "replicate 12 3" "[7, 8]"]
    by (auto simp: aes_sizes AVAIL_BLOCK_SIZE_def BLOCK_SIZE_def FOOTER_SIZE_def demo_chain_def chain_new_def)
  show ?thesis
    using chain_recover_exact [OF ml.win.window_log_axioms zero_pages_ready c'(1), of InvalidArgs 5] c'
    by (auto simp: chain_inv_def memlog_read_def)
qed



end
