(* ===== verification/Edit_Journal.thy ===== *)
theory Edit_Journal
  imports Crypto_Blob Crypto_Chain
begin

text \<open>
  The journal of edits to a persistent state (\<open>core/src/layers/2-edit/edit.rs\<close> and \<open>journal.rs\<close>).

  The state of a journal is a snapshot, kept in two encrypted blobs of which one is the latest, and
  the edit groups after it, kept in an encrypted chain on a ring of blocks. The three areas are block
  sets of their own. The trait \<open>Edit\<close> is the function \<open>je_apply\<close>, the trait \<open>CompactPolicy\<close> the dictionary
  \<open>compact_policy\<close> with the two implementations of the source. The crate \<open>postcard\<close> is the parameter
  \<open>postcard\<close>. All of these are in the record \<open>journal_env\<close>. The random key of
  a blob or chain is an argument; the random vector of an append is a function of the position.

  The properties: after any sequence of operations, recovery from the disk gives the state with all
  edits that were flushed and no part of a group; and the recovery from a crash while the first blob
  was written forgets the edits of the journal.
\<close>

section \<open>Edits\<close>

type_synonym 'e edit_group = "'e list"

definition edit_group_new :: "'e edit_group" where
  "edit_group_new = []"

definition edit_group_push :: "'e \<Rightarrow> 'e edit_group \<Rightarrow> 'e edit_group" where
  "edit_group_push edit g = g @ [edit]"

definition edit_group_clear :: "'e edit_group \<Rightarrow> 'e edit_group" where
  "edit_group_clear g = []"

definition edit_group_is_empty :: "'e edit_group \<Rightarrow> bool" where
  "edit_group_is_empty g \<longleftrightarrow> length g = 0"

definition edit_group_apply_to :: "('e \<Rightarrow> 'st \<Rightarrow> 'st res) \<Rightarrow> 'e edit_group \<Rightarrow> 'st \<Rightarrow> 'st res" where
  "edit_group_apply_to ap g state = rfold ap g state"

section \<open>Records and snapshots\<close>

datatype 'e journal_record = Version aead_mac | Edit "'e edit_group"

record 'st snapshot =
  sn_state :: 'st
  sn_recover_from :: block_id

definition snapshot_meta_len :: nat where "snapshot_meta_len = 8"

text \<open>
  Serialisation: \<open>None\<close> of \<open>pc_ser_record\<close> and \<open>pc_ser_snapshot\<close> is an error other than a full buffer.
  \<open>to_slice\<close> into a buffer with room for \<open>n\<close> bytes fails when the bytes are more.
\<close>

record ('e, 'st) postcard =
  pc_ser_record :: "'e journal_record \<Rightarrow> bytes option"
  pc_take_record :: "bytes \<Rightarrow> ('e journal_record \<times> bytes) option"
  pc_ser_snapshot :: "'st snapshot \<Rightarrow> bytes option"
  pc_de_snapshot :: "bytes \<Rightarrow> 'st snapshot option"

record ('p, 'e) compact_policy =
  cp_on_commit_edits :: "'e edit_group \<Rightarrow> 'p \<Rightarrow> 'p"
  cp_on_append_journal :: "nat \<Rightarrow> 'p \<Rightarrow> 'p"
  cp_should_compact :: "'p \<Rightarrow> bool"
  cp_done_compact :: "nat \<Rightarrow> 'p \<Rightarrow> 'p res"

record ('e, 'st, 's, 'p) journal_env =
  je_pages :: page_alloc
  je_ssl :: openssl
  je_set :: "'s block_set_ops"
  je_postcard :: "('e, 'st) postcard"
  je_apply :: "'e \<Rightarrow> 'st \<Rightarrow> 'st res"
  je_policy :: "('p, 'e) compact_policy"

abbreviation je_ring :: "('e, 'st, 's, 'p) journal_env \<Rightarrow> 's block_ring block_log_ops" where
  "je_ring env \<equiv> ring_ops (je_set env)"

text \<open>\<open>expect\<close> of \<open>Result\<close>.\<close>

definition res_expect :: "'a res \<Rightarrow> 'a res" where
  "res_expect r = (case r of Inl _ \<Rightarrow> Panics | Inr x \<Rightarrow> Ok x)"

section \<open>Compaction policies\<close>

definition never_compact_policy :: "(unit, 'e) compact_policy" where
  "never_compact_policy = \<lparr>cp_on_commit_edits = (\<lambda>_ p. p), cp_on_append_journal = (\<lambda>_ p. p),
    cp_should_compact = (\<lambda>_. False), cp_done_compact = (\<lambda>_ p. Ok p)\<rparr>"

record default_policy =
  dp_used_blocks :: nat
  dp_total_blocks :: nat

definition default_policy_new :: "nat \<Rightarrow> nat \<Rightarrow> default_policy res" where
  "default_policy_new disk_nblocks state_max_nbytes =
    (let snapshot_bytes = HEADER_NBYTES + state_max_nbytes + snapshot_meta_len;
         snapshot_blocks = (snapshot_bytes + BLOCK_SIZE - 1) div BLOCK_SIZE in
     rbind (rassert (snapshot_blocks * 2 < disk_nblocks)) (\<lambda>_.
       Ok \<lparr>dp_used_blocks = 0, dp_total_blocks = disk_nblocks - snapshot_blocks * 2\<rparr>))"

definition default_compact_policy :: "(default_policy, 'e) compact_policy" where
  "default_compact_policy = \<lparr>
    cp_on_commit_edits = (\<lambda>_ p. p),
    cp_on_append_journal = (\<lambda>nblocks p. p\<lparr>dp_used_blocks := dp_used_blocks p + nblocks\<rparr>),
    cp_should_compact = (\<lambda>p. dp_total_blocks p \<le> dp_used_blocks p),
    cp_done_compact = (\<lambda>compacted_blocks p.
      rbind (rassert (compacted_blocks \<le> dp_used_blocks p)) (\<lambda>_.
        Ok (p\<lparr>dp_used_blocks := dp_used_blocks p - compacted_blocks\<rparr>)))\<rparr>"

section \<open>The write buffer\<close>

record write_buf =
  wb_buf :: bytes
  wb_cursor :: nat
  wb_capacity :: nat

definition write_buf_new :: "page_alloc \<Rightarrow> nat \<Rightarrow> write_buf res" where
  "write_buf_new pg capacity =
    rbind (rassert (capacity \<le> BLOCK_SIZE)) (\<lambda>_.
    rbind (res_expect (buf_alloc pg 1)) (\<lambda>buf.
      Ok \<lparr>wb_buf = buf, wb_cursor = 0, wb_capacity = capacity\<rparr>))"

text \<open>The bytes behind the cursor that a failed serialisation leaves are never read.\<close>

definition write_buf_write :: "('e, 'st) postcard \<Rightarrow> 'e journal_record \<Rightarrow> write_buf \<Rightarrow> write_buf res" where
  "write_buf_write pc rec w =
    rbind (slice_range (wb_buf w) (wb_cursor w) (wb_capacity w)) (\<lambda>avail_buf.
      case pc_ser_record pc rec of
        None \<Rightarrow> Panics
      | Some serial_record \<Rightarrow>
          if length avail_buf < length serial_record then Fail OutOfDisk
          else Ok (w\<lparr>wb_buf := overwrite (wb_buf w) (wb_cursor w) serial_record,
                     wb_cursor := wb_cursor w + length serial_record\<rparr>))"

definition write_buf_clear :: "write_buf \<Rightarrow> write_buf" where
  "write_buf_clear w = w\<lparr>wb_cursor := 0\<rparr>"

definition write_buf_as_slice :: "write_buf \<Rightarrow> bytes res" where
  "write_buf_as_slice w = slice_range (wb_buf w) 0 (wb_cursor w)"

section \<open>Reading records\<close>

record record_slice =
  rs_buf :: bytes
  rs_any_error :: bool

definition record_slice_new :: "bytes \<Rightarrow> record_slice" where
  "record_slice_new buf = \<lparr>rs_buf = buf, rs_any_error = False\<rparr>"

definition record_slice_next ::
    "('e, 'st) postcard \<Rightarrow> record_slice \<Rightarrow> 'e journal_record option \<times> record_slice" where
  "record_slice_next pc rs =
    (case pc_take_record pc (rs_buf rs) of
       Some (rec, left) \<Rightarrow> (Some rec, rs\<lparr>rs_buf := left\<rparr>)
     | None \<Rightarrow> (None, if length (rs_buf rs) \<noteq> 0 then rs\<lparr>rs_any_error := True\<rparr> else rs))"

text \<open>The loop \<open>for record in record_slice\<close>. A record has at least one byte, so there are at most as many as bytes.\<close>

fun record_slice_collect ::
    "('e, 'st) postcard \<Rightarrow> nat \<Rightarrow> record_slice \<Rightarrow> 'e journal_record list" where
  "record_slice_collect pc 0 rs = []"
| "record_slice_collect pc (Suc fuel) rs =
    (case record_slice_next pc rs of
       (None, _) \<Rightarrow> []
     | (Some rec, rs') \<Rightarrow> rec # record_slice_collect pc fuel rs')"

definition records_of :: "('e, 'st) postcard \<Rightarrow> bytes \<Rightarrow> 'e journal_record list" where
  "records_of pc buf = record_slice_collect pc (Suc (length buf)) (record_slice_new buf)"

section \<open>The snapshot manager\<close>

record ('st, 's) snapshot_manager =
  sm_blobs :: "'s crypto_blob list"
  sm_latest_index :: nat
  sm_buf :: bytes
  sm_snapshot :: "'st snapshot"

definition DEFAULT_LATEST_INDEX :: nat where "DEFAULT_LATEST_INDEX = 0"

record journal_meta =
  jm_snapshot_area_nblocks :: nat
  jm_snapshot_area_keys :: "aead_key \<times> aead_key"
  jm_journal_area_nblocks :: nat
  jm_journal_area_key :: aead_key

definition journal_meta_total_nblocks :: "journal_meta \<Rightarrow> nat" where
  "journal_meta_total_nblocks m = jm_snapshot_area_nblocks m * 2 + jm_journal_area_nblocks m"

definition default_policy_from_meta :: "journal_meta \<Rightarrow> default_policy" where
  "default_policy_from_meta m = \<lparr>dp_used_blocks = 0, dp_total_blocks = jm_journal_area_nblocks m\<rparr>"

text \<open>\<open>postcard::to_slice\<close> of a snapshot: the serialised bytes at the start of the buffer.\<close>

definition snapshot_to_slice :: "('e, 'st) postcard \<Rightarrow> 'st snapshot \<Rightarrow> bytes \<Rightarrow> (bytes \<times> bytes) res" where
  "snapshot_to_slice pc sn buf =
    (case pc_ser_snapshot pc sn of
       None \<Rightarrow> Fail OutOfDisk
     | Some serialized \<Rightarrow>
         if length buf < length serialized then Fail OutOfDisk
         else Ok (serialized, overwrite buf 0 serialized))"

definition snapshots_create ::
    "('e, 'st, 's, 'p) journal_env \<Rightarrow> aead_key \<times> aead_key \<Rightarrow> 's \<Rightarrow> 'st \<Rightarrow> nat \<Rightarrow> ('st, 's) snapshot_manager res" where
  "snapshots_create env keys disk init_state state_max_nbytes =
    (let blob_bytes = HEADER_NBYTES + state_max_nbytes + snapshot_meta_len;
         blob_blocks = (blob_bytes + BLOCK_SIZE - 1) div BLOCK_SIZE;
         S = je_set env in
     if bs_nblocks S disk \<le> 2 * blob_blocks then Fail OutOfDisk
     else
       rbind (buf_alloc (je_pages env) blob_blocks) (\<lambda>buf.
       let sn = \<lparr>sn_state = init_state, sn_recover_from = 0\<rparr> in
       rbind (snapshot_to_slice (je_postcard env) sn buf) (\<lambda>(serialized, buf).
       rbind (bs_subset S disk 0 blob_blocks) (\<lambda>block_set0.
       rbind (bs_subset S disk blob_blocks (blob_blocks * 2)) (\<lambda>block_set1.
       rbind (blob_create (je_pages env) (je_ssl env) S (fst keys) block_set0 serialized) (\<lambda>blob0.
       rbind (blob_create (je_pages env) (je_ssl env) S (snd keys) block_set1 serialized) (\<lambda>blob1.
         Ok \<lparr>sm_blobs = [blob0, blob1], sm_latest_index = DEFAULT_LATEST_INDEX, sm_buf = buf,
              sm_snapshot = sn\<rparr>)))))))"

text \<open>Reading one blob at recovery: the inner result is \<open>snapshot0_res\<close> or \<open>snapshot1_res\<close>.\<close>

definition snapshot_load ::
    "('e, 'st, 's, 'p) journal_env \<Rightarrow> 's crypto_blob \<Rightarrow> bytes \<Rightarrow> ('st snapshot res \<times> bytes \<times> 's crypto_blob) res" where
  "snapshot_load env blob buf =
    (case blob_read (je_pages env) (je_ssl env) (je_set env) buf blob of
       Inr (snapshot_len, buf, blob) \<Rightarrow>
         rbind (slice_range buf 0 snapshot_len) (\<lambda>bs.
           Ok (ok_or OutOfDisk (pc_de_snapshot (je_postcard env) bs), buf, blob))
     | Inl (Err _) \<Rightarrow> Ok (Fail NotFound, buf, blob)
     | Inl Panic \<Rightarrow> Panics)"

text \<open>Repairing a blob that could not be read from the other one.\<close>

definition snapshots_repair ::
    "('e, 'st, 's, 'p) journal_env \<Rightarrow> 'st snapshot res \<Rightarrow> 'st snapshot res \<Rightarrow> 's crypto_blob \<Rightarrow> 's crypto_blob \<Rightarrow>
      ('st snapshot res \<times> 'st snapshot res \<times> 's crypto_blob \<times> 's crypto_blob) res" where
  "snapshots_repair env res0 res1 blob0 blob1 =
    (case (is_ok res0, is_ok res1) of
       (True, False) \<Rightarrow>
         rbind (blob_recover_from (je_pages env) (je_ssl env) (je_set env) blob0 blob1) (\<lambda>(blob0, blob1).
           Ok (res0, res0, blob0, blob1))
     | (False, True) \<Rightarrow>
         rbind (blob_recover_from (je_pages env) (je_ssl env) (je_set env) blob1 blob0) (\<lambda>(blob1, blob0).
           Ok (res1, res1, blob0, blob1))
     | (True, True) \<Rightarrow> Ok (res0, res1, blob0, blob1)
     | (False, False) \<Rightarrow> Fail NotFound)"

text \<open>The choice of the latest snapshot, by the versions.\<close>

definition snapshots_latest :: "nat \<Rightarrow> nat \<Rightarrow> nat res" where
  "snapshots_latest version0 version1 =
    (if version0 = version1 then Ok DEFAULT_LATEST_INDEX
     else if DEFAULT_LATEST_INDEX = 0 \<and> version0 + 1 = version1 then Ok 1
     else if DEFAULT_LATEST_INDEX = 1 \<and> version1 + 1 = version0 then Ok 0
     else Fail InvalidArgs)"

definition snapshots_recover ::
    "('e, 'st, 's, 'p) journal_env \<Rightarrow> 's \<Rightarrow> journal_meta \<Rightarrow> ('st, 's) snapshot_manager res" where
  "snapshots_recover env disk m =
    (let n = jm_snapshot_area_nblocks m in
     rbind (bs_subset (je_set env) disk 0 n) (\<lambda>block_set0.
     rbind (bs_subset (je_set env) disk n (n * 2)) (\<lambda>block_set1.
     rbind (buf_alloc (je_pages env) n) (\<lambda>buf.
     rbind (snapshot_load env (blob_open (fst (jm_snapshot_area_keys m)) block_set0) buf) (\<lambda>(res0, buf, blob0).
     rbind (snapshot_load env (blob_open (snd (jm_snapshot_area_keys m)) block_set1) buf) (\<lambda>(res1, buf, blob1).
     rbind (snapshots_repair env res0 res1 blob0 blob1) (\<lambda>(res0, res1, blob0, blob1).
     rbind (res_unwrap (blob_version_id blob0)) (\<lambda>version0.
     rbind (res_unwrap (blob_version_id blob1)) (\<lambda>version1.
     rbind (snapshots_latest version0 version1) (\<lambda>latest_index.
     rbind (res_expect (if latest_index = 0 then res0 else res1)) (\<lambda>sn.
       Ok \<lparr>sm_blobs = [blob0, blob1], sm_latest_index = latest_index, sm_buf = buf, sm_snapshot = sn\<rparr>)))))))))))"

definition snapshots_persist ::
    "('e, 'st, 's, 'p) journal_env \<Rightarrow> 'st snapshot \<Rightarrow> ('st, 's) snapshot_manager \<Rightarrow> ('st, 's) snapshot_manager res" where
  "snapshots_persist env latest sm =
    rbind (snapshot_to_slice (je_postcard env) latest (sm_buf sm)) (\<lambda>(serialized, buf).
    let index = (sm_latest_index sm + 1) mod 2 in
    rbind (nth_res (sm_blobs sm) index) (\<lambda>blob.
    rbind (blob_write (je_pages env) (je_ssl env) (je_set env) serialized blob) (\<lambda>(_, blob).
      Ok (sm\<lparr>sm_blobs := (sm_blobs sm)[index := blob], sm_latest_index := index, sm_buf := buf,
             sm_snapshot := latest\<rparr>))))"

definition snapshots_latest_mac :: "('st, 's) snapshot_manager \<Rightarrow> aead_mac res" where
  "snapshots_latest_mac sm =
    rbind (nth_res (sm_blobs sm) (sm_latest_index sm)) (\<lambda>blob. res_unwrap (blob_current_mac blob))"

definition snapshots_nblocks :: "('e, 'st, 's, 'p) journal_env \<Rightarrow> ('st, 's) snapshot_manager \<Rightarrow> nat res" where
  "snapshots_nblocks env sm =
    rbind (nth_res (sm_blobs sm) 0) (\<lambda>blob. Ok (bs_nblocks (je_set env) (cb_block_set blob)))"

definition snapshots_keys :: "('st, 's) snapshot_manager \<Rightarrow> (aead_key \<times> aead_key) res" where
  "snapshots_keys sm =
    rbind (nth_res (sm_blobs sm) 0) (\<lambda>blob0. rbind (nth_res (sm_blobs sm) 1) (\<lambda>blob1.
      Ok (cb_key blob0, cb_key blob1)))"

section \<open>The journal\<close>

record ('e, 'st, 's, 'p) edit_journal =
  ej_state :: 'st
  ej_journal_chain :: "'s block_ring crypto_chain"
  ej_snapshots :: "('st, 's) snapshot_manager"
  ej_compaction_policy :: 'p
  ej_curr_edit_group :: "'e edit_group option"
  ej_write_buf :: write_buf

definition journal_format ::
    "('e, 'st, 's, 'p) journal_env \<Rightarrow> aead_key \<times> aead_key \<Rightarrow> aead_key \<Rightarrow> (block_id \<Rightarrow> aead_iv) \<Rightarrow> 's \<Rightarrow> 'st \<Rightarrow> nat \<Rightarrow> 'p \<Rightarrow>
      ('e, 'st, 's, 'p) edit_journal res" where
  "journal_format env keys chain_key ivs disk init_state state_max_nbytes compaction_policy =
    rbind (snapshots_create env keys disk init_state state_max_nbytes) (\<lambda>snapshots.
    rbind (snapshots_nblocks env snapshots) (\<lambda>nblocks.
    rbind (bs_subset (je_set env) disk (nblocks * 2) (bs_nblocks (je_set env) disk)) (\<lambda>chain_set.
    let journal_chain = chain_new chain_key (ring_set_cursor (ring_new chain_set) 0) in
    rbind (snapshots_latest_mac snapshots) (\<lambda>mac.
    rbind (write_buf_new (je_pages env) AVAIL_BLOCK_SIZE) (\<lambda>write_buf.
    rbind (write_buf_write (je_postcard env) (Version mac) write_buf) (\<lambda>write_buf.
    rbind (write_buf_as_slice write_buf) (\<lambda>data.
    rbind (chain_append (je_pages env) (je_ssl env) (je_ring env) (ivs (cc_end journal_chain)) data journal_chain) (\<lambda>journal_chain.
    let compaction_policy = cp_on_append_journal (je_policy env) 1 compaction_policy;
        write_buf = write_buf_clear write_buf in
    rbind (chain_flush (je_ring env) journal_chain) (\<lambda>journal_chain.
      Ok \<lparr>ej_state = init_state, ej_journal_chain = journal_chain, ej_snapshots = snapshots,
           ej_compaction_policy = compaction_policy, ej_curr_edit_group = Some edit_group_new,
           ej_write_buf = write_buf\<rparr>)))))))))"

text \<open>The body of the loop over the records of the recovered blocks.\<close>

definition recover_record ::
    "('e, 'st, 's, 'p) journal_env \<Rightarrow> aead_mac \<Rightarrow> 'e journal_record \<Rightarrow> bool \<times> 'st \<Rightarrow> (bool \<times> 'st) res" where
  "recover_record env latest_snapshot_mac rec = (\<lambda>(should_apply, state).
    case rec of
      Version snapshot_mac \<Rightarrow> Ok (should_apply \<or> snapshot_mac = latest_snapshot_mac, state)
    | Edit g \<Rightarrow>
        if should_apply
        then rbind (edit_group_apply_to (je_apply env) g state) (\<lambda>state. Ok (should_apply, state))
        else Ok (should_apply, state))"

definition journal_recover ::
    "('e, 'st, 's, 'p) journal_env \<Rightarrow> nat \<Rightarrow> 's \<Rightarrow> journal_meta \<Rightarrow> 'p \<Rightarrow> ('e, 'st, 's, 'p) edit_journal res" where
  "journal_recover env fuel disk m compaction =
    rbind (snapshots_recover env disk m) (\<lambda>snapshots.
    rbind (snapshots_latest_mac snapshots) (\<lambda>latest_snapshot_mac.
    let latest_snapshot = sm_snapshot snapshots;
        snapshot_area_offset = jm_snapshot_area_nblocks m * 2 in
    rbind (bs_subset (je_set env) disk snapshot_area_offset (snapshot_area_offset + jm_journal_area_nblocks m)) (\<lambda>block_log.
    rbind (recovery_new (je_pages env) (ring_new block_log) (jm_journal_area_key m) (sn_recover_from latest_snapshot)) (\<lambda>recover.
    rbind (recovery_run (je_ssl env) (je_ring env) fuel recover) (\<lambda>(bufs, recover).
    rbind (rfold (recover_record env latest_snapshot_mac) (concat (map (records_of (je_postcard env)) bufs))
        (False, sn_state latest_snapshot)) (\<lambda>(_, state).
    let journal_chain = recovery_open recover; new_cursor = cc_end journal_chain in
    rbind (write_buf_new (je_pages env) AVAIL_BLOCK_SIZE) (\<lambda>write_buf.
      Ok \<lparr>ej_state = state,
           ej_journal_chain = journal_chain\<lparr>cc_block_log := ring_set_cursor (cc_block_log journal_chain) new_cursor\<rparr>,
           ej_snapshots = snapshots, ej_compaction_policy = compaction, ej_curr_edit_group = Some edit_group_new,
           ej_write_buf = write_buf\<rparr>)))))))"

definition journal_meta_of :: "('e, 'st, 's, 'p) journal_env \<Rightarrow> ('e, 'st, 's, 'p) edit_journal \<Rightarrow> journal_meta res" where
  "journal_meta_of env j =
    rbind (snapshots_nblocks env (ej_snapshots j)) (\<lambda>nblocks.
    rbind (snapshots_keys (ej_snapshots j)) (\<lambda>keys.
      Ok \<lparr>jm_snapshot_area_nblocks = nblocks, jm_snapshot_area_keys = keys,
           jm_journal_area_nblocks = bs_nblocks (je_set env) (ring_storage (cc_block_log (ej_journal_chain j))),
           jm_journal_area_key = cc_key (ej_journal_chain j)\<rparr>))"

definition journal_add :: "'e \<Rightarrow> ('e, 'st, 's, 'p) edit_journal \<Rightarrow> ('e, 'st, 's, 'p) edit_journal" where
  "journal_add edit j =
    (let g = (case ej_curr_edit_group j of None \<Rightarrow> edit_group_new | Some g \<Rightarrow> g) in
     j\<lparr>ej_curr_edit_group := Some (edit_group_push edit g)\<rparr>)"

definition journal_abort :: "('e, 'st, 's, 'p) edit_journal \<Rightarrow> ('e, 'st, 's, 'p) edit_journal" where
  "journal_abort j = j\<lparr>ej_curr_edit_group := map_option edit_group_clear (ej_curr_edit_group j)\<rparr>"

definition journal_compact ::
    "('e, 'st, 's, 'p) journal_env \<Rightarrow> (block_id \<Rightarrow> aead_iv) \<Rightarrow> ('e, 'st, 's, 'p) edit_journal \<Rightarrow>
      (nat \<times> ('e, 'st, 's, 'p) edit_journal) res" where
  "journal_compact env ivs j =
    (let chain = ej_journal_chain j in
     if \<not> cc_start chain < cc_end chain then Ok (0, j)
     else
       let latest_snapshot = \<lparr>sn_state = ej_state j, sn_recover_from = cc_end chain\<rparr> in
       rbind (snapshots_persist env latest_snapshot (ej_snapshots j)) (\<lambda>snapshots.
       rbind (snapshots_latest_mac snapshots) (\<lambda>mac.
       rbind (write_buf_write (je_postcard env) (Version mac) (ej_write_buf j)) (\<lambda>write_buf.
       rbind (write_buf_as_slice write_buf) (\<lambda>data.
       rbind (chain_append (je_pages env) (je_ssl env) (je_ring env) (ivs (cc_end chain)) data chain) (\<lambda>chain.
       let policy = cp_on_append_journal (je_policy env) 1 (ej_compaction_policy j);
           write_buf = write_buf_clear write_buf;
           old_chain_len = cc_end chain - cc_start chain in
       rbind (if 1 < old_chain_len then chain_trim (cc_end chain - 1) chain else Ok chain) (\<lambda>chain.
       let new_chain_len = cc_end chain - cc_start chain in
       rbind (checked_sub old_chain_len new_chain_len) (\<lambda>compacted.
         Ok (compacted, j\<lparr>ej_snapshots := snapshots, ej_journal_chain := chain, ej_compaction_policy := policy,
               ej_write_buf := write_buf\<rparr>)))))))))"

definition journal_append_write_buf ::
    "('e, 'st, 's, 'p) journal_env \<Rightarrow> (block_id \<Rightarrow> aead_iv) \<Rightarrow> ('e, 'st, 's, 'p) edit_journal \<Rightarrow>
      ('e, 'st, 's, 'p) edit_journal res" where
  "journal_append_write_buf env ivs j =
    rbind (write_buf_as_slice (ej_write_buf j)) (\<lambda>write_data.
    if length write_data = 0 then Ok j
    else
      let chain = ej_journal_chain j in
      rbind (res_expect (chain_append (je_pages env) (je_ssl env) (je_ring env) (ivs (cc_end chain)) write_data chain)) (\<lambda>chain.
      let j = j\<lparr>ej_journal_chain := chain,
                ej_compaction_policy := cp_on_append_journal (je_policy env) 1 (ej_compaction_policy j),
                ej_write_buf := write_buf_clear (ej_write_buf j)\<rparr> in
      if cp_should_compact (je_policy env) (ej_compaction_policy j)
      then
        rbind (res_expect (journal_compact env ivs j)) (\<lambda>(compacted_blocks, j).
        rbind (cp_done_compact (je_policy env) compacted_blocks (ej_compaction_policy j)) (\<lambda>policy.
          Ok (j\<lparr>ej_compaction_policy := policy\<rparr>)))
      else Ok j))"

definition journal_write ::
    "('e, 'st, 's, 'p) journal_env \<Rightarrow> (block_id \<Rightarrow> aead_iv) \<Rightarrow> 'e journal_record \<Rightarrow> ('e, 'st, 's, 'p) edit_journal \<Rightarrow>
      ('e, 'st, 's, 'p) edit_journal res" where
  "journal_write env ivs rec j =
    (case write_buf_write (je_postcard env) rec (ej_write_buf j) of
       Inr w \<Rightarrow> Ok (j\<lparr>ej_write_buf := w\<rparr>)
     | Inl Panic \<Rightarrow> Panics
     | Inl (Err _) \<Rightarrow>
         rbind (journal_append_write_buf env ivs j) (\<lambda>j.
         rbind (res_expect (write_buf_write (je_postcard env) rec (ej_write_buf j))) (\<lambda>w.
           Ok (j\<lparr>ej_write_buf := w\<rparr>))))"

definition journal_commit ::
    "('e, 'st, 's, 'p) journal_env \<Rightarrow> (block_id \<Rightarrow> aead_iv) \<Rightarrow> ('e, 'st, 's, 'p) edit_journal \<Rightarrow>
      ('e, 'st, 's, 'p) edit_journal res" where
  "journal_commit env ivs j =
    (case ej_curr_edit_group j of
       None \<Rightarrow> Ok j
     | Some g \<Rightarrow>
         let j = j\<lparr>ej_curr_edit_group := None\<rparr> in
         if edit_group_is_empty g then Ok j
         else
           rbind (journal_write env ivs (Edit g) j) (\<lambda>j.
           rbind (edit_group_apply_to (je_apply env) g (ej_state j)) (\<lambda>state.
             Ok (j\<lparr>ej_state := state,
                   ej_compaction_policy := cp_on_commit_edits (je_policy env) g (ej_compaction_policy j)\<rparr>))))"

definition journal_flush ::
    "('e, 'st, 's, 'p) journal_env \<Rightarrow> (block_id \<Rightarrow> aead_iv) \<Rightarrow> (('e, 'st, 's, 'p) edit_journal, unit) sres" where
  "journal_flush env ivs j =
    (case journal_append_write_buf env ivs j of
       Inl f \<Rightarrow> (Inl f, j)
     | Inr j \<Rightarrow>
         case chain_flush (je_ring env) (ej_journal_chain j) of
           Inl f \<Rightarrow> (Inl f, j)
         | Inr chain \<Rightarrow> (Ok (), j\<lparr>ej_journal_chain := chain\<rparr>))"

section \<open>Laws of the parameters\<close>

text \<open>
  \<open>postcard\<close>: a serialised value is read back, also when other bytes follow it, and has at least a
  byte. The conditions are the ranges of the types: a MAC is an array of 16 bytes, the length of a
  vector and a block identifier are \<open>usize\<close>.
\<close>

fun valid_record :: "'e journal_record \<Rightarrow> bool" where
  "valid_record (Version mac) \<longleftrightarrow> length mac = AES_GCM_MAC_SIZE"
| "valid_record (Edit g) \<longleftrightarrow> length g < 2 ^ 64"

locale postcard_laws =
  fixes pc :: "('e, 'st) postcard"
  assumes ser_record: "valid_record r \<Longrightarrow> \<exists>bs. pc_ser_record pc r = Some bs \<and> bs \<noteq> []"
    and take_ser: "valid_record r \<Longrightarrow> pc_ser_record pc r = Some bs \<Longrightarrow> pc_take_record pc (bs @ rest) = Some (r, rest)"
    and take_empty: "pc_take_record pc [] = None"
    and ser_snapshot: "sn_recover_from sn < 2 ^ 64 \<Longrightarrow> \<exists>bs. pc_ser_snapshot pc sn = Some bs"
    and de_ser: "sn_recover_from sn < 2 ^ 64 \<Longrightarrow> pc_ser_snapshot pc sn = Some bs \<Longrightarrow> pc_de_snapshot pc bs = Some sn"

definition ser_records :: "('e, 'st) postcard \<Rightarrow> 'e journal_record list \<Rightarrow> bytes" where
  "ser_records pc rs = concat (map (\<lambda>r. the (pc_ser_record pc r)) rs)"

lemma ser_records_simps [simp]: "ser_records pc [] = []"
    "ser_records pc (rs @ rs') = ser_records pc rs @ ser_records pc rs'"
  by (simp_all add: ser_records_def)

context postcard_laws
begin

lemma record_slice_collect_ser:
  "\<forall>r \<in> set rs. valid_record r \<Longrightarrow> length (ser_records pc rs) < fuel \<Longrightarrow>
    record_slice_collect pc fuel (record_slice_new (ser_records pc rs)) = rs"
proof (induction rs arbitrary: fuel)
  case Nil
  then show ?case by (cases fuel) (simp_all add: record_slice_next_def record_slice_new_def take_empty)
next
  case (Cons r rs)
  obtain bs where bs: "pc_ser_record pc r = Some bs" "bs \<noteq> []" using ser_record Cons.prems(1) by auto
  then have ser: "ser_records pc (r # rs) = bs @ ser_records pc rs" by (simp add: ser_records_def)
  obtain f where f: "fuel = Suc f" using Cons.prems(2) by (cases fuel) auto
  have "record_slice_next pc (record_slice_new (bs @ ser_records pc rs)) = (Some r, record_slice_new (ser_records pc rs))"
    using take_ser [OF _ bs(1)] Cons.prems(1) by (simp add: record_slice_next_def record_slice_new_def)
  moreover have "length (ser_records pc rs) < f" using Cons.prems(2) bs(2) f ser by (cases bs) auto
  ultimately show ?case using Cons.IH [of f] Cons.prems(1) ser f by simp
qed

text \<open>The records of a block are those written into it.\<close>

lemma records_of_ser: "\<forall>r \<in> set rs. valid_record r \<Longrightarrow> records_of pc (ser_records pc rs) = rs"
  using record_slice_collect_ser [of rs "Suc (length (ser_records pc rs))"] by (simp add: records_of_def)

lemma ser_records_empty: "\<forall>r \<in> set rs. valid_record r \<Longrightarrow> ser_records pc rs = [] \<longleftrightarrow> rs = []"
  using ser_record by (cases rs) (fastforce simp: ser_records_def)+

end

text \<open>
  A compaction policy that keeps the blocks in use (\<open>u\<close> of \<open>n\<close>) and asks for a compaction when none is left.
\<close>

locale compact_policy_laws =
  fixes P :: "('p, 'e) compact_policy"
    and tracks :: "'p \<Rightarrow> nat \<Rightarrow> nat \<Rightarrow> bool"
  assumes commit_tracks: "tracks p u n \<Longrightarrow> tracks (cp_on_commit_edits P g p) u n"
    and append_tracks: "tracks p u n \<Longrightarrow> tracks (cp_on_append_journal P k p) (u + k) n"
    and full_compacts: "tracks p u n \<Longrightarrow> n \<le> u \<Longrightarrow> cp_should_compact P p"
    and done_tracks: "tracks p u n \<Longrightarrow> k \<le> u \<Longrightarrow> \<exists>p'. cp_done_compact P k p = Ok p' \<and> tracks p' (u - k) n"

definition default_policy_tracks :: "default_policy \<Rightarrow> nat \<Rightarrow> nat \<Rightarrow> bool" where
  "default_policy_tracks p u n \<longleftrightarrow> dp_used_blocks p = u \<and> dp_total_blocks p \<le> n"

interpretation dcp: compact_policy_laws default_compact_policy default_policy_tracks
  by unfold_locales (auto simp: default_compact_policy_def default_policy_tracks_def rassert_def)

text \<open>
  What a journal relies on. \<open>snap_nblocks\<close> is the size of a snapshot area, into which every state fits
  (the parameter \<open>state_max_nbytes\<close> of \<open>format\<close>).
\<close>

locale journal_setting =
  disk: block_set "je_set env" dinv cont + ssl: openssl_laws "je_ssl env" +
  pc: postcard_laws "je_postcard env" + pol: compact_policy_laws "je_policy env" tracks
  for env :: "('e, 'st, 's, 'p) journal_env" and dinv cont tracks +
  fixes snap_nblocks :: nat
  assumes pages: "pages_ready (je_pages env)"
    and snap_small: "snap_nblocks * BLOCK_SIZE < 2 ^ 64"
    and snapshots_fit: "sn_recover_from sn < 2 ^ 64 \<Longrightarrow> pc_ser_snapshot (je_postcard env) sn = Some bs \<Longrightarrow>
      HEADER_NBYTES + length bs \<le> snap_nblocks * BLOCK_SIZE"
    and version_fits: "length mac = AES_GCM_MAC_SIZE \<Longrightarrow> pc_ser_record (je_postcard env) (Version mac) = Some bs \<Longrightarrow>
      length bs \<le> AVAIL_BLOCK_SIZE"
    and flush_keeps: "dinv s \<Longrightarrow> \<exists>s'. bs_flush (je_set env) s = Ok s' \<and> dinv s' \<and>
      bs_nblocks (je_set env) s' = bs_nblocks (je_set env) s \<and> cont s' = cont s"

section \<open>Snapshots\<close>

text \<open>A blob of the snapshot area that has a snapshot.\<close>

definition blob_has ::
    "('e, 'st, 's, 'p) journal_env \<Rightarrow> ('s \<Rightarrow> bool) \<Rightarrow> ('s \<Rightarrow> bytes) \<Rightarrow> nat \<Rightarrow> 's crypto_blob \<Rightarrow> blob_header \<Rightarrow> 'st snapshot \<Rightarrow> bool" where
  "blob_has env dinv cont n b h sn \<longleftrightarrow> cb_header b = Some h \<and> bs_nblocks (je_set env) (cb_block_set b) = n \<and>
    sn_recover_from sn < 2 ^ 64 \<and>
    (\<exists>bs. pc_ser_snapshot (je_postcard env) sn = Some bs \<and>
      blob_holds (je_ssl env) (je_set env) dinv cont (cb_key b) h bs (cb_block_set b))"

text \<open>
  Both blobs have a snapshot; with equal versions the first is the latest, otherwise the second is one
  version ahead.
\<close>

definition snapshots_inv ::
    "('e, 'st, 's, 'p) journal_env \<Rightarrow> ('s \<Rightarrow> bool) \<Rightarrow> ('s \<Rightarrow> bytes) \<Rightarrow> nat \<Rightarrow> nat \<Rightarrow> ('st, 's) snapshot_manager \<Rightarrow> bool" where
  "snapshots_inv env dinv cont n vmax sm \<longleftrightarrow>
    (\<exists>b0 b1 h0 h1 sn0 sn1. sm_blobs sm = [b0, b1] \<and> blob_has env dinv cont n b0 h0 sn0 \<and> blob_has env dinv cont n b1 h1 sn1 \<and>
      (sm_latest_index sm = 0 \<and> bh_version h0 = bh_version h1 \<and> sm_snapshot sm = sn0 \<or>
       sm_latest_index sm = 1 \<and> bh_version h1 = bh_version h0 + 1 \<and> sm_snapshot sm = sn1) \<and>
      bh_version h1 \<le> vmax) \<and> length (sm_buf sm) = n * BLOCK_SIZE"

lemma snapshots_invI:
  assumes "sm_blobs sm = [b0, b1]" "blob_has env dinv cont n b0 h0 sn0" "blob_has env dinv cont n b1 h1 sn1"
    and "sm_latest_index sm = 0 \<and> bh_version h0 = bh_version h1 \<and> sm_snapshot sm = sn0 \<or>
       sm_latest_index sm = 1 \<and> bh_version h1 = bh_version h0 + 1 \<and> sm_snapshot sm = sn1"
    and "bh_version h1 \<le> vmax" "length (sm_buf sm) = n * BLOCK_SIZE"
  shows "snapshots_inv env dinv cont n vmax sm"
  unfolding snapshots_inv_def using assms by (intro conjI exI) assumption+

lemma snapshots_inv_mono: "snapshots_inv env dinv cont n v sm \<Longrightarrow> v \<le> w \<Longrightarrow> snapshots_inv env dinv cont n w sm"
  by (subst (asm) snapshots_inv_def, elim conjE exE, rule snapshots_invI) (assumption | simp)+

lemma snapshots_inv_mac:
  "snapshots_inv env dinv cont n v sm \<Longrightarrow> \<exists>mac. snapshots_latest_mac sm = Ok mac \<and> length mac = AES_GCM_MAC_SIZE"
  by (auto simp: snapshots_inv_def snapshots_latest_mac_def blob_has_def blob_holds_def blob_image_def blob_current_mac_def)

context journal_setting
begin

lemma blob_write_has:
  assumes "blob_has env dinv cont snap_nblocks b h sn" "sn_recover_from sn' < 2 ^ 64" "bh_version h + 1 < 2 ^ 64"
    and "pc_ser_snapshot (je_postcard env) sn' = Some bs"
  shows "\<exists>b' h'. blob_write (je_pages env) (je_ssl env) (je_set env) bs b = Ok (bh_version h + 1, b') \<and>
    bh_version h' = bh_version h + 1 \<and> cb_key b' = cb_key b \<and> blob_has env dinv cont snap_nblocks b' h' sn'"
proof -
  obtain h' s' where w: "blob_write (je_pages env) (je_ssl env) (je_set env) bs b
        = Ok (bh_version h + 1, b\<lparr>cb_block_set := s', cb_header := Some h'\<rparr>)" "bh_version h' = bh_version h + 1"
      "bs_nblocks (je_set env) s' = bs_nblocks (je_set env) (cb_block_set b)"
      "blob_holds (je_ssl env) (je_set env) dinv cont (cb_key b) h' bs s'"
    using disk.blob_write_spec [OF ssl.openssl_laws_axioms pages, of b "bh_version h" bs] assms snap_small
      snapshots_fit [OF assms(2,4)] by (auto simp: blob_has_def blob_holds_def blob_version_id_def)
  then show ?thesis using assms by (auto simp: blob_has_def)
qed

lemma snapshots_persist_spec:
  assumes "snapshots_inv env dinv cont snap_nblocks v sm" "sn_recover_from sn < 2 ^ 64" "v + 1 < 2 ^ 64"
  shows "\<exists>sm'. snapshots_persist env sn sm = Ok sm' \<and> snapshots_inv env dinv cont snap_nblocks (v + 1) sm' \<and> sm_snapshot sm' = sn \<and>
    sm_latest_index sm' = 1 - sm_latest_index sm \<and> snapshots_keys sm' = snapshots_keys sm"
proof -
  obtain bs where bs: "pc_ser_snapshot (je_postcard env) sn = Some bs" using pc.ser_snapshot [OF assms(2)] by blast
  have len: "length bs \<le> snap_nblocks * BLOCK_SIZE" using snapshots_fit [OF assms(2) bs] by simp
  obtain b0 b1 h0 h1 sn0 sn1 where inv: "sm_blobs sm = [b0, b1]" "blob_has env dinv cont snap_nblocks b0 h0 sn0"
      "blob_has env dinv cont snap_nblocks b1 h1 sn1" "bh_version h1 \<le> v" "length (sm_buf sm) = snap_nblocks * BLOCK_SIZE"
      "sm_latest_index sm = 0 \<and> bh_version h0 = bh_version h1 \<or> sm_latest_index sm = 1 \<and> bh_version h1 = bh_version h0 + 1"
    using assms(1) by (auto simp: snapshots_inv_def)
  have ser: "snapshot_to_slice (je_postcard env) sn (sm_buf sm) = Ok (bs, overwrite (sm_buf sm) 0 bs)"
    using bs len inv(5) by (simp add: snapshot_to_slice_def)
  have buf: "length (overwrite (sm_buf sm) 0 bs) = snap_nblocks * BLOCK_SIZE" using len inv(5) by (simp add: length_overwrite)
  from inv(6) show ?thesis
  proof (elim disjE conjE)
    assume i: "sm_latest_index sm = 0" "bh_version h0 = bh_version h1"
    obtain b' h' where b': "blob_write (je_pages env) (je_ssl env) (je_set env) bs b1 = Ok (bh_version h1 + 1, b')"
        "bh_version h' = bh_version h1 + 1" "cb_key b' = cb_key b1" "blob_has env dinv cont snap_nblocks b' h' sn"
      using blob_write_has [OF inv(3) assms(2) _ bs] inv(4) assms(3) by auto
    then show ?thesis using ser inv i buf by (auto simp: snapshots_persist_def snapshots_keys_def numeral_2_eq_2 intro!: snapshots_invI)
  next
    assume i: "sm_latest_index sm = 1" "bh_version h1 = bh_version h0 + 1"
    obtain b' h' where b': "blob_write (je_pages env) (je_ssl env) (je_set env) bs b0 = Ok (bh_version h0 + 1, b')"
        "bh_version h' = bh_version h0 + 1" "cb_key b' = cb_key b0" "blob_has env dinv cont snap_nblocks b' h' sn"
      using blob_write_has [OF inv(2) assms(2) _ bs] inv(4) i assms(3) by auto
    then show ?thesis using ser inv i buf by (auto simp: snapshots_persist_def snapshots_keys_def intro!: snapshots_invI)
  qed
qed

end

section \<open>The write buffer\<close>

definition write_buf_holds :: "('e, 'st) postcard \<Rightarrow> 'e journal_record list \<Rightarrow> write_buf \<Rightarrow> bool" where
  "write_buf_holds pc rs w \<longleftrightarrow> length (wb_buf w) = BLOCK_SIZE \<and> wb_capacity w = AVAIL_BLOCK_SIZE \<and>
    wb_cursor w \<le> AVAIL_BLOCK_SIZE \<and> take (wb_cursor w) (wb_buf w) = ser_records pc rs \<and> (\<forall>r \<in> set rs. valid_record r)"

lemma write_buf_slice: "write_buf_holds pc rs w \<Longrightarrow> write_buf_as_slice w = Ok (ser_records pc rs)"
  using footer_size_fits(2) by (simp add: write_buf_holds_def write_buf_as_slice_def slice_range_def)

lemma write_buf_len: "write_buf_holds pc rs w \<Longrightarrow> length (ser_records pc rs) \<le> AVAIL_BLOCK_SIZE"
  by (metis length_take min.coboundedI2 write_buf_holds_def min.commute)

lemma write_buf_clear_holds: "write_buf_holds pc rs w \<Longrightarrow> write_buf_holds pc [] (write_buf_clear w)"
  by (simp add: write_buf_holds_def write_buf_clear_def)

lemma write_buf_new_holds:
  assumes "pages_ready pg"
  shows "\<exists>w. write_buf_new pg AVAIL_BLOCK_SIZE = Ok w \<and> write_buf_holds pc [] w"
proof -
  obtain b where "buf_alloc pg 1 = Ok b" "length b = BLOCK_SIZE" using buf_alloc_ready [OF assms, of 1] by auto
  then show ?thesis using footer_size_fits(2) by (simp add: write_buf_new_def res_expect_def write_buf_holds_def rassert_def)
qed

context postcard_laws
begin

lemma write_buf_write_spec:
  assumes "write_buf_holds pc rs w" "valid_record r"
  shows "(\<exists>w'. write_buf_write pc r w = Ok w' \<and> write_buf_holds pc (rs @ [r]) w' \<and> length (ser_records pc (rs @ [r])) \<le> AVAIL_BLOCK_SIZE) \<or>
    write_buf_write pc r w = Fail OutOfDisk \<and> AVAIL_BLOCK_SIZE < length (ser_records pc (rs @ [r]))"
proof -
  obtain bs where bs: "pc_ser_record pc r = Some bs" using ser_record [OF assms(2)] by blast
  then have r: "ser_records pc [r] = bs" by (simp add: ser_records_def)
  have w: "length (wb_buf w) = BLOCK_SIZE" "wb_capacity w = AVAIL_BLOCK_SIZE"
      "wb_cursor w \<le> AVAIL_BLOCK_SIZE" "take (wb_cursor w) (wb_buf w) = ser_records pc rs" "\<forall>r \<in> set rs. valid_record r"
    using assms(1) by (simp_all add: write_buf_holds_def)
  have len: "length (ser_records pc rs) = wb_cursor w" using w(1,3) footer_size_fits(2) by (simp flip: w(4))
  show ?thesis
  proof (cases "wb_cursor w + length bs \<le> AVAIL_BLOCK_SIZE")
    case True
    let ?w' = "w\<lparr>wb_buf := overwrite (wb_buf w) (wb_cursor w) bs, wb_cursor := wb_cursor w + length bs\<rparr>"
    have "write_buf_write pc r w = Ok ?w'"
      using True w bs footer_size_fits(2) by (simp add: write_buf_write_def slice_range_def)
    moreover have "take (wb_cursor w + length bs) (overwrite (wb_buf w) (wb_cursor w) bs) = ser_records pc (rs @ [r])"
      using w(1,3) r True footer_size_fits(2) by (simp add: overwrite_def flip: w(4))
    ultimately show ?thesis
      using True w r len assms(2) footer_size_fits(2) by (auto simp: write_buf_holds_def length_overwrite)
  next
    case False
    then show ?thesis using w(1-3) bs r len footer_size_fits(2) by (simp add: write_buf_write_def slice_range_def)
  qed
qed

end

section \<open>Invariant\<close>

text \<open>
  The journal area starts with a block that names the latest snapshot by its MAC; \<open>gss\<close> are the edit groups of the
  blocks after it and \<open>pend\<close> those in the write buffer. Applied to the snapshot in order they give
  the state. The blocks are fewer than the ring has.
\<close>

definition journal_blocks :: "('e, 'st) postcard \<Rightarrow> aead_mac \<Rightarrow> 'e edit_group list list \<Rightarrow> bytes list" where
  "journal_blocks pc mac gss = map (ser_records pc) ([Version mac] # map (map Edit) gss)"

definition journal_inv ::
    "('e, 'st, 's, 'p) journal_env \<Rightarrow> ('s \<Rightarrow> bool) \<Rightarrow> ('s \<Rightarrow> bytes) \<Rightarrow> ('p \<Rightarrow> nat \<Rightarrow> nat \<Rightarrow> bool) \<Rightarrow> nat \<Rightarrow> nat \<Rightarrow>
      'e edit_group list list \<Rightarrow> 'e edit_group list \<Rightarrow> ('e, 'st, 's, 'p) edit_journal \<Rightarrow> bool" where
  "journal_inv env dinv cont tracks n N gss pend j \<longleftrightarrow>
    (let chain = ej_journal_chain j; sn = sm_snapshot (ej_snapshots j) in
     snapshots_inv env dinv cont n (cc_end chain) (ej_snapshots j) \<and>
     (\<exists>mac. snapshots_latest_mac (ej_snapshots j) = Ok mac \<and>
       chain_inv (je_ssl env) (je_ring env) (ring_inv (je_set env) dinv N) (ring_blk (je_set env) cont)
         (journal_blocks (je_postcard env) mac gss) chain) \<and>
     cc_start chain = sn_recover_from sn \<and> cc_end chain - cc_start chain < N \<and>
     write_buf_holds (je_postcard env) (map Edit pend) (ej_write_buf j) \<and>
     (\<forall>g \<in> set (concat gss). length g < 2 ^ 64) \<and>
     rfold (edit_group_apply_to (je_apply env)) (concat gss @ pend) (sn_state sn) = Ok (ej_state j) \<and>
     tracks (ej_compaction_policy j) (cc_end chain - cc_start chain) N)"

lemma journal_inv_curr [simp]:
  "journal_inv env dinv cont tracks n N gss pend (j\<lparr>ej_curr_edit_group := g\<rparr>) = journal_inv env dinv cont tracks n N gss pend j"
  by (simp add: journal_inv_def)

definition ivs_ok :: "(block_id \<Rightarrow> aead_iv) \<Rightarrow> bool" where
  "ivs_ok ivs \<longleftrightarrow> (\<forall>pos. length (ivs pos) = AES_GCM_IV_SIZE)"

lemma ivs_okD: "ivs_ok ivs \<Longrightarrow> length (ivs pos) = AES_GCM_IV_SIZE"
  by (simp add: ivs_ok_def)

lemma journal_invD:
  assumes "journal_inv env dinv cont tracks n N gss pend j"
  defines "chain \<equiv> ej_journal_chain j"
  obtains mac where "snapshots_inv env dinv cont n (cc_end chain) (ej_snapshots j)"
    "snapshots_latest_mac (ej_snapshots j) = Ok mac"
    "chain_inv (je_ssl env) (je_ring env) (ring_inv (je_set env) dinv N) (ring_blk (je_set env) cont)
         (journal_blocks (je_postcard env) mac gss) chain"
    "cc_start chain = sn_recover_from (sm_snapshot (ej_snapshots j))" "cc_end chain - cc_start chain < N"
    "write_buf_holds (je_postcard env) (map Edit pend) (ej_write_buf j)"
    "\<forall>g \<in> set (concat gss). length g < 2 ^ 64"
    "rfold (edit_group_apply_to (je_apply env)) (concat gss @ pend) (sn_state (sm_snapshot (ej_snapshots j))) = Ok (ej_state j)"
    "tracks (ej_compaction_policy j) (cc_end chain - cc_start chain) N" "length mac = AES_GCM_MAC_SIZE"
    "cc_end chain = cc_start chain + 1 + length gss"
proof -
  obtain mac where a: "snapshots_inv env dinv cont n (cc_end chain) (ej_snapshots j)"
    "snapshots_latest_mac (ej_snapshots j) = Ok mac"
    "chain_inv (je_ssl env) (je_ring env) (ring_inv (je_set env) dinv N) (ring_blk (je_set env) cont)
         (journal_blocks (je_postcard env) mac gss) chain"
    using assms(1) unfolding journal_inv_def Let_def chain_def by blast
  have "length mac = AES_GCM_MAC_SIZE" using snapshots_inv_mac [OF a(1)] a(2) by auto
  moreover have "cc_end chain = cc_start chain + 1 + length gss"
    using a(3) by (fastforce simp: chain_inv_def journal_blocks_def dest!: chain_seq_length)
  ultimately show ?thesis
    using assms(1) a by (intro that) (auto simp: journal_inv_def Let_def chain_def)
qed

lemma journal_invI:
  assumes "snapshots_inv env dinv cont n (cc_end (ej_journal_chain j)) (ej_snapshots j)"
    "snapshots_latest_mac (ej_snapshots j) = Ok mac"
    "chain_inv (je_ssl env) (je_ring env) (ring_inv (je_set env) dinv N) (ring_blk (je_set env) cont)
         (journal_blocks (je_postcard env) mac gss) (ej_journal_chain j)"
    "cc_start (ej_journal_chain j) = sn_recover_from (sm_snapshot (ej_snapshots j))"
    "cc_end (ej_journal_chain j) - cc_start (ej_journal_chain j) < N"
    "write_buf_holds (je_postcard env) (map Edit pend) (ej_write_buf j)"
    "\<forall>g \<in> set (concat gss). length g < 2 ^ 64"
    "rfold (edit_group_apply_to (je_apply env)) (concat gss @ pend) (sn_state (sm_snapshot (ej_snapshots j))) = Ok (ej_state j)"
    "tracks (ej_compaction_policy j) (cc_end (ej_journal_chain j) - cc_start (ej_journal_chain j)) N"
  shows "journal_inv env dinv cont tracks n N gss pend j"
  unfolding journal_inv_def Let_def using assms by blast

text \<open>\<open>gs\<close> are all groups since the state \<open>init\<close>: those merged into the snapshot, in the journal area and in the buffer.\<close>

definition journal_hist ::
    "('e, 'st, 's, 'p) journal_env \<Rightarrow> 'st \<Rightarrow> 'e edit_group list \<Rightarrow> 'e edit_group list list \<Rightarrow> 'e edit_group list \<Rightarrow>
      ('e, 'st, 's, 'p) edit_journal \<Rightarrow> bool" where
  "journal_hist env init gs gss pend j \<longleftrightarrow>
    (\<exists>base. rfold (edit_group_apply_to (je_apply env)) base init = Ok (sn_state (sm_snapshot (ej_snapshots j))) \<and>
      gs = base @ concat gss @ pend)"

lemma journal_hist_curr [simp]:
  "journal_hist env init gs gss pend (j\<lparr>ej_curr_edit_group := g\<rparr>) = journal_hist env init gs gss pend j"
  by (simp add: journal_hist_def)

lemma journal_hist_state:
  assumes "journal_inv env dinv cont tracks n N gss pend j" "journal_hist env init gs gss pend j"
  shows "rfold (edit_group_apply_to (je_apply env)) gs init = Ok (ej_state j)"
  using assms by (auto simp: journal_hist_def journal_inv_def Let_def rfold_append)

section \<open>Appending to the journal\<close>

text \<open>The blocks behind the end of the chain are not written, as long as the ring has not wrapped around.\<close>

definition ring_chain_kept ::
    "'s block_set_ops \<Rightarrow> ('s \<Rightarrow> bytes) \<Rightarrow> nat \<Rightarrow> 's block_ring crypto_chain \<Rightarrow> 's block_ring crypto_chain \<Rightarrow> bool" where
  "ring_chain_kept S cont N c c' \<longleftrightarrow> cc_key c' = cc_key c \<and> cc_end c \<le> cc_end c' \<and>
    (\<forall>pos \<in> {cc_end c'..<N}. ring_blk S cont (cc_block_log c') pos = ring_blk S cont (cc_block_log c) pos)"

lemma chain_kept_trans: "ring_chain_kept S cont N c c' \<Longrightarrow> ring_chain_kept S cont N c' c'' \<Longrightarrow> ring_chain_kept S cont N c c''"
  by (auto simp: ring_chain_kept_def)

lemma chain_kept_refl [simp]: "ring_chain_kept S cont N c c"
  by (simp add: ring_chain_kept_def)

context journal_setting
begin

abbreviation ring_chain_inv :: "nat \<Rightarrow> bytes list \<Rightarrow> 's block_ring crypto_chain \<Rightarrow> bool" where
  "ring_chain_inv N \<equiv> chain_inv (je_ssl env) (je_ring env) (ring_inv (je_set env) dinv N) (ring_blk (je_set env) cont)"

abbreviation chain_kept :: "nat \<Rightarrow> 's block_ring crypto_chain \<Rightarrow> 's block_ring crypto_chain \<Rightarrow> bool" where
  "chain_kept \<equiv> ring_chain_kept (je_set env) cont"

lemma ring_append_kept:
  assumes "ring_inv (je_set env) dinv N r" "ring_append (je_set env) r b = Ok (e, r')" "length b = BLOCK_SIZE" "e < pos" "pos < N"
  shows "ring_blk (je_set env) cont r' pos = ring_blk (je_set env) cont r pos"
proof -
  have r: "dinv (ring_storage r)" "bs_nblocks (je_set env) (ring_storage r) = N" "ring_cursor r = Some e"
    using assms(1,2) by (auto simp: ring_inv_def ring_append_def Let_def res_simps split: if_splits)
  have b: "buf_ok b" "buf_nblocks b = 1" using assms(3) by (simp_all add: buf_ok_def buf_nblocks_def flip: length_greater_0_conv)
  obtain s' where s': "bs_write (je_set env) (ring_storage r) e b = Ok s'" "bs_nblocks (je_set env) s' = N"
      "cont s' = overwrite (cont (ring_storage r)) (e * BLOCK_SIZE) b"
    using disk.write_in_range [OF r(1) b(1), of e] r(2) b(2) assms(4,5) by auto
  have "ring_storage r' = s'"
    using assms(2,4,5) r s'(1) by (auto simp: ring_append_def Let_def ring_set_cursor_def res_simps split: if_splits)
  moreover have "block_at (overwrite (cont (ring_storage r)) (e * BLOCK_SIZE) b) pos = block_at (cont (ring_storage r)) pos"
    using block_at_overwrite [OF b(1), of e "cont (ring_storage r)" pos] disk.content_length [OF r(1)] r(2) b(2) assms(4,5)
      mult_le_mono1 [of "e + 1" N BLOCK_SIZE] by simp
  ultimately show ?thesis using s'(2,3) r(2) assms(5) by (simp add: ring_blk_def)
qed

text \<open>The append of a block to the ring, with the blocks from \<open>k\<close> on kept.\<close>

lemma ring_chain_append:
  assumes "ring_chain_inv N ps c" "length iv = AES_GCM_IV_SIZE" "length p \<le> AVAIL_BLOCK_SIZE"
    and "cc_start c \<le> k" "k \<le> cc_end c" "cc_end c - k < N"
  shows "\<exists>c'. chain_append (je_pages env) (je_ssl env) (je_ring env) iv p c = Ok c' \<and>
    ring_chain_inv N (drop (k - cc_start c) ps @ [p]) (c'\<lparr>cc_start := k, cc_block_macs := drop (k - cc_start c) (cc_block_macs c')\<rparr>) \<and>
    cc_start c' = cc_start c \<and> cc_end c' = cc_end c + 1 \<and> length (cc_block_macs c') = cc_end c + 1 - cc_start c \<and> chain_kept N c c'"
proof -
  have c: "cc_end c = ring_nblocks (cc_block_log c)" "cc_start c \<le> cc_end c" "length (cc_block_macs c) = cc_end c - cc_start c"
      "bs_nblocks (je_set env) (ring_storage (cc_block_log c)) = N" "ring_inv (je_set env) dinv N (cc_block_log c)"
    using assms(1) by (auto simp: chain_inv_def ring_ops_def ring_inv_def dest!: chain_seq_length)
  have keep: "\<forall>pos \<in> {k..<cc_end c}. ring_keeps (je_set env) (cc_block_log c) pos"
    using assms(6) c(1,4) by (auto simp: ring_keeps_def)
  obtain c' mac b where c': "chain_append (je_pages env) (je_ssl env) (je_ring env) iv p c = Ok c'"
      "ring_chain_inv N (drop (k - cc_start c) ps @ [p]) (c'\<lparr>cc_start := k, cc_block_macs := drop (k - cc_start c) (cc_block_macs c')\<rparr>)"
      "cc_start c' = cc_start c" "cc_end c' = cc_end c + 1" "cc_block_macs c' = cc_block_macs c @ [mac]" "length b = BLOCK_SIZE" "cc_key c' = cc_key c"
      "bl_append (je_ring env) (cc_block_log c) b = Ok (cc_end c, cc_block_log c')"
    using window_log.chain_append_suffix [OF disk.ring_window_log ssl.openssl_laws_axioms pages assms(1) TrueI assms(4,5) keep assms(2,3)]
    by blast
  moreover have "chain_kept N c c'"
    using c'(4,6-8) ring_append_kept [OF c(5)] by (auto simp: ring_chain_kept_def ring_ops_def)
  ultimately show ?thesis using c by auto
qed

lemma ring_chain_push:
  assumes "ring_chain_inv N ps c" "length iv = AES_GCM_IV_SIZE" "length p \<le> AVAIL_BLOCK_SIZE" "cc_end c - cc_start c < N"
  shows "\<exists>c'. chain_append (je_pages env) (je_ssl env) (je_ring env) iv p c = Ok c' \<and> ring_chain_inv N (ps @ [p]) c' \<and>
    cc_start c' = cc_start c \<and> cc_end c' = cc_end c + 1 \<and> chain_kept N c c'"
proof -
  have "cc_start c \<le> cc_end c" using assms(1) by (simp add: chain_inv_def)
  from ring_chain_append [OF assms(1-3) order_refl this assms(4)] obtain c' where
    c': "chain_append (je_pages env) (je_ssl env) (je_ring env) iv p c = Ok c'"
      "ring_chain_inv N (ps @ [p]) (c'\<lparr>cc_start := cc_start c, cc_block_macs := cc_block_macs c'\<rparr>)"
      "cc_start c' = cc_start c" "cc_end c' = cc_end c + 1" "chain_kept N c c'" by auto
  moreover have "c'\<lparr>cc_start := cc_start c, cc_block_macs := cc_block_macs c'\<rparr> = c'" using c'(3) by simp
  ultimately show ?thesis by metis
qed

text \<open>Compaction: a new snapshot of the state, and a journal area of the one block that names it.\<close>

lemma journal_compact_spec:
  assumes "snapshots_inv env dinv cont snap_nblocks (cc_end (ej_journal_chain j)) (ej_snapshots j)"
    and "ring_chain_inv N ps (ej_journal_chain j)" "cc_start (ej_journal_chain j) < cc_end (ej_journal_chain j)"
    and "write_buf_holds (je_postcard env) [] (ej_write_buf j)" "1 < N" "cc_end (ej_journal_chain j) + 1 < 2 ^ 64"
    and "tracks (ej_compaction_policy j) u N" "ivs_ok ivs"
  shows "\<exists>j'. journal_compact env ivs j = Ok (cc_end (ej_journal_chain j) - cc_start (ej_journal_chain j), j') \<and>
    ej_state j' = ej_state j \<and> ej_curr_edit_group j' = ej_curr_edit_group j \<and> tracks (ej_compaction_policy j') (u + 1) N \<and>
    cc_end (ej_journal_chain j') = cc_end (ej_journal_chain j) + 1 \<and> chain_kept N (ej_journal_chain j) (ej_journal_chain j') \<and>
    sn_state (sm_snapshot (ej_snapshots j')) = ej_state j \<and>
    (\<forall>p. tracks p 1 N \<longrightarrow> journal_inv env dinv cont tracks snap_nblocks N [] [] (j'\<lparr>ej_compaction_policy := p\<rparr>))"
proof -
  let ?c = "ej_journal_chain j" and ?pc = "je_postcard env"
  let ?e = "cc_end ?c"
  let ?sn = "\<lparr>sn_state = ej_state j, sn_recover_from = ?e\<rparr>"
  obtain sm where sm: "snapshots_persist env ?sn (ej_snapshots j) = Ok sm" "snapshots_inv env dinv cont snap_nblocks (?e + 1) sm"
      "sm_snapshot sm = ?sn"
    using snapshots_persist_spec [OF assms(1), of ?sn] assms(6) by auto
  obtain mac where mac: "snapshots_latest_mac sm = Ok mac" "length mac = AES_GCM_MAC_SIZE" using snapshots_inv_mac [OF sm(2)] by blast
  obtain bs where "pc_ser_record ?pc (Version mac) = Some bs" using pc.ser_record [of "Version mac"] mac(2) by auto
  then have fits: "length (ser_records ?pc [Version mac]) \<le> AVAIL_BLOCK_SIZE"
    using version_fits [OF mac(2)] by (simp add: ser_records_def)
  then obtain w where w: "write_buf_write ?pc (Version mac) (ej_write_buf j) = Ok w" "write_buf_holds ?pc [Version mac] w"
    using pc.write_buf_write_spec [OF assms(4), of "Version mac"] mac(2) by auto
  obtain c' where c': "chain_append (je_pages env) (je_ssl env) (je_ring env) (ivs ?e) (ser_records ?pc [Version mac]) ?c = Ok c'"
      "ring_chain_inv N (drop (?e - cc_start ?c) ps @ [ser_records ?pc [Version mac]])
        (c'\<lparr>cc_start := ?e, cc_block_macs := drop (?e - cc_start ?c) (cc_block_macs c')\<rparr>)"
      "cc_start c' = cc_start ?c" "cc_end c' = ?e + 1" "length (cc_block_macs c') = ?e + 1 - cc_start ?c" "chain_kept N ?c c'"
    using ring_chain_append [OF assms(2) ivs_okD [OF assms(8)] fits, of ?e] assms(3,5) by auto
  let ?c'' = "c'\<lparr>cc_start := ?e, cc_block_macs := drop (?e - cc_start ?c) (cc_block_macs c')\<rparr>"
  have "length ps = ?e - cc_start ?c" using assms(2) by (auto simp: chain_inv_def dest!: chain_seq_length)
  then have inv: "ring_chain_inv N (journal_blocks ?pc mac []) ?c''" using c'(2) by (simp add: journal_blocks_def)
  have trim: "chain_trim (cc_end c' - 1) c' = Ok ?c''"
    using c'(3-5) assms(3) by (simp add: chain_trim_def rassert_def Let_def)
  let ?j' = "j\<lparr>ej_snapshots := sm, ej_journal_chain := ?c'',
    ej_compaction_policy := cp_on_append_journal (je_policy env) 1 (ej_compaction_policy j), ej_write_buf := write_buf_clear w\<rparr>"
  have "journal_compact env ivs j = Ok (?e - cc_start ?c, ?j')"
    using assms(3) sm(1) mac(1) w(1) write_buf_slice [OF w(2)] c'(1,3,4) trim
    by (simp add: journal_compact_def Let_def)
  moreover have "journal_inv env dinv cont tracks snap_nblocks N [] [] (?j'\<lparr>ej_compaction_policy := p\<rparr>)" if "tracks p 1 N" for p
    using that sm(2,3) mac(1) inv assms(5) c'(4) write_buf_clear_holds [OF w(2)]
    by (intro journal_invI [where mac = mac]) auto
  ultimately show ?thesis
    using pol.append_tracks [OF assms(7), of 1] c'(4,6) sm(3) by (intro exI [of _ ?j']) (auto simp: ring_chain_kept_def)
qed

text \<open>Emptying the write buffer keeps the state.\<close>

lemma journal_append_write_buf_spec:
  assumes "journal_inv env dinv cont tracks snap_nblocks N gss pend j" "1 < N"
    and "cc_end (ej_journal_chain j) + 2 < 2 ^ 64" "ivs_ok ivs"
  shows "\<exists>j' gss'. journal_append_write_buf env ivs j = Ok j' \<and> journal_inv env dinv cont tracks snap_nblocks N gss' [] j' \<and>
    ej_state j' = ej_state j \<and> ej_curr_edit_group j' = ej_curr_edit_group j \<and>
    cc_end (ej_journal_chain j') \<le> cc_end (ej_journal_chain j) + 2 \<and> chain_kept N (ej_journal_chain j) (ej_journal_chain j') \<and>
    (\<forall>init gs. journal_hist env init gs gss pend j \<longrightarrow> journal_hist env init gs gss' [] j')"
  using assms(1)
proof (rule journal_invD)
  fix mac
  let ?c = "ej_journal_chain j" and ?pc = "je_postcard env" and ?P = "je_policy env"
  let ?p = "ser_records ?pc (map Edit pend)" and ?len = "cc_end ?c - cc_start ?c" and ?sm = "ej_snapshots j"
  assume inv: "snapshots_inv env dinv cont snap_nblocks (cc_end ?c) ?sm" "snapshots_latest_mac ?sm = Ok mac"
    "ring_chain_inv N (journal_blocks ?pc mac gss) ?c" "cc_start ?c = sn_recover_from (sm_snapshot ?sm)" "?len < N"
    "write_buf_holds ?pc (map Edit pend) (ej_write_buf j)" "\<forall>g \<in> set (concat gss). length g < 2 ^ 64"
    "rfold (edit_group_apply_to (je_apply env)) (concat gss @ pend) (sn_state (sm_snapshot ?sm)) = Ok (ej_state j)"
    "tracks (ej_compaction_policy j) ?len N" "length mac = AES_GCM_MAC_SIZE" "cc_end ?c = cc_start ?c + 1 + length gss"
  have valid: "\<forall>r \<in> set (map Edit pend). valid_record r" using inv(6) by (simp add: write_buf_holds_def)
  note p = write_buf_len [OF inv(6)]
  show ?thesis
  proof (cases "pend = []")
    case True
    then show ?thesis
      using assms(1) write_buf_slice [OF inv(6)] by (intro exI [of _ j] exI [of _ gss]) (simp add: journal_append_write_buf_def)
  next
    case False
    then have ne: "?p \<noteq> []" using pc.ser_records_empty [OF valid] by simp
    obtain c' where c': "chain_append (je_pages env) (je_ssl env) (je_ring env) (ivs (cc_end ?c)) ?p ?c = Ok c'"
        "ring_chain_inv N (journal_blocks ?pc mac gss @ [?p]) c'" "cc_start c' = cc_start ?c" "cc_end c' = cc_end ?c + 1" "chain_kept N ?c c'"
      using ring_chain_push [OF inv(3) ivs_okD [OF assms(4)] p inv(5)] by blast
    let ?j = "j\<lparr>ej_journal_chain := c', ej_compaction_policy := cp_on_append_journal ?P 1 (ej_compaction_policy j),
      ej_write_buf := write_buf_clear (ej_write_buf j)\<rparr>"
    have blocks: "journal_blocks ?pc mac gss @ [?p] = journal_blocks ?pc mac (gss @ [pend])" by (simp add: journal_blocks_def)
    have tr: "tracks (ej_compaction_policy ?j) (?len + 1) N" using pol.append_tracks [OF inv(9), of 1] by simp
    have snap: "snapshots_inv env dinv cont snap_nblocks (cc_end c') ?sm" using snapshots_inv_mono [OF inv(1)] c'(4) by simp
    have run: "journal_append_write_buf env ivs j = (if cp_should_compact ?P (ej_compaction_policy ?j)
      then rbind (res_expect (journal_compact env ivs ?j)) (\<lambda>(k, j). rbind (cp_done_compact ?P k (ej_compaction_policy j)) (\<lambda>p.
        Ok (j\<lparr>ej_compaction_policy := p\<rparr>))) else Ok ?j)"
      using write_buf_slice [OF inv(6)] ne c'(1) by (simp add: journal_append_write_buf_def Let_def res_expect_def)
    show ?thesis
    proof (cases "cp_should_compact ?P (ej_compaction_policy ?j)")
      case True
      obtain j' where j': "journal_compact env ivs ?j = Ok (?len + 1, j')" "ej_state j' = ej_state j"
          "ej_curr_edit_group j' = ej_curr_edit_group j" "tracks (ej_compaction_policy j') (?len + 2) N"
          "cc_end (ej_journal_chain j') = cc_end ?c + 2" "chain_kept N c' (ej_journal_chain j')" "sn_state (sm_snapshot (ej_snapshots j')) = ej_state j"
          "\<And>p. tracks p 1 N \<Longrightarrow> journal_inv env dinv cont tracks snap_nblocks N [] [] (j'\<lparr>ej_compaction_policy := p\<rparr>)"
        using journal_compact_spec [of ?j N "journal_blocks ?pc mac gss @ [?p]" "?len + 1" ivs] snap c'(2-4) inv(11) assms(2-4) tr
          write_buf_clear_holds [OF inv(6)] by (auto simp: Suc_diff_le)
      obtain p where "cp_done_compact ?P (?len + 1) (ej_compaction_policy j') = Ok p" "tracks p 1 N"
        using pol.done_tracks [OF j'(4), of "?len + 1"] by auto
      then show ?thesis using True run j' journal_hist_state [OF assms(1)] chain_kept_trans [OF c'(5)]
        by (intro exI [of _ "j'\<lparr>ej_compaction_policy := p\<rparr>"] exI [of _ "[]"]) (simp add: res_expect_def journal_hist_def)
    next
      case False
      then have "?len + 1 < N" using pol.full_compacts [OF tr] by (meson not_le)
      then have "journal_inv env dinv cont tracks snap_nblocks N (gss @ [pend]) [] ?j"
        using snap inv c' tr valid write_buf_clear_holds [OF inv(6)]
        by (intro journal_invI [where mac = mac]) (auto simp: blocks Suc_diff_le)
      then show ?thesis using False run c'(4,5) by (intro exI [of _ ?j] exI [of _ "gss @ [pend]"]) (simp add: journal_hist_def)
    qed
  qed
qed

end
context journal_setting
begin

text \<open>Committing the current group: it is applied, and kept in the write buffer.\<close>

lemma journal_put:
  assumes "journal_inv env dinv cont tracks snap_nblocks N gss pend j"
    and "write_buf_holds (je_postcard env) (map Edit (pend @ [g])) w" "edit_group_apply_to (je_apply env) g (ej_state j) = Ok st"
  shows "journal_inv env dinv cont tracks snap_nblocks N gss (pend @ [g]) (j\<lparr>ej_write_buf := w, ej_state := st,
    ej_compaction_policy := cp_on_commit_edits (je_policy env) g (ej_compaction_policy j)\<rparr>)"
  using assms(1)
  by (rule journal_invD) (use assms(2,3) pol.commit_tracks in \<open>auto simp: rfold_append simp flip: append_assoc intro!: journal_invI\<close>)

lemma journal_commit_spec:
  assumes "journal_inv env dinv cont tracks snap_nblocks N gss pend j" "1 < N"
    and "cc_end (ej_journal_chain j) + 2 < 2 ^ 64" "ivs_ok ivs"
    and "ej_curr_edit_group j = Some g" "g \<noteq> []" "length g < 2 ^ 64"
    and "length (ser_records (je_postcard env) [Edit g]) \<le> AVAIL_BLOCK_SIZE"
    and "edit_group_apply_to (je_apply env) g (ej_state j) = Ok st"
  shows "\<exists>j' gss' pend'. journal_commit env ivs j = Ok j' \<and> journal_inv env dinv cont tracks snap_nblocks N gss' pend' j' \<and>
    ej_state j' = st \<and> ej_curr_edit_group j' = None \<and> cc_end (ej_journal_chain j') \<le> cc_end (ej_journal_chain j) + 2 \<and>
    chain_kept N (ej_journal_chain j) (ej_journal_chain j') \<and> length pend' \<le> length pend + 1 \<and>
    (\<forall>init gs. journal_hist env init gs gss pend j \<longrightarrow> journal_hist env init (gs @ [g]) gss' pend' j')"
proof -
  let ?pc = "je_postcard env" and ?j = "j\<lparr>ej_curr_edit_group := None\<rparr>" and ?r = "Edit g :: 'e journal_record"
  have inv: "journal_inv env dinv cont tracks snap_nblocks N gss pend ?j" using assms(1) by simp
  have valid: "valid_record ?r" using assms(7) by simp
  have wb: "write_buf_holds ?pc (map Edit pend) (ej_write_buf ?j)" using inv by (simp add: journal_inv_def Let_def)
  have run: "journal_commit env ivs j = rbind (journal_write env ivs ?r ?j) (\<lambda>j. rbind (edit_group_apply_to (je_apply env) g (ej_state j))
      (\<lambda>state. Ok (j\<lparr>ej_state := state, ej_compaction_policy := cp_on_commit_edits (je_policy env) g (ej_compaction_policy j)\<rparr>)))"
    using assms(5,6) by (simp add: journal_commit_def edit_group_is_empty_def)
  consider (fits) w where "write_buf_write ?pc ?r (ej_write_buf ?j) = Ok w" "write_buf_holds ?pc (map Edit (pend @ [g])) w"
    | (full) "write_buf_write ?pc ?r (ej_write_buf ?j) = Fail OutOfDisk"
    using pc.write_buf_write_spec [OF wb valid] by auto
  then show ?thesis
  proof cases
    case fits
    then show ?thesis
      using run journal_put [OF inv fits(2)] assms(9)
      by (intro exI [of _ "j\<lparr>ej_curr_edit_group := None, ej_write_buf := w, ej_state := st,
            ej_compaction_policy := cp_on_commit_edits (je_policy env) g (ej_compaction_policy j)\<rparr>"] exI [of _ gss] exI [of _ "pend @ [g]"])
        (auto simp: journal_write_def journal_hist_def)
  next
    case full
    obtain j' gss' where j': "journal_append_write_buf env ivs ?j = Ok j'" "journal_inv env dinv cont tracks snap_nblocks N gss' [] j'"
        "ej_state j' = ej_state j" "ej_curr_edit_group j' = None" "cc_end (ej_journal_chain j') \<le> cc_end (ej_journal_chain j) + 2"
        "chain_kept N (ej_journal_chain j) (ej_journal_chain j')"
        "\<forall>init gs. journal_hist env init gs gss pend j \<longrightarrow> journal_hist env init gs gss' [] j'"
      using journal_append_write_buf_spec [OF inv assms(2) _ assms(4)] assms(3) by auto
    have wb': "write_buf_holds ?pc [] (ej_write_buf j')" using j'(2) by (simp add: journal_inv_def Let_def)
    obtain w where w: "write_buf_write ?pc ?r (ej_write_buf j') = Ok w" "write_buf_holds ?pc (map Edit ([] @ [g])) w"
      using pc.write_buf_write_spec [OF wb' valid] assms(8) by auto
    show ?thesis
      using run full w j'(1,3-7) journal_put [OF j'(2) w(2)] assms(9)
      by (intro exI [of _ "j'\<lparr>ej_write_buf := w, ej_state := st,
            ej_compaction_policy := cp_on_commit_edits (je_policy env) g (ej_compaction_policy j')\<rparr>"] exI [of _ gss'] exI [of _ "[g]"])
        (auto simp: journal_write_def res_expect_def journal_hist_def)
  qed
qed

lemma ring_flush_keeps:
  assumes "ring_chain_inv N ps c"
  shows "\<exists>s. chain_flush (je_ring env) c = Ok (c\<lparr>cc_block_log := (cc_block_log c)\<lparr>ring_storage := s\<rparr>\<rparr>) \<and>
    chain_kept N c (c\<lparr>cc_block_log := (cc_block_log c)\<lparr>ring_storage := s\<rparr>\<rparr>) \<and>
    ring_chain_inv N ps (c\<lparr>cc_block_log := (cc_block_log c)\<lparr>ring_storage := s\<rparr>\<rparr>)"
proof -
  let ?r = "cc_block_log c"
  have "dinv (ring_storage ?r)" using assms by (simp add: chain_inv_def ring_inv_def)
  then obtain s where s: "bs_flush (je_set env) (ring_storage ?r) = Ok s" "dinv s"
      "bs_nblocks (je_set env) s = bs_nblocks (je_set env) (ring_storage ?r)" "cont s = cont (ring_storage ?r)"
    using flush_keeps by blast
  have "ring_blk (je_set env) cont (?r\<lparr>ring_storage := s\<rparr>) = ring_blk (je_set env) cont ?r"
    using s(3,4) by (simp add: ring_blk_def fun_eq_iff)
  then show ?thesis
    using assms s by (intro exI [of _ s]) (auto simp: ring_chain_kept_def chain_flush_def ring_ops_def ring_flush_def chain_inv_def ring_inv_def ring_nblocks_def)
qed

lemma journal_flush_spec:
  assumes "journal_inv env dinv cont tracks snap_nblocks N gss pend j" "1 < N"
    and "cc_end (ej_journal_chain j) + 2 < 2 ^ 64" "ivs_ok ivs"
  shows "\<exists>j' gss'. journal_flush env ivs j = (Ok (), j') \<and> journal_inv env dinv cont tracks snap_nblocks N gss' [] j' \<and>
    ej_state j' = ej_state j \<and> ej_curr_edit_group j' = ej_curr_edit_group j \<and>
    cc_end (ej_journal_chain j') \<le> cc_end (ej_journal_chain j) + 2 \<and> chain_kept N (ej_journal_chain j) (ej_journal_chain j') \<and>
    (\<forall>init gs. journal_hist env init gs gss pend j \<longrightarrow> journal_hist env init gs gss' [] j')"
proof -
  obtain j' gss' where j': "journal_append_write_buf env ivs j = Ok j'" "journal_inv env dinv cont tracks snap_nblocks N gss' [] j'"
      "ej_state j' = ej_state j" "ej_curr_edit_group j' = ej_curr_edit_group j"
      "cc_end (ej_journal_chain j') \<le> cc_end (ej_journal_chain j) + 2" "chain_kept N (ej_journal_chain j) (ej_journal_chain j')"
      "\<forall>init gs. journal_hist env init gs gss pend j \<longrightarrow> journal_hist env init gs gss' [] j'"
    using journal_append_write_buf_spec [OF assms] by blast
  from j'(2) show ?thesis
  proof (rule journal_invD)
    fix mac
    let ?c = "ej_journal_chain j'"
    assume inv: "snapshots_inv env dinv cont snap_nblocks (cc_end ?c) (ej_snapshots j')" "snapshots_latest_mac (ej_snapshots j') = Ok mac"
      "ring_chain_inv N (journal_blocks (je_postcard env) mac gss') ?c" "cc_start ?c = sn_recover_from (sm_snapshot (ej_snapshots j'))"
      "cc_end ?c - cc_start ?c < N" "write_buf_holds (je_postcard env) (map Edit []) (ej_write_buf j')"
      "\<forall>g \<in> set (concat gss'). length g < 2 ^ 64"
      "rfold (edit_group_apply_to (je_apply env)) (concat gss' @ []) (sn_state (sm_snapshot (ej_snapshots j'))) = Ok (ej_state j')"
      "tracks (ej_compaction_policy j') (cc_end ?c - cc_start ?c) N"
    obtain s where s: "chain_flush (je_ring env) ?c = Ok (?c\<lparr>cc_block_log := (cc_block_log ?c)\<lparr>ring_storage := s\<rparr>\<rparr>)"
        "ring_chain_inv N (journal_blocks (je_postcard env) mac gss') (?c\<lparr>cc_block_log := (cc_block_log ?c)\<lparr>ring_storage := s\<rparr>\<rparr>)"
        "chain_kept N ?c (?c\<lparr>cc_block_log := (cc_block_log ?c)\<lparr>ring_storage := s\<rparr>\<rparr>)"
      using ring_flush_keeps [OF inv(3)] by blast
    let ?j = "j'\<lparr>ej_journal_chain := ?c\<lparr>cc_block_log := (cc_block_log ?c)\<lparr>ring_storage := s\<rparr>\<rparr>\<rparr>"
    have "journal_inv env dinv cont tracks snap_nblocks N gss' [] ?j"
      using inv s(2) by (intro journal_invI [where mac = mac]) simp_all
    then show ?thesis
      using j' s(1) chain_kept_trans [OF j'(6) s(3)]
      by (intro exI [of _ ?j] exI [of _ gss']) (auto simp: journal_flush_def journal_hist_def)
  qed
qed

end

section \<open>Formatting and recovery\<close>

text \<open>The three areas of a disk: two of \<open>n\<close> blocks for the snapshots, one of \<open>N\<close> blocks for the journal.\<close>

definition journal_areas ::
    "'s block_set_ops \<Rightarrow> ('s \<Rightarrow> bool) \<Rightarrow> nat \<Rightarrow> nat \<Rightarrow> 's \<Rightarrow> 's \<Rightarrow> 's \<Rightarrow> 's \<Rightarrow> bool" where
  "journal_areas S dinv n N disk s0 s1 s2 \<longleftrightarrow>
    bs_nblocks S disk = n * 2 + N \<and> bs_subset S disk 0 n = Ok s0 \<and> bs_subset S disk n (n * 2) = Ok s1 \<and>
    bs_subset S disk (n * 2) (n * 2 + N) = Ok s2 \<and> dinv s0 \<and> dinv s1 \<and> dinv s2 \<and>
    bs_nblocks S s0 = n \<and> bs_nblocks S s1 = n \<and> bs_nblocks S s2 = N"

text \<open>A disk that has what the journal wrote to its areas.\<close>

definition journal_on_disk ::
    "'s block_set_ops \<Rightarrow> ('s \<Rightarrow> bool) \<Rightarrow> ('s \<Rightarrow> bytes) \<Rightarrow> nat \<Rightarrow> nat \<Rightarrow> ('e, 'st, 's, 'p) edit_journal \<Rightarrow> 's \<Rightarrow> bool" where
  "journal_on_disk S dinv cont n N j disk \<longleftrightarrow>
    (\<exists>s0 s1 s2. journal_areas S dinv n N disk s0 s1 s2 \<and>
      map (\<lambda>b. cont (cb_block_set b)) (sm_blobs (ej_snapshots j)) = [cont s0, cont s1] \<and>
      cont s2 = cont (ring_storage (cc_block_log (ej_journal_chain j))))"

text \<open>The block of the ring behind the chain does not continue it.\<close>

definition chain_stops :: "openssl \<Rightarrow> 's block_log_ops \<Rightarrow> 's crypto_chain \<Rightarrow> bool" where
  "chain_stops ssl L c \<longleftrightarrow>
    (case recovery_next ssl L \<lparr>rc_block_log = cc_block_log c, rc_key = cc_key c, rc_start = cc_start c, rc_end = cc_end c,
        rc_block_macs = cc_block_macs c\<rparr> of Inr (None, _) \<Rightarrow> True | _ \<Rightarrow> False)"

lemma recover_records_apply:
  "rfold (recover_record env mac) (map Edit gs) (True, st)
    = rbind (rfold (edit_group_apply_to (je_apply env)) gs st) (\<lambda>st. Ok (True, st))"
proof (induction gs arbitrary: st)
  case (Cons g gs)
  then show ?case by (cases "edit_group_apply_to (je_apply env) g st") (simp_all add: recover_record_def)
qed simp

lemma recover_records_skip:
  "rfold (recover_record env mac) (map Edit gs) (False, st) = Ok (False, st)"
  by (induction gs) (simp_all add: recover_record_def)

lemma recovery_next_none:
  "recovery_next ssl L r = Ok (None, r') \<Longrightarrow> r' = r"
  by (auto simp: recovery_next_def or_none_def Let_def res_simps split: sum.splits fault.splits if_splits)

context journal_setting
begin

lemma snapshot_load_spec:
  assumes "blob_has env dinv cont snap_nblocks b h sn" "cb_key b' = cb_key b" "cb_header b' = None" "dinv (cb_block_set b')"
    and "bs_nblocks (je_set env) (cb_block_set b') = snap_nblocks" "cont (cb_block_set b') = cont (cb_block_set b)"
    and "length buf = snap_nblocks * BLOCK_SIZE"
  shows "\<exists>buf'. snapshot_load env b' buf = Ok (Ok sn, buf', b'\<lparr>cb_header := Some h\<rparr>) \<and> length buf' = snap_nblocks * BLOCK_SIZE"
    "blob_has env dinv cont snap_nblocks (b'\<lparr>cb_header := Some h\<rparr>) h sn"
proof -
  obtain bs where bs: "pc_ser_snapshot (je_postcard env) sn = Some bs" "sn_recover_from sn < 2 ^ 64"
      "blob_holds (je_ssl env) (je_set env) dinv cont (cb_key b') h bs (cb_block_set b')"
    using assms by (auto simp: blob_has_def blob_holds_def)
  have len: "length bs \<le> length buf" using snapshots_fit [OF bs(2,1)] assms(7) by simp
  have "blob_read (je_pages env) (je_ssl env) (je_set env) buf b'
      = Ok (length bs, bs @ drop (length bs) buf, b'\<lparr>cb_header := Some h\<rparr>)"
    using disk.blob_read_spec [OF ssl.openssl_laws_axioms pages bs(3) _ len] assms(3) by simp
  then show "\<exists>buf'. snapshot_load env b' buf = Ok (Ok sn, buf', b'\<lparr>cb_header := Some h\<rparr>) \<and> length buf' = snap_nblocks * BLOCK_SIZE"
    using pc.de_ser [OF bs(2,1)] len assms(7) by (simp add: snapshot_load_def slice_range_def)
  show "blob_has env dinv cont snap_nblocks (b'\<lparr>cb_header := Some h\<rparr>) h sn"
    using bs assms(5) by (auto simp: blob_has_def)
qed

text \<open>With both blobs intact, recovery finds the latest snapshot and its MAC.\<close>

lemma snapshots_recover_spec:
  assumes "snapshots_inv env dinv cont snap_nblocks v sm" "journal_areas (je_set env) dinv snap_nblocks N disk s0 s1 s2"
    and "map (\<lambda>b. cont (cb_block_set b)) (sm_blobs sm) = [cont s0, cont s1]"
    and "snapshots_keys sm = Ok (jm_snapshot_area_keys m)" "jm_snapshot_area_nblocks m = snap_nblocks"
  shows "\<exists>sm'. snapshots_recover env disk m = Ok sm' \<and> snapshots_inv env dinv cont snap_nblocks v sm' \<and>
    sm_snapshot sm' = sm_snapshot sm \<and> snapshots_latest_mac sm' = snapshots_latest_mac sm"
proof -
  obtain b0 b1 h0 h1 sn0 sn1 where inv: "sm_blobs sm = [b0, b1]" "blob_has env dinv cont snap_nblocks b0 h0 sn0"
      "blob_has env dinv cont snap_nblocks b1 h1 sn1" "bh_version h1 \<le> v"
      "sm_latest_index sm = 0 \<and> bh_version h0 = bh_version h1 \<and> sm_snapshot sm = sn0 \<or>
       sm_latest_index sm = 1 \<and> bh_version h1 = bh_version h0 + 1 \<and> sm_snapshot sm = sn1"
    using assms(1) by (auto simp: snapshots_inv_def)
  have keys: "jm_snapshot_area_keys m = (cb_key b0, cb_key b1)" using assms(4) inv(1) by (simp add: snapshots_keys_def)
  have areas: "bs_subset (je_set env) disk 0 snap_nblocks = Ok s0" "bs_subset (je_set env) disk snap_nblocks (snap_nblocks * 2) = Ok s1"
      "dinv s0" "dinv s1" "bs_nblocks (je_set env) s0 = snap_nblocks" "bs_nblocks (je_set env) s1 = snap_nblocks"
    using assms(2) by (simp_all add: journal_areas_def)
  have "0 < snap_nblocks" using inv(2) by (auto simp: blob_has_def blob_holds_def)
  then obtain buf where buf: "buf_alloc (je_pages env) snap_nblocks = Ok buf" "length buf = snap_nblocks * BLOCK_SIZE"
    using buf_alloc_ready [OF pages] by blast
  let ?b0 = "blob_open (cb_key b0) s0" and ?b1 = "blob_open (cb_key b1) s1"
  have opn: "cb_key (blob_open k s) = k" "cb_header (blob_open k s) = None" "cb_block_set (blob_open k s) = s" for k and s :: 's
    by (simp_all add: blob_open_def)
  note load0 = snapshot_load_spec [OF inv(2), of ?b0, unfolded opn, OF refl refl areas(3,5)]
  note load1 = snapshot_load_spec [OF inv(3), of ?b1, unfolded opn, OF refl refl areas(4,6)]
  have cont: "cont s0 = cont (cb_block_set b0)" "cont s1 = cont (cb_block_set b1)" using assms(3) inv(1) by simp_all
  obtain buf0 where l0: "snapshot_load env ?b0 buf = Ok (Ok sn0, buf0, ?b0\<lparr>cb_header := Some h0\<rparr>)" "length buf0 = snap_nblocks * BLOCK_SIZE"
    using load0(1) [OF cont(1) buf(2)] by blast
  obtain buf1 where l1: "snapshot_load env ?b1 buf0 = Ok (Ok sn1, buf1, ?b1\<lparr>cb_header := Some h1\<rparr>)" "length buf1 = snap_nblocks * BLOCK_SIZE"
    using load1(1) [OF cont(2) l0(2)] by blast
  let ?sm = "\<lparr>sm_blobs = [?b0\<lparr>cb_header := Some h0\<rparr>, ?b1\<lparr>cb_header := Some h1\<rparr>], sm_latest_index = sm_latest_index sm, sm_buf = buf1,
    sm_snapshot = sm_snapshot sm\<rparr>"
  have "snapshots_recover env disk m = Ok ?sm"
    using inv(5) assms(5) keys areas(1,2) buf(1) l0(1) l1(1)
    by (auto simp: snapshots_recover_def Let_def snapshots_repair_def blob_version_id_def snapshots_latest_def
        DEFAULT_LATEST_INDEX_def res_expect_def)
  moreover have "snapshots_inv env dinv cont snap_nblocks v ?sm"
    using inv(4,5) l1(2) load0(2) [OF cont(1) buf(2)] load1(2) [OF cont(2) l0(2)] by (intro snapshots_invI) auto
  moreover have "snapshots_latest_mac ?sm = snapshots_latest_mac sm"
    using inv by (auto simp: snapshots_latest_mac_def blob_current_mac_def blob_has_def)
  ultimately show ?thesis by (intro exI [of _ ?sm]) simp
qed

end

lemma recovery_next_log:
  "bl_read L log' (rc_end r) 1 = bl_read L (rc_block_log r) (rc_end r) 1 \<Longrightarrow> recovery_next ssl L r = Ok (None, r) \<Longrightarrow>
    recovery_next ssl L (r\<lparr>rc_block_log := log'\<rparr>) = Ok (None, r\<lparr>rc_block_log := log'\<rparr>)"
  by (auto simp: recovery_next_def or_none_def Let_def res_simps split: sum.splits fault.splits if_splits)

context journal_setting
begin

text \<open>
  The replay of the journal area on a recovered snapshot: the groups are applied when the area names the
  snapshot's MAC, and otherwise skipped.
\<close>

lemma journal_replay:
  assumes "snapshots_recover env disk m = Ok sm'" "snapshots_latest_mac sm' = Ok mac'"
    and "ring_chain_inv N (journal_blocks (je_postcard env) mac gss) c" "length mac = AES_GCM_MAC_SIZE"
    and "\<forall>g \<in> set (concat gss). length g < 2 ^ 64" "sn_recover_from (sm_snapshot sm') = cc_start c"
    and "bs_subset (je_set env) disk (jm_snapshot_area_nblocks m * 2) (jm_snapshot_area_nblocks m * 2 + jm_journal_area_nblocks m) = Ok s2"
    and "dinv s2" "bs_nblocks (je_set env) s2 = N" "cont s2 = cont (ring_storage (cc_block_log c))" "jm_journal_area_key m = cc_key c"
    and "chain_stops (je_ssl env) (je_ring env) c" "length gss + 1 < fuel"
    and "rfold (edit_group_apply_to (je_apply env)) (concat gss) (sn_state (sm_snapshot sm')) = Ok st"
  shows "\<exists>j'. journal_recover env fuel disk m p = Ok j' \<and> ej_snapshots j' = sm' \<and>
    ej_state j' = (if mac = mac' then st else sn_state (sm_snapshot sm')) \<and> ej_compaction_policy j' = p \<and>
    ring_chain_inv N (journal_blocks (je_postcard env) mac gss) (ej_journal_chain j') \<and>
    cc_start (ej_journal_chain j') = cc_start c \<and> cc_end (ej_journal_chain j') = cc_end c \<and>
    ej_curr_edit_group j' = Some [] \<and> write_buf_holds (je_postcard env) [] (ej_write_buf j')"
proof -
  let ?pc = "je_postcard env" and ?ps = "journal_blocks (je_postcard env) mac gss" and ?ring = "ring_new s2"
  let ?bs = "map (ring_blk (je_set env) cont (cc_block_log c)) [cc_start c..<cc_end c]"
  obtain b where "buf_alloc (je_pages env) 1 = Ok b" using buf_alloc_ready [OF pages, of 1] by auto
  then have new: "recovery_new (je_pages env) ?ring (cc_key c) (cc_start c)
      = Ok \<lparr>rc_block_log = ?ring, rc_key = cc_key c, rc_start = cc_start c, rc_end = cc_start c, rc_block_macs = []\<rparr>"
    by (simp add: recovery_new_def)
  let ?r = "\<lparr>rc_block_log = ?ring, rc_key = cc_key c, rc_start = cc_start c, rc_end = cc_start c, rc_block_macs = []\<rparr>"
  let ?r' = "?r\<lparr>rc_end := cc_end c, rc_block_macs := cc_block_macs c\<rparr>"
  have c: "cc_start c \<le> cc_end c" "dinv (ring_storage (cc_block_log c))" "0 < N"
      "bs_nblocks (je_set env) (ring_storage (cc_block_log c)) = N"
    using assms(3) by (simp_all add: chain_inv_def ring_inv_def)
  have blk: "ring_blk (je_set env) cont (\<lparr>ring_storage = s2, ring_cursor = cur\<rparr>) = ring_blk (je_set env) cont (cc_block_log c)" for cur
    using assms(9,10) c(4) by (simp add: fun_eq_iff ring_blk_def)
  have rd: "bl_read (je_ring env) ?ring pos 1 = Ok (ring_blk (je_set env) cont (cc_block_log c) pos)"
      "bl_read (je_ring env) (cc_block_log c) pos 1 = Ok (ring_blk (je_set env) cont (cc_block_log c) pos)" for pos
    using disk.ring_read_blk [of ?ring pos] disk.ring_read_blk [of "cc_block_log c" pos] assms(8,9) c blk [of None]
    by (simp_all add: ring_ops_def ring_new_def)
  obtain pre where seq: "chain_seq (je_ssl env) (cc_key c) pre (cc_block_macs c) ?ps ?bs"
    using assms(3) by (auto simp: chain_inv_def)
  have "recovery_next (je_ssl env) (je_ring env) (?r'\<lparr>rc_block_log := cc_block_log c\<rparr>) = Ok (None, ?r'\<lparr>rc_block_log := cc_block_log c\<rparr>)"
    using assms(12) recovery_next_none by (auto simp: chain_stops_def split: sum.splits option.splits prod.splits)
  then have stop: "recovery_next (je_ssl env) (je_ring env) ?r' = Ok (None, ?r')"
    using recovery_next_log [of "je_ring env" ?ring "?r'\<lparr>rc_block_log := cc_block_log c\<rparr>"] rd by simp
  have run: "recovery_run (je_ssl env) (je_ring env) fuel ?r = Ok (?ps, ?r')"
    using recovery_run_spec [of "je_ssl env" ?r pre "cc_block_macs c" ?ps ?bs "je_ring env" fuel] seq rd(1) stop c(1) assms(13)
    by (simp add: journal_blocks_def)
  have "map (records_of ?pc) ?ps = [Version mac] # map (map Edit) gss"
    using pc.records_of_ser [of "[Version mac]"] pc.records_of_ser [of "map Edit _"] assms(4,5) by (auto simp: journal_blocks_def)
  then have recs: "concat (map (records_of ?pc) ?ps) = Version mac # map Edit (concat gss)" by (simp add: map_concat)
  have replay: "rfold (recover_record env mac') (concat (map (records_of ?pc) ?ps)) (False, sn_state (sm_snapshot sm'))
      = Ok (mac = mac', if mac = mac' then st else sn_state (sm_snapshot sm'))"
    using assms(14) recover_records_apply [of env mac' "concat gss"] recover_records_skip [of env mac' "concat gss"]
    unfolding recs by (simp add: recover_record_def)
  obtain w where w: "write_buf_new (je_pages env) AVAIL_BLOCK_SIZE = Ok w" "write_buf_holds ?pc [] w"
    using write_buf_new_holds [OF pages] by blast
  let ?c' = "c\<lparr>cc_block_log := \<lparr>ring_storage = s2, ring_cursor = Some (cc_end c)\<rparr>\<rparr>"
  have "length (cc_key c) = AES_GCM_KEY_SIZE" "\<forall>mac \<in> set (cc_block_macs c). length mac = AES_GCM_MAC_SIZE"
    using assms(3) by (simp_all add: chain_inv_def)
  then have "ring_chain_inv N ?ps ?c'"
    using seq assms(8,9) c(1,3) blk by (auto simp: chain_inv_def ring_inv_def ring_ops_def ring_nblocks_def)
  moreover have "recovery_open ?r'\<lparr>cc_block_log := ring_set_cursor ?ring (cc_end c)\<rparr> = ?c'"
    by (simp add: recovery_open_def ring_set_cursor_def ring_new_def)
  ultimately show ?thesis
    using assms(1,2,6,7,11) new run replay w by (auto simp: journal_recover_def Let_def edit_group_new_def recovery_open_def)
qed

end

context journal_setting
begin

lemma snapshots_create_spec:
  assumes "journal_areas (je_set env) dinv snap_nblocks N disk s0 s1 s2" "0 < N"
    and "snap_nblocks = (HEADER_NBYTES + state_max_nbytes + snapshot_meta_len + BLOCK_SIZE - 1) div BLOCK_SIZE"
    and "length key0 = AES_GCM_KEY_SIZE" "length key1 = AES_GCM_KEY_SIZE"
  shows "\<exists>sm. snapshots_create env (key0, key1) disk init state_max_nbytes = Ok sm \<and>
    snapshots_inv env dinv cont snap_nblocks 0 sm \<and> sm_snapshot sm = \<lparr>sn_state = init, sn_recover_from = 0\<rparr> \<and>
    sm_latest_index sm = 0 \<and> snapshots_keys sm = Ok (key0, key1)"
proof -
  let ?sn = "\<lparr>sn_state = init, sn_recover_from = 0\<rparr>"
  obtain bs where bs: "pc_ser_snapshot (je_postcard env) ?sn = Some bs" using pc.ser_snapshot [of ?sn] by auto
  then have fits: "HEADER_NBYTES + length bs \<le> snap_nblocks * BLOCK_SIZE" using snapshots_fit [of ?sn] by simp
  then have "0 < snap_nblocks" by (cases snap_nblocks) (simp_all add: HEADER_NBYTES_def)
  then obtain buf where buf: "buf_alloc (je_pages env) snap_nblocks = Ok buf" "length buf = snap_nblocks * BLOCK_SIZE"
    using buf_alloc_ready [OF pages] by blast
  have areas: "bs_nblocks (je_set env) disk = snap_nblocks * 2 + N" "bs_subset (je_set env) disk 0 snap_nblocks = Ok s0"
      "bs_subset (je_set env) disk snap_nblocks (snap_nblocks * 2) = Ok s1" "dinv s0" "dinv s1"
      "bs_nblocks (je_set env) s0 = snap_nblocks" "bs_nblocks (je_set env) s1 = snap_nblocks"
    using assms(1) by (simp_all add: journal_areas_def)
  have create: "\<exists>b h. blob_create (je_pages env) (je_ssl env) (je_set env) key s bs = Ok b \<and> bh_version h = 0 \<and> cb_key b = key \<and>
      blob_has env dinv cont snap_nblocks b h ?sn"
    if "dinv s" "bs_nblocks (je_set env) s = snap_nblocks" "length key = AES_GCM_KEY_SIZE" for s key
    using disk.blob_create_spec [OF ssl.openssl_laws_axioms pages that(3,1), of bs] that(2) snap_small fits bs
    by (fastforce simp: blob_has_def)
  obtain b0 h0 where b0: "blob_create (je_pages env) (je_ssl env) (je_set env) key0 s0 bs = Ok b0" "bh_version h0 = 0" "cb_key b0 = key0"
      "blob_has env dinv cont snap_nblocks b0 h0 ?sn" using create [OF areas(4,6) assms(4)] by blast
  obtain b1 h1 where b1: "blob_create (je_pages env) (je_ssl env) (je_set env) key1 s1 bs = Ok b1" "bh_version h1 = 0" "cb_key b1 = key1"
      "blob_has env dinv cont snap_nblocks b1 h1 ?sn" using create [OF areas(5,7) assms(5)] by blast
  let ?sm = "\<lparr>sm_blobs = [b0, b1], sm_latest_index = DEFAULT_LATEST_INDEX, sm_buf = overwrite buf 0 bs, sm_snapshot = ?sn\<rparr>"
  have "snapshots_create env (key0, key1) disk init state_max_nbytes = Ok ?sm"
    unfolding snapshots_create_def Let_def assms(3) [symmetric]
    using areas(1-3) assms(2) buf bs fits b0(1) b1(1) by (simp add: snapshot_to_slice_def)
  moreover have "snapshots_inv env dinv cont snap_nblocks 0 ?sm"
    using b0(2) b1(2) buf(2) fits by (intro snapshots_invI [OF _ b0(4) b1(4)]) (auto simp: DEFAULT_LATEST_INDEX_def length_overwrite)
  ultimately show ?thesis using b0(3) b1(3) by (intro exI [of _ ?sm]) (simp add: snapshots_keys_def DEFAULT_LATEST_INDEX_def)
qed

lemma journal_format_spec:
  assumes "journal_areas (je_set env) dinv snap_nblocks N disk s0 s1 s2" "1 < N"
    and "snap_nblocks = (HEADER_NBYTES + state_max_nbytes + snapshot_meta_len + BLOCK_SIZE - 1) div BLOCK_SIZE"
    and "length key0 = AES_GCM_KEY_SIZE" "length key1 = AES_GCM_KEY_SIZE" "length key2 = AES_GCM_KEY_SIZE"
    and "tracks p 0 N" "ivs_ok ivs"
  shows "\<exists>j. journal_format env (key0, key1) key2 ivs disk init state_max_nbytes p = Ok j \<and> ej_curr_edit_group j = Some [] \<and>
    journal_inv env dinv cont tracks snap_nblocks N [] [] j \<and> journal_hist env init [] [] [] j \<and> cc_end (ej_journal_chain j) = 1 \<and> cc_key (ej_journal_chain j) = key2 \<and>
    (\<forall>pos \<in> {1..<N}. ring_blk (je_set env) cont (cc_block_log (ej_journal_chain j)) pos = block_at (cont s2) pos)"
proof -
  let ?pc = "je_postcard env" and ?c = "chain_new key2 (ring_set_cursor (ring_new s2) 0)"
  obtain sm where sm: "snapshots_create env (key0, key1) disk init state_max_nbytes = Ok sm"
      "snapshots_inv env dinv cont snap_nblocks 0 sm" "sm_snapshot sm = \<lparr>sn_state = init, sn_recover_from = 0\<rparr>"
    using snapshots_create_spec [OF assms(1) _ assms(3-5)] assms(2) by auto
  have areas: "bs_nblocks (je_set env) disk = snap_nblocks * 2 + N" "dinv s2" "bs_nblocks (je_set env) s2 = N"
      "bs_subset (je_set env) disk (snap_nblocks * 2) (snap_nblocks * 2 + N) = Ok s2"
    using assms(1) by (simp_all add: journal_areas_def)
  have n: "snapshots_nblocks env sm = Ok snap_nblocks"
    using sm(2) by (auto simp: snapshots_inv_def snapshots_nblocks_def blob_has_def)
  obtain mac where mac: "snapshots_latest_mac sm = Ok mac" "length mac = AES_GCM_MAC_SIZE" using snapshots_inv_mac [OF sm(2)] by blast
  obtain bs where "pc_ser_record ?pc (Version mac) = Some bs" using pc.ser_record [of "Version mac"] mac(2) by auto
  then have fits: "length (ser_records ?pc [Version mac]) \<le> AVAIL_BLOCK_SIZE"
    using version_fits [OF mac(2)] by (simp add: ser_records_def)
  obtain w0 where w0: "write_buf_new (je_pages env) AVAIL_BLOCK_SIZE = Ok w0" "write_buf_holds ?pc [] w0"
    using write_buf_new_holds [OF pages] by blast
  then obtain w where w: "write_buf_write ?pc (Version mac) w0 = Ok w" "write_buf_holds ?pc [Version mac] w"
    using pc.write_buf_write_spec [OF w0(2), of "Version mac"] mac(2) fits by auto
  have "ring_chain_inv N [] ?c"
    using areas(2,3) assms(2,6) by (intro chain_inv_new) (simp_all add: ring_inv_def ring_ops_def ring_nblocks_def ring_set_cursor_def ring_new_def)
  moreover have c0: "cc_start ?c = 0" "cc_end ?c = 0" by (simp_all add: chain_new_def)
  ultimately obtain c' where c': "chain_append (je_pages env) (je_ssl env) (je_ring env) (ivs 0) (ser_records ?pc [Version mac]) ?c = Ok c'"
      "ring_chain_inv N (journal_blocks ?pc mac []) c'" "cc_start c' = 0" "cc_end c' = 1" "chain_kept N ?c c'"
    using ring_chain_push [OF _ ivs_okD [OF assms(8)] fits, of N "[]" ?c 0] assms(2) by (auto simp: journal_blocks_def)
  obtain s where s: "chain_flush (je_ring env) c' = Ok (c'\<lparr>cc_block_log := (cc_block_log c')\<lparr>ring_storage := s\<rparr>\<rparr>)"
      "ring_chain_inv N (journal_blocks ?pc mac []) (c'\<lparr>cc_block_log := (cc_block_log c')\<lparr>ring_storage := s\<rparr>\<rparr>)"
      "chain_kept N c' (c'\<lparr>cc_block_log := (cc_block_log c')\<lparr>ring_storage := s\<rparr>\<rparr>)"
    using ring_flush_keeps [OF c'(2)] by blast
  let ?j = "\<lparr>ej_state = init, ej_journal_chain = c'\<lparr>cc_block_log := (cc_block_log c')\<lparr>ring_storage := s\<rparr>\<rparr>, ej_snapshots = sm,
    ej_compaction_policy = cp_on_append_journal (je_policy env) 1 p, ej_curr_edit_group = Some [], ej_write_buf = write_buf_clear w\<rparr>"
  have "journal_format env (key0, key1) key2 ivs disk init state_max_nbytes p = Ok ?j"
    using sm(1) n areas(1,4) mac(1) w0(1) w(1) write_buf_slice [OF w(2)] c'(1) c0(2) s(1)
    by (simp add: journal_format_def Let_def edit_group_new_def)
  moreover have "journal_inv env dinv cont tracks snap_nblocks N [] [] ?j"
    using snapshots_inv_mono [OF sm(2)] sm(3) mac(1) s(2) c'(3,4) assms(2) write_buf_clear_holds [OF w(2)] pol.append_tracks [OF assms(7), of 1]
    by (intro journal_invI [where mac = mac]) auto
  moreover have "cc_key (ej_journal_chain ?j) = key2 \<and> (\<forall>pos \<in> {1..<N}. ring_blk (je_set env) cont (cc_block_log (ej_journal_chain ?j)) pos = block_at (cont s2) pos)"
    using chain_kept_trans [OF c'(5) s(3)] c'(4) areas(3)
    by (simp add: ring_chain_kept_def ring_blk_def chain_new_def ring_set_cursor_def ring_new_def)
  ultimately show ?thesis using sm(3) c'(4) by (intro exI [of _ ?j]) (simp add: journal_hist_def)
qed

end

section \<open>Sequences of operations\<close>

datatype 'e journal_op = OpAdd 'e | OpAbort | OpCommit | OpFlush

fun journal_exec ::
    "('e, 'st, 's, 'p) journal_env \<Rightarrow> (block_id \<Rightarrow> aead_iv) \<Rightarrow> 'e journal_op \<Rightarrow> ('e, 'st, 's, 'p) edit_journal \<Rightarrow>
      ('e, 'st, 's, 'p) edit_journal res" where
  "journal_exec env ivs (OpAdd e) j = Ok (journal_add e j)"
| "journal_exec env ivs OpAbort j = Ok (journal_abort j)"
| "journal_exec env ivs OpCommit j = journal_commit env ivs j"
| "journal_exec env ivs OpFlush j = (case journal_flush env ivs j of (r, j') \<Rightarrow> rbind r (\<lambda>_. Ok j'))"

text \<open>
  What a journal promises: the current group, the groups committed so far and how many of
  them a flush has made durable.
\<close>

type_synonym 'e journal_spec = "'e edit_group \<times> 'e edit_group list \<times> nat"

fun journal_spec_step :: "'e journal_op \<Rightarrow> 'e journal_spec \<Rightarrow> 'e journal_spec" where
  "journal_spec_step (OpAdd e) (cur, gs, f) = (cur @ [e], gs, f)"
| "journal_spec_step OpAbort (cur, gs, f) = ([], gs, f)"
| "journal_spec_step OpCommit (cur, gs, f) = (if cur = [] then (cur, gs, f) else ([], gs @ [cur], f))"
| "journal_spec_step OpFlush (cur, gs, f) = (cur, gs, length gs)"

lemma journal_spec_grows: "fold journal_spec_step ops (cur, gs, f) = (cur', gs', f') \<Longrightarrow> \<exists>gs''. gs' = gs @ gs''"
proof (induction ops arbitrary: cur gs f)
  case (Cons op ops)
  then show ?case by (cases op) (fastforce split: if_splits)+
qed simp

text \<open>A group that can be a record of its own, as the source requires.\<close>

definition group_fits :: "('e, 'st) postcard \<Rightarrow> 'e edit_group \<Rightarrow> bool" where
  "group_fits pc g \<longleftrightarrow> length g < 2 ^ 64 \<and> length (ser_records pc [Edit g]) \<le> AVAIL_BLOCK_SIZE"

definition journal_sim ::
    "('e, 'st, 's, 'p) journal_env \<Rightarrow> ('s \<Rightarrow> bool) \<Rightarrow> ('s \<Rightarrow> bytes) \<Rightarrow> ('p \<Rightarrow> nat \<Rightarrow> nat \<Rightarrow> bool) \<Rightarrow> nat \<Rightarrow> nat \<Rightarrow> 'st \<Rightarrow>
      'e journal_spec \<Rightarrow> ('e, 'st, 's, 'p) edit_journal \<Rightarrow> bool" where
  "journal_sim env dinv cont tracks n N init = (\<lambda>(cur, gs, f) j.
    cur = (case ej_curr_edit_group j of None \<Rightarrow> [] | Some g \<Rightarrow> g) \<and>
    (\<exists>gss pend. journal_inv env dinv cont tracks n N gss pend j \<and> journal_hist env init gs gss pend j \<and> f + length pend \<le> length gs))"

context journal_setting
begin

abbreviation sim :: "nat \<Rightarrow> 'st \<Rightarrow> 'e journal_spec \<Rightarrow> ('e, 'st, 's, 'p) edit_journal \<Rightarrow> bool" where
  "sim \<equiv> journal_sim env dinv cont tracks snap_nblocks"

lemma journal_exec_sim:
  assumes "sim N init (cur, gs, f) j" "journal_spec_step op (cur, gs, f) = (cur', gs', f')" "1 < N" "ivs_ok ivs"
    and "\<forall>g \<in> set gs'. group_fits (je_postcard env) g" "rfold (edit_group_apply_to (je_apply env)) gs' init = Ok st"
    and "cc_end (ej_journal_chain j) + 2 < 2 ^ 64"
  shows "\<exists>j'. journal_exec env ivs op j = Ok j' \<and> sim N init (cur', gs', f') j' \<and>
    cc_end (ej_journal_chain j') \<le> cc_end (ej_journal_chain j) + 2 \<and> chain_kept N (ej_journal_chain j) (ej_journal_chain j')"
proof -
  obtain gss pend where inv: "journal_inv env dinv cont tracks snap_nblocks N gss pend j" "journal_hist env init gs gss pend j"
      "f + length pend \<le> length gs" and cur: "cur = (case ej_curr_edit_group j of None \<Rightarrow> [] | Some g \<Rightarrow> g)"
    using assms(1) by (auto simp: journal_sim_def)
  show ?thesis
  proof (cases op)
    case (OpAdd e)
    then show ?thesis using inv cur assms(2)
      by (auto simp: journal_sim_def journal_add_def edit_group_push_def edit_group_new_def split: option.splits)
  next
    case OpAbort
    then show ?thesis using inv cur assms(2)
      by (auto simp: journal_sim_def journal_abort_def edit_group_clear_def split: option.splits)
  next
    case OpFlush
    obtain j' gss' where "journal_flush env ivs j = (Ok (), j')" "journal_inv env dinv cont tracks snap_nblocks N gss' [] j'"
        "ej_curr_edit_group j' = ej_curr_edit_group j" "cc_end (ej_journal_chain j') \<le> cc_end (ej_journal_chain j) + 2"
        "journal_hist env init gs gss' [] j'" "chain_kept N (ej_journal_chain j) (ej_journal_chain j')"
      using journal_flush_spec [OF inv(1) assms(3,7,4)] inv(2) by blast
    then show ?thesis using OpFlush cur assms(2) by (auto simp: journal_sim_def)
  next
    case OpCommit
    show ?thesis
    proof (cases "cur = []")
      case True
      then have "journal_commit env ivs j = Ok (j\<lparr>ej_curr_edit_group := None\<rparr>)"
        using cur by (auto simp: journal_commit_def edit_group_is_empty_def split: option.splits)
      then show ?thesis using True OpCommit inv assms(2) by (auto simp: journal_sim_def)
    next
      case False
      then have g: "ej_curr_edit_group j = Some cur" using cur by (auto split: option.splits)
      have gs': "gs' = gs @ [cur]" "cur' = []" "f' = f" using False OpCommit assms(2) by auto
      then obtain st' where "edit_group_apply_to (je_apply env) cur (ej_state j) = Ok st'"
        using assms(6) journal_hist_state [OF inv(1,2)] by (auto simp: rfold_append res_simps)
      moreover have "length cur < 2 ^ 64" "length (ser_records (je_postcard env) [Edit cur]) \<le> AVAIL_BLOCK_SIZE"
        using assms(5) gs'(1) by (simp_all add: group_fits_def)
      ultimately obtain j' gss' pend' where j': "journal_commit env ivs j = Ok j'" "journal_inv env dinv cont tracks snap_nblocks N gss' pend' j'"
          "ej_curr_edit_group j' = None" "cc_end (ej_journal_chain j') \<le> cc_end (ej_journal_chain j) + 2"
          "journal_hist env init (gs @ [cur]) gss' pend' j'" "length pend' \<le> length pend + 1"
          "chain_kept N (ej_journal_chain j) (ej_journal_chain j')"
        using journal_commit_spec [OF inv(1) assms(3,7,4) g False] inv(2) by blast
      then have "f + length pend' \<le> length gs'" using gs'(1) inv(3) by simp
      then show ?thesis using OpCommit gs' j' by (auto simp: journal_sim_def)
    qed
  qed
qed

lemma journal_run_sim:
  assumes "sim N init s j" "fold journal_spec_step ops s = (cur, gs, f)" "1 < N" "ivs_ok ivs"
    and "\<forall>g \<in> set gs. group_fits (je_postcard env) g" "rfold (edit_group_apply_to (je_apply env)) gs init = Ok st"
    and "cc_end (ej_journal_chain j) + 2 * length ops + 2 < 2 ^ 64"
  shows "\<exists>j'. rfold (journal_exec env ivs) ops j = Ok j' \<and> sim N init (cur, gs, f) j' \<and>
    chain_kept N (ej_journal_chain j) (ej_journal_chain j') \<and> cc_end (ej_journal_chain j') \<le> cc_end (ej_journal_chain j) + 2 * length ops"
  using assms(1,2,7)
proof (induction ops arbitrary: s j)
  case (Cons op ops)
  obtain cur1 gs1 f1 where s: "s = (cur1, gs1, f1)" by (cases s)
  obtain cur2 gs2 f2 where st: "journal_spec_step op s = (cur2, gs2, f2)" by (cases "journal_spec_step op s")
  then obtain rest where gs: "gs = gs2 @ rest" using journal_spec_grows Cons.prems(2) by fastforce
  obtain st2 where "rfold (edit_group_apply_to (je_apply env)) gs2 init = Ok st2"
    using assms(6) gs by (auto simp: rfold_append res_simps)
  then obtain j1 where j1: "journal_exec env ivs op j = Ok j1" "sim N init (cur2, gs2, f2) j1"
      "cc_end (ej_journal_chain j1) \<le> cc_end (ej_journal_chain j) + 2" "chain_kept N (ej_journal_chain j) (ej_journal_chain j1)"
    using journal_exec_sim [OF _ _ assms(3,4), of init cur1 gs1 f1 j op cur2 gs2 f2 st2] Cons.prems s st gs assms(5) by auto
  then show ?case using Cons.IH [of "(cur2, gs2, f2)" j1] Cons.prems(2,3) st chain_kept_trans by fastforce
qed simp

text \<open>Recovery from the disk of a journal.\<close>

lemma journal_recover_sim:
  assumes "sim N init (cur, gs, f) j" "journal_meta_of env j = Ok m" "journal_on_disk (je_set env) dinv cont snap_nblocks N j disk"
    and "chain_stops (je_ssl env) (je_ring env) (ej_journal_chain j)" "N < fuel"
  shows "\<exists>d j'. f \<le> d \<and> d \<le> length gs \<and> journal_recover env fuel disk m p = Ok j' \<and>
    rfold (edit_group_apply_to (je_apply env)) (take d gs) init = Ok (ej_state j')"
proof -
  obtain gss pend where sim: "journal_inv env dinv cont tracks snap_nblocks N gss pend j" "journal_hist env init gs gss pend j"
      "f + length pend \<le> length gs" using assms(1) by (auto simp: journal_sim_def)
  obtain base where base: "rfold (edit_group_apply_to (je_apply env)) base init = Ok (sn_state (sm_snapshot (ej_snapshots j)))"
      "gs = base @ concat gss @ pend" using sim(2) by (auto simp: journal_hist_def)
  obtain s0 s1 s2 where areas: "journal_areas (je_set env) dinv snap_nblocks N disk s0 s1 s2"
      "map (\<lambda>b. cont (cb_block_set b)) (sm_blobs (ej_snapshots j)) = [cont s0, cont s1]"
      "cont s2 = cont (ring_storage (cc_block_log (ej_journal_chain j)))"
    using assms(3) by (auto simp: journal_on_disk_def)
  from sim(1) show ?thesis
  proof (rule journal_invD)
    fix mac
    let ?c = "ej_journal_chain j" and ?sm = "ej_snapshots j"
    assume inv: "snapshots_inv env dinv cont snap_nblocks (cc_end ?c) ?sm" "snapshots_latest_mac ?sm = Ok mac"
      "ring_chain_inv N (journal_blocks (je_postcard env) mac gss) ?c" "cc_start ?c = sn_recover_from (sm_snapshot ?sm)"
      "cc_end ?c - cc_start ?c < N" "\<forall>g \<in> set (concat gss). length g < 2 ^ 64"
      "rfold (edit_group_apply_to (je_apply env)) (concat gss @ pend) (sn_state (sm_snapshot ?sm)) = Ok (ej_state j)"
      "length mac = AES_GCM_MAC_SIZE" "cc_end ?c = cc_start ?c + 1 + length gss"
    have "snapshots_nblocks env ?sm = Ok snap_nblocks"
      using inv(1) by (auto simp: snapshots_inv_def snapshots_nblocks_def blob_has_def)
    then have m: "jm_snapshot_area_nblocks m = snap_nblocks" "snapshots_keys ?sm = Ok (jm_snapshot_area_keys m)"
        "jm_journal_area_nblocks m = N" "jm_journal_area_key m = cc_key ?c"
      using assms(2) inv(3) by (auto simp: journal_meta_of_def res_simps chain_inv_def ring_inv_def)
    obtain sm' where sm': "snapshots_recover env disk m = Ok sm'" "sm_snapshot sm' = sm_snapshot ?sm" "snapshots_latest_mac sm' = Ok mac"
      using snapshots_recover_spec [OF inv(1) areas(1,2) m(2,1)] inv(2) by auto
    obtain st where st: "rfold (edit_group_apply_to (je_apply env)) (concat gss) (sn_state (sm_snapshot ?sm)) = Ok st"
      using inv(7) by (auto simp: rfold_append res_simps)
    have s2: "dinv s2" "bs_nblocks (je_set env) s2 = N"
        "bs_subset (je_set env) disk (jm_snapshot_area_nblocks m * 2) (jm_snapshot_area_nblocks m * 2 + jm_journal_area_nblocks m) = Ok s2"
      using areas(1) m(1,3) by (simp_all add: journal_areas_def)
    obtain j' where "journal_recover env fuel disk m p = Ok j'" "ej_state j' = st"
      using journal_replay [OF sm'(1,3) inv(3,8,6) _ s2(3,1,2) areas(3) m(4) assms(4), of fuel st p] sm'(2) inv(4,5,9) st assms(5) by auto
    moreover have "rfold (edit_group_apply_to (je_apply env)) (take (length gs - length pend) gs) init = Ok st"
      using base st by (simp add: rfold_append)
    ultimately show ?thesis using sim(3) by (intro exI [of _ "length gs - length pend"] exI [of _ j']) auto
  qed
qed

end

section \<open>A setting\<close>

text \<open>
  An instance of what a journal relies on, on a \<open>MemDisk\<close> and with the default policy: the state is a number, an
  edit adds to it, and values are serialised with tags and lengths.
\<close>

fun take_record_ref :: "bytes \<Rightarrow> (byte journal_record \<times> bytes) option" where
  "take_record_ref [] = None"
| "take_record_ref (t # bs) =
    (if t = 0 then (if 16 \<le> length bs then Some (Version (take 16 bs), drop 16 bs) else None)
     else
       let n = le_nat (take 8 bs) in
       if 8 + n \<le> length bs then Some (Edit (take n (drop 8 bs)), drop (8 + n) bs) else None)"

fun ser_record_ref :: "byte journal_record \<Rightarrow> bytes" where
  "ser_record_ref (Version mac) = 0 # mac"
| "ser_record_ref (Edit g) = 1 # le_bytes 8 (length g) @ g"

definition postcard_ref :: "(byte, byte) postcard" where
  "postcard_ref = \<lparr>pc_ser_record = (\<lambda>r. Some (ser_record_ref r)), pc_take_record = take_record_ref,
    pc_ser_snapshot = (\<lambda>sn. Some (sn_state sn # le_bytes 8 (sn_recover_from sn))),
    pc_de_snapshot = (\<lambda>bs. case bs of [] \<Rightarrow> None | st # bs' \<Rightarrow> Some \<lparr>sn_state = st, sn_recover_from = le_nat bs'\<rparr>)\<rparr>"

definition demo_env :: "(byte, byte, memdisk, default_policy) journal_env" where
  "demo_env = \<lparr>je_pages = zero_pages, je_ssl = openssl_ref, je_set = memdisk_ops, je_postcard = postcard_ref,
    je_apply = (\<lambda>e st. Ok (st + e)), je_policy = default_compact_policy\<rparr>"

lemma demo_env_simps [simp]: "je_pages demo_env = zero_pages" "je_ssl demo_env = openssl_ref" "je_set demo_env = memdisk_ops"
    "je_postcard demo_env = postcard_ref" "je_apply demo_env = (\<lambda>e st. Ok (st + e))" "je_policy demo_env = default_compact_policy"
  by (simp_all add: demo_env_def)

lemma take_record_ser_ref:
  assumes "valid_record r"
  shows "take_record_ref (ser_record_ref r @ rest) = Some (r, rest)"
proof (cases r)
  case (Version mac)
  then show ?thesis using assms by (simp add: aes_sizes)
next
  case (Edit g)
  have "(2 :: nat) ^ 64 = 256 ^ 8" by simp
  then have "le_nat (le_bytes 8 (length g)) = length g" using assms Edit le_nat_bytes_exact [of "length g" 8] by simp
  then show ?thesis using Edit by (simp add: Let_def)
qed

interpretation pcr: postcard_laws postcard_ref
proof (unfold_locales, goal_cases)
  case (1 r)
  then show ?case by (cases r) (simp_all add: postcard_ref_def)
next
  case (5 sn bs)
  have "(2 :: nat) ^ 64 = 256 ^ 8" by simp
  then show ?case using 5 le_nat_bytes_exact [of "sn_recover_from sn" 8] by (cases sn) (auto simp: postcard_ref_def)
qed (auto simp: postcard_ref_def take_record_ser_ref)

interpretation js: journal_setting demo_env memdisk_inv memdisk_content default_policy_tracks 1
proof (rule journal_setting.intro, unfold demo_env_simps)
  show "journal_setting_axioms demo_env memdisk_inv memdisk_content 1"
  proof (unfold_locales, goal_cases)
    case (3 sn bs)
    then show ?case by (auto simp: postcard_ref_def HEADER_NBYTES_def BLOCK_SIZE_def)
  next
    case (4 mac bs)
    then show ?case by (auto simp: postcard_ref_def aes_sizes AVAIL_BLOCK_SIZE_def BLOCK_SIZE_def FOOTER_SIZE_def)
  qed (simp_all add: BLOCK_SIZE_def memdisk_flush_def)
qed (rule md.block_set_axioms ssl_ref.openssl_laws_axioms pcr.postcard_laws_axioms dcp.compact_policy_laws_axioms)+

definition demo_disk :: memdisk where
  "demo_disk = \<lparr>md_disk = replicate (10 * BLOCK_SIZE) 0, md_start = 0, md_end = 10\<rparr>"

lemma demo_areas: "journal_areas memdisk_ops memdisk_inv 1 8 demo_disk (demo_disk\<lparr>md_end := 1\<rparr>) (demo_disk\<lparr>md_start := 1, md_end := 2\<rparr>)
    (demo_disk\<lparr>md_start := 2\<rparr>)"
  by (simp add: journal_areas_def demo_disk_def memdisk_defs)

text \<open>A block of zeros ends a chain of this cipher, and the contents of the areas make up a disk.\<close>

lemma zero_block_stops:
  assumes "bl_read L (cc_block_log c) (cc_end c) 1 = Ok (replicate BLOCK_SIZE 0)" "cc_key c = replicate 16 1"
  shows "chain_stops openssl_ref L c"
proof -
  have "le_nat (replicate 4 0) = 0" by (simp add: numeral_eq_Suc)
  then have foot: "ft_len (footer_from_bytes (replicate FOOTER_SIZE 0)) = 0" "ft_this_mac (footer_from_bytes (replicate FOOTER_SIZE 0)) = replicate 16 0"
    by (simp_all add: footer_from_bytes_def FOOTER_SIZE_def min_def)
  have "slice_range (replicate BLOCK_SIZE (0 :: byte)) AVAIL_BLOCK_SIZE BLOCK_SIZE = Ok (replicate FOOTER_SIZE 0)"
    using footer_size_fits by (simp add: slice_range_def AVAIL_BLOCK_SIZE_def min_def)
  then show ?thesis
    using assms foot by (simp add: chain_stops_def recovery_next_def or_none_def Let_def aead_decrypt_def openssl_ref_def ok_or_def
        slice_range_def [of _ 0 0] numeral_eq_Suc)
qed

lemma demo_assemble:
  assumes "length c0 = BLOCK_SIZE" "length c1 = BLOCK_SIZE" "length c2 = 8 * BLOCK_SIZE"
  shows "\<exists>d s0 s1 s2. journal_areas memdisk_ops memdisk_inv 1 8 d s0 s1 s2 \<and>
    memdisk_content s0 = c0 \<and> memdisk_content s1 = c1 \<and> memdisk_content s2 = c2"
proof -
  let ?d = "\<lparr>md_disk = c0 @ c1 @ c2, md_start = 0, md_end = 10\<rparr>"
  have "journal_areas memdisk_ops memdisk_inv 1 8 ?d (?d\<lparr>md_end := 1\<rparr>) (?d\<lparr>md_start := 1, md_end := 2\<rparr>) (?d\<lparr>md_start := 2\<rparr>)"
    "memdisk_content (?d\<lparr>md_end := 1\<rparr>) = c0" "memdisk_content (?d\<lparr>md_start := 1, md_end := 2\<rparr>) = c1"
    "memdisk_content (?d\<lparr>md_start := 2\<rparr>) = c2"
    using assms by (simp_all add: journal_areas_def memdisk_defs)
  then show ?thesis by blast
qed

section \<open>Properties\<close>

text \<open>C1: A journal never loses a flushed edit group and never applies part of a group: after formatting a disk and any sequence of
  additions, aborts, commits and flushes, compactions included, the journal has the state of all committed groups; and recovery
  from its disk at that moment gives the state of a prefix of the committed groups that contains all flushed ones. The chain has to
  end where the journal stopped, the block behind it not being a continuation.\<close>

theorem journal_crash_consistent:
  assumes "journal_setting env dinv cont tracks n" "journal_areas (je_set env) dinv n N disk s0 s1 s2" "1 < N"
    and "n = (HEADER_NBYTES + state_max_nbytes + snapshot_meta_len + BLOCK_SIZE - 1) div BLOCK_SIZE"
    and "length key0 = AES_GCM_KEY_SIZE" "length key1 = AES_GCM_KEY_SIZE" "length key2 = AES_GCM_KEY_SIZE" "tracks p 0 N" "ivs_ok ivs"
    and "fold journal_spec_step ops ([], [], 0) = (cur, gs, flushed)" "\<forall>g \<in> set gs. group_fits (je_postcard env) g"
    and "rfold (edit_group_apply_to (je_apply env)) gs init = Ok st" "2 * length ops + 3 < 2 ^ 64"
  shows "\<exists>j0 j m. journal_format env (key0, key1) key2 ivs disk init state_max_nbytes p = Ok j0 \<and>
    rfold (journal_exec env ivs) ops j0 = Ok j \<and> ej_state j = st \<and> journal_meta_of env j = Ok m \<and>
    (\<forall>disk' fuel p'. journal_on_disk (je_set env) dinv cont n N j disk' \<and> chain_stops (je_ssl env) (je_ring env) (ej_journal_chain j) \<and>
      N < fuel \<longrightarrow>
      (\<exists>d j'. flushed \<le> d \<and> d \<le> length gs \<and> journal_recover env fuel disk' m p' = Ok j' \<and>
        rfold (edit_group_apply_to (je_apply env)) (take d gs) init = Ok (ej_state j')))"
proof -
  obtain j0 where j0: "journal_format env (key0, key1) key2 ivs disk init state_max_nbytes p = Ok j0" "ej_curr_edit_group j0 = Some []"
      "journal_inv env dinv cont tracks n N [] [] j0" "journal_hist env init [] [] [] j0" "cc_end (ej_journal_chain j0) = 1"
    using journal_setting.journal_format_spec [OF assms(1-9)] by blast
  have "journal_sim env dinv cont tracks n N init ([], [], 0) j0" using j0(2-4) by (auto simp: journal_sim_def)
  from journal_setting.journal_run_sim [OF assms(1) this assms(10,3,9,11,12)] assms(13) j0(5) obtain j
    where j: "rfold (journal_exec env ivs) ops j0 = Ok j" "journal_sim env dinv cont tracks n N init (cur, gs, flushed) j" by auto
  obtain gss pend where inv: "journal_inv env dinv cont tracks n N gss pend j" "journal_hist env init gs gss pend j"
    using j(2) by (auto simp: journal_sim_def)
  have "ej_state j = st" using journal_hist_state [OF inv] assms(12) by simp
  moreover obtain m where "journal_meta_of env j = Ok m"
    using inv(1) by (auto simp: journal_inv_def Let_def snapshots_inv_def journal_meta_of_def snapshots_nblocks_def snapshots_keys_def)
  ultimately show ?thesis using j0(1) j(1) journal_setting.journal_recover_sim [OF assms(1) j(2)] by metis
qed

text \<open>A journal of the example has a disk from which it can be recovered, before the ring wraps around.\<close>

lemma demo_recovers:
  assumes "js.sim 8 init s j" "js.chain_kept 8 c (ej_journal_chain j)" "cc_end (ej_journal_chain j) \<le> 7" "cc_key c = replicate 16 1"
    and "\<forall>pos \<in> {1..<8}. ring_blk (je_set demo_env) memdisk_content (cc_block_log c) pos
        = block_at (memdisk_content (demo_disk\<lparr>md_start := 2\<rparr>)) pos"
  shows "\<exists>disk. journal_on_disk (je_set demo_env) memdisk_inv memdisk_content 1 8 j disk"
    "chain_stops (je_ssl demo_env) (je_ring demo_env) (ej_journal_chain j)"
proof -
  let ?c = "ej_journal_chain j"
  obtain gss pend mac where inv: "snapshots_inv demo_env memdisk_inv memdisk_content 1 (cc_end ?c) (ej_snapshots j)"
      "js.ring_chain_inv 8 (journal_blocks postcard_ref mac gss) ?c"
    using assms(1) by (auto simp: journal_sim_def journal_inv_def Let_def)
  obtain b0 b1 where b: "sm_blobs (ej_snapshots j) = [b0, b1]" "memdisk_inv (cb_block_set b0)" "memdisk_nblocks (cb_block_set b0) = 1"
      "memdisk_inv (cb_block_set b1)" "memdisk_nblocks (cb_block_set b1) = 1"
    using inv(1) by (auto simp: snapshots_inv_def blob_has_def blob_holds_def)
  have r: "memdisk_inv (ring_storage (cc_block_log ?c))" "memdisk_nblocks (ring_storage (cc_block_log ?c)) = 8"
    using inv(2) by (simp_all add: chain_inv_def ring_inv_def)
  show "\<exists>disk. journal_on_disk (je_set demo_env) memdisk_inv memdisk_content 1 8 j disk"
    using demo_assemble [of "memdisk_content (cb_block_set b0)" "memdisk_content (cb_block_set b1)" "memdisk_content (ring_storage (cc_block_log ?c))"]
      b r by (simp add: journal_on_disk_def memdisk_content_length) metis
  have "0 < cc_end ?c" using inv(2) by (fastforce simp: chain_inv_def journal_blocks_def dest!: chain_seq_length)
  then have blk: "ring_blk memdisk_ops memdisk_content (cc_block_log ?c) (cc_end ?c) = block_at (memdisk_content (demo_disk\<lparr>md_start := 2\<rparr>)) (cc_end ?c)"
    using assms(2,3,5) by (simp add: ring_chain_kept_def)
  have "BLOCK_SIZE \<le> 8 * BLOCK_SIZE - cc_end ?c * BLOCK_SIZE"
    using mult_le_mono1 [OF assms(3), of BLOCK_SIZE] by linarith
  then have "block_at (memdisk_content (demo_disk\<lparr>md_start := 2\<rparr>)) (cc_end ?c) = replicate BLOCK_SIZE 0"
    by (simp add: demo_disk_def memdisk_defs block_at_def min_def)
  then have "bl_read (ring_ops memdisk_ops) (cc_block_log ?c) (cc_end ?c) 1 = Ok (replicate BLOCK_SIZE 0)"
    using md.ring_read_blk [OF r(1), of "cc_end ?c"] r(2) blk by (simp add: ring_ops_def)
  then show "chain_stops (je_ssl demo_env) (je_ring demo_env) ?c"
    using zero_block_stops [of "ring_ops memdisk_ops" ?c] assms(2,4) by (simp add: ring_chain_kept_def)
qed

theorem journal_crash_consistent_witness:
  "\<exists>j0 j m disk' j'. journal_format demo_env (replicate 16 1, replicate 16 2) (replicate 16 1) (\<lambda>_. replicate 12 0) demo_disk 0 100
      \<lparr>dp_used_blocks = 0, dp_total_blocks = 8\<rparr> = Ok j0 \<and>
    rfold (journal_exec demo_env (\<lambda>_. replicate 12 0)) [OpAdd 5, OpCommit, OpFlush] j0 = Ok j \<and> ej_state j = 5 \<and>
    journal_meta_of demo_env j = Ok m \<and> journal_recover demo_env 9 disk' m (ej_compaction_policy j) = Ok j' \<and> ej_state j' = 5"
proof -
  let ?ops = "[OpAdd 5, OpCommit, OpFlush] :: byte journal_op list" and ?ivs = "\<lambda>_ :: nat. replicate 12 0 :: bytes"
  let ?k0 = "replicate 16 1 :: bytes" and ?k1 = "replicate 16 2 :: bytes" and ?p = "\<lparr>dp_used_blocks = 0, dp_total_blocks = 8\<rparr>"
  have h: "1 < (8 :: nat)" "(1 :: nat) = (HEADER_NBYTES + 100 + snapshot_meta_len + BLOCK_SIZE - 1) div BLOCK_SIZE"
      "length ?k0 = AES_GCM_KEY_SIZE" "length ?k1 = AES_GCM_KEY_SIZE" "length ?k0 = AES_GCM_KEY_SIZE"
      "default_policy_tracks ?p 0 8" "ivs_ok ?ivs"
      "fold journal_spec_step ?ops ([], [], 0) = ([], [[5]], 1)"
      "\<forall>g \<in> set [[5]]. group_fits (je_postcard demo_env) g"
      "rfold (edit_group_apply_to (je_apply demo_env)) [[5]] 0 = Ok 5" "2 * length ?ops + 3 < 2 ^ 64"
    by (simp_all add: HEADER_NBYTES_def snapshot_meta_len_def BLOCK_SIZE_def aes_sizes default_policy_tracks_def ivs_ok_def group_fits_def
        postcard_ref_def ser_records_def AVAIL_BLOCK_SIZE_def FOOTER_SIZE_def edit_group_apply_to_def)
  have areas: "journal_areas (je_set demo_env) memdisk_inv 1 8 demo_disk (demo_disk\<lparr>md_end := 1\<rparr>)
      (demo_disk\<lparr>md_start := 1, md_end := 2\<rparr>) (demo_disk\<lparr>md_start := 2\<rparr>)" using demo_areas by simp
  obtain j0 j m where j: "journal_format demo_env (?k0, ?k1) ?k0 ?ivs demo_disk 0 100 ?p = Ok j0" "rfold (journal_exec demo_env ?ivs) ?ops j0 = Ok j"
      "ej_state j = 5" "journal_meta_of demo_env j = Ok m"
      "\<And>disk' fuel p'. journal_on_disk (je_set demo_env) memdisk_inv memdisk_content 1 8 j disk' \<Longrightarrow>
        chain_stops (je_ssl demo_env) (je_ring demo_env) (ej_journal_chain j) \<Longrightarrow> 8 < fuel \<Longrightarrow>
        \<exists>d j'. 1 \<le> d \<and> d \<le> length [[5 :: byte]] \<and> journal_recover demo_env fuel disk' m p' = Ok j' \<and>
          rfold (edit_group_apply_to (je_apply demo_env)) (take d [[5]]) 0 = Ok (ej_state j')"
    using journal_crash_consistent [OF js.journal_setting_axioms areas h] by blast
  obtain j0' where j0': "journal_format demo_env (?k0, ?k1) ?k0 ?ivs demo_disk 0 100 ?p = Ok j0'" "ej_curr_edit_group j0' = Some []"
      "journal_inv demo_env memdisk_inv memdisk_content default_policy_tracks 1 8 [] [] j0'" "journal_hist demo_env 0 [] [] [] j0'"
      "cc_end (ej_journal_chain j0') = 1" "cc_key (ej_journal_chain j0') = ?k0"
      "\<forall>pos \<in> {1..<8}. ring_blk (je_set demo_env) memdisk_content (cc_block_log (ej_journal_chain j0')) pos
        = block_at (memdisk_content (demo_disk\<lparr>md_start := 2\<rparr>)) pos"
    using js.journal_format_spec [OF areas h(1-7)] by blast
  have "js.sim 8 0 ([], [], 0) j0'" using j0'(2-4) by (auto simp: journal_sim_def)
  from js.journal_run_sim [OF this h(8,1,7,9,10)] j0'(5) j(1,2) j0'(1) have
    run: "js.sim 8 0 ([], [[5]], 1) j" "js.chain_kept 8 (ej_journal_chain j0') (ej_journal_chain j)" "cc_end (ej_journal_chain j) \<le> 7" by auto
  obtain disk' where disk': "journal_on_disk (je_set demo_env) memdisk_inv memdisk_content 1 8 j disk'"
    using demo_recovers(1) [OF run j0'(6,7)] by blast
  obtain d j' where "1 \<le> d" "d \<le> length [[5 :: byte]]" "journal_recover demo_env 9 disk' m (ej_compaction_policy j) = Ok j'"
      "rfold (edit_group_apply_to (je_apply demo_env)) (take d [[5]]) 0 = Ok (ej_state j')"
    using j(5) [OF disk' demo_recovers(2) [OF run j0'(6,7)], of 9 "ej_compaction_policy j"] by auto
  moreover from this have "ej_state j' = 5" by (simp add: edit_group_apply_to_def)
  ultimately show ?thesis using j(1-4) by blast
qed

context journal_setting
begin

text \<open>
  The first blob cannot be read and the second is the latest: the first is written again from the second, with its own key,
  and becomes the latest.
\<close>

lemma snapshots_recover_damaged:
  assumes "snapshots_inv env dinv cont snap_nblocks v sm" "sm_latest_index sm = 1" "journal_areas (je_set env) dinv snap_nblocks N disk s0 s1 s2"
    and "cont s1 = cont (cb_block_set (sm_blobs sm ! 1))" "snapshots_keys sm = Ok (jm_snapshot_area_keys m)" "jm_snapshot_area_nblocks m = snap_nblocks"
    and "\<forall>buf. length buf = snap_nblocks * BLOCK_SIZE \<longrightarrow>
      blob_read (je_pages env) (je_ssl env) (je_set env) buf (blob_open (fst (jm_snapshot_area_keys m)) s0) = Fail e"
  shows "\<exists>sm' bs c mac ver. snapshots_recover env disk m = Ok sm' \<and> sm_snapshot sm' = sm_snapshot sm \<and> snapshots_latest_mac sm' = Ok mac \<and>
    pc_ser_snapshot (je_postcard env) (sm_snapshot sm) = Some bs \<and>
    encrypt_aead (je_ssl env) (fst (jm_snapshot_area_keys m)) (iv_of_version ver) [] bs = Some (c, mac)"
proof -
  obtain b0 b1 h0 h1 sn0 sn1 where inv: "sm_blobs sm = [b0, b1]" "blob_has env dinv cont snap_nblocks b0 h0 sn0"
      "blob_has env dinv cont snap_nblocks b1 h1 sn1" "sm_snapshot sm = sn1"
    using assms(1,2) by (auto simp: snapshots_inv_def)
  have keys: "jm_snapshot_area_keys m = (cb_key b0, cb_key b1)" using assms(5) inv(1) by (simp add: snapshots_keys_def)
  have areas: "bs_subset (je_set env) disk 0 snap_nblocks = Ok s0" "bs_subset (je_set env) disk snap_nblocks (snap_nblocks * 2) = Ok s1"
      "dinv s0" "dinv s1" "bs_nblocks (je_set env) s0 = snap_nblocks" "bs_nblocks (je_set env) s1 = snap_nblocks"
    using assms(3) by (simp_all add: journal_areas_def)
  have "0 < snap_nblocks" using inv(2) by (auto simp: blob_has_def blob_holds_def)
  then obtain buf where buf: "buf_alloc (je_pages env) snap_nblocks = Ok buf" "length buf = snap_nblocks * BLOCK_SIZE"
    using buf_alloc_ready [OF pages] by blast
  let ?b0 = "blob_open (cb_key b0) s0" and ?b1 = "blob_open (cb_key b1) s1"
  have opn: "cb_key (blob_open k s) = k" "cb_header (blob_open k s) = None" "cb_block_set (blob_open k s) = s" for k and s :: 's
    by (simp_all add: blob_open_def)
  have l0: "snapshot_load env ?b0 buf = Ok (Fail NotFound, buf, ?b0)" using assms(7) buf(2) keys by (simp add: snapshot_load_def)
  note load1 = snapshot_load_spec [OF inv(3), of ?b1 buf, unfolded opn, OF refl refl areas(4,6) _ buf(2)]
  obtain buf1 where l1: "snapshot_load env ?b1 buf = Ok (Ok sn1, buf1, ?b1\<lparr>cb_header := Some h1\<rparr>)"
      and has: "blob_has env dinv cont snap_nblocks (?b1\<lparr>cb_header := Some h1\<rparr>) h1 sn1"
    using load1 assms(4) inv(1) by auto
  obtain bs where bs: "pc_ser_snapshot (je_postcard env) sn1 = Some bs"
      "blob_holds (je_ssl env) (je_set env) dinv cont (cb_key b1) h1 bs s1"
    using has by (auto simp: blob_has_def opn)
  have "length (cb_key b0) = AES_GCM_KEY_SIZE" using inv(2) by (auto simp: blob_has_def blob_holds_def)
  then obtain h' s' where rec: "blob_recover_from (je_pages env) (je_ssl env) (je_set env) (?b1\<lparr>cb_header := Some h1\<rparr>) ?b0
        = Ok (?b1\<lparr>cb_header := Some h1\<rparr>, ?b0\<lparr>cb_block_set := s', cb_header := Some h'\<rparr>)" "bh_version h' = bh_version h1"
      "blob_holds (je_ssl env) (je_set env) dinv cont (cb_key b0) h' bs s'"
    using disk.blob_recover_spec [OF ssl.openssl_laws_axioms pages, of ?b0 "?b1\<lparr>cb_header := Some h1\<rparr>" h1 bs] bs(2) areas(3,5,6)
    by (auto simp: opn)
  let ?sm = "\<lparr>sm_blobs = [?b0\<lparr>cb_block_set := s', cb_header := Some h'\<rparr>, ?b1\<lparr>cb_header := Some h1\<rparr>], sm_latest_index = 0, sm_buf = buf1,
    sm_snapshot = sn1\<rparr>"
  have "snapshots_recover env disk m = Ok ?sm"
    using assms(6) keys areas(1,2) buf(1) l0 l1 rec(1,2)
    by (simp add: snapshots_recover_def snapshots_repair_def blob_version_id_def snapshots_latest_def
        DEFAULT_LATEST_INDEX_def res_expect_def)
  moreover have "snapshots_latest_mac ?sm = Ok (bh_mac h')" by (simp add: snapshots_latest_mac_def blob_current_mac_def)
  moreover have "encrypt_aead (je_ssl env) (cb_key b0) (iv_of_version (bh_version h')) [] bs
      = Some (take (length bs) (drop HEADER_NBYTES (cont s')), bh_mac h')"
    using rec(3) by (simp add: blob_holds_def blob_image_def)
  ultimately show ?thesis using bs(1) inv(4) keys
    by - (rule exI [of _ ?sm], rule exI [of _ bs], rule exI, rule exI [of _ "bh_mac h'"], rule exI, auto)
qed

end

text \<open>C35: A crash while the first snapshot blob was written (the second being the latest) makes recovery forget the edits in the journal.
  The first blob is repaired from the second under its own key and taken as the latest, but the journal names the MAC of
  the second, so none of its edit groups is applied: the recovered state is that of the snapshot, although all groups are on
  the disk. The condition on MACs says that the two keys give different MACs.\<close>

theorem journal_recover_forgets:
  assumes "journal_setting env dinv cont tracks n" "journal_inv env dinv cont tracks n N gss pend j" "sm_latest_index (ej_snapshots j) = 1"
    and "journal_meta_of env j = Ok m" "journal_areas (je_set env) dinv n N disk s0 s1 s2"
    and "cont s1 = cont (cb_block_set (sm_blobs (ej_snapshots j) ! 1))"
    and "cont s2 = cont (ring_storage (cc_block_log (ej_journal_chain j)))"
    and "\<forall>buf. length buf = n * BLOCK_SIZE \<longrightarrow>
      blob_read (je_pages env) (je_ssl env) (je_set env) buf (blob_open (fst (jm_snapshot_area_keys m)) s0) = Fail e"
    and "chain_stops (je_ssl env) (je_ring env) (ej_journal_chain j)" "N < fuel"
    and "\<forall>bs c mac ver. pc_ser_snapshot (je_postcard env) (sm_snapshot (ej_snapshots j)) = Some bs \<and>
      encrypt_aead (je_ssl env) (fst (jm_snapshot_area_keys m)) (iv_of_version ver) [] bs = Some (c, mac) \<longrightarrow>
      snapshots_latest_mac (ej_snapshots j) \<noteq> Ok mac"
  shows "\<exists>j'. journal_recover env fuel disk m p = Ok j' \<and> ej_state j' = sn_state (sm_snapshot (ej_snapshots j))"
  using assms(2)
proof (rule journal_invD)
  fix mac
  let ?c = "ej_journal_chain j" and ?sm = "ej_snapshots j"
  assume inv: "snapshots_inv env dinv cont n (cc_end ?c) ?sm" "snapshots_latest_mac ?sm = Ok mac"
    "chain_inv (je_ssl env) (je_ring env) (ring_inv (je_set env) dinv N) (ring_blk (je_set env) cont)
      (journal_blocks (je_postcard env) mac gss) ?c" "cc_start ?c = sn_recover_from (sm_snapshot ?sm)"
    "cc_end ?c - cc_start ?c < N" "\<forall>g \<in> set (concat gss). length g < 2 ^ 64"
    "rfold (edit_group_apply_to (je_apply env)) (concat gss @ pend) (sn_state (sm_snapshot ?sm)) = Ok (ej_state j)"
    "length mac = AES_GCM_MAC_SIZE" "cc_end ?c = cc_start ?c + 1 + length gss"
  have "snapshots_nblocks env ?sm = Ok n"
    using inv(1) by (auto simp: snapshots_inv_def snapshots_nblocks_def blob_has_def)
  then have m: "jm_snapshot_area_nblocks m = n" "snapshots_keys ?sm = Ok (jm_snapshot_area_keys m)"
      "jm_journal_area_nblocks m = N" "jm_journal_area_key m = cc_key ?c"
    using assms(4) inv(3) by (auto simp: journal_meta_of_def res_simps chain_inv_def ring_inv_def)
  obtain sm' bs c mac' ver where sm': "snapshots_recover env disk m = Ok sm'" "sm_snapshot sm' = sm_snapshot ?sm"
      "snapshots_latest_mac sm' = Ok mac'" "pc_ser_snapshot (je_postcard env) (sm_snapshot ?sm) = Some bs"
      "encrypt_aead (je_ssl env) (fst (jm_snapshot_area_keys m)) (iv_of_version ver) [] bs = Some (c, mac')"
    using journal_setting.snapshots_recover_damaged [OF assms(1) inv(1) assms(3,5,6) m(2,1) assms(8)] by blast
  then have "mac \<noteq> mac'" using assms(11) inv(2) by blast
  moreover obtain st where "rfold (edit_group_apply_to (je_apply env)) (concat gss) (sn_state (sm_snapshot sm')) = Ok st"
    using inv(7) sm'(2) by (auto simp: rfold_append res_simps)
  moreover have s2: "dinv s2" "bs_nblocks (je_set env) s2 = N"
      "bs_subset (je_set env) disk (jm_snapshot_area_nblocks m * 2) (jm_snapshot_area_nblocks m * 2 + jm_journal_area_nblocks m) = Ok s2"
    using assms(5) m(1,3) by (simp_all add: journal_areas_def)
  ultimately show ?thesis
    using journal_setting.journal_replay [OF assms(1) sm'(1,3) inv(3,8,6) _ s2(3,1,2) assms(7) m(4) assms(9), of fuel st p] sm'(2) inv(4,5,9) assms(10)
    by auto
qed

text \<open>A snapshot area of zeros is not a blob.\<close>

lemma zero_blob_unreadable:
  assumes "memdisk_inv s" "memdisk_nblocks s = 1" "memdisk_content s = replicate BLOCK_SIZE 0"
  shows "blob_read zero_pages openssl_ref memdisk_ops buf (blob_open (replicate 16 1) s) = Fail DecryptFailed"
proof -
  have size: "HEADER_NBYTES \<le> BLOCK_SIZE" by (simp add: HEADER_NBYTES_def BLOCK_SIZE_def)
  have "read_slice zero_pages memdisk_ops s 0 HEADER_NBYTES = Ok (replicate HEADER_NBYTES 0)"
    using md.read_slice_correct [of s zero_pages HEADER_NBYTES 0] zero_pages_ready assms size
    by (simp add: HEADER_NBYTES_def pages_ready_def)
  moreover have "le_nat (replicate 8 0) = 0" by (simp add: numeral_eq_Suc)
  then have "header_from_bytes (replicate HEADER_NBYTES 0) = \<lparr>bh_version = 0, bh_mac = replicate 16 0, bh_payload_len = 0\<rparr>"
    by (simp add: header_from_bytes_def HEADER_NBYTES_def min_def)
  moreover have "blob_nblocks_for 0 = 1" using size by (simp add: blob_nblocks_for_def HEADER_NBYTES_def BLOCK_SIZE_def)
  moreover obtain b where "buf_alloc zero_pages 1 = Ok b" "buf_nblocks b = 1" using buf_alloc_ready [OF zero_pages_ready, of 1] by auto
  moreover have "memdisk_read s 0 1 = Ok (replicate BLOCK_SIZE 0)" using md.read_in_range [of s 1 0] assms by simp
  ultimately show ?thesis
    using assms(2) size
    by (simp add: blob_read_def blob_load_header_def blob_open_def blob_capacity_def Let_def slice_range_def aead_decrypt_def
        openssl_ref_def ok_or_def numeral_eq_Suc)
qed

theorem journal_recover_forgets_witness:
  "\<exists>(j :: (byte, byte, memdisk, default_policy) edit_journal) m disk j'. ej_state j = 8 \<and> journal_meta_of demo_env j = Ok m \<and>
    journal_recover demo_env 9 disk m (ej_compaction_policy j) = Ok j' \<and> ej_state j' = 3"
proof -
  let ?ivs = "\<lambda>_ :: nat. replicate 12 0 :: bytes" and ?k0 = "replicate 16 1 :: bytes" and ?k1 = "replicate 16 2 :: bytes"
  let ?s2 = "demo_disk\<lparr>md_start := 2\<rparr>" and ?sn = "\<lparr>sn_state = 3, sn_recover_from = 0\<rparr> :: byte snapshot"
  have areas: "journal_areas (je_set demo_env) memdisk_inv 1 8 demo_disk (demo_disk\<lparr>md_end := 1\<rparr>)
      (demo_disk\<lparr>md_start := 1, md_end := 2\<rparr>) ?s2" using demo_areas by simp
  have h: "(1 :: nat) = (HEADER_NBYTES + 100 + snapshot_meta_len + BLOCK_SIZE - 1) div BLOCK_SIZE"
      "length ?k0 = AES_GCM_KEY_SIZE" "length ?k1 = AES_GCM_KEY_SIZE"
    by (simp_all add: HEADER_NBYTES_def snapshot_meta_len_def BLOCK_SIZE_def aes_sizes)
  obtain sm0 where sm0: "snapshots_inv demo_env memdisk_inv memdisk_content 1 0 sm0" "sm_latest_index sm0 = 0" "snapshots_keys sm0 = Ok (?k0, ?k1)"
    using js.snapshots_create_spec [OF areas _ h, of 0] by auto
  then obtain sm where sm: "snapshots_inv demo_env memdisk_inv memdisk_content 1 1 sm" "sm_snapshot sm = ?sn" "sm_latest_index sm = 1"
      "snapshots_keys sm = Ok (?k0, ?k1)"
    using js.snapshots_persist_spec [OF sm0(1), of ?sn] by auto
  obtain b0 b1 h1 where b: "sm_blobs sm = [b0, b1]" "blob_has demo_env memdisk_inv memdisk_content 1 b1 h1 ?sn" "cb_key b1 = ?k1"
    using sm by (auto simp: snapshots_inv_def snapshots_keys_def)
  have "bh_mac h1 = ?k1" using b(2,3) by (auto simp: blob_has_def blob_holds_def blob_image_def openssl_ref_def split: if_splits)
  then have mac: "snapshots_latest_mac sm = Ok ?k1" using b sm(3) by (simp add: snapshots_latest_mac_def blob_current_mac_def blob_has_def)
  have fits: "length (ser_records postcard_ref [Version ?k1]) \<le> AVAIL_BLOCK_SIZE" "length (ser_records postcard_ref [Edit [5]]) \<le> AVAIL_BLOCK_SIZE"
      "length (replicate 12 0 :: bytes) = AES_GCM_IV_SIZE"
    by (simp_all add: ser_records_def postcard_ref_def AVAIL_BLOCK_SIZE_def BLOCK_SIZE_def FOOTER_SIZE_def aes_sizes)
  let ?c0 = "chain_new ?k0 (ring_set_cursor (ring_new ?s2) 0)"
  have "js.ring_chain_inv 8 [] ?c0"
    using areas h(2) by (intro chain_inv_new) (simp_all add: journal_areas_def ring_inv_def ring_ops_def ring_nblocks_def ring_set_cursor_def ring_new_def)
  moreover have c0: "cc_start ?c0 = 0" "cc_end ?c0 = 0" "cc_key ?c0 = ?k0" by (simp_all add: chain_new_def)
  ultimately obtain c1 where c1: "js.ring_chain_inv 8 [ser_records postcard_ref [Version ?k1]] c1" "cc_start c1 = 0" "cc_end c1 = 1" "js.chain_kept 8 ?c0 c1"
    using js.ring_chain_push [OF _ fits(3,1), of 8 "[]" ?c0] by auto
  then obtain c where c: "js.ring_chain_inv 8 (journal_blocks postcard_ref ?k1 [[[5]]]) c" "cc_start c = 0" "cc_end c = 2" "js.chain_kept 8 c1 c"
    using js.ring_chain_push [OF c1(1) fits(3,2)] by (auto simp: journal_blocks_def)
  obtain w where w: "write_buf_holds postcard_ref [] w" using write_buf_new_holds [OF zero_pages_ready] by blast
  let ?j = "\<lparr>ej_state = 8, ej_journal_chain = c, ej_snapshots = sm, ej_compaction_policy = \<lparr>dp_used_blocks = 2, dp_total_blocks = 8\<rparr>,
    ej_curr_edit_group = None :: byte edit_group option, ej_write_buf = w\<rparr>"
  have inv: "journal_inv demo_env memdisk_inv memdisk_content default_policy_tracks 1 8 [[[5]]] [] ?j"
    using snapshots_inv_mono [OF sm(1)] sm(2) mac c w
    by (intro journal_invI [where mac = ?k1]) (auto simp: default_policy_tracks_def edit_group_apply_to_def)
  then have sim: "js.sim 8 3 ([], [[5]], 1) ?j" using sm(2) by (auto simp: journal_sim_def journal_hist_def)
  have kept: "js.chain_kept 8 ?c0 (ej_journal_chain ?j)" using chain_kept_trans [OF c1(4) c(4)] by simp
  have zero: "\<forall>pos \<in> {1..<8}. ring_blk (je_set demo_env) memdisk_content (cc_block_log ?c0) pos = block_at (memdisk_content ?s2) pos"
    using areas by (simp add: ring_blk_def chain_new_def ring_set_cursor_def ring_new_def journal_areas_def)
  have stops: "chain_stops (je_ssl demo_env) (je_ring demo_env) (ej_journal_chain ?j)"
    using demo_recovers(2) [OF sim kept _ c0(3) zero] c(3) by simp
  have ri: "memdisk_inv (ring_storage (cc_block_log c))" "memdisk_nblocks (ring_storage (cc_block_log c)) = 8"
      "memdisk_inv (cb_block_set b1)" "memdisk_nblocks (cb_block_set b1) = 1"
    using c(1) b(2) by (auto simp: chain_inv_def ring_inv_def blob_has_def blob_holds_def)
  obtain d s0 s1 s2 where d: "journal_areas (je_set demo_env) memdisk_inv 1 8 d s0 s1 s2" "memdisk_content s0 = replicate BLOCK_SIZE 0"
      "memdisk_content s1 = memdisk_content (cb_block_set (sm_blobs (ej_snapshots ?j) ! 1))"
      "memdisk_content s2 = memdisk_content (ring_storage (cc_block_log (ej_journal_chain ?j)))"
    using demo_assemble [of "replicate BLOCK_SIZE 0" "memdisk_content (cb_block_set b1)" "memdisk_content (ring_storage (cc_block_log c))"]
      ri b(1) by (auto simp: memdisk_content_length)
  obtain m where m: "journal_meta_of demo_env ?j = Ok m" "jm_snapshot_area_keys m = (?k0, ?k1)"
    using sm(4) b(1) by (auto simp: journal_meta_of_def snapshots_nblocks_def)
  have bad: "\<forall>buf. length buf = 1 * BLOCK_SIZE \<longrightarrow> blob_read (je_pages demo_env) (je_ssl demo_env) (je_set demo_env) buf
      (blob_open (fst (jm_snapshot_area_keys m)) s0) = Fail DecryptFailed"
    using zero_blob_unreadable [of s0] d(1,2) m(2) by (simp add: journal_areas_def)
  have "\<exists>j'. journal_recover demo_env 9 d m (ej_compaction_policy ?j) = Ok j' \<and> ej_state j' = sn_state (sm_snapshot (ej_snapshots ?j))"
    by (rule journal_recover_forgets [OF js.journal_setting_axioms inv _ m(1) d(1,3,4) bad stops])
      (use sm(3) mac m(2) in \<open>auto simp: openssl_ref_def\<close>)
  then show ?thesis using m(1) sm(2) by (intro exI [of _ ?j]) auto
qed

end
