(* ===== verification/Range_Query.thy ===== *)
theory Range_Query
  imports Bit_Map
begin

text \<open>
  The context of a range query (\<open>core/src/layers/4-lsm/range_query_ctx.rs\<close>).

  A context has one slot for each of \<open>num_values\<close> keys from \<open>start\<close> on, and a bitmap of the slots that have been
  filled. Keys are numbers, as for all users of the tree; \<open>key - start\<close> below zero is a panic.

  The lemmas: the smallest unfilled slot is maintained exactly, the unfilled range covers every unfilled slot, and a
  slot keeps the first value it is given.
\<close>

record 'v range_query_ctx =
  rq_start :: nat
  rq_num_values :: nat
  rq_complete_table :: bitmap
  rq_min_uncompleted :: nat
  rq_res :: "(nat \<times> 'v) list"

definition range_query_new :: "bittle \<Rightarrow> nat \<Rightarrow> nat \<Rightarrow> 'v range_query_ctx res" where
  "range_query_new bt start num_values =
    rbind (bitmap_repeat bt False num_values) (\<lambda>complete_table.
      Ok \<lparr>rq_start = start, rq_num_values = num_values, rq_complete_table = complete_table, rq_min_uncompleted = 0,
        rq_res = []\<rparr>)"

definition rq_is_completed :: "'v range_query_ctx \<Rightarrow> bool" where
  "rq_is_completed ctx \<longleftrightarrow> rq_min_uncompleted ctx = rq_num_values ctx"

definition range_uncompleted :: "bittle \<Rightarrow> 'v range_query_ctx \<Rightarrow> (nat \<times> nat) option res" where
  "range_uncompleted bt ctx =
    (if rq_is_completed ctx then Ok None
     else
       rbind (rassert (rq_min_uncompleted ctx < rq_num_values ctx)) (\<lambda>_.
       let first_uncompleted = rq_start ctx + rq_min_uncompleted ctx in
       rbind (bitmap_last_zero bt (rq_complete_table ctx)) (\<lambda>last.
         Ok (map_option (\<lambda>l. (first_uncompleted, rq_start ctx + l)) last))))"

definition contains_uncompleted :: "bittle \<Rightarrow> nat \<Rightarrow> 'v range_query_ctx \<Rightarrow> bool res" where
  "contains_uncompleted bt key ctx =
    rbind (checked_sub key (rq_start ctx)) (\<lambda>nth.
      if nth < rq_num_values ctx
      then rbind (bitmap_test_bit bt (rq_complete_table ctx) nth) (\<lambda>b. Ok (\<not> b))
      else Ok False)"

definition update_min_uncompleted :: "bittle \<Rightarrow> nat \<Rightarrow> 'v range_query_ctx \<Rightarrow> 'v range_query_ctx res" where
  "update_min_uncompleted bt completed_nth ctx =
    (if rq_min_uncompleted ctx = completed_nth
     then
       rbind (bitmap_first_zero bt (rq_complete_table ctx) completed_nth) (\<lambda>next_uncompleted.
         Ok (ctx\<lparr>rq_min_uncompleted := (case next_uncompleted of Some n \<Rightarrow> n | None \<Rightarrow> rq_num_values ctx)\<rparr>))
     else Ok ctx)"

definition rq_complete :: "bittle \<Rightarrow> nat \<Rightarrow> 'v \<Rightarrow> 'v range_query_ctx \<Rightarrow> 'v range_query_ctx res" where
  "rq_complete bt key value ctx =
    rbind (checked_sub key (rq_start ctx)) (\<lambda>nth.
    rbind (bitmap_test_bit bt (rq_complete_table ctx) nth) (\<lambda>b.
      if b then Ok ctx
      else
        let ctx = ctx\<lparr>rq_res := rq_res ctx @ [(key, value)]\<rparr> in
        rbind (bitmap_set bt (rq_complete_table ctx) nth True) (\<lambda>complete_table.
          update_min_uncompleted bt nth (ctx\<lparr>rq_complete_table := complete_table\<rparr>))))"

definition rq_mark_completed :: "bittle \<Rightarrow> nat \<Rightarrow> 'v range_query_ctx \<Rightarrow> 'v range_query_ctx res" where
  "rq_mark_completed bt key ctx =
    rbind (checked_sub key (rq_start ctx)) (\<lambda>nth.
    rbind (bitmap_set bt (rq_complete_table ctx) nth True) (\<lambda>complete_table.
      update_min_uncompleted bt nth (ctx\<lparr>rq_complete_table := complete_table\<rparr>)))"

definition rq_into_results :: "'v range_query_ctx \<Rightarrow> (nat \<times> 'v) list res" where
  "rq_into_results ctx = rbind (rassert (rq_is_completed ctx)) (\<lambda>_. Ok (rq_res ctx))"

section \<open>Invariant\<close>

declare bitmap_abs_nth [simp del]

lemma find_rev_upt: "find P (rev [0..<n]) = Some k \<Longrightarrow> k < n \<and> P k \<and> (\<forall>i < n. k < i \<longrightarrow> \<not> P i)"
  by (induction n) (auto split: if_splits simp: less_Suc_eq)

text \<open>The keys whose slots are filled.\<close>

definition rq_done :: "bittle \<Rightarrow> 'v range_query_ctx \<Rightarrow> nat set" where
  "rq_done bt ctx = {rq_start ctx + i | i. i < rq_num_values ctx \<and> bitmap_abs bt (rq_complete_table ctx) ! i}"

definition rq_inv :: "bittle \<Rightarrow> 'v range_query_ctx \<Rightarrow> bool" where
  "rq_inv bt ctx \<longleftrightarrow> bitmap_inv bt (rq_complete_table ctx) \<and> bm_nbits (rq_complete_table ctx) = rq_num_values ctx \<and>
    rq_min_uncompleted ctx \<le> rq_num_values ctx \<and>
    (\<forall>i < rq_min_uncompleted ctx. rq_start ctx + i \<in> rq_done bt ctx) \<and>
    (rq_min_uncompleted ctx < rq_num_values ctx \<longrightarrow> rq_start ctx + rq_min_uncompleted ctx \<notin> rq_done bt ctx)"

lemma rq_done_iff: "rq_start ctx + i \<in> rq_done bt ctx \<longleftrightarrow> i < rq_num_values ctx \<and> bitmap_abs bt (rq_complete_table ctx) ! i"
  by (auto simp: rq_done_def)

lemma rq_inv_iff: "rq_inv bt ctx \<longleftrightarrow> bitmap_inv bt (rq_complete_table ctx) \<and> bm_nbits (rq_complete_table ctx) = rq_num_values ctx \<and>
    rq_min_uncompleted ctx \<le> rq_num_values ctx \<and>
    (\<forall>i < rq_min_uncompleted ctx. bitmap_abs bt (rq_complete_table ctx) ! i) \<and>
    (rq_min_uncompleted ctx < rq_num_values ctx \<longrightarrow> \<not> bitmap_abs bt (rq_complete_table ctx) ! rq_min_uncompleted ctx)"
  unfolding rq_inv_def rq_done_iff by (meson less_le_trans)

lemma rq_done_range: "k \<in> rq_done bt ctx \<Longrightarrow> rq_start ctx \<le> k \<and> k < rq_start ctx + rq_num_values ctx"
  by (auto simp: rq_done_def)

lemma rq_completed_iff:
  assumes "rq_inv bt ctx"
  shows "rq_is_completed ctx \<longleftrightarrow> {rq_start ctx..<rq_start ctx + rq_num_values ctx} \<subseteq> rq_done bt ctx"
proof
  assume "rq_is_completed ctx"
  then have "rq_start ctx + i \<in> rq_done bt ctx" if "i < rq_num_values ctx" for i
    using assms that by (simp add: rq_inv_def rq_is_completed_def)
  then show "{rq_start ctx..<rq_start ctx + rq_num_values ctx} \<subseteq> rq_done bt ctx"
    by (auto simp: le_iff_add)
next
  assume "{rq_start ctx..<rq_start ctx + rq_num_values ctx} \<subseteq> rq_done bt ctx"
  then have "rq_start ctx + rq_min_uncompleted ctx \<in> rq_done bt ctx" if "rq_min_uncompleted ctx < rq_num_values ctx"
    using that by auto
  then show "rq_is_completed ctx"
    using assms by (auto simp: rq_inv_def rq_is_completed_def le_less)
qed

context bittle_laws
begin

lemma range_query_new_spec:
  assumes "64 * ((n + 63) div 64) < 2 ^ 32"
  shows "\<exists>ctx. range_query_new bt start n = Ok ctx \<and> rq_inv bt ctx \<and> rq_start ctx = start \<and> rq_num_values ctx = n \<and>
    rq_res ctx = [] \<and> rq_done bt ctx = {}"
proof -
  obtain bm where bm: "bitmap_repeat bt False n = Ok bm" "bitmap_inv bt bm" "bitmap_abs bt bm = replicate n False"
    using bitmap_repeat_spec [OF assms] by blast
  then have "bm_nbits bm = n" using bitmap_abs_length [of bt bm] by simp
  then show ?thesis using bm by (auto simp: range_query_new_def rq_inv_def rq_done_def)
qed

text \<open>Filling a slot: the core of \<open>complete\<close> and \<open>mark_completed\<close>.\<close>

lemma rq_fill_spec:
  assumes "rq_inv bt ctx" "i < rq_num_values ctx"
  shows "\<exists>bm ctx'. bitmap_set bt (rq_complete_table ctx) i True = Ok bm \<and>
    update_min_uncompleted bt i (ctx\<lparr>rq_complete_table := bm\<rparr>) = Ok ctx' \<and> rq_inv bt ctx' \<and> rq_start ctx' = rq_start ctx \<and>
    rq_num_values ctx' = rq_num_values ctx \<and> rq_res ctx' = rq_res ctx \<and> rq_done bt ctx' = insert (rq_start ctx + i) (rq_done bt ctx)"
proof -
  let ?n = "rq_num_values ctx" and ?m = "rq_min_uncompleted ctx" and ?xs = "bitmap_abs bt (rq_complete_table ctx)"
  have inv: "bitmap_inv bt (rq_complete_table ctx)" "bm_nbits (rq_complete_table ctx) = ?n" "?m \<le> ?n"
      "\<forall>j < ?m. ?xs ! j" "?m < ?n \<longrightarrow> \<not> ?xs ! ?m"
    using assms(1) by (auto simp: rq_inv_iff)
  obtain bm where bm: "bitmap_set bt (rq_complete_table ctx) i True = Ok bm" "bitmap_inv bt bm" "bm_nbits bm = ?n"
      "bitmap_abs bt bm = ?xs[i := True]"
    using bitmap_set_spec [OF inv(1), of i True] assms(2) inv(2) by auto
  have len: "length ?xs = ?n" using inv(2) by simp
  have nth: "?xs[i := True] ! j = (j = i \<or> ?xs ! j)" if "j < ?n" for j using that len by (cases "i = j") (simp_all add: nth_list_update)
  let ?ctx = "\<lambda>m. ctx\<lparr>rq_complete_table := bm, rq_min_uncompleted := m\<rparr>"
  have done': "rq_done bt (?ctx m) = insert (rq_start ctx + i) (rq_done bt ctx)" for m
    using bm(4) nth assms(2) by (auto simp: rq_done_def)
  show ?thesis
  proof (cases "?m = i")
    case False
    then have "rq_inv bt (?ctx ?m)"
      using bm inv nth by (auto simp: rq_inv_iff)
    then show ?thesis using False bm(1) done' [of ?m] by (auto simp: update_min_uncompleted_def)
  next
    case True
    have fz: "bitmap_first_zero bt bm i = Ok (find (\<lambda>j. i \<le> j \<and> \<not> ?xs[i := True] ! j) [0..<?n])"
      using bitmap_first_zero_spec [OF bm(2), of i] bm(3,4) assms(2) by simp
    show ?thesis
    proof (cases "find (\<lambda>j. i \<le> j \<and> \<not> ?xs[i := True] ! j) [0..<?n]")
      case None
      then have "\<forall>j < ?n. i \<le> j \<longrightarrow> ?xs[i := True] ! j" by (auto simp: find_upt_None)
      then have "rq_inv bt (?ctx ?n)"
        using bm inv(4) True nth by (auto simp: rq_inv_iff)
      then show ?thesis using True None fz bm(1) done' [of ?n] by (auto simp: update_min_uncompleted_def)
    next
      case (Some j)
      then have j: "j < ?n" "i \<le> j" "\<not> ?xs[i := True] ! j" "\<forall>k < j. i \<le> k \<longrightarrow> ?xs[i := True] ! k"
        by (auto simp: find_upt_Some)
      then have "rq_inv bt (?ctx j)"
        using bm inv(4) True nth by (auto simp: rq_inv_iff)
      then show ?thesis using True Some fz bm(1) done' [of j] by (auto simp: update_min_uncompleted_def)
    qed
  qed
qed

text \<open>A slot keeps its first value.\<close>

lemma rq_complete_spec:
  assumes "rq_inv bt ctx" "rq_start ctx \<le> key" "key < rq_start ctx + rq_num_values ctx"
  shows "\<exists>ctx'. rq_complete bt key value ctx = Ok ctx' \<and> rq_inv bt ctx' \<and> rq_start ctx' = rq_start ctx \<and>
    rq_num_values ctx' = rq_num_values ctx \<and> rq_done bt ctx' = insert key (rq_done bt ctx) \<and>
    rq_res ctx' = rq_res ctx @ (if key \<in> rq_done bt ctx then [] else [(key, value)])"
proof -
  let ?i = "key - rq_start ctx"
  have i: "?i < rq_num_values ctx" "rq_start ctx + ?i = key" using assms(2,3) by auto
  have test: "bitmap_test_bit bt (rq_complete_table ctx) ?i = Ok (key \<in> rq_done bt ctx)"
    using bitmap_test_bit_spec [of "rq_complete_table ctx" ?i] assms(1) i rq_done_iff [of ctx ?i bt] by (simp add: rq_inv_def)
  show ?thesis
  proof (cases "key \<in> rq_done bt ctx")
    case True
    then show ?thesis using assms test by (auto simp: rq_complete_def insert_absorb)
  next
    case False
    let ?ctx = "ctx\<lparr>rq_res := rq_res ctx @ [(key, value)]\<rparr>"
    have "rq_inv bt ?ctx" using assms(1) by (simp add: rq_inv_def rq_done_def)
    from rq_fill_spec [OF this, of ?i] i show ?thesis
      using assms(2) test False by (auto simp: rq_complete_def rq_done_def)
  qed
qed

lemma rq_mark_completed_spec:
  assumes "rq_inv bt ctx" "rq_start ctx \<le> key" "key < rq_start ctx + rq_num_values ctx"
  shows "\<exists>ctx'. rq_mark_completed bt key ctx = Ok ctx' \<and> rq_inv bt ctx' \<and> rq_start ctx' = rq_start ctx \<and>
    rq_num_values ctx' = rq_num_values ctx \<and> rq_done bt ctx' = insert key (rq_done bt ctx) \<and> rq_res ctx' = rq_res ctx"
proof -
  have "key - rq_start ctx < rq_num_values ctx" using assms(2,3) by auto
  from rq_fill_spec [OF assms(1) this] show ?thesis using assms(2) by (auto simp: rq_mark_completed_def)
qed

text \<open>The uncompleted range has every unfilled slot of the query and no key outside it.\<close>

lemma range_uncompleted_spec:
  assumes "rq_inv bt ctx" "\<not> rq_is_completed ctx"
  shows "\<exists>a b. range_uncompleted bt ctx = Ok (Some (a, b)) \<and> rq_start ctx \<le> a \<and> a \<le> b \<and> b < rq_start ctx + rq_num_values ctx \<and>
    (\<forall>k \<in> {rq_start ctx..<rq_start ctx + rq_num_values ctx}. k \<notin> rq_done bt ctx \<longrightarrow> a \<le> k \<and> k \<le> b)"
proof -
  let ?n = "rq_num_values ctx" and ?m = "rq_min_uncompleted ctx" and ?xs = "bitmap_abs bt (rq_complete_table ctx)"
  have inv: "bitmap_inv bt (rq_complete_table ctx)" "bm_nbits (rq_complete_table ctx) = ?n" "?m < ?n" "\<forall>j < ?m. ?xs ! j" "\<not> ?xs ! ?m"
    using assms by (auto simp: rq_inv_iff rq_is_completed_def)
  have last: "bitmap_last_zero bt (rq_complete_table ctx) = Ok (find (\<lambda>i. \<not> ?xs ! i) (rev [0..<?n]))"
    using bitmap_last_zero_spec [OF inv(1)] inv(2) by simp
  have "find (\<lambda>i. \<not> ?xs ! i) (rev [0..<?n]) \<noteq> None"
    using inv(3,5) by (auto simp: find_None_iff)
  then obtain l where l: "find (\<lambda>i. \<not> ?xs ! i) (rev [0..<?n]) = Some l" by blast
  note ll = find_rev_upt [OF l]
  have run: "range_uncompleted bt ctx = Ok (Some (rq_start ctx + ?m, rq_start ctx + l))"
    using assms(2) inv(3) last l by (simp add: range_uncompleted_def Let_def)
  have slot: "?m \<le> j \<and> j \<le> l" if "j < ?n" "\<not> ?xs ! j" for j
    using that ll inv(4) by (meson not_le)
  have "rq_start ctx + ?m \<le> k \<and> k \<le> rq_start ctx + l"
    if "k \<in> {rq_start ctx..<rq_start ctx + ?n}" "k \<notin> rq_done bt ctx" for k
  proof -
    have k: "k = rq_start ctx + (k - rq_start ctx)" "k - rq_start ctx < ?n" using that(1) by auto
    then have "\<not> ?xs ! (k - rq_start ctx)" using that(2) rq_done_iff [of ctx "k - rq_start ctx" bt] by simp
    from slot [OF k(2) this] k(1) show ?thesis by linarith
  qed
  moreover have "?m \<le> l" using ll inv(3,5) by (meson not_le)
  ultimately show ?thesis using run ll by (intro exI [of _ "rq_start ctx + ?m"] exI [of _ "rq_start ctx + l"]) auto
qed

end

end
