(* ===== verification/Mem_Table.thy ===== *)
theory Mem_Table
  imports Range_Query
begin

text \<open>
  The in-memory tables of the LSM tree (\<open>core/src/layers/4-lsm/mem_table.rs\<close>).

  A table has for each key the last synced and the last unsynced value, as far as there are such. \<open>mem_table\<close> is the
  struct; its \<open>BTreeMap\<close> is an ordered association list. The callback \<open>on_drop_record\<close> only observes the table: an
  operation returns the list of records it was called with, which is empty when there is no callback. Keys are
  numbers.

  \<open>mem_table_manager\<close> has the table that is written and the one that is being flushed. A \<open>put\<close> waits while the
  former is full; \<open>mgr_put\<close> is \<open>None\<close> as long as it waits.

  The properties: a table keeps exactly the versions that puts and syncs produce, and calls back for each value that is
  superseded; a range query on the manager agrees with point queries.
\<close>

datatype 'v value_ex = Synced 'v | Unsynced 'v | SyncedAndUnsynced 'v 'v

fun value_ex_new :: "'v \<Rightarrow> 'v value_ex" where
  "value_ex_new value = Unsynced value"

fun value_ex_get :: "'v value_ex \<Rightarrow> 'v" where
  "value_ex_get (Synced v) = v"
| "value_ex_get (Unsynced v) = v"
| "value_ex_get (SyncedAndUnsynced _ v) = v"

fun value_ex_put :: "'v \<Rightarrow> 'v value_ex \<Rightarrow> 'v option \<times> 'v value_ex" where
  "value_ex_put value (Synced v) = (None, SyncedAndUnsynced v value)"
| "value_ex_put value (Unsynced v) = (Some v, Unsynced value)"
| "value_ex_put value (SyncedAndUnsynced sv usv) = (Some usv, SyncedAndUnsynced sv value)"

fun contains_unsynced :: "'v value_ex \<Rightarrow> bool" where
  "contains_unsynced (Unsynced _) = True"
| "contains_unsynced (SyncedAndUnsynced _ _) = True"
| "contains_unsynced (Synced _) = False"

fun value_ex_sync :: "'v value_ex \<Rightarrow> ('v option \<times> 'v value_ex) res" where
  "value_ex_sync (Unsynced v) = Ok (None, Synced v)"
| "value_ex_sync (SyncedAndUnsynced sv usv) = Ok (Some sv, Synced usv)"
| "value_ex_sync (Synced _) = Panics"

record 'v mem_table =
  mt_table :: "(nat \<times> 'v value_ex) list"
  mt_size :: nat
  mt_cap :: nat
  mt_sync_id :: nat
  mt_unsynced_range :: "(nat \<times> nat) option"
  mt_on_drop_record :: bool

definition mem_table_new :: "nat \<Rightarrow> nat \<Rightarrow> bool \<Rightarrow> 'v mem_table" where
  "mem_table_new cap sync_id on_drop_record =
    \<lparr>mt_table = [], mt_size = 0, mt_cap = cap, mt_sync_id = sync_id, mt_unsynced_range = None,
      mt_on_drop_record = on_drop_record\<rparr>"

definition mem_table_get :: "nat \<Rightarrow> 'v mem_table \<Rightarrow> 'v option" where
  "mem_table_get key t = map_option value_ex_get (map_of (mt_table t) key)"

text \<open>\<open>BTreeMap::range\<close> with an inclusive range; it panics when the start is greater than the end.\<close>

definition btree_range :: "nat \<Rightarrow> nat \<Rightarrow> (nat \<times> 'v) list \<Rightarrow> (nat \<times> 'v) list res" where
  "btree_range a b m = (if b < a then Panics else Ok (filter (\<lambda>(k, _). a \<le> k \<and> k \<le> b) m))"

definition mem_table_get_range ::
    "bittle \<Rightarrow> 'v mem_table \<Rightarrow> 'v range_query_ctx \<Rightarrow> (bool \<times> 'v range_query_ctx) res" where
  "mem_table_get_range bt t ctx =
    rbind (rassert (\<not> rq_is_completed ctx)) (\<lambda>_.
    rbind (range_uncompleted bt ctx) (\<lambda>r.
    rbind (res_unwrap r) (\<lambda>(a, b).
    rbind (btree_range a b (mt_table t)) (\<lambda>entries.
    rbind (rfold (\<lambda>(k, v_ex) ctx. rq_complete bt k (value_ex_get v_ex) ctx) entries ctx) (\<lambda>ctx.
      Ok (rq_is_completed ctx, ctx))))))"

text \<open>The call of the callback, if there is one.\<close>

definition drop_calls :: "'v mem_table \<Rightarrow> nat \<Rightarrow> 'v option \<Rightarrow> (nat \<times> 'v) list" where
  "drop_calls t key dropped =
    (if mt_on_drop_record t then (case dropped of None \<Rightarrow> [] | Some v \<Rightarrow> [(key, v)]) else [])"

definition extend_range :: "nat \<Rightarrow> nat \<times> nat \<Rightarrow> nat \<times> nat" where
  "extend_range key = (\<lambda>(a, b). if \<not> a < b then (key, key + 1) else (min key a, max (key + 1) b))"

definition mem_table_put ::
    "nat \<Rightarrow> 'v \<Rightarrow> 'v mem_table \<Rightarrow> 'v option \<times> (nat \<times> 'v) list \<times> 'v mem_table" where
  "mem_table_put key value t =
    (let (dropped_value, table, sz) =
       (case map_of (mt_table t) key of
          Some value_ex \<Rightarrow>
            let (dropped, value_ex') = value_ex_put value value_ex in
            (dropped, btree_insert key value_ex' (mt_table t),
             case dropped of Some _ \<Rightarrow> mt_size t | None \<Rightarrow> mt_size t + 1)
        | None \<Rightarrow> (None, btree_insert key (value_ex_new value) (mt_table t), mt_size t + 1)) in
     (dropped_value, drop_calls t key dropped_value,
      t\<lparr>mt_table := table, mt_size := sz, mt_unsynced_range := map_option (extend_range key) (mt_unsynced_range t)\<rparr>))"

text \<open>
  The loop of \<open>sync\<close> over the entries, in place: the entries in the range that have an unsynced value are synced.
\<close>

definition in_sync_range :: "(nat \<times> nat) option \<Rightarrow> nat \<Rightarrow> bool" where
  "in_sync_range r k = (case r of None \<Rightarrow> True | Some (a, b) \<Rightarrow> a \<le> k \<and> k < b)"

fun sync_entries ::
    "bool \<Rightarrow> (nat \<times> nat) option \<Rightarrow> (nat \<times> 'v value_ex) list \<Rightarrow> nat \<times> (nat \<times> 'v) list \<Rightarrow>
      ((nat \<times> 'v value_ex) list \<times> nat \<times> (nat \<times> 'v) list) res" where
  "sync_entries cb r [] (sz, calls) = Ok ([], sz, calls)"
| "sync_entries cb r ((k, v_ex) # m) (sz, calls) =
    (if in_sync_range r k \<and> contains_unsynced v_ex
     then
       rbind (value_ex_sync v_ex) (\<lambda>(dropped, v_ex').
       rbind (case dropped of
                None \<Rightarrow> Ok (sz, calls)
              | Some d \<Rightarrow>
                  rbind (checked_sub sz 1) (\<lambda>sz'. Ok (sz', if cb then calls @ [(k, d)] else calls)))
         (\<lambda>st. rbind (sync_entries cb r m st) (\<lambda>(m', st'). Ok ((k, v_ex') # m', st'))))
     else rbind (sync_entries cb r m (sz, calls)) (\<lambda>(m', st'). Ok ((k, v_ex) # m', st')))"

definition mem_table_sync :: "nat \<Rightarrow> 'v mem_table \<Rightarrow> ((nat \<times> 'v) list \<times> 'v mem_table) res" where
  "mem_table_sync sync_id t =
    rbind (rassert (mt_sync_id t \<le> sync_id)) (\<lambda>_.
    if mt_sync_id t = sync_id then Ok ([], t)
    else
      rbind (rassert (case mt_unsynced_range t of None \<Rightarrow> True | Some (a, b) \<Rightarrow> a \<le> b)) (\<lambda>_.
      rbind (sync_entries (mt_on_drop_record t) (mt_unsynced_range t) (mt_table t) (mt_size t, [])) (\<lambda>(table, sz, calls).
        Ok (calls, t\<lparr>mt_table := table, mt_size := sz, mt_sync_id := sync_id,
          mt_unsynced_range := (case mt_unsynced_range t of None \<Rightarrow> Some (0, 0) | Some r \<Rightarrow> Some r)\<rparr>))))"

definition mem_table_is_empty :: "'v mem_table \<Rightarrow> bool" where
  "mem_table_is_empty t \<longleftrightarrow> mt_size t = 0"

definition mem_table_at_capacity :: "'v mem_table \<Rightarrow> bool" where
  "mem_table_at_capacity t \<longleftrightarrow> mt_cap t \<le> mt_size t"

definition mem_table_clear :: "'v mem_table \<Rightarrow> 'v mem_table" where
  "mem_table_clear t = t\<lparr>mt_table := [], mt_size := 0, mt_unsynced_range := None\<rparr>"

section \<open>The manager\<close>

record 'v mem_table_manager =
  mm_mutable :: "'v mem_table"
  mm_immutable :: "'v mem_table"
  mm_is_full :: bool

definition mgr_new :: "nat \<Rightarrow> nat \<Rightarrow> bool \<Rightarrow> 'v mem_table_manager" where
  "mgr_new sync_id capacity on_drop_record =
    \<lparr>mm_mutable = mem_table_new capacity sync_id on_drop_record,
     mm_immutable = mem_table_new capacity sync_id on_drop_record, mm_is_full = False\<rparr>"

definition mgr_get :: "nat \<Rightarrow> 'v mem_table_manager \<Rightarrow> 'v option" where
  "mgr_get key m =
    (case mem_table_get key (mm_mutable m) of
       Some value \<Rightarrow> Some value
     | None \<Rightarrow> (case mem_table_get key (mm_immutable m) of Some value \<Rightarrow> Some value | None \<Rightarrow> None))"

definition mgr_get_range ::
    "bittle \<Rightarrow> 'v mem_table_manager \<Rightarrow> 'v range_query_ctx \<Rightarrow> (bool \<times> 'v range_query_ctx) res" where
  "mgr_get_range bt m ctx =
    rbind (mem_table_get_range bt (mm_mutable m) ctx) (\<lambda>(is_completed, ctx).
      if is_completed then Ok (is_completed, ctx) else mem_table_get_range bt (mm_immutable m) ctx)"

definition mgr_put ::
    "nat \<Rightarrow> 'v \<Rightarrow> 'v mem_table_manager \<Rightarrow> (bool \<times> (nat \<times> 'v) list \<times> 'v mem_table_manager) option" where
  "mgr_put key value m =
    (if mm_is_full m then None
     else
       let (_, calls, mutable) = mem_table_put key value (mm_mutable m);
           is_full = mem_table_at_capacity mutable in
       Some (is_full, calls, m\<lparr>mm_mutable := mutable, mm_is_full := is_full\<rparr>))"

definition mgr_sync :: "nat \<Rightarrow> 'v mem_table_manager \<Rightarrow> ((nat \<times> 'v) list \<times> 'v mem_table_manager) res" where
  "mgr_sync sync_id m =
    rbind (mem_table_sync sync_id (mm_mutable m)) (\<lambda>(calls, mutable). Ok (calls, m\<lparr>mm_mutable := mutable\<rparr>))"

definition mgr_switch :: "'v mem_table_manager \<Rightarrow> 'v mem_table_manager res" where
  "mgr_switch m =
    rbind (rassert (mm_is_full m)) (\<lambda>_.
    let sync_id = mt_sync_id (mm_mutable m);
        immutable = mem_table_clear (mm_immutable m);
        (mutable, immutable) = (immutable, mm_mutable m) in
    rbind (rassert (mem_table_is_empty mutable \<and> mem_table_at_capacity immutable)) (\<lambda>_.
    rbind (mem_table_sync sync_id mutable) (\<lambda>(_, mutable).
      Ok (m\<lparr>mm_mutable := mutable, mm_immutable := immutable, mm_is_full := False\<rparr>))))"

section \<open>Versions\<close>

fun vx_synced :: "'v value_ex \<Rightarrow> 'v option" where
  "vx_synced (Synced v) = Some v"
| "vx_synced (Unsynced _) = None"
| "vx_synced (SyncedAndUnsynced sv _) = Some sv"

fun vx_unsynced :: "'v value_ex \<Rightarrow> 'v option" where
  "vx_unsynced (Synced _) = None"
| "vx_unsynced (Unsynced v) = Some v"
| "vx_unsynced (SyncedAndUnsynced _ usv) = Some usv"

definition vx_count :: "'v value_ex \<Rightarrow> nat" where
  "vx_count v = (if vx_synced v = None then 0 else 1) + (if vx_unsynced v = None then 0 else 1)"

definition mt_synced :: "'v mem_table \<Rightarrow> nat \<Rightarrow> 'v option" where
  "mt_synced t k = Option.bind (map_of (mt_table t) k) vx_synced"

definition mt_unsynced :: "'v mem_table \<Rightarrow> nat \<Rightarrow> 'v option" where
  "mt_unsynced t k = Option.bind (map_of (mt_table t) k) vx_unsynced"

text \<open>
  The size counts the versions, and every unsynced value is in the range that the next sync will look at.
\<close>

definition mt_inv :: "'v mem_table \<Rightarrow> bool" where
  "mt_inv t \<longleftrightarrow> btree_ok (mt_table t) \<and> mt_size t = sum_list (map (vx_count \<circ> snd) (mt_table t)) \<and>
    (case mt_unsynced_range t of None \<Rightarrow> True
     | Some (a, b) \<Rightarrow> a \<le> b \<and> (\<forall>(k, v) \<in> set (mt_table t). contains_unsynced v \<longrightarrow> a \<le> k \<and> k < b))"

lemma value_ex_get_versions: "value_ex_get v = (case vx_unsynced v of Some u \<Rightarrow> u | None \<Rightarrow> the (vx_synced v))"
  by (cases v) auto

lemma value_ex_put_versions:
  "\<exists>v'. value_ex_put value v = (vx_unsynced v, v') \<and> vx_synced v' = vx_synced v \<and> vx_unsynced v' = Some value"
  by (cases v) auto

lemma mem_table_get_versions: "mem_table_get k t = (mt_synced t ++ mt_unsynced t) k"
proof (cases "map_of (mt_table t) k")
  case (Some v)
  then show ?thesis by (cases v) (simp_all add: mem_table_get_def mt_synced_def mt_unsynced_def map_add_def)
qed (simp add: mem_table_get_def mt_synced_def mt_unsynced_def map_add_def)

lemma mt_inv_new [simp]: "mt_inv (mem_table_new cap sync_id cb)" "mt_inv (mem_table_clear t)"
  by (simp_all add: mt_inv_def mem_table_new_def mem_table_clear_def)

text \<open>A put replaces the unsynced version of its key.\<close>

lemma mem_table_put_spec:
  assumes "mt_inv t"
  shows "\<exists>t'. mem_table_put key value t = (mt_unsynced t key, drop_calls t key (mt_unsynced t key), t') \<and> mt_inv t' \<and>
    mt_synced t' = mt_synced t \<and> mt_unsynced t' = (mt_unsynced t)(key \<mapsto> value) \<and>
    mt_sync_id t' = mt_sync_id t \<and> mt_on_drop_record t' = mt_on_drop_record t \<and> mt_cap t' = mt_cap t"
proof -
  let ?m = "mt_table t" and ?r = "map_option (extend_range key) (mt_unsynced_range t)"
  have ok: "btree_ok ?m" "mt_size t = sum_list (map (vx_count \<circ> snd) ?m)" using assms by (simp_all add: mt_inv_def)
  obtain v' where v': "vx_unsynced v' = Some value" "vx_synced v' = mt_synced t key"
      "case map_of ?m key of Some v \<Rightarrow> value_ex_put value v = (vx_unsynced v, v') | None \<Rightarrow> v' = Unsynced value"
    using value_ex_put_versions [of "value"] by (cases "map_of ?m key") (fastforce simp: mt_synced_def)+
  define t' where "t' = t\<lparr>mt_table := btree_insert key v' ?m,
    mt_size := (if mt_unsynced t key = None then mt_size t + 1 else mt_size t), mt_unsynced_range := ?r\<rparr>"
  have run: "mem_table_put key value t = (mt_unsynced t key, drop_calls t key (mt_unsynced t key), t')"
    using v'(3) by (auto simp: mem_table_put_def t'_def mt_unsynced_def split: option.splits)
  have vers: "mt_synced t' = mt_synced t" "mt_unsynced t' = (mt_unsynced t)(key \<mapsto> value)"
    using ok(1) v'(1,2) by (auto simp: t'_def mt_synced_def mt_unsynced_def fun_eq_iff)
  have sum: "sum_list (map (vx_count \<circ> snd) (btree_insert key v' ?m)) = mt_size t'"
    using btree_insert_sum [OF ok(1), of vx_count key v'] ok(2) v'(1,2)
    by (auto simp: t'_def vx_count_def mt_synced_def mt_unsynced_def split: option.splits)
  have rng: "case ?r of None \<Rightarrow> True | Some (a, b) \<Rightarrow> a \<le> b \<and> (\<forall>(k, v) \<in> set (btree_insert key v' ?m). contains_unsynced v \<longrightarrow> a \<le> k \<and> k < b)"
    using assms ok(1) by (auto simp: mt_inv_def extend_range_def set_btree_insert split: option.splits)
  have f: "mt_table t' = btree_insert key v' ?m" "mt_unsynced_range t' = ?r" by (simp_all add: t'_def)
  have "mt_inv t'" unfolding mt_inv_def f using ok(1) sum rng by simp
  then show ?thesis using run vers by (auto simp: t'_def)
qed

text \<open>The synced values that a sync supersedes, in the order of the keys.\<close>

definition superseded :: "(nat \<times> 'v value_ex) list \<Rightarrow> (nat \<times> 'v) list" where
  "superseded m = concat (map (\<lambda>(k, v). case v of SyncedAndUnsynced sv _ \<Rightarrow> [(k, sv)] | _ \<Rightarrow> []) m)"

lemma superseded_simps [simp]: "superseded [] = []"
  "superseded ((k, v) # m) = (case v of SyncedAndUnsynced sv _ \<Rightarrow> [(k, sv)] | _ \<Rightarrow> []) @ superseded m"
  by (simp_all add: superseded_def)

lemma superseded_count: "length (superseded m) + sum_list (map (vx_count \<circ> snd) (map (\<lambda>(k, v). (k, Synced (value_ex_get v))) m))
    = sum_list (map (vx_count \<circ> snd) m)"
proof (induction m)
  case (Cons e m)
  obtain k v where "e = (k, v)" by (cases e)
  then show ?case using Cons by (cases v) (simp_all add: vx_count_def)
qed simp

lemma sync_entries_spec:
  assumes "\<forall>(k, v) \<in> set m. contains_unsynced v \<longrightarrow> in_sync_range r k" "length (superseded m) \<le> sz"
  shows "sync_entries cb r m (sz, calls)
    = Ok (map (\<lambda>(k, v). (k, Synced (value_ex_get v))) m, sz - length (superseded m), calls @ (if cb then superseded m else []))"
  using assms
proof (induction m arbitrary: sz calls)
  case (Cons e m)
  obtain k v where e: "e = (k, v)" by (cases e)
  show ?case using Cons.prems Cons.IH e by (cases v) auto
qed simp

lemma superseded_mem: "(k, sv) \<in> set (superseded m) \<longleftrightarrow> (\<exists>uv. (k, SyncedAndUnsynced sv uv) \<in> set m)"
proof (induction m)
  case (Cons e m)
  obtain k' v where "e = (k', v)" by (cases e)
  then show ?case using Cons by (cases v) auto
qed simp

lemma superseded_sorted: "btree_ok m \<Longrightarrow> sorted_wrt (<) (map fst (superseded m)) \<and> fst ` set (superseded m) \<subseteq> fst ` set m"
proof (induction m)
  case (Cons e m)
  obtain k v where "e = (k, v)" by (cases e)
  moreover have "\<forall>k' \<in> fst ` set m. k < k'" using Cons.prems calculation by simp
  then have "\<forall>k' \<in> fst ` set (superseded m). k < k'" using Cons calculation by (meson btree_ok_simps(2) subsetD)
  ultimately show ?case using Cons by (cases v) auto
qed simp

lemma superseded_versions:
  assumes "mt_inv t"
  shows "superseded (mt_table t) = map (\<lambda>k. (k, the (mt_synced t k))) (sorted_list_of_set (dom (mt_synced t) \<inter> dom (mt_unsynced t)))"
proof -
  let ?m = "mt_table t"
  have ok: "btree_ok ?m" using assms by (simp add: mt_inv_def)
  have mem: "(k, sv) \<in> set (superseded ?m) \<longleftrightarrow> (\<exists>uv. map_of ?m k = Some (SyncedAndUnsynced sv uv))" for k sv
    using superseded_mem [of k sv ?m] btree_ok_distinct [OF ok] by simp
  have both: "map_of ?m k = Some (SyncedAndUnsynced sv uv) \<longleftrightarrow> mt_synced t k = Some sv \<and> mt_unsynced t k = Some uv" for k sv uv
    by (cases "map_of ?m k"; cases "the (map_of ?m k)") (auto simp: mt_synced_def mt_unsynced_def)
  have "sorted_wrt (<) (map fst (superseded ?m))"
    using ok superseded_sorted by blast
  moreover have keys: "set (map fst (superseded ?m)) = dom (mt_synced t) \<inter> dom (mt_unsynced t)"
    using mem both by (auto simp: dom_def) (metis fst_conv imageI)
  ultimately have "map fst (superseded ?m) = sorted_list_of_set (dom (mt_synced t) \<inter> dom (mt_unsynced t))"
    using sorted_list_of_set.idem_if_sorted_distinct [of "map fst (superseded ?m)"] by (simp add: strict_sorted_iff)
  moreover have "superseded ?m = map (\<lambda>k. (k, the (mt_synced t k))) (map fst (superseded ?m))"
    using mem both by (auto simp: comp_def intro!: map_idI [symmetric])
  ultimately show ?thesis by metis
qed

text \<open>A sync turns all unsynced versions into synced ones.\<close>

lemma mem_table_sync_spec:
  assumes "mt_inv t" "mt_sync_id t < sync_id"
  shows "\<exists>t'. mem_table_sync sync_id t = Ok (if mt_on_drop_record t then superseded (mt_table t) else [], t') \<and> mt_inv t' \<and>
    mt_synced t' = mt_synced t ++ mt_unsynced t \<and> mt_unsynced t' = Map.empty \<and>
    mt_sync_id t' = sync_id \<and> mt_on_drop_record t' = mt_on_drop_record t \<and> mt_cap t' = mt_cap t"
proof -
  let ?m = "mt_table t" and ?m' = "map (\<lambda>(k, v). (k, Synced (value_ex_get v))) (mt_table t)"
  have inv: "btree_ok ?m" "mt_size t = sum_list (map (vx_count \<circ> snd) ?m)"
      "\<forall>(k, v) \<in> set ?m. contains_unsynced v \<longrightarrow> in_sync_range (mt_unsynced_range t) k"
      "case mt_unsynced_range t of None \<Rightarrow> True | Some (a, b) \<Rightarrow> a \<le> b"
    using assms(1) by (auto simp: mt_inv_def in_sync_range_def split: option.splits)
  note count = superseded_count [of ?m]
  let ?t' = "t\<lparr>mt_table := ?m', mt_size := mt_size t - length (superseded ?m), mt_sync_id := sync_id,
    mt_unsynced_range := (case mt_unsynced_range t of None \<Rightarrow> Some (0, 0) | Some r \<Rightarrow> Some r)\<rparr>"
  have "mem_table_sync sync_id t = Ok (if mt_on_drop_record t then superseded ?m else [], ?t')"
    using assms(2) inv(4) sync_entries_spec [OF inv(3), of "mt_size t" "mt_on_drop_record t" "[]"] count inv(2)
    by (simp add: mem_table_sync_def)
  moreover have keys: "map fst ?m' = map fst ?m" by auto
  then have "btree_ok ?m'" using inv(1) unfolding btree_ok_def by metis
  then have "mt_inv ?t'" using count inv(2,4) by (auto simp: mt_inv_def split: option.splits)
  moreover have "map_of ?m' k = map_option (\<lambda>v. Synced (value_ex_get v)) (map_of ?m k)" for k
    by (simp add: map_of_map)
  then have "mt_synced ?t' k = mem_table_get k t" "mt_unsynced ?t' k = None" for k
    by (auto simp: mt_synced_def mt_unsynced_def mem_table_get_def map_option_case split: option.splits)
  then have "mt_synced ?t' = mt_synced t ++ mt_unsynced t" "mt_unsynced ?t' = Map.empty"
    using mem_table_get_versions [of _ t] by auto
  ultimately show ?thesis by (intro exI [of _ ?t']) simp
qed
text \<open>The number of records is the number of versions.\<close>

lemma mt_size_versions:
  fixes t :: "'v mem_table"
  assumes "mt_inv t"
  shows "mt_size t = card (dom (mt_synced t)) + card (dom (mt_unsynced t))"
proof -
  have "sum_list (map (vx_count \<circ> snd) m) = card (dom (\<lambda>k. Option.bind (map_of m k) vx_synced)) + card (dom (\<lambda>k. Option.bind (map_of m k) vx_unsynced))"
    if "btree_ok m" for m :: "(nat \<times> 'v value_ex) list"
    using that
  proof (induction m)
    case (Cons e m)
    obtain k v where e: "e = (k, v)" by (cases e)
    then have new: "map_of m k = None" using Cons.prems by (auto simp: map_of_eq_None_iff)
    have fin: "finite (dom (\<lambda>k. Option.bind (map_of m k) f))" for f :: "'v value_ex \<Rightarrow> 'v option"
      by (rule finite_subset [OF _ finite_dom_map_of [of m]]) (auto simp: Option.bind_eq_Some_conv)
    have "dom (\<lambda>k'. Option.bind (map_of (e # m) k') f) = (if f v = None then id else insert k) (dom (\<lambda>k. Option.bind (map_of m k) f))"
      for f :: "'v value_ex \<Rightarrow> 'v option" using new e by (auto split: if_splits)
    moreover have "k \<notin> dom (\<lambda>k. Option.bind (map_of m k) f)" for f :: "'v value_ex \<Rightarrow> 'v option" using new by auto
    ultimately show ?case using Cons e fin by (simp add: vx_count_def)
  qed simp
  then show ?thesis using assms by (simp add: mt_inv_def mt_synced_def [abs_def] mt_unsynced_def [abs_def])
qed

section \<open>Range queries\<close>

context bittle_laws
begin

lemma rq_complete_all:
  assumes "rq_inv bt ctx" "\<forall>(k, v) \<in> set es. rq_start ctx \<le> k \<and> k < rq_start ctx + rq_num_values ctx" "distinct (map fst es)"
  shows "\<exists>ctx'. rfold (\<lambda>(k, v). rq_complete bt k (f v)) es ctx = Ok ctx' \<and> rq_inv bt ctx' \<and> rq_start ctx' = rq_start ctx \<and>
    rq_num_values ctx' = rq_num_values ctx \<and> rq_done bt ctx' = rq_done bt ctx \<union> fst ` set es \<and>
    rq_res ctx' = rq_res ctx @ map (\<lambda>(k, v). (k, f v)) (filter (\<lambda>(k, _). k \<notin> rq_done bt ctx) es)"
  using assms
proof (induction es arbitrary: ctx)
  case (Cons e es)
  obtain k v where e: "e = (k, v)" by (cases e)
  obtain ctx1 where c: "rq_complete bt k (f v) ctx = Ok ctx1" "rq_inv bt ctx1" "rq_start ctx1 = rq_start ctx"
      "rq_num_values ctx1 = rq_num_values ctx" "rq_done bt ctx1 = insert k (rq_done bt ctx)"
      "rq_res ctx1 = rq_res ctx @ (if k \<in> rq_done bt ctx then [] else [(k, f v)])"
    using rq_complete_spec [OF Cons.prems(1), of k "f v"] Cons.prems(2) e by auto
  have "filter (\<lambda>(k', _). k' \<notin> insert k (rq_done bt ctx)) es = filter (\<lambda>(k', _). k' \<notin> rq_done bt ctx) es"
    using Cons.prems(3) e by (intro filter_cong) (auto simp: image_iff)
  then show ?case using Cons.IH [OF c(2)] Cons.prems(2,3) c e by auto
qed simp

text \<open>A range query on a table fills the open slots whose keys the table has, with the latest values.\<close>

lemma mem_table_get_range_spec:
  assumes "rq_inv bt ctx" "\<not> rq_is_completed ctx" "mt_inv t"
  shows "\<exists>ctx'. mem_table_get_range bt t ctx = Ok (rq_is_completed ctx', ctx') \<and> rq_inv bt ctx' \<and> rq_start ctx' = rq_start ctx \<and>
    rq_num_values ctx' = rq_num_values ctx \<and>
    rq_done bt ctx' = rq_done bt ctx \<union> {k. rq_start ctx \<le> k \<and> k < rq_start ctx + rq_num_values ctx \<and> mem_table_get k t \<noteq> None} \<and>
    set (rq_res ctx') = set (rq_res ctx) \<union> {(k, v). rq_start ctx \<le> k \<and> k < rq_start ctx + rq_num_values ctx \<and>
      k \<notin> rq_done bt ctx \<and> mem_table_get k t = Some v} \<and>
    (distinct (map fst (rq_res ctx)) \<and> fst ` set (rq_res ctx) \<subseteq> rq_done bt ctx \<longrightarrow>
      distinct (map fst (rq_res ctx')) \<and> fst ` set (rq_res ctx') \<subseteq> rq_done bt ctx')"
proof -
  let ?s = "rq_start ctx" and ?n = "rq_num_values ctx" and ?D = "rq_done bt ctx" and ?m = "mt_table t"
  obtain a b where ab: "range_uncompleted bt ctx = Ok (Some (a, b))" "?s \<le> a" "a \<le> b" "b < ?s + ?n"
      "\<forall>k \<in> {?s..<?s + ?n}. k \<notin> ?D \<longrightarrow> a \<le> k \<and> k \<le> b"
    using range_uncompleted_spec [OF assms(1,2)] by blast
  let ?es = "filter (\<lambda>(k, _). a \<le> k \<and> k \<le> b) ?m"
  have dist: "distinct (map fst ?m)" using assms(3) btree_ok_distinct by (auto simp: mt_inv_def)
  obtain ctx' where c: "rfold (\<lambda>(k, v). rq_complete bt k (value_ex_get v)) ?es ctx = Ok ctx'" "rq_inv bt ctx'" "rq_start ctx' = ?s"
      "rq_num_values ctx' = ?n" "rq_done bt ctx' = ?D \<union> fst ` set ?es"
      "rq_res ctx' = rq_res ctx @ map (\<lambda>(k, v). (k, value_ex_get v)) (filter (\<lambda>(k, _). k \<notin> ?D) ?es)"
    using rq_complete_all [OF assms(1), of ?es value_ex_get] dist ab(2,4) by (auto simp: distinct_map_filter)
  have run: "mem_table_get_range bt t ctx = Ok (rq_is_completed ctx', ctx')"
    using assms(2) ab(1,3) c(1) by (simp add: mem_table_get_range_def btree_range_def split_def)
  have get: "mem_table_get k t = Some v \<longleftrightarrow> (\<exists>u. (k, u) \<in> set ?m \<and> v = value_ex_get u)" for k v
    using dist by (auto simp: mem_table_get_def map_option_eq_Some)
  have keys: "mem_table_get k t \<noteq> None \<longleftrightarrow> k \<in> fst ` set ?m" for k
    by (simp add: mem_table_get_def map_of_eq_None_iff)
  have slots: "k \<notin> ?D \<Longrightarrow> a \<le> k \<and> k \<le> b \<longleftrightarrow> ?s \<le> k \<and> k < ?s + ?n" for k
    using ab(2,4,5) by auto
  have "fst ` set ?es = {k \<in> fst ` set ?m. a \<le> k \<and> k \<le> b}" by force
  then have D': "rq_done bt ctx' = ?D \<union> {k. ?s \<le> k \<and> k < ?s + ?n \<and> mem_table_get k t \<noteq> None}"
    using c(5) slots unfolding keys by auto
  have "set (map (\<lambda>(k, v). (k, value_ex_get v)) (filter (\<lambda>(k, _). k \<notin> ?D) ?es))
      = {(k, v). k \<notin> ?D \<and> a \<le> k \<and> k \<le> b \<and> mem_table_get k t = Some v}"
    by (auto simp: get)
  then have R: "set (rq_res ctx') = set (rq_res ctx) \<union> {(k, v). ?s \<le> k \<and> k < ?s + ?n \<and> k \<notin> ?D \<and> mem_table_get k t = Some v}"
    using c(6) slots by auto
  have new: "map fst (map (\<lambda>(k, v). (k, value_ex_get v)) (filter (\<lambda>(k, _). k \<notin> ?D) ?es)) = map fst (filter (\<lambda>(k, _). k \<notin> ?D) ?es)"
    by (simp add: comp_def split_def)
  have "distinct (map fst (rq_res ctx'))" if "distinct (map fst (rq_res ctx))" "fst ` set (rq_res ctx) \<subseteq> ?D"
    using that dist unfolding c(6) map_append new by (auto simp: distinct_map_filter)
  moreover have "fst ` set (rq_res ctx') \<subseteq> rq_done bt ctx'" if "fst ` set (rq_res ctx) \<subseteq> ?D"
    using that unfolding R D' by auto
  ultimately show ?thesis using run c(2-4) D' R by (intro exI [of _ ctx']) blast
qed

end
section \<open>Properties\<close>

datatype 'v mt_op = MtPut nat 'v | MtSync nat

text \<open>An operation on a table, after the callbacks \<open>calls\<close>.\<close>

fun mt_exec :: "'v mt_op \<Rightarrow> (nat \<times> 'v) list \<times> 'v mem_table \<Rightarrow> ((nat \<times> 'v) list \<times> 'v mem_table) res" where
  "mt_exec (MtPut key v) (calls, t) = (case mem_table_put key v t of (_, c, t') \<Rightarrow> Ok (calls @ c, t'))"
| "mt_exec (MtSync sync_id) (calls, t) = rbind (mem_table_sync sync_id t) (\<lambda>(c, t'). Ok (calls @ c, t'))"

text \<open>
  The specification: two maps, of the synced and of the unsynced versions, the values that were superseded
  and the last sync.
\<close>

fun mt_spec :: "'v mt_op \<Rightarrow> (nat \<times> 'v) list \<times> (nat \<rightharpoonup> 'v) \<times> (nat \<rightharpoonup> 'v) \<times> nat \<Rightarrow>
    (nat \<times> 'v) list \<times> (nat \<rightharpoonup> 'v) \<times> (nat \<rightharpoonup> 'v) \<times> nat" where
  "mt_spec (MtPut key v) (drops, sy, un, i) =
    (drops @ (case un key of None \<Rightarrow> [] | Some u \<Rightarrow> [(key, u)]), sy, un(key \<mapsto> v), i)"
| "mt_spec (MtSync sync_id) (drops, sy, un, i) =
    (if sync_id = i then (drops, sy, un, i)
     else (drops @ map (\<lambda>k. (k, the (sy k))) (sorted_list_of_set (dom sy \<inter> dom un)), sy ++ un, Map.empty, sync_id))"

fun mt_ids_ok :: "nat \<Rightarrow> 'v mt_op list \<Rightarrow> bool" where
  "mt_ids_ok i [] = True"
| "mt_ids_ok i (MtPut _ _ # ops) = mt_ids_ok i ops"
| "mt_ids_ok i (MtSync j # ops) \<longleftrightarrow> i \<le> j \<and> mt_ids_ok j ops"

definition mt_sim :: "(nat \<times> 'v) list \<times> 'v mem_table \<Rightarrow> (nat \<times> 'v) list \<times> (nat \<rightharpoonup> 'v) \<times> (nat \<rightharpoonup> 'v) \<times> nat \<Rightarrow> bool" where
  "mt_sim = (\<lambda>(calls, t) (drops, sy, un, i). mt_inv t \<and> mt_synced t = sy \<and> mt_unsynced t = un \<and> mt_sync_id t = i \<and>
    calls = (if mt_on_drop_record t then drops else []))"

lemma mt_run_sim:
  assumes "mt_sim (calls, t) (drops, sy, un, i)" "mt_ids_ok i ops"
  shows "\<exists>calls' t'. rfold mt_exec ops (calls, t) = Ok (calls', t') \<and> mt_sim (calls', t') (fold mt_spec ops (drops, sy, un, i)) \<and>
    mt_on_drop_record t' = mt_on_drop_record t"
  using assms
proof (induction ops arbitrary: calls t drops sy un i)
  case (Cons op ops)
  have sim: "mt_inv t" "mt_synced t = sy" "mt_unsynced t = un" "mt_sync_id t = i" "calls = (if mt_on_drop_record t then drops else [])"
    using Cons.prems(1) by (simp_all add: mt_sim_def)
  show ?case
  proof (cases op)
    case (MtPut key v)
    obtain t' where t': "mem_table_put key v t = (un key, drop_calls t key (un key), t')" "mt_inv t'" "mt_synced t' = sy"
        "mt_unsynced t' = un(key \<mapsto> v)" "mt_sync_id t' = i" "mt_on_drop_record t' = mt_on_drop_record t"
      using mem_table_put_spec [OF sim(1), of key v] sim(2-4) by auto
    then have "mt_sim (calls @ drop_calls t key (un key), t') (mt_spec op (drops, sy, un, i))"
      using sim(5) MtPut by (simp add: mt_sim_def drop_calls_def split: option.splits)
    from this [unfolded MtPut mt_spec.simps] Cons.IH [of _ t'] show ?thesis using Cons.prems(2) MtPut t'(1,6) by simp
  next
    case (MtSync j)
    show ?thesis
    proof (cases "j = i")
      case True
      then show ?thesis using Cons.IH [OF Cons.prems(1)] Cons.prems(2) MtSync sim(4) by (simp add: mem_table_sync_def)
    next
      case False
      then have "mt_sync_id t < j" using Cons.prems(2) MtSync sim(4) by simp
      from mem_table_sync_spec [OF sim(1) this] obtain t' where
        t': "mem_table_sync j t = Ok (if mt_on_drop_record t then superseded (mt_table t) else [], t')" "mt_inv t'"
          "mt_synced t' = sy ++ un" "mt_unsynced t' = Map.empty" "mt_sync_id t' = j" "mt_on_drop_record t' = mt_on_drop_record t"
        using sim(2,3) by auto
      then have "mt_sim (calls @ (if mt_on_drop_record t then superseded (mt_table t) else []), t') (mt_spec op (drops, sy, un, i))"
        using sim(2,3,5) MtSync False superseded_versions [OF sim(1)] by (simp add: mt_sim_def)
      from this [unfolded MtSync mt_spec.simps if_not_P [OF False]] Cons.IH [of _ t'] show ?thesis
        using Cons.prems(2) MtSync False t'(1,6) by simp
    qed
  qed
qed simp



text \<open>C15: A range query on the two tables of the manager gives the same values as point queries: it answers exactly the keys of the range
  that a point query finds, each once and with the same value, and reports completion exactly when every key is found.\<close>

theorem mgr_range_agrees:
  fixes m :: "'v mem_table_manager"
  assumes "bittle_laws bt" "mt_inv (mm_mutable m)" "mt_inv (mm_immutable m)" "0 < n" "64 * ((n + 63) div 64) < 2 ^ 32"
  shows "\<exists>ctx ctx'. range_query_new bt start n = Ok ctx \<and>
    mgr_get_range bt m ctx = Ok (\<forall>k \<in> {start..<start + n}. mgr_get k m \<noteq> None, ctx') \<and> distinct (map fst (rq_res ctx')) \<and>
    set (rq_res ctx') = {(k, v). k \<in> {start..<start + n} \<and> mgr_get k m = Some v}"
proof -
  let ?K = "{start..<start + n}" and ?t = "mm_mutable m" and ?u = "mm_immutable m"
  obtain ctx :: "'v range_query_ctx" where c: "range_query_new bt start n = Ok ctx" "rq_inv bt ctx" "rq_start ctx = start" "rq_num_values ctx = n"
      "rq_res ctx = []" "rq_done bt ctx = {}"
    using bittle_laws.range_query_new_spec [OF assms(1,5), of start] by blast
  have open0: "\<not> rq_is_completed ctx" using rq_completed_iff [OF c(2)] c(3,4,6) assms(4) by simp
  obtain ctx1 where c1: "mem_table_get_range bt ?t ctx = Ok (rq_is_completed ctx1, ctx1)" "rq_inv bt ctx1" "rq_start ctx1 = start"
      "rq_num_values ctx1 = n" "rq_done bt ctx1 = {k. start \<le> k \<and> k < start + n \<and> mem_table_get k ?t \<noteq> None}"
      "set (rq_res ctx1) = {(k, v). start \<le> k \<and> k < start + n \<and> mem_table_get k ?t = Some v}"
      "distinct (map fst (rq_res ctx1)) \<and> fst ` set (rq_res ctx1) \<subseteq> rq_done bt ctx1"
    using bittle_laws.mem_table_get_range_spec [OF assms(1) c(2) open0 assms(2)] unfolding c(3-6) by auto
  have done1: "rq_is_completed ctx1 \<longleftrightarrow> (\<forall>k \<in> ?K. mem_table_get k ?t \<noteq> None)"
    using rq_completed_iff [OF c1(2)] unfolding c1(3-5) by auto
  show ?thesis
  proof (cases "rq_is_completed ctx1")
    case True
    have get: "mgr_get k m = mem_table_get k ?t" if "k \<in> ?K" for k
      using done1 True that by (auto simp: mgr_get_def split: option.splits)
    have all: "(\<forall>k \<in> ?K. mgr_get k m \<noteq> None) = True" using done1 True get by simp
    have run: "mgr_get_range bt m ctx = Ok (\<forall>k \<in> ?K. mgr_get k m \<noteq> None, ctx1)"
      unfolding all using c1(1) True by (simp add: mgr_get_range_def)
    have res: "set (rq_res ctx1) = {(k, v). k \<in> ?K \<and> mgr_get k m = Some v}" unfolding c1(6) by (auto simp: get)
    show ?thesis by (rule exI [of _ ctx], rule exI [of _ ctx1], intro conjI c(1) run res conjunct1 [OF c1(7)])
  next
    case False
    obtain ctx2 where c2: "mem_table_get_range bt ?u ctx1 = Ok (rq_is_completed ctx2, ctx2)" "rq_inv bt ctx2" "rq_start ctx2 = start"
        "rq_num_values ctx2 = n"
        "rq_done bt ctx2 = rq_done bt ctx1 \<union> {k. start \<le> k \<and> k < start + n \<and> mem_table_get k ?u \<noteq> None}"
        "set (rq_res ctx2) = set (rq_res ctx1) \<union>
          {(k, v). start \<le> k \<and> k < start + n \<and> k \<notin> rq_done bt ctx1 \<and> mem_table_get k ?u = Some v}"
        "distinct (map fst (rq_res ctx2))"
      using bittle_laws.mem_table_get_range_spec [OF assms(1) c1(2) False assms(3)] c1(7) unfolding c1(3,4)
      by (elim exE conjE) (rule that, assumption+, erule mp [THEN conjunct1], simp)
    have get: "mgr_get k m = (case mem_table_get k ?t of Some v \<Rightarrow> Some v | None \<Rightarrow> mem_table_get k ?u)" for k
      by (simp add: mgr_get_def split: option.splits)
    have all: "rq_is_completed ctx2 \<longleftrightarrow> (\<forall>k \<in> ?K. mgr_get k m \<noteq> None)"
      using rq_completed_iff [OF c2(2)] unfolding c2(3-5) c1(5) get by (auto split: option.splits)
    have res: "set (rq_res ctx2) = {(k, v). k \<in> ?K \<and> mgr_get k m = Some v}"
      unfolding c2(6) c1(5,6) get by (auto split: option.splits)
    have run: "mgr_get_range bt m ctx = Ok (\<forall>k \<in> ?K. mgr_get k m \<noteq> None, ctx2)"
      unfolding all [symmetric] using c1(1) c2(1) False by (simp add: mgr_get_range_def)
    show ?thesis by (rule exI [of _ ctx], rule exI [of _ ctx2], intro conjI c(1) run res c2(7))
  qed
qed

theorem mgr_range_agrees_witness:
  "\<exists>(ctx :: nat range_query_ctx) ctx'. range_query_new bittle_ref 3 2 = Ok ctx \<and>
    mgr_get_range bittle_ref (mgr_new 0 10 False\<lparr>mm_mutable := snd (snd (mem_table_put 3 (7 :: nat) (mem_table_new 10 0 False)))\<rparr>) ctx
      = Ok (False, ctx') \<and> set (rq_res ctx') = {(3, 7)}"
proof -
  let ?t = "snd (snd (mem_table_put 3 (7 :: nat) (mem_table_new 10 0 False)))" and ?u = "mem_table_new 10 0 False :: nat mem_table"
  have inv: "mt_inv ?t" using mem_table_put_spec [of ?u 3 7] by auto
  have get: "mgr_get k (mgr_new 0 10 False\<lparr>mm_mutable := ?t\<rparr>) = (if k = 3 then Some 7 else None)" for k
    by (simp add: mgr_get_def mgr_new_def mem_table_get_def mem_table_put_def mem_table_new_def)
  have h: "mt_inv (mm_mutable (mgr_new 0 10 False\<lparr>mm_mutable := ?t\<rparr>))" "mt_inv (mm_immutable (mgr_new 0 10 False\<lparr>mm_mutable := ?t\<rparr>))"
      "0 < (2 :: nat)" "64 * ((2 + 63) div 64) < (2 :: nat) ^ 32"
    using inv by (simp_all add: mgr_new_def)
  have ev: "(\<forall>k \<in> {3..<3 + 2 :: nat}. (if k = 3 then Some (7 :: nat) else None) \<noteq> None) = False"
      "{(k, v). k \<in> {3..<3 + 2 :: nat} \<and> (if k = 3 then Some (7 :: nat) else None) = Some v} = {(3, 7)}"
    by (auto intro: bexI [of _ 4] split: if_splits)
  show ?thesis using mgr_range_agrees [OF ref.bittle_laws_axioms h, of 3, unfolded get ev] by blast
qed

end
