(* ===== verification/SS_Table.thy ===== *)
theory SS_Table
  imports Mem_Table Block_Log Aead_Model
begin

text \<open>
  Sorted string tables (\<open>core/src/layers/4-lsm/sstable.rs\<close>): building a table on a log, loading it back, point and
  range queries, and the scan that compaction uses.

  The table writes its log through \<open>append\<close> and reads it through \<open>read\<close> and \<open>nblocks\<close>: \<open>L\<close> is a dictionary of these
  operations, with the contract \<open>roomy_log\<close>. \<open>open_log\<close> is what opening the log of an id gives. Code from outside the
  repository is a parameter: the crate \<open>lru\<close> (\<open>C\<close>, with the laws \<open>lru_laws\<close>) and the byte representation of a value
  type by the crate \<open>pod\<close> (\<open>V\<close>, with the laws \<open>pod_laws\<close>). A key is a \<open>usize\<close> of 8 bytes. The padding bytes in the
  middle of \<open>FooterMeta\<close> have unspecified contents and are an argument. A listener changes a state of its own and may
  fail.

  The properties: a table that is built and loaded again has the records it was built from, for scans and for point
  queries; building panics exactly when the offset that the code keeps for a record block runs over; a scan that
  discards unsynced records ends at the first later record block that has no synced record.
\<close>

section \<open>Parameters\<close>

record 'v pod_type =
  pod_size :: nat
  pod_as_bytes :: "'v \<Rightarrow> bytes"
  pod_from_bytes :: "bytes \<Rightarrow> 'v"

locale pod_laws =
  fixes V :: "'v pod_type"
  assumes pod_length: "length (pod_as_bytes V v) = pod_size V"
    and pod_roundtrip: "pod_from_bytes V (pod_as_bytes V v) = v"

record 'c lru_crate =
  lc_new :: "nat \<Rightarrow> 'c"
  lc_get :: "'c \<Rightarrow> block_id \<Rightarrow> bytes option \<times> 'c"
  lc_put :: "'c \<Rightarrow> block_id \<Rightarrow> bytes \<Rightarrow> 'c"

text \<open>A cache returns what was put last, unless it has evicted it.\<close>

locale lru_laws =
  fixes C :: "'c lru_crate" and holds :: "'c \<Rightarrow> block_id \<Rightarrow> bytes option"
  assumes lru_new: "holds (lc_new C n) = Map.empty"
    and lru_get: "fst (lc_get C c k) = holds c k" "holds (snd (lc_get C c k)) = holds c"
    and lru_put: "holds (lc_put C c k v) \<subseteq>\<^sub>m (holds c)(k \<mapsto> v)"

record ('v, 'e) tx_event_listener =
  el_add :: "nat \<Rightarrow> 'v \<Rightarrow> 'e \<Rightarrow> 'e res"
  el_drop :: "nat \<Rightarrow> 'v \<Rightarrow> 'e \<Rightarrow> 'e res"

definition notify_add :: "('v, 'e) tx_event_listener option \<Rightarrow> nat \<Rightarrow> 'v \<Rightarrow> 'e \<Rightarrow> 'e res" where
  "notify_add el key v e = (case el of None \<Rightarrow> Ok e | Some listener \<Rightarrow> el_add listener key v e)"

text \<open>The result of \<open>on_drop_record\<close> is unwrapped.\<close>

definition notify_drop :: "('v, 'e) tx_event_listener option \<Rightarrow> nat \<Rightarrow> 'v \<Rightarrow> 'e \<Rightarrow> 'e res" where
  "notify_drop el key v e =
    (case el of None \<Rightarrow> Ok e | Some listener \<Rightarrow> (case el_drop listener key v e of Inl _ \<Rightarrow> Panics | Inr e \<Rightarrow> Ok e))"

section \<open>Layout\<close>

definition BID_SIZE :: nat where "BID_SIZE = 8"
definition K_SIZE :: nat where "K_SIZE = 8"
definition V_SIZE :: "'v pod_type \<Rightarrow> nat" where "V_SIZE V = pod_size V"
definition FLAG_SIZE :: nat where "FLAG_SIZE = 1"
definition MIN_RECORD_SIZE :: "'v pod_type \<Rightarrow> nat" where "MIN_RECORD_SIZE V = BID_SIZE + FLAG_SIZE + V_SIZE V"
definition MAX_RECORD_SIZE :: "'v pod_type \<Rightarrow> nat" where "MAX_RECORD_SIZE V = BID_SIZE + FLAG_SIZE + 2 * V_SIZE V"
definition INDEX_ENTRY_SIZE :: nat where "INDEX_ENTRY_SIZE = BID_SIZE + 2 * K_SIZE"
definition CACHE_CAP :: nat where "CACHE_CAP = 1024"
definition RECORD_BLOCK_NBLOCKS :: nat where "RECORD_BLOCK_NBLOCKS = 32"
definition RECORD_BLOCK_SIZE :: nat where "RECORD_BLOCK_SIZE = RECORD_BLOCK_NBLOCKS * BLOCK_SIZE"
definition FOOTER_META_SIZE :: nat where "FOOTER_META_SIZE = 24"

datatype record_flag = FlagSynced | FlagUnsynced | FlagSyncedAndUnsynced | FlagInvalid

definition record_flag_from :: "byte \<Rightarrow> record_flag" where
  "record_flag_from b =
    (if b = 7 then FlagSynced else if b = 11 then FlagUnsynced else if b = 19 then FlagSyncedAndUnsynced else FlagInvalid)"

record footer_meta =
  fm_num_index :: nat
  fm_index_nblocks :: nat
  fm_total_records :: nat
  fm_record_block_size :: nat
  fm_sync_id :: nat

text \<open>The bytes of the \<open>repr(C)\<close> struct: two \<open>u16\<close>, two \<open>u32\<close>, four bytes of padding, one \<open>u64\<close>.\<close>

definition footer_meta_bytes :: "bytes \<Rightarrow> footer_meta \<Rightarrow> bytes" where
  "footer_meta_bytes pad m = le_bytes 2 (fm_num_index m) @ le_bytes 2 (fm_index_nblocks m) @ le_bytes 4 (fm_total_records m) @
    le_bytes 4 (fm_record_block_size m) @ pad @ le_bytes 8 (fm_sync_id m)"

definition footer_meta_from_bytes :: "bytes \<Rightarrow> footer_meta" where
  "footer_meta_from_bytes bs =
    \<lparr>fm_num_index = le_nat (take 2 bs), fm_index_nblocks = le_nat (take 2 (drop 2 bs)),
     fm_total_records = le_nat (take 4 (drop 4 bs)), fm_record_block_size = le_nat (take 4 (drop 8 bs)),
     fm_sync_id = le_nat (take 8 (drop 16 bs))\<rparr>"

record index_entry =
  ie_pos :: block_id
  ie_first :: nat
  ie_last :: nat

definition ie_is_within_range :: "nat \<Rightarrow> index_entry \<Rightarrow> bool" where
  "ie_is_within_range key entry \<longleftrightarrow> ie_first entry \<le> key \<and> key \<le> ie_last entry"

definition ie_overlap_with :: "nat \<times> nat \<Rightarrow> index_entry \<Rightarrow> bool" where
  "ie_overlap_with rhs entry \<longleftrightarrow> \<not> (ie_last entry < fst rhs \<or> snd rhs < ie_first entry)"

record table_footer =
  ft_meta :: footer_meta
  ft_index :: "index_entry list"

record 'c sstable =
  sst_id :: nat
  sst_footer :: table_footer
  sst_cache :: 'c

definition sst_sync_id :: "'c sstable \<Rightarrow> nat" where
  "sst_sync_id sst = fm_sync_id (ft_meta (sst_footer sst))"

definition sst_range :: "'c sstable \<Rightarrow> (nat \<times> nat) res" where
  "sst_range sst =
    (let index = ft_index (sst_footer sst) in
     rbind (nth_res index 0) (\<lambda>first.
     rbind (checked_sub (fm_num_index (ft_meta (sst_footer sst))) 1) (\<lambda>i.
     rbind (nth_res index i) (\<lambda>last. Ok (ie_first first, ie_last last)))))"

definition sst_is_within_range :: "nat \<Rightarrow> 'c sstable \<Rightarrow> bool res" where
  "sst_is_within_range key sst = rbind (sst_range sst) (\<lambda>(a, b). Ok (a \<le> key \<and> key \<le> b))"

definition sst_overlap_with :: "nat \<times> nat \<Rightarrow> 'c sstable \<Rightarrow> bool res" where
  "sst_overlap_with rhs sst = rbind (sst_range sst) (\<lambda>(a, b). Ok (\<not> (b < fst rhs \<or> snd rhs < a)))"

section \<open>Building\<close>

text \<open>\<open>Vec::resize\<close> with zero bytes.\<close>

definition vec_resize :: "nat \<Rightarrow> bytes \<Rightarrow> bytes" where
  "vec_resize n xs = take n xs @ replicate (n - length xs) 0"

definition buf_try_unwrap :: "bytes \<Rightarrow> bytes res" where
  "buf_try_unwrap bs = (case buf_try_from bs of Inl _ \<Rightarrow> Panics | Inr b \<Rightarrow> Ok b)"

record ('l, 'c, 'e) build_state =
  b_log :: 'l
  b_cache :: 'c
  b_event :: 'e
  b_index_vec :: "index_entry list"
  b_total_records :: nat
  b_pos :: block_id
  b_first_k :: "nat option"
  b_curr_k :: "nat option"
  b_inner_offset :: nat
  b_block_buf :: bytes

definition build_one_record_block ::
    "'l block_log_ops \<Rightarrow> 'c lru_crate \<Rightarrow> index_entry \<Rightarrow> bytes \<Rightarrow> 'l \<times> 'c \<Rightarrow> ('l \<times> 'c) res" where
  "build_one_record_block L C entry buf = (\<lambda>(log, cache).
    let record_block = vec_resize RECORD_BLOCK_SIZE buf in
    rbind (rassert (length record_block = RECORD_BLOCK_SIZE)) (\<lambda>_.
    rbind (buf_try_unwrap record_block) (\<lambda>b.
    rbind (bl_append L log b) (\<lambda>(_, log).
      Ok (log, lc_put C cache (ie_pos entry) record_block)))))"

text \<open>
  The arms of the \<open>match\<close> on the value: the bytes pushed after the key, what is added to \<open>inner_offset\<close>, and the calls
  of the listener.
\<close>

fun push_value ::
    "'v pod_type \<Rightarrow> ('v, 'e) tx_event_listener option \<Rightarrow> nat \<Rightarrow> 'v value_ex \<Rightarrow> 'e \<Rightarrow> (bytes \<times> nat \<times> 'e) res" where
  "push_value V el key (Synced v) e =
    rbind (notify_add el key v e) (\<lambda>e. Ok (7 # pod_as_bytes V v, 1 + V_SIZE V, e))"
| "push_value V el key (Unsynced v) e =
    rbind (notify_add el key v e) (\<lambda>e. Ok (11 # pod_as_bytes V v, 1 + V_SIZE V, e))"
| "push_value V el key (SyncedAndUnsynced sv usv) e =
    rbind (notify_add el key sv e) (\<lambda>e.
    rbind (notify_add el key usv e) (\<lambda>e.
      Ok (19 # pod_as_bytes V sv @ pod_as_bytes V usv, MAX_RECORD_SIZE V, e)))"

definition build_step ::
    "'l block_log_ops \<Rightarrow> 'c lru_crate \<Rightarrow> 'v pod_type \<Rightarrow> ('v, 'e) tx_event_listener option \<Rightarrow> nat \<times> 'v value_ex \<Rightarrow>
      ('l, 'c, 'e) build_state \<Rightarrow> ('l, 'c, 'e) build_state res" where
  "build_step L C V el = (\<lambda>(key, value_ex) st.
    rbind (if b_inner_offset st = 0 then rbind (rassert (b_block_buf st = [])) (\<lambda>_. Ok (Some key)) else Ok (b_first_k st)) (\<lambda>first_k.
    rbind (push_value V el key value_ex (b_event st)) (\<lambda>(value_bytes, added, e).
    let inner_offset = b_inner_offset st + K_SIZE + added;
        st = st\<lparr>b_total_records := b_total_records st + 1, b_first_k := first_k, b_curr_k := Some key, b_event := e,
               b_block_buf := b_block_buf st @ le_bytes K_SIZE key @ value_bytes, b_inner_offset := inner_offset\<rparr> in
    rbind (checked_sub RECORD_BLOCK_SIZE inner_offset) (\<lambda>cap_remained.
    if MAX_RECORD_SIZE V \<le> cap_remained then Ok st
    else
      rbind (res_unwrap first_k) (\<lambda>first.
      let index_entry = \<lparr>ie_pos = b_pos st, ie_first = first, ie_last = key\<rparr> in
      rbind (build_one_record_block L C index_entry (b_block_buf st) (b_log st, b_cache st)) (\<lambda>(log, cache).
        Ok (st\<lparr>b_log := log, b_cache := cache, b_index_vec := b_index_vec st @ [index_entry],
               b_pos := b_pos st + RECORD_BLOCK_NBLOCKS, b_inner_offset := 0, b_block_buf := []\<rparr>)))))))"

definition build_record_blocks ::
    "'l block_log_ops \<Rightarrow> 'c lru_crate \<Rightarrow> 'v pod_type \<Rightarrow> ('v, 'e) tx_event_listener option \<Rightarrow> (nat \<times> 'v value_ex) list \<Rightarrow>
      'l \<Rightarrow> 'c \<Rightarrow> 'e \<Rightarrow> (nat \<times> index_entry list \<times> 'l \<times> 'c \<times> 'e) res" where
  "build_record_blocks L C V el records log cache e =
    rbind (rfold (build_step L C V el) records
      \<lparr>b_log = log, b_cache = cache, b_event = e, b_index_vec = [], b_total_records = 0, b_pos = 0, b_first_k = None,
       b_curr_k = None, b_inner_offset = 0, b_block_buf = []\<rparr>) (\<lambda>st.
    rbind (rassert (0 < b_total_records st)) (\<lambda>_.
    if b_block_buf st \<noteq> [] then
      rbind (res_unwrap (b_first_k st)) (\<lambda>first.
      rbind (res_unwrap (b_curr_k st)) (\<lambda>last.
      let last_entry = \<lparr>ie_pos = b_pos st, ie_first = first, ie_last = last\<rparr> in
      rbind (build_one_record_block L C last_entry (b_block_buf st) (b_log st, b_cache st)) (\<lambda>(log, cache).
        Ok (b_total_records st, b_index_vec st @ [last_entry], log, cache, b_event st))))
    else Ok (b_total_records st, b_index_vec st, b_log st, b_cache st, b_event st)))"

definition index_entry_bytes :: "index_entry \<Rightarrow> bytes" where
  "index_entry_bytes entry = le_bytes BID_SIZE (ie_pos entry) @ le_bytes K_SIZE (ie_first entry) @ le_bytes K_SIZE (ie_last entry)"

text \<open>The casts \<open>as _\<close> to \<open>u16\<close> and \<open>u32\<close> truncate.\<close>

definition build_footer ::
    "'l block_log_ops \<Rightarrow> bytes \<Rightarrow> index_entry list \<Rightarrow> nat \<Rightarrow> nat \<Rightarrow> 'l \<Rightarrow> (table_footer \<times> 'l) res" where
  "build_footer L pad index_vec total_records sync_id log =
    rbind (align_up (length index_vec * INDEX_ENTRY_SIZE + FOOTER_META_SIZE) BLOCK_SIZE) (\<lambda>footer_buf_len.
    let append_buf = vec_resize footer_buf_len (concat (map index_entry_bytes index_vec));
        meta = \<lparr>fm_num_index = length index_vec mod 2 ^ 16, fm_index_nblocks = (footer_buf_len div BLOCK_SIZE) mod 2 ^ 16,
          fm_total_records = total_records mod 2 ^ 32, fm_record_block_size = RECORD_BLOCK_SIZE mod 2 ^ 32, fm_sync_id = sync_id\<rparr> in
    rbind (checked_sub footer_buf_len FOOTER_META_SIZE) (\<lambda>at.
    rbind (copy_range append_buf at (length append_buf) (footer_meta_bytes pad meta)) (\<lambda>append_buf.
    rbind (buf_try_unwrap append_buf) (\<lambda>b.
    rbind (bl_append L log b) (\<lambda>(_, log).
      Ok (\<lparr>ft_meta = meta, ft_index = index_vec\<rparr>, log))))))"

definition sst_build ::
    "'l block_log_ops \<Rightarrow> 'c lru_crate \<Rightarrow> 'v pod_type \<Rightarrow> bytes \<Rightarrow> ('v, 'e) tx_event_listener option \<Rightarrow> (nat \<times> 'v value_ex) list \<Rightarrow>
      nat \<Rightarrow> nat \<Rightarrow> 'l \<Rightarrow> 'e \<Rightarrow> ('c sstable \<times> 'l \<times> 'e) res" where
  "sst_build L C V pad el records sync_id id' log e =
    rbind (build_record_blocks L C V el records log (lc_new C CACHE_CAP) e) (\<lambda>(total_records, index_vec, log, cache, e).
    rbind (build_footer L pad index_vec total_records sync_id log) (\<lambda>(footer, log).
      Ok (\<lparr>sst_id = id', sst_footer = footer, sst_cache = cache\<rparr>, log, e)))"

section \<open>Loading\<close>

definition load_entry ::
    "'l block_log_ops \<Rightarrow> 'c lru_crate \<Rightarrow> 'l \<Rightarrow> bytes \<Rightarrow> nat \<Rightarrow> index_entry list \<times> 'c \<Rightarrow> (index_entry list \<times> 'c) res" where
  "load_entry L C log rbuf i = (\<lambda>(index, cache).
    rbind (slice_range rbuf (i * INDEX_ENTRY_SIZE) ((i + 1) * INDEX_ENTRY_SIZE)) (\<lambda>buf.
    rbind (slice_range buf 0 BID_SIZE) (\<lambda>pos_bytes.
    rbind (slice_range buf BID_SIZE (BID_SIZE + K_SIZE)) (\<lambda>first_bytes.
    rbind (slice_range buf (INDEX_ENTRY_SIZE - K_SIZE) INDEX_ENTRY_SIZE) (\<lambda>last_bytes.
    let pos = le_nat pos_bytes in
    rbind (bl_read L log pos RECORD_BLOCK_NBLOCKS) (\<lambda>record_block.
      Ok (index @ [\<lparr>ie_pos = pos, ie_first = le_nat first_bytes, ie_last = le_nat last_bytes\<rparr>], lc_put C cache pos record_block)))))))"

definition sst_from_log :: "page_alloc \<Rightarrow> 'l block_log_ops \<Rightarrow> 'c lru_crate \<Rightarrow> nat \<Rightarrow> 'l \<Rightarrow> 'c sstable res" where
  "sst_from_log pg L C id' log =
    (let nblocks = bl_nblocks L log in
    rbind (buf_alloc pg 1) (\<lambda>_.
    rbind (checked_sub nblocks 1) (\<lambda>last.
    rbind (bl_read L log last 1) (\<lambda>rbuf.
    rbind (slice_range rbuf (BLOCK_SIZE - FOOTER_META_SIZE) (length rbuf)) (\<lambda>meta_bytes.
    let meta = footer_meta_from_bytes meta_bytes in
    rbind (buf_alloc pg (fm_index_nblocks meta)) (\<lambda>_.
    rbind (checked_sub nblocks (fm_index_nblocks meta)) (\<lambda>at.
    rbind (bl_read L log at (fm_index_nblocks meta)) (\<lambda>rbuf.
    rbind (rfold (load_entry L C log rbuf) [0..<fm_num_index meta] ([], lc_new C CACHE_CAP)) (\<lambda>(index, cache).
      Ok \<lparr>sst_id = id', sst_footer = \<lparr>ft_meta = meta, ft_index = index\<rparr>, sst_cache = cache\<rparr>)))))))))"

section \<open>Queries\<close>

datatype query_accessor = QPoint nat | QRange nat nat

fun hit_target :: "query_accessor \<Rightarrow> nat \<Rightarrow> bool" where
  "hit_target (QPoint k) target \<longleftrightarrow> k = target"
| "hit_target (QRange a b) target \<longleftrightarrow> a \<le> target \<and> target \<le> b"

definition target_record_block ::
    "'l block_log_ops \<Rightarrow> 'c lru_crate \<Rightarrow> (nat \<Rightarrow> 'l res) \<Rightarrow> block_id \<Rightarrow> 'c sstable \<Rightarrow> (bytes \<times> 'c sstable) res" where
  "target_record_block L C open_log target_pos sst =
    (case lc_get C (sst_cache sst) target_pos of
       (Some cached_rb, cache) \<Rightarrow> Ok (cached_rb, sst\<lparr>sst_cache := cache\<rparr>)
     | (None, cache) \<Rightarrow>
         rbind (open_log (sst_id sst)) (\<lambda>tx_log.
         rbind (bl_read L tx_log target_pos RECORD_BLOCK_NBLOCKS) (\<lambda>rb.
           Ok (rb, sst\<lparr>sst_cache := lc_put C cache target_pos rb\<rparr>))))"

definition block_query_next ::
    "'v pod_type \<Rightarrow> query_accessor \<Rightarrow> bytes \<Rightarrow> nat \<Rightarrow> ((nat \<times> 'v option) \<times> nat) option res" where
  "block_query_next V accessor block offset =
    (if RECORD_BLOCK_SIZE < offset + MIN_RECORD_SIZE V then Ok None
     else
       rbind (slice_range block offset (offset + K_SIZE)) (\<lambda>key_bytes.
       let key = le_nat key_bytes; offset = offset + K_SIZE in
       rbind (nth_res block offset) (\<lambda>b.
       let flag = record_flag_from b; offset = offset + 1; hit = hit_target accessor key in
       case flag of
         FlagInvalid \<Rightarrow> Ok None
       | FlagSyncedAndUnsynced \<Rightarrow>
           rbind (if hit then rbind (slice_range block (offset + V_SIZE V) (offset + 2 * V_SIZE V)) (\<lambda>bs. Ok (Some (pod_from_bytes V bs)))
                  else Ok None) (\<lambda>v_opt. Ok (Some ((key, v_opt), offset + 2 * V_SIZE V)))
       | _ \<Rightarrow>
           rbind (if hit then rbind (slice_range block offset (offset + V_SIZE V)) (\<lambda>bs. Ok (Some (pod_from_bytes V bs)))
                  else Ok None) (\<lambda>v_opt. Ok (Some ((key, v_opt), offset + V_SIZE V))))))"

lemma block_query_next_less:
  "block_query_next V accessor block offset = Ok (Some (item, offset')) \<Longrightarrow> offset < offset' \<and> offset < RECORD_BLOCK_SIZE"
  by (auto simp: block_query_next_def Let_def res_simps MIN_RECORD_SIZE_def BID_SIZE_def K_SIZE_def split: if_splits record_flag.splits)

text \<open>\<open>find_map\<close> on the iterator, for a point query.\<close>

function query_find :: "'v pod_type \<Rightarrow> query_accessor \<Rightarrow> nat \<Rightarrow> bytes \<Rightarrow> nat \<Rightarrow> 'v option res" where
  "query_find V accessor key block offset =
    rbind (block_query_next V accessor block offset) (\<lambda>r.
      case r of
        None \<Rightarrow> Ok None
      | Some ((k, v_opt), offset') \<Rightarrow>
          (case (if k = key then v_opt else None) of
             Some v \<Rightarrow> Ok (Some v)
           | None \<Rightarrow> query_find V accessor key block offset'))"
  by pat_completeness auto
termination
  by (relation "measure (\<lambda>(_, _, _, _, offset). RECORD_BLOCK_SIZE - offset)") (auto dest: block_query_next_less intro!: diff_less_mono2)

declare query_find.simps [simp del]

text \<open>\<open>filter_map\<close> and \<open>collect\<close> on the iterator, for a range query.\<close>

function query_collect :: "'v pod_type \<Rightarrow> query_accessor \<Rightarrow> bytes \<Rightarrow> nat \<Rightarrow> (nat \<times> 'v) list res" where
  "query_collect V accessor block offset =
    rbind (block_query_next V accessor block offset) (\<lambda>r.
      case r of
        None \<Rightarrow> Ok []
      | Some ((k, v_opt), offset') \<Rightarrow>
          rbind (if hit_target accessor k then rbind (res_unwrap v_opt) (\<lambda>v. Ok [(k, v)]) else Ok []) (\<lambda>item.
          rbind (query_collect V accessor block offset') (\<lambda>items. Ok (item @ items))))"
  by pat_completeness auto
termination
  by (relation "measure (\<lambda>(_, _, _, offset). RECORD_BLOCK_SIZE - offset)") (auto dest: block_query_next_less intro!: diff_less_mono2)

declare query_collect.simps [simp del]

definition access_point ::
    "'l block_log_ops \<Rightarrow> 'c lru_crate \<Rightarrow> 'v pod_type \<Rightarrow> (nat \<Rightarrow> 'l res) \<Rightarrow> nat \<Rightarrow> 'c sstable \<Rightarrow> ('v \<times> 'c sstable) res" where
  "access_point L C V open_log key sst =
    rbind (sst_is_within_range key sst) (\<lambda>within.
    rbind (rassert within) (\<lambda>_.
    rbind (ok_or NotFound (map_option ie_pos (find (ie_is_within_range key) (ft_index (sst_footer sst))))) (\<lambda>target_rb_pos.
    rbind (target_record_block L C open_log target_rb_pos sst) (\<lambda>(target_rb, sst).
    rbind (query_find V (QPoint key) key target_rb 0) (\<lambda>found.
    rbind (ok_or NotFound found) (\<lambda>v. Ok (v, sst)))))))"

definition access_range ::
    "bittle \<Rightarrow> 'l block_log_ops \<Rightarrow> 'c lru_crate \<Rightarrow> 'v pod_type \<Rightarrow> (nat \<Rightarrow> 'l res) \<Rightarrow> 'v range_query_ctx \<Rightarrow> 'c sstable \<Rightarrow>
      ('v range_query_ctx \<times> 'c sstable) res" where
  "access_range bt L C V open_log ctx sst =
    rbind (rassert (\<not> rq_is_completed ctx)) (\<lambda>_.
    rbind (range_uncompleted bt ctx) (\<lambda>r.
    rbind (res_unwrap r) (\<lambda>(a, b).
    rfold (\<lambda>target_rb_pos (ctx, sst).
        rbind (target_record_block L C open_log target_rb_pos sst) (\<lambda>(target_rb, sst).
        rbind (query_collect V (QRange a b) target_rb 0) (\<lambda>targets.
        rbind (rfold (\<lambda>(target_k, target_v). rq_complete bt target_k target_v) targets ctx) (\<lambda>ctx. Ok (ctx, sst)))))
      (map ie_pos (filter (ie_overlap_with (a, b)) (ft_index (sst_footer sst)))) (ctx, sst))))"

section \<open>Scans\<close>

text \<open>
  One record of a scan: what remains of it and the calls of the listener. \<open>None\<close> for the value stands for the
  \<open>continue\<close> of the loop.
\<close>

record scan_accessor =
  sa_all_synced :: bool
  sa_discard_unsynced :: bool

definition scan_value ::
    "'v pod_type \<Rightarrow> ('v, 'e) tx_event_listener option \<Rightarrow> scan_accessor \<Rightarrow> record_flag \<Rightarrow> nat \<Rightarrow> bytes \<Rightarrow> nat \<Rightarrow> 'e \<Rightarrow>
      ('v value_ex option \<times> nat \<times> 'e) res" where
  "scan_value V el sa flag key block offset e =
    (case flag of
       FlagInvalid \<Rightarrow> Panics
     | FlagSynced \<Rightarrow>
         rbind (slice_range block offset (offset + V_SIZE V)) (\<lambda>bs.
           Ok (Some (Synced (pod_from_bytes V bs)), offset + V_SIZE V, e))
     | FlagUnsynced \<Rightarrow>
         rbind (slice_range block offset (offset + V_SIZE V)) (\<lambda>bs.
         let v = pod_from_bytes V bs; offset = offset + V_SIZE V in
         if sa_all_synced sa then Ok (Some (Synced v), offset, e)
         else if sa_discard_unsynced sa then rbind (notify_drop el key v e) (\<lambda>e. Ok (None, offset, e))
         else Ok (Some (Unsynced v), offset, e))
     | FlagSyncedAndUnsynced \<Rightarrow>
         rbind (slice_range block offset (offset + V_SIZE V)) (\<lambda>bs.
         let sv = pod_from_bytes V bs; offset = offset + V_SIZE V in
         rbind (slice_range block offset (offset + V_SIZE V)) (\<lambda>bs.
         let usv = pod_from_bytes V bs; offset = offset + V_SIZE V in
         if sa_all_synced sa then rbind (notify_drop el key sv e) (\<lambda>e. Ok (Some (Synced usv), offset, e))
         else if sa_discard_unsynced sa then rbind (notify_drop el key usv e) (\<lambda>e. Ok (Some (Synced sv), offset, e))
         else Ok (Some (SyncedAndUnsynced sv usv), offset, e))))"

lemma scan_value_less: "scan_value V el sa flag key block offset e = Ok (r, offset', e') \<Longrightarrow> offset \<le> offset'"
  by (auto simp: scan_value_def Let_def res_simps split: record_flag.splits if_splits)

text \<open>\<open>next\<close> of the iterator over a record block, with its loop over discarded records.\<close>

function block_scan_next ::
    "'v pod_type \<Rightarrow> ('v, 'e) tx_event_listener option \<Rightarrow> scan_accessor \<Rightarrow> bytes \<Rightarrow> nat \<Rightarrow> 'e \<Rightarrow>
      (((nat \<times> 'v value_ex) \<times> nat) option \<times> 'e) res" where
  "block_scan_next V el sa block offset e =
    (if RECORD_BLOCK_SIZE < offset + MIN_RECORD_SIZE V then Ok (None, e)
     else
       rbind (slice_range block offset (offset + K_SIZE)) (\<lambda>key_bytes.
       rbind (nth_res block (offset + K_SIZE)) (\<lambda>b.
       if record_flag_from b = FlagInvalid then Ok (None, e)
       else
         rbind (scan_value V el sa (record_flag_from b) (le_nat key_bytes) block (offset + K_SIZE + 1) e) (\<lambda>(v_ex, offset', e').
         case v_ex of
           None \<Rightarrow> block_scan_next V el sa block offset' e'
         | Some v \<Rightarrow> Ok (Some ((le_nat key_bytes, v), offset'), e')))))"
  by pat_completeness auto
termination
  by (relation "measure (\<lambda>(_, _, _, _, offset, _). RECORD_BLOCK_SIZE - offset)")
    (auto simp: MIN_RECORD_SIZE_def BID_SIZE_def dest!: scan_value_less intro!: diff_less_mono2)

declare block_scan_next.simps [simp del]

record ('c, 'e) sst_iter =
  si_sst :: "'c sstable"
  si_curr_nth_index :: nat
  si_curr_rb_iter :: "(bytes \<times> nat) option"
  si_accessor :: scan_accessor
  si_event :: 'e

definition sst_iter_new ::
    "'l block_log_ops \<Rightarrow> 'c lru_crate \<Rightarrow> (nat \<Rightarrow> 'l res) \<Rightarrow> nat \<Rightarrow> bool \<Rightarrow> 'c sstable \<Rightarrow> 'e \<Rightarrow> ('c, 'e) sst_iter res" where
  "sst_iter_new L C open_log sync_id discard_unsynced sst e =
    rbind (nth_res (ft_index (sst_footer sst)) 0) (\<lambda>entry.
    case target_record_block L C open_log (ie_pos entry) sst of
      Inl _ \<Rightarrow> Panics
    | Inr (first_rb, sst) \<Rightarrow>
        Ok \<lparr>si_sst = sst, si_curr_nth_index = 0, si_curr_rb_iter = Some (first_rb, 0),
          si_accessor = \<lparr>sa_all_synced = (sst_sync_id sst < sync_id), sa_discard_unsynced = discard_unsynced\<rparr>, si_event = e\<rparr>)"

definition sst_iter_next ::
    "'l block_log_ops \<Rightarrow> 'c lru_crate \<Rightarrow> 'v pod_type \<Rightarrow> (nat \<Rightarrow> 'l res) \<Rightarrow> ('v, 'e) tx_event_listener option \<Rightarrow> ('c, 'e) sst_iter \<Rightarrow>
      ((nat \<times> 'v value_ex) option \<times> ('c, 'e) sst_iter) res" where
  "sst_iter_next L C V open_log el it =
    rbind (res_unwrap (si_curr_rb_iter it)) (\<lambda>(block, offset).
    rbind (block_scan_next V el (si_accessor it) block offset (si_event it)) (\<lambda>(next, e).
    case next of
      Some (item, offset) \<Rightarrow> Ok (Some item, it\<lparr>si_curr_rb_iter := Some (block, offset), si_event := e\<rparr>)
    | None \<Rightarrow>
        let nth = si_curr_nth_index it + 1;
            it = it\<lparr>si_curr_rb_iter := None, si_curr_nth_index := nth, si_event := e\<rparr> in
        if fm_num_index (ft_meta (sst_footer (si_sst it))) \<le> nth then Ok (None, it)
        else
          rbind (nth_res (ft_index (sst_footer (si_sst it))) nth) (\<lambda>entry.
          case target_record_block L C open_log (ie_pos entry) (si_sst it) of
            Inl _ \<Rightarrow> Panics
          | Inr (next_rb, sst) \<Rightarrow>
              rbind (block_scan_next V el (si_accessor it) next_rb 0 (si_event it)) (\<lambda>(next, e).
              let it = it\<lparr>si_sst := sst, si_event := e\<rparr> in
              case next of
                None \<Rightarrow> Ok (None, it)
              | Some (item, offset) \<Rightarrow> Ok (Some item, it\<lparr>si_curr_rb_iter := Some (next_rb, offset)\<rparr>)))))"
lemma block_scan_next_less:
  "block_scan_next V el sa block offset e = Ok (Some (item, offset'), e') \<Longrightarrow> offset < offset' \<and> offset < RECORD_BLOCK_SIZE"
proof (induction V el sa block offset e rule: block_scan_next.induct)
  case (1 V el sa block offset e)
  note run = 1(2) [unfolded block_scan_next.simps [of V el sa block offset e]]
  have fit: "\<not> RECORD_BLOCK_SIZE < offset + MIN_RECORD_SIZE V" using run by (auto split: if_splits)
  then obtain ks b v o' e1 where s: "slice_range block offset (offset + K_SIZE) = Ok ks" "nth_res block (offset + K_SIZE) = Ok b"
      "record_flag_from b \<noteq> FlagInvalid" "scan_value V el sa (record_flag_from b) (le_nat ks) block (offset + K_SIZE + 1) e = Ok (v, o', e1)"
    using run by (auto simp: res_simps split: if_splits)
  have "offset < o'" "offset < RECORD_BLOCK_SIZE" using scan_value_less [OF s(4)] fit by (simp_all add: MIN_RECORD_SIZE_def BID_SIZE_def)
  moreover have "o' < offset' \<or> o' = offset'" using run fit s 1(1) [OF fit s(1-4) refl refl] by (cases v) auto
  ultimately show ?case by auto
qed

definition iter_measure :: "('c, 'e) sst_iter \<Rightarrow> nat \<times> nat" where
  "iter_measure it = (fm_num_index (ft_meta (sst_footer (si_sst it))) - si_curr_nth_index it,
    case si_curr_rb_iter it of None \<Rightarrow> 0 | Some (_, offset) \<Rightarrow> RECORD_BLOCK_SIZE - offset)"

lemma target_record_block_footer:
  "target_record_block L C open_log pos sst = Ok (rb, sst') \<Longrightarrow> sst_footer sst' = sst_footer sst \<and> sst_id sst' = sst_id sst"
  by (auto simp: target_record_block_def res_simps split: prod.splits option.splits)

lemma sst_iter_next_less:
  assumes "sst_iter_next L C V open_log el it = Ok (Some item, it')"
  shows "(iter_measure it', iter_measure it) \<in> less_than <*lex*> less_than"
proof -
  obtain block offset where b: "si_curr_rb_iter it = Some (block, offset)"
    using assms by (auto simp: sst_iter_next_def res_simps)
  obtain nx e where n: "block_scan_next V el (si_accessor it) block offset (si_event it) = Ok (nx, e)"
    using assms b by (auto simp: sst_iter_next_def res_simps)
  show ?thesis
  proof (cases nx)
    case (Some x)
    then obtain i offset' where x: "nx = Some (i, offset')" by (cases x) auto
    then have "it' = it\<lparr>si_curr_rb_iter := Some (block, offset'), si_event := e\<rparr>" using assms b n by (auto simp: sst_iter_next_def)
    then show ?thesis using block_scan_next_less [of V el "si_accessor it" block offset "si_event it" i offset' e] n x b
      by (auto simp: iter_measure_def intro!: diff_less_mono2)
  next
    case None
    then show ?thesis using assms b n
      by (auto simp: sst_iter_next_def res_simps iter_measure_def Let_def dest!: target_record_block_footer
          split: if_splits sum.splits option.splits prod.splits)
  qed
qed

text \<open>\<open>collect\<close> on the iterator.\<close>

function sst_iter_collect ::
    "'l block_log_ops \<Rightarrow> 'c lru_crate \<Rightarrow> 'v pod_type \<Rightarrow> (nat \<Rightarrow> 'l res) \<Rightarrow> ('v, 'e) tx_event_listener option \<Rightarrow> ('c, 'e) sst_iter \<Rightarrow>
      ((nat \<times> 'v value_ex) list \<times> ('c, 'e) sst_iter) res" where
  "sst_iter_collect L C V open_log el it =
    rbind (sst_iter_next L C V open_log el it) (\<lambda>(next, it').
      case next of
        None \<Rightarrow> Ok ([], it')
      | Some item \<Rightarrow> rbind (sst_iter_collect L C V open_log el it') (\<lambda>(items, it''). Ok (item # items, it'')))"
  by pat_completeness auto
termination
  by (relation "inv_image (less_than <*lex*> less_than) (\<lambda>(L, C, V, open_log, el, it). iter_measure it)")
    (auto dest: sst_iter_next_less)

declare sst_iter_collect.simps [simp del]

definition access_scan ::
    "'l block_log_ops \<Rightarrow> 'c lru_crate \<Rightarrow> 'v pod_type \<Rightarrow> (nat \<Rightarrow> 'l res) \<Rightarrow> ('v, 'e) tx_event_listener option \<Rightarrow> nat \<Rightarrow> bool \<Rightarrow>
      'c sstable \<Rightarrow> 'e \<Rightarrow> ((nat \<times> 'v value_ex) list \<times> 'c sstable \<times> 'e) res" where
  "access_scan L C V open_log el sync_id discard_unsynced sst e =
    rbind (sst_iter_new L C open_log sync_id discard_unsynced sst e) (\<lambda>it.
    rbind (sst_iter_collect L C V open_log el it) (\<lambda>(all_records, it). Ok (all_records, si_sst it, si_event it)))"

section \<open>Record blocks\<close>

lemmas sst_sizes = BID_SIZE_def K_SIZE_def FLAG_SIZE_def V_SIZE_def MIN_RECORD_SIZE_def MAX_RECORD_SIZE_def

fun value_bytes :: "'v pod_type \<Rightarrow> 'v value_ex \<Rightarrow> bytes" where
  "value_bytes V (Synced v) = 7 # pod_as_bytes V v"
| "value_bytes V (Unsynced v) = 11 # pod_as_bytes V v"
| "value_bytes V (SyncedAndUnsynced sv usv) = 19 # pod_as_bytes V sv @ pod_as_bytes V usv"

definition rec_bytes :: "'v pod_type \<Rightarrow> nat \<times> 'v value_ex \<Rightarrow> bytes" where
  "rec_bytes V r = le_bytes K_SIZE (fst r) @ value_bytes V (snd r)"

definition recs_bytes :: "'v pod_type \<Rightarrow> (nat \<times> 'v value_ex) list \<Rightarrow> bytes" where
  "recs_bytes V rs = concat (map (rec_bytes V) rs)"

definition block_image :: "'v pod_type \<Rightarrow> (nat \<times> 'v value_ex) list \<Rightarrow> bytes" where
  "block_image V rs = vec_resize RECORD_BLOCK_SIZE (recs_bytes V rs)"

definition listener_total :: "('v, 'e) tx_event_listener option \<Rightarrow> bool" where
  "listener_total el \<longleftrightarrow> (\<forall>l. el = Some l \<longrightarrow> (\<forall>k v e. is_ok (el_add l k v e) \<and> is_ok (el_drop l k v e)))"

lemma notify_total:
  assumes "listener_total el"
  shows "\<exists>e'. notify_add el k v e = Ok e'" "\<exists>e'. notify_drop el k v e = Ok e'"
  using assms by (auto simp: listener_total_def notify_add_def notify_drop_def is_ok_iff split: option.splits sum.splits; metis Inl_Inr_False)+

text \<open>What a scan makes of a record.\<close>

fun scan_rec :: "scan_accessor \<Rightarrow> 'v value_ex \<Rightarrow> 'v value_ex option" where
  "scan_rec sa (Synced v) = Some (Synced v)"
| "scan_rec sa (Unsynced v) =
    (if sa_all_synced sa then Some (Synced v) else if sa_discard_unsynced sa then None else Some (Unsynced v))"
| "scan_rec sa (SyncedAndUnsynced sv usv) =
    (if sa_all_synced sa then Some (Synced usv) else if sa_discard_unsynced sa then Some (Synced sv) else Some (SyncedAndUnsynced sv usv))"

definition scan_recs :: "scan_accessor \<Rightarrow> (nat \<times> 'v value_ex) list \<Rightarrow> (nat \<times> 'v value_ex) list" where
  "scan_recs sa rs = concat (map (\<lambda>(k, v). case scan_rec sa v of None \<Rightarrow> [] | Some w \<Rightarrow> [(k, w)]) rs)"

lemma scan_recs_simps [simp]: "scan_recs sa [] = []"
  "scan_recs sa ((k, v) # rs) = (case scan_rec sa v of None \<Rightarrow> [] | Some w \<Rightarrow> [(k, w)]) @ scan_recs sa rs"
  by (simp_all add: scan_recs_def)

text \<open>A block that has, from an offset on, the given records and then zeros.\<close>

definition block_from :: "'v pod_type \<Rightarrow> bytes \<Rightarrow> nat \<Rightarrow> (nat \<times> 'v value_ex) list \<Rightarrow> bool" where
  "block_from V block offset rs \<longleftrightarrow> length block = RECORD_BLOCK_SIZE \<and> offset \<le> RECORD_BLOCK_SIZE \<and>
    (\<exists>n. drop offset block = recs_bytes V rs @ replicate n 0) \<and> (\<forall>r \<in> set rs. fst r < 2 ^ 64)"

lemma take_drop_append: "drop offset block = xs @ ys \<Longrightarrow> take (length xs) (drop offset block) = xs \<and> drop (offset + length xs) block = ys"
  by (metis append_eq_conv_conj add.commute drop_drop)

context pod_laws
begin

lemma length_value_bytes: "length (value_bytes V v) = (case v of SyncedAndUnsynced _ _ \<Rightarrow> 1 + 2 * V_SIZE V | _ \<Rightarrow> 1 + V_SIZE V)"
  by (cases v) (simp_all add: pod_length V_SIZE_def)

lemma length_rec_bytes: "length (rec_bytes V r) = K_SIZE + length (value_bytes V (snd r))"
  by (simp add: rec_bytes_def)

lemma block_from_nil:
  assumes "block_from V block offset []" "\<not> RECORD_BLOCK_SIZE < offset + MIN_RECORD_SIZE V"
  shows "nth_res block (offset + K_SIZE) = Ok 0" "slice_range block offset (offset + K_SIZE) = Ok (replicate K_SIZE 0)"
proof -
  obtain n where n: "drop offset block = replicate n 0" "length block = RECORD_BLOCK_SIZE"
    using assms(1) by (auto simp: block_from_def recs_bytes_def)
  have lt: "offset + K_SIZE < length block" using assms(2) n(2) by (simp add: sst_sizes)
  then have "K_SIZE < n" using arg_cong [OF n(1), of length] by simp
  then show "slice_range block offset (offset + K_SIZE) = Ok (replicate K_SIZE 0)" using n lt by (simp add: slice_range_def)
  have "block ! (offset + K_SIZE) = drop offset block ! K_SIZE" using lt by simp
  then show "nth_res block (offset + K_SIZE) = Ok 0" using lt \<open>K_SIZE < n\<close> unfolding n(1) by simp
qed

lemma block_from_cons:
  assumes "block_from V block offset ((k, v) # rs)"
  shows "\<not> RECORD_BLOCK_SIZE < offset + MIN_RECORD_SIZE V" "slice_range block offset (offset + K_SIZE) = Ok (le_bytes K_SIZE k)" "k < 256 ^ K_SIZE"
    "nth_res block (offset + K_SIZE) = Ok (hd (value_bytes V v))"
    "i + n \<le> length (tl (value_bytes V v)) \<Longrightarrow>
      slice_range block (offset + K_SIZE + 1 + i) (offset + K_SIZE + 1 + i + n) = Ok (take n (drop i (tl (value_bytes V v))))"
    "block_from V block (offset + length (rec_bytes V (k, v))) rs"
proof -
  let ?vb = "value_bytes V v"
  have vb: "?vb = hd ?vb # tl ?vb" by (cases v) simp_all
  obtain m where d: "drop offset block = (le_bytes K_SIZE k @ ?vb) @ recs_bytes V rs @ replicate m 0" "length block = RECORD_BLOCK_SIZE"
      "offset \<le> RECORD_BLOCK_SIZE" "k < 2 ^ 64" "\<forall>r \<in> set rs. fst r < 2 ^ 64"
    using assms by (auto simp: block_from_def recs_bytes_def rec_bytes_def)
  have len: "offset + K_SIZE + length ?vb \<le> RECORD_BLOCK_SIZE" using arg_cong [OF d(1), of length] d(2,3) by simp
  have b: "block = take offset block @ (le_bytes K_SIZE k @ ?vb) @ recs_bytes V rs @ replicate m 0" using d(1) by (metis append_take_drop_id)
  have lt: "length (take offset block) = offset" using d(2,3) by simp
  show "\<not> RECORD_BLOCK_SIZE < offset + MIN_RECORD_SIZE V" using len length_value_bytes [of v] by (auto simp: sst_sizes split: value_ex.splits)
  show "slice_range block offset (offset + K_SIZE) = Ok (le_bytes K_SIZE k)" using d(1,2) len by (simp add: slice_range_def)
  show "k < 256 ^ K_SIZE" using d(4) by (simp add: K_SIZE_def)
  have "block ! (offset + K_SIZE) = drop offset block ! K_SIZE" using len d(2) by simp
  also have "\<dots> = hd ?vb" unfolding d(1) by (subst vb) (simp add: nth_append)
  finally show "nth_res block (offset + K_SIZE) = Ok (hd ?vb)" using len d(2) vb by (metis add_lessD1 le_less_trans length_Cons less_add_Suc1 less_le_trans nat_add_left_cancel_less nth_res_Ok zero_less_Suc)
  show "slice_range block (offset + K_SIZE + 1 + i) (offset + K_SIZE + 1 + i + n) = Ok (take n (drop i (tl ?vb)))"
    if "i + n \<le> length (tl ?vb)"
  proof -
    have "length ?vb = Suc (length (tl ?vb))" by (subst vb) simp
    then have fit: "1 + i \<le> length ?vb" "offset + K_SIZE + 1 + i + n \<le> length block" using that len d(2) by simp_all
    have "drop (offset + K_SIZE + 1 + i) block = drop (K_SIZE + (1 + i)) (drop offset block)" by (simp add: add.commute add.left_commute)
    also have "\<dots> = drop i (tl ?vb) @ recs_bytes V rs @ replicate m 0" unfolding d(1) using fit(1) by (simp add: drop_Suc)
    finally show ?thesis using that fit(2) by (simp add: slice_range_def)
  qed
  show "block_from V block (offset + length (rec_bytes V (k, v))) rs"
    using d len take_drop_append [OF d(1)] by (auto simp: block_from_def rec_bytes_def add.assoc)
qed

end

lemma record_flag_simps [simp]: "record_flag_from 0 = FlagInvalid" "record_flag_from 7 = FlagSynced" "record_flag_from 11 = FlagUnsynced"
  "record_flag_from 19 = FlagSyncedAndUnsynced"
  by (simp_all add: record_flag_from_def)

context pod_laws
begin

lemma block_query_next_nil: "block_from V block offset [] \<Longrightarrow> block_query_next V acc block offset = Ok None"
  using block_from_nil [of block offset] by (simp add: block_query_next_def Let_def)

lemma block_query_next_cons:
  assumes "block_from V block offset ((k, v) # rs)"
  shows "block_query_next V acc block offset =
    Ok (Some ((k, if hit_target acc k then Some (value_ex_get v) else None), offset + length (rec_bytes V (k, v))))"
proof -
  note b = block_from_cons(1-4) [OF assms] block_from_cons(5) [OF assms, of 0 "V_SIZE V"] block_from_cons(5) [OF assms, of "V_SIZE V" "V_SIZE V"]
  have k: "le_nat (le_bytes K_SIZE k) = k" using b(3) by (rule le_nat_bytes_exact)
  have len: "V_SIZE V = length (pod_as_bytes V w)" for w by (simp add: V_SIZE_def pod_length)
  show ?thesis
    using b(1,2,4-6) length_rec_bytes [of "(k, v)"] length_value_bytes [of v]
    by (cases v) (simp_all add: block_query_next_def Let_def k len [symmetric] pod_roundtrip pod_length V_SIZE_def mult_2 add.assoc add.commute add.left_commute)
qed

lemma query_find_spec:
  assumes "block_from V block offset rs"
  shows "query_find V (QPoint key) key block offset = Ok (map_option value_ex_get (map_of rs key))"
  using assms
proof (induction rs arbitrary: offset)
  case Nil
  then show ?case by (simp add: query_find.simps [of V "QPoint key" key block offset] block_query_next_nil)
next
  case (Cons r rs)
  obtain k v where r: "r = (k, v)" by (cases r)
  show ?case
    using Cons.IH block_from_cons(6) Cons.prems block_query_next_cons unfolding r
    by (subst query_find.simps) (auto simp: block_query_next_cons)
qed

lemma query_collect_spec:
  assumes "block_from V block offset rs"
  shows "query_collect V acc block offset = Ok (map (\<lambda>(k, v). (k, value_ex_get v)) (filter (\<lambda>(k, _). hit_target acc k) rs))"
  using assms
proof (induction rs arbitrary: offset)
  case Nil
  then show ?case by (simp add: query_collect.simps [of V acc block offset] block_query_next_nil)
next
  case (Cons r rs)
  obtain k v where r: "r = (k, v)" by (cases r)
  show ?case
    using Cons.IH [OF block_from_cons(6)] Cons.prems unfolding r
    by (subst query_collect.simps) (auto simp: block_query_next_cons)
qed

text \<open>The iterator over a block skips the records that are discarded.\<close>

lemma scan_value_cons:
  assumes "block_from V block offset ((k, v) # rs)" "listener_total el"
  shows "\<exists>e'. scan_value V el sa (record_flag_from (hd (value_bytes V v))) k block (offset + K_SIZE + 1) e =
    Ok (scan_rec sa v, offset + length (rec_bytes V (k, v)), e')"
proof -
  note b = block_from_cons(5) [OF assms(1), of 0 "V_SIZE V"] block_from_cons(5) [OF assms(1), of "V_SIZE V" "V_SIZE V"]
  have len: "length (pod_as_bytes V w) = V_SIZE V" for w by (simp add: V_SIZE_def pod_length)
  obtain f where f: "notify_drop el k' w e' = Ok (f k' w e')" for k' w e' using notify_total(2) [OF assms(2)] by metis
  show ?thesis
    using b length_rec_bytes [of "(k, v)"]
    by (cases v) (auto simp: scan_value_def Let_def f len pod_roundtrip add.assoc mult_2)
qed

lemma block_scan_next_spec:
  assumes "block_from V block offset rs" "listener_total el"
  shows "(scan_recs sa rs = [] \<and> (\<exists>e'. block_scan_next V el sa block offset e = Ok (None, e'))) \<or>
    (\<exists>k w rs' offset' e'. scan_recs sa rs = (k, w) # scan_recs sa rs' \<and> block_from V block offset' rs' \<and>
      block_scan_next V el sa block offset e = Ok (Some ((k, w), offset'), e'))"
  using assms(1)
proof (induction rs arbitrary: offset e)
  case Nil
  then show ?case using block_from_nil [of block offset] by (simp add: block_scan_next.simps [of V el sa block offset e])
next
  case (Cons r rs)
  obtain k v where r: "r = (k, v)" by (cases r)
  note b = block_from_cons(1-4,6) [OF Cons.prems [unfolded r]]
  obtain e' where s: "scan_value V el sa (record_flag_from (hd (value_bytes V v))) k block (offset + K_SIZE + 1) e =
      Ok (scan_rec sa v, offset + length (rec_bytes V (k, v)), e')"
    using scan_value_cons [OF Cons.prems [unfolded r] assms(2)] by blast
  have fl: "record_flag_from (hd (value_bytes V v)) \<noteq> FlagInvalid" by (cases v) simp_all
  have run: "block_scan_next V el sa block offset e = (case scan_rec sa v of
      None \<Rightarrow> block_scan_next V el sa block (offset + length (rec_bytes V (k, v))) e'
    | Some w \<Rightarrow> Ok (Some ((k, w), offset + length (rec_bytes V (k, v))), e'))"
    using b(1-4) s fl by (subst block_scan_next.simps) (simp add: le_nat_bytes_exact split: option.split)
  show ?case
  proof (cases "scan_rec sa v")
    case None
    then show ?thesis using Cons.IH [OF b(5), of e'] run r by simp
  next
    case (Some w)
    then show ?thesis using b(5) run r by auto
  qed
qed

end
section \<open>Tables\<close>

text \<open>The index entry of the \<open>i\<close>-th of the record blocks.\<close>

definition entry_of :: "(nat \<times> 'v value_ex) list list \<Rightarrow> nat \<Rightarrow> index_entry" where
  "entry_of chunks i = \<lparr>ie_pos = i * RECORD_BLOCK_NBLOCKS, ie_first = fst (hd (chunks ! i)), ie_last = fst (last (chunks ! i))\<rparr>"

definition chunks_ok :: "'v pod_type \<Rightarrow> (nat \<times> 'v value_ex) list list \<Rightarrow> bool" where
  "chunks_ok V chunks \<longleftrightarrow> chunks \<noteq> [] \<and> (\<forall>c \<in> set chunks. c \<noteq> [] \<and> length (recs_bytes V c) \<le> RECORD_BLOCK_SIZE) \<and>
    btree_ok (concat chunks) \<and> (\<forall>r \<in> set (concat chunks). fst r < 2 ^ 64)"

definition images :: "'v pod_type \<Rightarrow> (nat \<times> 'v value_ex) list list \<Rightarrow> bytes" where
  "images V chunks = concat (map (block_image V) chunks)"

definition cache_ok :: "'v pod_type \<Rightarrow> ('c \<Rightarrow> block_id \<Rightarrow> bytes option) \<Rightarrow> (nat \<times> 'v value_ex) list list \<Rightarrow> 'c \<Rightarrow> bool" where
  "cache_ok V holds chunks cache \<longleftrightarrow>
    (\<forall>pos rb. holds cache pos = Some rb \<longrightarrow> (\<exists>i < length chunks. pos = i * RECORD_BLOCK_NBLOCKS \<and> rb = block_image V (chunks ! i)))"

definition sst_ok :: "'v pod_type \<Rightarrow> ('c \<Rightarrow> block_id \<Rightarrow> bytes option) \<Rightarrow> bytes \<Rightarrow> (nat \<times> 'v value_ex) list list \<Rightarrow> 'c sstable \<Rightarrow> bool" where
  "sst_ok V holds bs chunks sst \<longleftrightarrow> chunks_ok V chunks \<and> (\<exists>ft. bs = images V chunks @ ft) \<and>
    ft_index (sst_footer sst) = map (entry_of chunks) [0..<length chunks] \<and>
    fm_num_index (ft_meta (sst_footer sst)) = length chunks \<and> cache_ok V holds chunks (sst_cache sst)"

lemma length_block_image [simp]: "length (block_image V rs) = RECORD_BLOCK_SIZE"
  by (simp add: block_image_def vec_resize_def)

lemma length_images: "length (images V chunks) = length chunks * RECORD_BLOCK_SIZE"
  by (induction chunks) (simp_all add: images_def)

lemma images_slice:
  assumes "i < length chunks"
  shows "take RECORD_BLOCK_SIZE (drop (i * RECORD_BLOCK_SIZE) (images V chunks @ ft)) = block_image V (chunks ! i)"
  using concat_slice [of "map (block_image V) chunks" RECORD_BLOCK_SIZE i ft] assms by (simp add: images_def)

lemma block_from_image:
  assumes "chunks_ok V chunks" "i < length chunks"
  shows "block_from V (block_image V (chunks ! i)) 0 (chunks ! i)"
  using assms nth_mem [OF assms(2)] by (auto simp: chunks_ok_def block_from_def block_image_def vec_resize_def)

locale sst_setting = pod_laws V + lru_laws C holds + roomy_log L inv content room
  for V :: "'v pod_type" and C :: "'c lru_crate" and holds :: "'c \<Rightarrow> block_id \<Rightarrow> bytes option"
    and L :: "'l block_log_ops" and inv :: "'l \<Rightarrow> bool" and content :: "'l \<Rightarrow> bytes" and room :: "'l \<Rightarrow> nat \<Rightarrow> bool"
begin

lemma cache_ok_new: "cache_ok V holds chunks (lc_new C n)"
  by (simp add: cache_ok_def lru_new)

lemma cache_ok_put:
  assumes "cache_ok V holds chunks cache" "i < length chunks"
  shows "cache_ok V holds chunks (lc_put C cache (i * RECORD_BLOCK_NBLOCKS) (block_image V (chunks ! i)))"
  unfolding cache_ok_def
proof (intro allI impI)
  fix pos rb assume "holds (lc_put C cache (i * RECORD_BLOCK_NBLOCKS) (block_image V (chunks ! i))) pos = Some rb"
  then have "((holds cache)(i * RECORD_BLOCK_NBLOCKS \<mapsto> block_image V (chunks ! i))) pos = Some rb"
    using lru_put by (metis domI map_le_def)
  then show "\<exists>i < length chunks. pos = i * RECORD_BLOCK_NBLOCKS \<and> rb = block_image V (chunks ! i)"
    using assms by (auto simp: cache_ok_def split: if_splits)
qed

lemma read_record_block:
  assumes "inv log" "content log = images V chunks @ ft" "i < length chunks"
  shows "bl_read L log (i * RECORD_BLOCK_NBLOCKS) RECORD_BLOCK_NBLOCKS = Ok (block_image V (chunks ! i))"
proof -
  have "length chunks * RECORD_BLOCK_SIZE \<le> length (content log)" using assms(2) by (simp add: length_images)
  then have "(length chunks * RECORD_BLOCK_NBLOCKS) * BLOCK_SIZE \<le> bl_nblocks L log * BLOCK_SIZE"
    unfolding log_length [OF assms(1)] RECORD_BLOCK_SIZE_def mult.assoc .
  then have "length chunks * RECORD_BLOCK_NBLOCKS \<le> bl_nblocks L log" by simp
  moreover have "(i + 1) * RECORD_BLOCK_NBLOCKS \<le> length chunks * RECORD_BLOCK_NBLOCKS" using assms(3) by (intro mult_le_mono1) simp
  ultimately have "i * RECORD_BLOCK_NBLOCKS + RECORD_BLOCK_NBLOCKS \<le> bl_nblocks L log" by simp
  then show ?thesis
    using log_read [OF assms(1), of RECORD_BLOCK_NBLOCKS "i * RECORD_BLOCK_NBLOCKS"] images_slice [OF assms(3), of V ft] assms(2)
    by (simp add: RECORD_BLOCK_NBLOCKS_def RECORD_BLOCK_SIZE_def mult.assoc)
qed

lemma target_record_block_spec:
  assumes "sst_ok V holds (content log) chunks sst" "inv log" "open_log (sst_id sst) = Ok log" "i < length chunks"
  shows "\<exists>sst'. target_record_block L C open_log (i * RECORD_BLOCK_NBLOCKS) sst = Ok (block_image V (chunks ! i), sst') \<and>
    sst_ok V holds (content log) chunks sst' \<and> sst_id sst' = sst_id sst \<and> sst_footer sst' = sst_footer sst"
proof -
  let ?p = "i * RECORD_BLOCK_NBLOCKS"
  obtain ft where s: "content log = images V chunks @ ft" "cache_ok V holds chunks (sst_cache sst)" using assms(1) by (auto simp: sst_ok_def)
  obtain r cache where g: "lc_get C (sst_cache sst) ?p = (r, cache)" by (cases "lc_get C (sst_cache sst) ?p")
  then have h: "r = holds (sst_cache sst) ?p" "holds cache = holds (sst_cache sst)"
    using lru_get(1) [of "sst_cache sst" ?p] lru_get(2) [of "sst_cache sst" ?p] by simp_all
  then have c: "cache_ok V holds chunks cache" using s(2) by (simp add: cache_ok_def)
  show ?thesis
  proof (cases r)
    case None
    then show ?thesis using g assms(1,3) read_record_block [OF assms(2) s(1) assms(4)] cache_ok_put [OF c assms(4)]
      by (auto simp: target_record_block_def sst_ok_def)
  next
    case (Some rb)
    then obtain j where "?p = j * RECORD_BLOCK_NBLOCKS" "rb = block_image V (chunks ! j)" using s(2) h(1) unfolding cache_ok_def by metis
    then have "rb = block_image V (chunks ! i)" by (simp add: RECORD_BLOCK_NBLOCKS_def)
    then show ?thesis using g Some assms(1) c by (auto simp: target_record_block_def sst_ok_def)
  qed
qed

end

text \<open>Where the keys of a table are: the keys of different record blocks do not interleave.\<close>

lemma chunk_bounds:
  assumes "chunks_ok V chunks" "i < length chunks" "r \<in> set (chunks ! i)"
  shows "ie_is_within_range (fst r) (entry_of chunks i)" "j < length chunks \<Longrightarrow> ie_is_within_range (fst r) (entry_of chunks j) \<Longrightarrow> j = i"
proof -
  have ordered: "fst x < fst y" if "a < b" "b < length chunks" "x \<in> set (chunks ! a)" "y \<in> set (chunks ! b)" for a b x y
  proof -
    have "chunks = take b chunks @ chunks ! b # drop (Suc b) chunks" using that(2) by (rule id_take_nth_drop)
    then have "btree_ok (concat (take b chunks) @ chunks ! b @ concat (drop (Suc b) chunks))"
      using assms(1) unfolding chunks_ok_def by (metis concat.simps(2) concat_append)
    moreover have "chunks ! a \<in> set (take b chunks)" using that(1,2) by (auto simp: in_set_conv_nth intro!: exI [of _ a])
    moreover have "x \<in> set (concat (take b chunks))" using calculation(2) that(3) by auto
    ultimately show ?thesis using that(4) unfolding btree_ok_append by auto
  qed
  have inner: "fst (hd (chunks ! a)) \<le> fst x \<and> fst x \<le> fst (last (chunks ! a))" "chunks ! a \<noteq> []" if ax: "a < length chunks" "x \<in> set (chunks ! a)" for a x
  proof -
    have "chunks = take a chunks @ chunks ! a # drop (Suc a) chunks" using ax(1) by (rule id_take_nth_drop)
    then have "btree_ok (concat (take a chunks) @ chunks ! a @ concat (drop (Suc a) chunks))"
      using assms(1) unfolding chunks_ok_def by (metis concat.simps(2) concat_append)
    then have "btree_ok (chunks ! a)" by (simp add: btree_ok_append)
    then have "\<forall>m. m \<le> n \<and> n < length (chunks ! a) \<longrightarrow> fst (chunks ! a ! m) \<le> fst (chunks ! a ! n)" for n
      by (auto simp: btree_ok_def sorted_wrt_iff_nth_less le_less)
    moreover obtain n where "n < length (chunks ! a)" "x = chunks ! a ! n" using ax(2) by (auto simp: in_set_conv_nth)
    moreover show ne: "chunks ! a \<noteq> []" using ax(2) by auto
    moreover have "length (chunks ! a) - 1 < length (chunks ! a)" using ne by simp
    ultimately show "fst (hd (chunks ! a)) \<le> fst x \<and> fst x \<le> fst (last (chunks ! a))"
      by (auto simp: hd_conv_nth last_conv_nth)
  qed
  show "ie_is_within_range (fst r) (entry_of chunks i)" using inner(1) [OF assms(2,3)] by (simp add: ie_is_within_range_def entry_of_def)
  assume j: "j < length chunks" "ie_is_within_range (fst r) (entry_of chunks j)"
  have ne: "chunks ! j \<noteq> []" using assms(1) nth_mem [OF j(1)] by (auto simp: chunks_ok_def)
  show "j = i"
  proof (rule ccontr)
    assume "j \<noteq> i"
    then consider "j < i" | "i < j" by linarith
    then show False
      using ordered [of j i "last (chunks ! j)" r] ordered [of i j r "hd (chunks ! j)"] assms(2,3) j ne
      by cases (auto simp: ie_is_within_range_def entry_of_def)
  qed
qed

lemma map_of_concat_chunk:
  assumes "chunks_ok V chunks" "i < length chunks" "ie_is_within_range key (entry_of chunks i)"
  shows "map_of (concat chunks) key = map_of (chunks ! i) key"
proof -
  have d: "distinct (map fst (concat chunks))" using assms(1) btree_ok_distinct by (auto simp: chunks_ok_def)
  show ?thesis
  proof (cases "map_of (concat chunks) key")
    case None
    then have "map_of (chunks ! i) key = None" using nth_mem [OF assms(2)] by (auto simp: map_of_eq_None_iff image_iff)
    then show ?thesis using None by simp
  next
    case (Some v)
    then obtain j where j: "j < length chunks" "(key, v) \<in> set (chunks ! j)"
      using map_of_SomeD [OF Some] by (metis UN_E in_set_conv_nth set_concat)
    then have "i = j" using chunk_bounds(2) [OF assms(1) j(1,2) assms(2)] assms(3) by simp
    moreover have "distinct (map fst (chunks ! j))"
      using d id_take_nth_drop [OF j(1)] by (metis concat.simps(2) concat_append distinct_append map_append)
    ultimately show ?thesis using j Some by simp
  qed
qed

text \<open>
  A scan gives the records of the first record block and of those after it up to the first one of which nothing is
  left.
\<close>

definition scan_chunks :: "scan_accessor \<Rightarrow> (nat \<times> 'v value_ex) list list \<Rightarrow> (nat \<times> 'v value_ex) list" where
  "scan_chunks sa chunks = concat (takeWhile (\<lambda>rs. rs \<noteq> []) (map (scan_recs sa) chunks))"

lemma scan_chunks_simps [simp]: "scan_chunks sa [] = []"
  "scan_chunks sa (c # cs) = (if scan_recs sa c = [] then [] else scan_recs sa c @ scan_chunks sa cs)"
  by (simp_all add: scan_chunks_def)

text \<open>An iterator stands in the \<open>i\<close>-th record block and has the records \<open>rs\<close> of it to go.\<close>

definition iter_at ::
    "'v pod_type \<Rightarrow> ('c \<Rightarrow> block_id \<Rightarrow> bytes option) \<Rightarrow> ('l \<Rightarrow> bool) \<Rightarrow> ('l \<Rightarrow> bytes) \<Rightarrow> 'l \<Rightarrow> (nat \<Rightarrow> 'l res) \<Rightarrow>
      (nat \<times> 'v value_ex) list list \<Rightarrow> scan_accessor \<Rightarrow> nat \<Rightarrow> (nat \<times> 'v value_ex) list \<Rightarrow> ('c, 'e) sst_iter \<Rightarrow> bool" where
  "iter_at V holds log_inv content log open_log chunks sa i rs it \<longleftrightarrow> sst_ok V holds (content log) chunks (si_sst it) \<and> log_inv log \<and>
    open_log (sst_id (si_sst it)) = Ok log \<and> i < length chunks \<and> si_curr_nth_index it = i \<and> si_accessor it = sa \<and>
    (\<exists>offset. si_curr_rb_iter it = Some (block_image V (chunks ! i), offset) \<and> block_from V (block_image V (chunks ! i)) offset rs)"

context sst_setting
begin

lemma sst_range_spec:
  assumes "sst_ok V holds bs chunks sst"
  shows "sst_range sst = Ok (fst (hd (concat chunks)), fst (last (concat chunks)))"
proof -
  have c: "chunks \<noteq> []" "\<forall>c \<in> set chunks. c \<noteq> []" using assms by (auto simp: sst_ok_def chunks_ok_def)
  then have "hd (concat chunks) = hd (chunks ! 0)" by (cases chunks) auto
  moreover have "last (concat chunks) = last (last chunks)" using c by (induction chunks) auto
  ultimately show ?thesis using assms c(1) by (simp add: sst_range_def sst_ok_def entry_of_def last_conv_nth checked_sub_def Suc_le_eq)
qed

lemma access_point_spec:
  assumes "sst_ok V holds (content log) chunks sst" "inv log" "open_log (sst_id sst) = Ok log"
    "fst (hd (concat chunks)) \<le> key" "key \<le> fst (last (concat chunks))"
  shows "case map_of (concat chunks) key of
      None \<Rightarrow> access_point L C V open_log key sst = Fail NotFound
    | Some v \<Rightarrow> \<exists>sst'. access_point L C V open_log key sst = Ok (value_ex_get v, sst') \<and> sst_ok V holds (content log) chunks sst' \<and>
        sst_id sst' = sst_id sst \<and> sst_footer sst' = sst_footer sst"
proof -
  let ?is = "map (entry_of chunks) [0..<length chunks]"
  have s: "chunks_ok V chunks" "ft_index (sst_footer sst) = ?is" using assms(1) by (simp_all add: sst_ok_def)
  have within: "sst_is_within_range key sst = Ok True" using sst_range_spec [OF assms(1)] assms(4,5) by (simp add: sst_is_within_range_def)
  show ?thesis
  proof (cases "find (ie_is_within_range key) ?is")
    case None
    have "map_of (concat chunks) key = None"
    proof (rule ccontr)
      assume "map_of (concat chunks) key \<noteq> None"
      then obtain v where "(key, v) \<in> set (concat chunks)" using map_of_SomeD by fast
      then obtain j where "j < length chunks" "(key, v) \<in> set (chunks ! j)" by (metis UN_E in_set_conv_nth set_concat)
      then show False using chunk_bounds(1) [OF s(1)] None by (fastforce simp: find_None_iff)
    qed
    then show ?thesis using None within s(2) by (simp add: access_point_def)
  next
    case (Some entry)
    then obtain i where i: "i < length chunks" "entry = entry_of chunks i" "ie_is_within_range key (entry_of chunks i)"
      by (auto simp: find_Some_iff)
    obtain sst' where t: "target_record_block L C open_log (i * RECORD_BLOCK_NBLOCKS) sst = Ok (block_image V (chunks ! i), sst')"
        "sst_ok V holds (content log) chunks sst'" "sst_id sst' = sst_id sst" "sst_footer sst' = sst_footer sst"
      using target_record_block_spec [of log chunks sst open_log i] assms(1-3) i(1) by blast
    have "query_find V (QPoint key) key (block_image V (chunks ! i)) 0 = Ok (map_option value_ex_get (map_of (concat chunks) key))"
      using query_find_spec [OF block_from_image [OF s(1) i(1)]] map_of_concat_chunk [OF s(1) i(1,3)] by simp
    then show ?thesis using within s(2) Some i(2) t by (simp add: access_point_def entry_of_def split: option.splits)
  qed
qed


lemma sst_iter_next_block:
  assumes "iter_at V holds inv content log open_log chunks sa i rs it" "listener_total el" "scan_recs sa rs = []"
  shows "scan_chunks sa (drop (Suc i) chunks) = [] \<and> (\<exists>it'. sst_iter_next L C V open_log el it = Ok (None, it')) \<or>
    (\<exists>k w rs' it'. scan_chunks sa (drop (Suc i) chunks) = (k, w) # scan_recs sa rs' @ scan_chunks sa (drop (Suc (Suc i)) chunks) \<and>
      sst_iter_next L C V open_log el it = Ok (Some (k, w), it') \<and> iter_at V holds inv content log open_log chunks sa (Suc i) rs' it')"
proof -
  obtain offset where i: "sst_ok V holds (content log) chunks (si_sst it)" "inv log" "open_log (sst_id (si_sst it)) = Ok log"
      "si_curr_nth_index it = i" "si_accessor it = sa" "si_curr_rb_iter it = Some (block_image V (chunks ! i), offset)"
      "block_from V (block_image V (chunks ! i)) offset rs"
    using assms(1) unfolding iter_at_def by blast
  obtain e' where s: "block_scan_next V el sa (block_image V (chunks ! i)) offset (si_event it) = Ok (None, e')"
    using block_scan_next_spec [OF i(7) assms(2), of sa "si_event it"] assms(3) by auto
  have num: "fm_num_index (ft_meta (sst_footer (si_sst it))) = length chunks"
      "ft_index (sst_footer (si_sst it)) = map (entry_of chunks) [0..<length chunks]" "chunks_ok V chunks"
    using i(1) by (simp_all add: sst_ok_def)
  show ?thesis
  proof (cases "length chunks \<le> Suc i")
    case True
    then show ?thesis using i(4-6) s num by (simp add: sst_iter_next_def Let_def)
  next
    case False
    then have j: "Suc i < length chunks" by simp
    let ?c = "chunks ! Suc i"
    obtain sst' where t: "target_record_block L C open_log (Suc i * RECORD_BLOCK_NBLOCKS) (si_sst it) = Ok (block_image V ?c, sst')"
        "sst_ok V holds (content log) chunks sst'" "sst_id sst' = sst_id (si_sst it)"
      using target_record_block_spec [of log chunks "si_sst it" open_log "Suc i"] i(1-3) j by blast
    have dr: "drop (Suc i) chunks = ?c # drop (Suc (Suc i)) chunks" using j by (simp add: Cons_nth_drop_Suc)
    from block_scan_next_spec [OF block_from_image [OF num(3) j] assms(2), of sa e'] show ?thesis
    proof (elim disjE conjE exE)
      fix e2 assume s2: "scan_recs sa ?c = []" "block_scan_next V el sa (block_image V ?c) 0 e' = Ok (None, e2)"
      then show ?thesis using i(4-6) s num j False t(1) dr by (simp add: sst_iter_next_def Let_def entry_of_def)
    next
      fix k w rs' o' e2
      assume s2: "scan_recs sa ?c = (k, w) # scan_recs sa rs'" "block_from V (block_image V ?c) o' rs'"
        "block_scan_next V el sa (block_image V ?c) 0 e' = Ok (Some ((k, w), o'), e2)"
      let ?it = "it\<lparr>si_curr_nth_index := Suc i, si_sst := sst', si_event := e2, si_curr_rb_iter := Some (block_image V ?c, o')\<rparr>"
      have "sst_iter_next L C V open_log el it = Ok (Some (k, w), ?it)"
        using i(4-6) s num j False t(1) s2(3) by (simp add: sst_iter_next_def Let_def entry_of_def)
      moreover have "iter_at V holds inv content log open_log chunks sa (Suc i) rs' ?it" using i(2,3,5) t(2,3) j s2(2) by (simp add: iter_at_def)
      ultimately show ?thesis using s2(1) dr by auto
    qed
  qed
qed

lemma sst_iter_next_spec:
  assumes "iter_at V holds inv content log open_log chunks sa i rs it" "listener_total el"
  shows "scan_recs sa rs @ scan_chunks sa (drop (Suc i) chunks) = [] \<and> (\<exists>it'. sst_iter_next L C V open_log el it = Ok (None, it')) \<or>
    (\<exists>k w j rs' it'. scan_recs sa rs @ scan_chunks sa (drop (Suc i) chunks) = (k, w) # scan_recs sa rs' @ scan_chunks sa (drop (Suc j) chunks) \<and>
      sst_iter_next L C V open_log el it = Ok (Some (k, w), it') \<and> iter_at V holds inv content log open_log chunks sa j rs' it')"
proof -
  obtain offset where i: "si_accessor it = sa" "si_curr_rb_iter it = Some (block_image V (chunks ! i), offset)"
      "block_from V (block_image V (chunks ! i)) offset rs"
    using assms(1) unfolding iter_at_def by blast
  from block_scan_next_spec [OF i(3) assms(2), of sa "si_event it"] show ?thesis
  proof (elim disjE conjE exE)
    fix e' assume "scan_recs sa rs = []"
    then show ?thesis using sst_iter_next_block [OF assms] by auto
  next
    fix k w rs' o' e'
    assume s: "scan_recs sa rs = (k, w) # scan_recs sa rs'" "block_from V (block_image V (chunks ! i)) o' rs'"
      "block_scan_next V el sa (block_image V (chunks ! i)) offset (si_event it) = Ok (Some ((k, w), o'), e')"
    let ?it = "it\<lparr>si_curr_rb_iter := Some (block_image V (chunks ! i), o'), si_event := e'\<rparr>"
    have "sst_iter_next L C V open_log el it = Ok (Some (k, w), ?it)" using i(1,2) s(3) by (simp add: sst_iter_next_def)
    moreover have "iter_at V holds inv content log open_log chunks sa i rs' ?it" using assms(1) s(2) by (simp add: iter_at_def)
    ultimately show ?thesis using s(1) by auto
  qed
qed

lemma sst_iter_collect_spec:
  assumes "iter_at V holds inv content log open_log chunks sa i rs it" "listener_total el"
  shows "\<exists>it'. sst_iter_collect L C V open_log el it = Ok (scan_recs sa rs @ scan_chunks sa (drop (Suc i) chunks), it')"
  using assms(1)
proof (induction it arbitrary: i rs rule: wf_induct_rule [OF wf_inv_image [OF wf_lex_prod [OF wf_less_than wf_less_than], of iter_measure]])
  case (1 it)
  from sst_iter_next_spec [OF 1(2) assms(2)] show ?case
  proof (elim disjE conjE exE)
    fix it' assume "scan_recs sa rs @ scan_chunks sa (drop (Suc i) chunks) = []" "sst_iter_next L C V open_log el it = Ok (None, it')"
    then show ?thesis by (subst sst_iter_collect.simps) auto
  next
    fix k w j rs' it'
    assume s: "scan_recs sa rs @ scan_chunks sa (drop (Suc i) chunks) = (k, w) # scan_recs sa rs' @ scan_chunks sa (drop (Suc j) chunks)"
      "sst_iter_next L C V open_log el it = Ok (Some (k, w), it')" "iter_at V holds inv content log open_log chunks sa j rs' it'"
    obtain it'' where "sst_iter_collect L C V open_log el it' = Ok (scan_recs sa rs' @ scan_chunks sa (drop (Suc j) chunks), it'')"
      using 1(1) [OF _ s(3)] sst_iter_next_less [OF s(2)] by (auto simp: in_inv_image)
    then show ?thesis using s(1,2) by (subst sst_iter_collect.simps) auto
  qed
qed

lemma access_scan_spec:
  assumes "sst_ok V holds (content log) chunks sst" "inv log" "open_log (sst_id sst) = Ok log" "listener_total el"
  shows "\<exists>sst' e'. access_scan L C V open_log el sync_id discard sst e =
    Ok (let sa = \<lparr>sa_all_synced = (sst_sync_id sst < sync_id), sa_discard_unsynced = discard\<rparr> in
      scan_recs sa (hd chunks) @ scan_chunks sa (tl chunks), sst', e')"
proof -
  have c: "chunks_ok V chunks" "chunks \<noteq> []" "ft_index (sst_footer sst) = map (entry_of chunks) [0..<length chunks]"
    using assms(1) by (auto simp: sst_ok_def chunks_ok_def)
  then have z: "0 < length chunks" by simp
  let ?sa = "\<lparr>sa_all_synced = (sst_sync_id sst < sync_id), sa_discard_unsynced = discard\<rparr>"
  obtain sst' where t: "target_record_block L C open_log (0 * RECORD_BLOCK_NBLOCKS) sst = Ok (block_image V (chunks ! 0), sst')"
      "sst_ok V holds (content log) chunks sst'" "sst_id sst' = sst_id sst" "sst_footer sst' = sst_footer sst"
    using target_record_block_spec [of log chunks sst open_log 0] assms(1-3) z by blast
  let ?it = "\<lparr>si_sst = sst', si_curr_nth_index = 0, si_curr_rb_iter = Some (block_image V (chunks ! 0), 0), si_accessor = ?sa, si_event = e\<rparr>"
  have new: "sst_iter_new L C open_log sync_id discard sst e = Ok ?it"
    using c(3) z t by (simp add: sst_iter_new_def entry_of_def sst_sync_id_def)
  obtain it' where "sst_iter_collect L C V open_log el ?it = Ok (scan_recs ?sa (chunks ! 0) @ scan_chunks ?sa (drop (Suc 0) chunks), it')"
    using sst_iter_collect_spec [of log open_log chunks ?sa 0 "chunks ! 0" ?it el] t(2,3) assms(2-4) z block_from_image [OF c(1) z]
    by (auto simp: iter_at_def)
  then show ?thesis using new c(2) by (simp add: access_scan_def hd_conv_nth drop_Suc Let_def)
qed

end

section \<open>Building a table\<close>

text \<open>
  What the code adds to \<open>inner_offset\<close> for a record, and how it divides the records into record blocks; \<open>None\<close> when
  the offset runs over the size of a record block.
\<close>

definition counted :: "'v pod_type \<Rightarrow> 'v value_ex \<Rightarrow> nat" where
  "counted V v = K_SIZE + (case v of SyncedAndUnsynced _ _ \<Rightarrow> MAX_RECORD_SIZE V | _ \<Rightarrow> 1 + V_SIZE V)"

fun chunking :: "'v pod_type \<Rightarrow> nat \<Rightarrow> (nat \<times> 'v value_ex) list \<Rightarrow> (nat \<times> 'v value_ex) list \<Rightarrow> (nat \<times> 'v value_ex) list list option" where
  "chunking V offset cur [] = Some (if cur = [] then [] else [cur])"
| "chunking V offset cur (r # rs) =
    (let offset' = offset + counted V (snd r) in
     if RECORD_BLOCK_SIZE < offset' then None
     else if MAX_RECORD_SIZE V \<le> RECORD_BLOCK_SIZE - offset' then chunking V offset' (cur @ [r]) rs
     else map_option ((#) (cur @ [r])) (chunking V 0 [] rs))"

lemma chunking_concat: "chunking V offset cur rs = Some chunks \<Longrightarrow> concat chunks = cur @ rs"
  by (induction rs arbitrary: offset cur chunks) (auto simp: Let_def split: if_splits)

lemma chunking_nonempty: "chunking V offset cur rs = Some chunks \<Longrightarrow> c \<in> set chunks \<Longrightarrow> c \<noteq> []"
  by (induction rs arbitrary: offset cur chunks) (auto simp: Let_def split: if_splits)

lemma chunking_length: "chunking V offset cur rs = Some chunks \<Longrightarrow> length chunks \<le> length rs + (if cur = [] then 0 else 1)"
proof (induction rs arbitrary: offset cur chunks)
  case (Cons r rs)
  let ?o = "offset + counted V (snd r)"
  consider "chunking V ?o (cur @ [r]) rs = Some chunks" | cs where "chunking V 0 [] rs = Some cs" "chunks = (cur @ [r]) # cs"
    using Cons.prems by (auto simp: Let_def split: if_splits)
  then show ?case using Cons.IH [of ?o "cur @ [r]" chunks] Cons.IH [of 0 "[]"] by cases fastforce+
qed (auto split: if_splits)

context pod_laws
begin

lemma counted_bound: "length (rec_bytes V (k, v)) \<le> counted V v" "0 < counted V v"
  using length_rec_bytes [of "(k, v)"] length_value_bytes [of v] by (cases v; simp add: counted_def sst_sizes)+

lemma chunking_fits:
  assumes "chunking V offset cur rs = Some chunks" "length (recs_bytes V cur) \<le> offset" "offset \<le> RECORD_BLOCK_SIZE" "c \<in> set chunks"
  shows "length (recs_bytes V c) \<le> RECORD_BLOCK_SIZE"
  using assms
proof (induction rs arbitrary: offset cur chunks)
  case (Cons r rs)
  have b: "length (recs_bytes V (cur @ [r])) \<le> offset + counted V (snd r)"
    using Cons.prems(2) counted_bound(1) [of "fst r" "snd r"] by (simp add: recs_bytes_def)
  then show ?case using Cons.IH [OF _ b] Cons.IH [of 0 "[]"] Cons.prems(1,4) by (auto simp: Let_def recs_bytes_def split: if_splits)
qed (auto split: if_splits)

text \<open>The state of the loop: the record blocks written so far, and the records of the next one.\<close>

end

definition build_at ::
    "'v pod_type \<Rightarrow> ('c \<Rightarrow> block_id \<Rightarrow> bytes option) \<Rightarrow> ('l \<Rightarrow> bool) \<Rightarrow> ('l \<Rightarrow> bytes) \<Rightarrow> (nat \<times> 'v value_ex) list list \<Rightarrow>
      (nat \<times> 'v value_ex) list \<Rightarrow> nat \<Rightarrow> ('l, 'c, 'e) build_state \<Rightarrow> bool" where
  "build_at V holds log_inv content chunks cur offset st \<longleftrightarrow> log_inv (b_log st) \<and> content (b_log st) = images V chunks \<and>
    cache_ok V holds chunks (b_cache st) \<and> b_index_vec st = map (entry_of chunks) [0..<length chunks] \<and>
    b_total_records st = length (concat chunks @ cur) \<and> b_pos st = length chunks * RECORD_BLOCK_NBLOCKS \<and>
    b_inner_offset st = offset \<and> b_block_buf st = recs_bytes V cur \<and> (offset = 0 \<longleftrightarrow> cur = []) \<and>
    (cur \<noteq> [] \<longrightarrow> b_first_k st = Some (fst (hd cur)) \<and> b_curr_k st = Some (fst (last cur)))"

lemma push_value_total:
  assumes "listener_total el"
  shows "\<exists>e'. push_value V el k v e = Ok (value_bytes V v, counted V v - K_SIZE, e')"
proof -
  obtain f where "notify_add el k' w e' = Ok (f k' w e')" for k' w e' using notify_total(1) [OF assms] by metis
  then show ?thesis by (cases v) (auto simp: counted_def)
qed

lemma entry_of_append: "i < length chunks \<Longrightarrow> entry_of (chunks @ cs) i = entry_of chunks i"
  by (simp add: entry_of_def nth_append)

lemma cache_ok_append: "cache_ok V holds chunks cache \<Longrightarrow> cache_ok V holds (chunks @ cs) cache"
  by (fastforce simp: cache_ok_def nth_append)

context sst_setting
begin

lemma build_one_spec:
  assumes "inv log" "content log = images V chunks" "cache_ok V holds chunks cache" "room log (RECORD_BLOCK_NBLOCKS + n)"
  shows "\<exists>log' cache'. build_one_record_block L C (entry_of (chunks @ [cur]) (length chunks)) (recs_bytes V cur) (log, cache) = Ok (log', cache') \<and>
    inv log' \<and> content log' = images V (chunks @ [cur]) \<and> cache_ok V holds (chunks @ [cur]) cache' \<and> room log' n"
proof -
  let ?b = "block_image V cur"
  have b: "buf_ok ?b" "buf_nblocks ?b = RECORD_BLOCK_NBLOCKS"
    by (simp_all add: buf_ok_def buf_nblocks_def RECORD_BLOCK_SIZE_def RECORD_BLOCK_NBLOCKS_def flip: length_greater_0_conv)
  obtain log' where l: "bl_append L log ?b = Ok (bl_nblocks L log, log')" "inv log'" "content log' = content log @ ?b" "room log' n"
    using append_room [OF assms(1) b(1), of n] assms(4) b(2) by auto
  have "buf_try_unwrap ?b = Ok ?b" using b(1) by (auto simp: buf_try_unwrap_def buf_ok_def buf_try_from_def)
  then have "build_one_record_block L C (entry_of (chunks @ [cur]) (length chunks)) (recs_bytes V cur) (log, cache) =
      Ok (log', lc_put C cache (length chunks * RECORD_BLOCK_NBLOCKS) ?b)"
    using l(1) length_block_image [of V cur] unfolding block_image_def by (simp add: build_one_record_block_def entry_of_def Let_def)
  then show ?thesis
    using l assms(2) cache_ok_put [OF cache_ok_append [OF assms(3), of "[cur]"], of "length chunks"] by (auto simp: images_def)
qed

lemma build_step_spec:
  fixes st :: "('l, 'c, 'e) build_state"
  assumes "build_at V holds inv content chunks cur offset st" "listener_total el" "room (b_log st) (RECORD_BLOCK_NBLOCKS + n)"
  shows "(let offset' = offset + counted V (snd r) in
    if RECORD_BLOCK_SIZE < offset' then build_step L C V el r st = Panics
    else if MAX_RECORD_SIZE V \<le> RECORD_BLOCK_SIZE - offset' then
      \<exists>st'. build_step L C V el r st = Ok st' \<and> build_at V holds inv content chunks (cur @ [r]) offset' st' \<and> b_log st' = b_log st
    else \<exists>st'. build_step L C V el r st = Ok st' \<and> build_at V holds inv content (chunks @ [cur @ [r]]) [] 0 st' \<and> room (b_log st') n)"
proof -
  obtain k v where r: "r = (k, v)" by (cases r)
  obtain e' where p: "push_value V el k v (b_event st) = Ok (value_bytes V v, counted V v - K_SIZE, e')"
    using push_value_total [OF assms(2)] by blast
  let ?o = "offset + counted V v" and ?first = "fst (hd (cur @ [r]))"
  let ?st = "st\<lparr>b_total_records := b_total_records st + 1, b_first_k := Some ?first, b_curr_k := Some k, b_event := e',
      b_block_buf := recs_bytes V (cur @ [r]), b_inner_offset := ?o\<rparr>"
  have s: "inv (b_log st)" "content (b_log st) = images V chunks" "cache_ok V holds chunks (b_cache st)" "b_inner_offset st = offset"
      "b_block_buf st = recs_bytes V cur" "offset = 0 \<longleftrightarrow> cur = []" "cur \<noteq> [] \<longrightarrow> b_first_k st = Some (fst (hd cur))"
      "b_pos st = length chunks * RECORD_BLOCK_NBLOCKS" "b_index_vec st = map (entry_of chunks) [0..<length chunks]"
      "b_total_records st = length (concat chunks @ cur)"
    using assms(1) by (simp_all add: build_at_def)
  have first: "(if b_inner_offset st = 0 then rbind (rassert (b_block_buf st = [])) (\<lambda>_. Ok (Some k)) else Ok (b_first_k st)) = Ok (Some ?first)"
    using s(4-7) r by (cases "cur = []") (auto simp: recs_bytes_def)
  have cnt: "offset + K_SIZE + (counted V v - K_SIZE) = ?o" by (simp add: counted_def)
  have buf: "recs_bytes V cur @ le_bytes K_SIZE k @ value_bytes V v = recs_bytes V (cur @ [r])" by (simp add: recs_bytes_def rec_bytes_def r)
  have run: "build_step L C V el r st = rbind (checked_sub RECORD_BLOCK_SIZE ?o) (\<lambda>cap.
      if MAX_RECORD_SIZE V \<le> cap then Ok ?st
      else let entry = entry_of (chunks @ [cur @ [r]]) (length chunks) in
        rbind (build_one_record_block L C entry (recs_bytes V (cur @ [r])) (b_log st, b_cache st)) (\<lambda>(log, cache).
          Ok (?st\<lparr>b_log := log, b_cache := cache, b_index_vec := b_index_vec st @ [entry],
               b_pos := b_pos st + RECORD_BLOCK_NBLOCKS, b_inner_offset := 0, b_block_buf := []\<rparr>)))"
    unfolding build_step_def r prod.case first rbind.simps p Let_def
    unfolding s(4,5) cnt buf [unfolded r] res_unwrap_simps by (simp add: entry_of_def nth_append s(8) r cong: if_cong)
  show ?thesis
  proof (cases "RECORD_BLOCK_SIZE < ?o \<or> MAX_RECORD_SIZE V \<le> RECORD_BLOCK_SIZE - ?o")
    case True
    have "build_at V holds inv content chunks (cur @ [r]) ?o ?st"
      using s counted_bound(2) [of v] r by (auto simp: build_at_def hd_append)
    then show ?thesis using True run r by (auto simp: Let_def checked_sub_def)
  next
    case False
    obtain log cache where b: "build_one_record_block L C (entry_of (chunks @ [cur @ [r]]) (length chunks)) (recs_bytes V (cur @ [r])) (b_log st, b_cache st) =
        Ok (log, cache)" "inv log" "content log = images V (chunks @ [cur @ [r]])" "cache_ok V holds (chunks @ [cur @ [r]]) cache" "room log n"
      using build_one_spec [OF s(1-3) assms(3), of "cur @ [r]"] by blast
    have "map (entry_of (chunks @ [cur @ [r]])) [0..<length chunks] = map (entry_of chunks) [0..<length chunks]"
      by (auto simp: entry_of_append)
    then show ?thesis using False run b s(8-10) r
      by (auto simp: Let_def checked_sub_def build_at_def recs_bytes_def)
  qed
qed

end

lemma chunking_pos: "chunking V offset cur (r # rs) = Some rest \<Longrightarrow> rest \<noteq> []"
  using chunking_concat by fastforce

lemma value_bytes_nonempty [simp]: "value_bytes V v \<noteq> []"
  by (cases v) simp_all

context sst_setting
begin

lemma build_loop_spec:
  fixes st :: "('l, 'c, 'e) build_state"
  assumes "build_at V holds inv content chunks cur offset st" "listener_total el" "chunking V offset cur rs = Some rest"
    "room (b_log st) (length rest * RECORD_BLOCK_NBLOCKS + n)"
  shows "\<exists>st' full cur' offset'. rfold (build_step L C V el) rs st = Ok st' \<and> build_at V holds inv content (chunks @ full) cur' offset' st' \<and>
    rest = full @ (if cur' = [] then [] else [cur']) \<and> room (b_log st') ((if cur' = [] then 0 else RECORD_BLOCK_NBLOCKS) + n)"
  using assms
proof (induction rs arbitrary: st chunks cur offset rest)
  case Nil
  then show ?case by (intro exI [of _ st] exI [of _ "[]"] exI [of _ cur] exI [of _ offset]) (auto split: if_splits)
next
  case (Cons r rs)
  let ?o = "offset + counted V (snd r)"
  obtain m where m: "length rest = Suc m" using chunking_pos [OF Cons.prems(3)] by (cases rest) auto
  note step = build_step_spec [OF Cons.prems(1,2), of "m * RECORD_BLOCK_NBLOCKS + n" r] 
  have room: "room (b_log st) (RECORD_BLOCK_NBLOCKS + (m * RECORD_BLOCK_NBLOCKS + n))" using Cons.prems(4) m by (simp add: add.assoc)
  consider "\<not> RECORD_BLOCK_SIZE < ?o" "MAX_RECORD_SIZE V \<le> RECORD_BLOCK_SIZE - ?o" "chunking V ?o (cur @ [r]) rs = Some rest"
    | rest' where "\<not> RECORD_BLOCK_SIZE < ?o" "\<not> MAX_RECORD_SIZE V \<le> RECORD_BLOCK_SIZE - ?o" "chunking V 0 [] rs = Some rest'" "rest = (cur @ [r]) # rest'"
    using Cons.prems(3) by (auto simp: Let_def split: if_splits)
  then show ?case
  proof cases
    case 1
    then obtain st' where "build_step L C V el r st = Ok st'" "build_at V holds inv content chunks (cur @ [r]) ?o st'" "b_log st' = b_log st"
      using step [OF room] by (auto simp: Let_def)
    then show ?thesis using Cons.IH [of chunks "cur @ [r]" ?o st' rest] Cons.prems(2,4) 1(3) by simp
  next
    case (2 rest')
    then obtain st' where s: "build_step L C V el r st = Ok st'" "build_at V holds inv content (chunks @ [cur @ [r]]) [] 0 st'"
        "room (b_log st') (m * RECORD_BLOCK_NBLOCKS + n)"
      using step [OF room] by (auto simp: Let_def)
    have "length rest' = m" using m 2(4) by simp
    then obtain st'' full cur' offset' where "rfold (build_step L C V el) rs st' = Ok st''" "build_at V holds inv content ((chunks @ [cur @ [r]]) @ full) cur' offset' st''"
        "rest' = full @ (if cur' = [] then [] else [cur'])" "room (b_log st'') ((if cur' = [] then 0 else RECORD_BLOCK_NBLOCKS) + n)"
      using Cons.IH [OF s(2) Cons.prems(2) 2(3)] s(3) by blast
    then show ?thesis using s(1) 2(4)
      by (intro exI [of _ st''] exI [of _ "(cur @ [r]) # full"] exI [of _ cur'] exI [of _ offset']) simp
  qed
qed

lemma build_loop_panics:
  fixes st :: "('l, 'c, 'e) build_state"
  assumes "build_at V holds inv content chunks cur offset st" "listener_total el" "chunking V offset cur rs = None"
    "room (b_log st) (length rs * RECORD_BLOCK_NBLOCKS)"
  shows "rfold (build_step L C V el) rs st = Panics"
  using assms
proof (induction rs arbitrary: st chunks cur offset)
  case (Cons r rs)
  let ?o = "offset + counted V (snd r)" and ?m = "length rs * RECORD_BLOCK_NBLOCKS"
  have room: "room (b_log st) (RECORD_BLOCK_NBLOCKS + ?m)" "room (b_log st) ?m"
    using Cons.prems(4) room_less [of "b_log st" ?m RECORD_BLOCK_NBLOCKS] by (simp_all add: add.commute)
  note step = build_step_spec [OF Cons.prems(1,2) room(1), of r]
  consider "RECORD_BLOCK_SIZE < ?o" | "\<not> RECORD_BLOCK_SIZE < ?o" "MAX_RECORD_SIZE V \<le> RECORD_BLOCK_SIZE - ?o" "chunking V ?o (cur @ [r]) rs = None"
    | "\<not> RECORD_BLOCK_SIZE < ?o" "\<not> MAX_RECORD_SIZE V \<le> RECORD_BLOCK_SIZE - ?o" "chunking V 0 [] rs = None"
    using Cons.prems(3) by (auto simp: Let_def split: if_splits)
  then show ?case
  proof cases
    case 2
    then obtain st' where "build_step L C V el r st = Ok st'" "build_at V holds inv content chunks (cur @ [r]) ?o st'" "b_log st' = b_log st"
      using step by (auto simp: Let_def)
    then show ?thesis using Cons.IH [of chunks "cur @ [r]" ?o st'] Cons.prems(2) 2(3) room(2) by simp
  next
    case 3
    then obtain st' where "build_step L C V el r st = Ok st'" "build_at V holds inv content (chunks @ [cur @ [r]]) [] 0 st'" "room (b_log st') ?m"
      using step by (auto simp: Let_def)
    then show ?thesis using Cons.IH [of "chunks @ [cur @ [r]]" "[]" 0 st'] Cons.prems(2) 3(3) by simp
  qed (use step in \<open>simp add: Let_def\<close>)
qed simp

lemma build_at_init:
  "inv log \<Longrightarrow> content log = [] \<Longrightarrow> build_at V holds inv content [] [] 0
    \<lparr>b_log = log, b_cache = lc_new C n, b_event = e, b_index_vec = [], b_total_records = 0, b_pos = 0, b_first_k = None,
     b_curr_k = None, b_inner_offset = 0, b_block_buf = []\<rparr>"
  by (simp add: build_at_def images_def recs_bytes_def cache_ok_new)

lemma build_record_blocks_spec:
  fixes e :: 'e
  assumes "inv log" "content log = []" "listener_total el" "chunking V 0 [] records = Some chunks" "records \<noteq> []"
    "room log (length chunks * RECORD_BLOCK_NBLOCKS + n)"
  shows "\<exists>log' cache' e'. build_record_blocks L C V el records log (lc_new C CACHE_CAP) e =
      Ok (length records, map (entry_of chunks) [0..<length chunks], log', cache', e') \<and>
    inv log' \<and> content log' = images V chunks \<and> cache_ok V holds chunks cache' \<and> room log' n"
proof -
  obtain st full cur offset where s: "rfold (build_step L C V el) records
      \<lparr>b_log = log, b_cache = lc_new C CACHE_CAP, b_event = e, b_index_vec = [], b_total_records = 0, b_pos = 0, b_first_k = None,
       b_curr_k = None, b_inner_offset = 0, b_block_buf = []\<rparr> = Ok st" "build_at V holds inv content full cur offset st"
      "chunks = full @ (if cur = [] then [] else [cur])" "room (b_log st) ((if cur = [] then 0 else RECORD_BLOCK_NBLOCKS) + n)"
    using build_loop_spec [OF build_at_init [OF assms(1,2), of CACHE_CAP e] assms(3,4), of n] assms(6) by auto
  have total: "b_total_records st = length records"
    using s(2,3) arg_cong [OF chunking_concat [OF assms(4)], of length] by (auto simp: build_at_def)
  show ?thesis
  proof (cases "cur = []")
    case True
    then have "inv (b_log st)" "content (b_log st) = images V full" "cache_ok V holds full (b_cache st)" "b_block_buf st = []"
        "b_index_vec st = map (entry_of full) [0..<length full]"
      using s(2) by (simp_all add: build_at_def recs_bytes_def)
    then show ?thesis using s(1,3,4) True total assms(5) by (simp add: build_record_blocks_def)
  next
    case False
    then have ne: "recs_bytes V cur \<noteq> []" by (cases cur) (auto simp: recs_bytes_def rec_bytes_def)
    have at: "inv (b_log st)" "content (b_log st) = images V full" "cache_ok V holds full (b_cache st)" "b_block_buf st = recs_bytes V cur"
        "b_pos st = length full * RECORD_BLOCK_NBLOCKS" "b_index_vec st = map (entry_of full) [0..<length full]"
        "b_first_k st = Some (fst (hd cur))" "b_curr_k st = Some (fst (last cur))"
      using s(2) False by (simp_all add: build_at_def)
    obtain log' cache' where b: "build_one_record_block L C (entry_of (full @ [cur]) (length full)) (recs_bytes V cur) (b_log st, b_cache st) = Ok (log', cache')"
        "inv log'" "content log' = images V (full @ [cur])" "cache_ok V holds (full @ [cur]) cache'" "room log' n"
      using build_one_spec [OF at(1-3), of n cur] s(4) False by auto
    have "map (entry_of full) [0..<length full] @ [entry_of (full @ [cur]) (length full)] = map (entry_of chunks) [0..<length chunks]"
      using s(3) False by (auto simp: entry_of_append)
    then show ?thesis using s(1,3) at(4-8) b False ne total assms(5) by (simp add: build_record_blocks_def Let_def entry_of_def)
  qed
qed


end

section \<open>The footer\<close>

definition meta_of :: "nat \<Rightarrow> nat \<Rightarrow> nat \<Rightarrow> footer_meta" where
  "meta_of num ntotal sync_id =
    \<lparr>fm_num_index = num, fm_index_nblocks = ceil_div (num * INDEX_ENTRY_SIZE + FOOTER_META_SIZE) BLOCK_SIZE,
     fm_total_records = ntotal, fm_record_block_size = RECORD_BLOCK_SIZE, fm_sync_id = sync_id\<rparr>"

text \<open>The index entries, zeros, and in the last bytes the metadata.\<close>

definition footer_image :: "bytes \<Rightarrow> index_entry list \<Rightarrow> footer_meta \<Rightarrow> bytes" where
  "footer_image pad entries meta = concat (map index_entry_bytes entries) @
    replicate (fm_index_nblocks meta * BLOCK_SIZE - length entries * INDEX_ENTRY_SIZE - FOOTER_META_SIZE) 0 @ footer_meta_bytes pad meta"

definition meta_ok :: "footer_meta \<Rightarrow> bool" where
  "meta_ok m \<longleftrightarrow> fm_num_index m < 2 ^ 16 \<and> fm_index_nblocks m < 2 ^ 16 \<and> fm_total_records m < 2 ^ 32 \<and>
    fm_record_block_size m < 2 ^ 32 \<and> fm_sync_id m < 2 ^ 64"

lemma footer_meta_roundtrip:
  assumes "meta_ok m" "length pad = 4"
  shows "footer_meta_from_bytes (footer_meta_bytes pad m) = m" "length (footer_meta_bytes pad m) = FOOTER_META_SIZE"
  using assms by (simp_all add: meta_ok_def footer_meta_from_bytes_def footer_meta_bytes_def le_nat_bytes_exact FOOTER_META_SIZE_def)

lemma meta_of_bounds:
  assumes "num < 2 ^ 16" "ntotal < 2 ^ 32" "sync_id < 2 ^ 64"
  shows "meta_ok (meta_of num ntotal sync_id)" "0 < fm_index_nblocks (meta_of num ntotal sync_id)"
    "num * INDEX_ENTRY_SIZE + FOOTER_META_SIZE \<le> fm_index_nblocks (meta_of num ntotal sync_id) * BLOCK_SIZE"
proof -
  let ?x = "num * INDEX_ENTRY_SIZE + FOOTER_META_SIZE"
  have s: "INDEX_ENTRY_SIZE = 24" "FOOTER_META_SIZE = 24" "BLOCK_SIZE = 4096" "RECORD_BLOCK_SIZE = 131072"
    by (simp_all add: INDEX_ENTRY_SIZE_def BID_SIZE_def K_SIZE_def FOOTER_META_SIZE_def RECORD_BLOCK_SIZE_def RECORD_BLOCK_NBLOCKS_def BLOCK_SIZE_def)
  have "?x \<le> ceil_div ?x BLOCK_SIZE * BLOCK_SIZE" "ceil_div ?x BLOCK_SIZE * BLOCK_SIZE < ?x + BLOCK_SIZE"
    using ceil_div_bounds [of BLOCK_SIZE ?x] by auto
  then show "meta_ok (meta_of num ntotal sync_id)" "0 < fm_index_nblocks (meta_of num ntotal sync_id)"
    "num * INDEX_ENTRY_SIZE + FOOTER_META_SIZE \<le> fm_index_nblocks (meta_of num ntotal sync_id) * BLOCK_SIZE"
    using assms by (auto simp: meta_ok_def meta_of_def s)
qed

lemma length_index_bytes: "length (concat (map index_entry_bytes entries)) = length entries * INDEX_ENTRY_SIZE"
  by (induction entries) (simp_all add: index_entry_bytes_def INDEX_ENTRY_SIZE_def)

context sst_setting
begin

lemma build_footer_spec:
  assumes "inv log" "length entries < 2 ^ 16" "ntotal < 2 ^ 32" "sync_id < 2 ^ 64" "length pad = 4"
    "room log (fm_index_nblocks (meta_of (length entries) ntotal sync_id))"
  shows "\<exists>log'. build_footer L pad entries ntotal sync_id log = Ok (\<lparr>ft_meta = meta_of (length entries) ntotal sync_id, ft_index = entries\<rparr>, log') \<and>
    inv log' \<and> content log' = content log @ footer_image pad entries (meta_of (length entries) ntotal sync_id)"
proof -
  let ?m = "meta_of (length entries) ntotal sync_id" and ?idx = "concat (map index_entry_bytes entries)"
  let ?nb = "fm_index_nblocks ?m" and ?f = "footer_image pad entries (meta_of (length entries) ntotal sync_id)"
  note mb = meta_of_bounds [OF assms(2-4)]
  have al: "align_up (length entries * INDEX_ENTRY_SIZE + FOOTER_META_SIZE) BLOCK_SIZE = Ok (?nb * BLOCK_SIZE)"
    by (simp add: align_up_def meta_of_def ceil_div_def)
  have meta: "\<lparr>fm_num_index = length entries mod 2 ^ 16, fm_index_nblocks = (?nb * BLOCK_SIZE div BLOCK_SIZE) mod 2 ^ 16,
      fm_total_records = ntotal mod 2 ^ 32, fm_record_block_size = RECORD_BLOCK_SIZE mod 2 ^ 32, fm_sync_id = sync_id\<rparr> = ?m"
    using mb(1) assms(2,3) by (simp add: meta_ok_def) (simp add: meta_of_def)
  let ?z = "?nb * BLOCK_SIZE - FOOTER_META_SIZE"
  have fit: "length entries * INDEX_ENTRY_SIZE + FOOTER_META_SIZE \<le> ?nb * BLOCK_SIZE" by (rule mb(3))
  have res: "vec_resize (?nb * BLOCK_SIZE) ?idx = ?idx @ replicate (?nb * BLOCK_SIZE - length entries * INDEX_ENTRY_SIZE) 0"
    using fit by (simp add: vec_resize_def length_index_bytes)
  have len: "length (vec_resize (?nb * BLOCK_SIZE) ?idx) = ?nb * BLOCK_SIZE" by (simp add: vec_resize_def)
  have ow: "copy_range (vec_resize (?nb * BLOCK_SIZE) ?idx) ?z (?nb * BLOCK_SIZE) (footer_meta_bytes pad ?m) = Ok ?f"
    using fit footer_meta_roundtrip(2) [OF mb(1) assms(5)]
    by (simp add: copy_range_def overwrite_def len) (simp add: res footer_image_def length_index_bytes)
  have "length ?f = ?nb * BLOCK_SIZE" using fit footer_meta_roundtrip(2) [OF mb(1) assms(5)] by (simp add: footer_image_def length_index_bytes)
  then have f: "buf_ok ?f" "buf_nblocks ?f = ?nb" "buf_try_unwrap ?f = Ok ?f"
    using mb(2) by (auto simp: buf_ok_def buf_nblocks_def buf_try_unwrap_def buf_try_from_def)
  obtain log' where "bl_append L log ?f = Ok (bl_nblocks L log, log')" "inv log'" "content log' = content log @ ?f"
    using log_append [OF assms(1) f(1)] assms(6) f(2) by auto
  moreover have "checked_sub (?nb * BLOCK_SIZE) FOOTER_META_SIZE = Ok ?z" using fit by simp
  ultimately show ?thesis
    unfolding build_footer_def al rbind.simps Let_def meta len ow
    by (simp add: ow f(3))
qed

end

lemma entry_of_bounds:
  assumes "chunks_ok V chunks" "i < length chunks" "length chunks < 2 ^ 16"
  shows "ie_pos (entry_of chunks i) < 256 ^ 8" "ie_first (entry_of chunks i) < 256 ^ 8" "ie_last (entry_of chunks i) < 256 ^ 8"
proof -
  have c: "chunks ! i \<noteq> []" "\<forall>r \<in> set (chunks ! i). fst r < 2 ^ 64"
    using assms(1) nth_mem [OF assms(2)] by (auto simp: chunks_ok_def)
  show "ie_pos (entry_of chunks i) < 256 ^ 8" using assms(2,3) by (simp add: entry_of_def RECORD_BLOCK_NBLOCKS_def)
  show "ie_first (entry_of chunks i) < 256 ^ 8" "ie_last (entry_of chunks i) < 256 ^ 8"
    using c(2) hd_in_set [OF c(1)] last_in_set [OF c(1)] by (simp_all add: entry_of_def)
qed

text \<open>The last bytes of a log of whole blocks are in its last block.\<close>

lemma last_block_slice:
  assumes "length bs = n * BLOCK_SIZE" "0 < n" "bs = ys @ zs" "length zs \<le> BLOCK_SIZE"
  shows "slice_range (take BLOCK_SIZE (drop ((n - 1) * BLOCK_SIZE) bs)) (BLOCK_SIZE - length zs) BLOCK_SIZE = Ok zs"
proof -
  have d: "length (drop ((n - 1) * BLOCK_SIZE) bs) = BLOCK_SIZE"
    using assms(1,2) by (cases n) simp_all
  have "(n - 1) * BLOCK_SIZE + (BLOCK_SIZE - length zs) = length ys"
    using assms by (cases n) simp_all
  then have "drop (BLOCK_SIZE - length zs) (drop ((n - 1) * BLOCK_SIZE) bs) = zs" using assms(3) by (simp add: add.commute)
  then show ?thesis using d assms(4) by (simp add: slice_range_def)
qed

context sst_setting
begin

lemma load_entries_spec:
  assumes "chunks_ok V chunks" "length chunks < 2 ^ 16" "inv log" "content log = images V chunks @ ft"
    "ft = concat (map index_entry_bytes (map (entry_of chunks) [0..<length chunks])) @ rest" "k \<le> length chunks"
  shows "\<exists>cache. rfold (load_entry L C log ft) [0..<k] ([], lc_new C n) = Ok (map (entry_of chunks) [0..<k], cache) \<and> cache_ok V holds chunks cache"
  using assms(6)
proof (induction k)
  case 0
  then show ?case by (simp add: cache_ok_new)
next
  case (Suc k)
  then obtain cache where c: "rfold (load_entry L C log ft) [0..<k] ([], lc_new C n) = Ok (map (entry_of chunks) [0..<k], cache)"
      "cache_ok V holds chunks cache"
    by auto
  have k: "k < length chunks" using Suc.prems by simp
  let ?e = "entry_of chunks k"
  have len: "\<forall>x \<in> set (map index_entry_bytes (map (entry_of chunks) [0..<length chunks])). length x = INDEX_ENTRY_SIZE"
    by (simp add: index_entry_bytes_def INDEX_ENTRY_SIZE_def)
  have "take INDEX_ENTRY_SIZE (drop (k * INDEX_ENTRY_SIZE) ft) = index_entry_bytes ?e"
    using concat_slice [OF len, of k rest] k unfolding assms(5) by simp
  moreover have "(k + 1) * INDEX_ENTRY_SIZE \<le> length chunks * INDEX_ENTRY_SIZE" using k by (intro mult_le_mono1) simp
  then have "(k + 1) * INDEX_ENTRY_SIZE \<le> length ft"
    using length_index_bytes [of "map (entry_of chunks) [0..<length chunks]"] unfolding assms(5) by simp
  ultimately have sl: "slice_range ft (k * INDEX_ENTRY_SIZE) ((k + 1) * INDEX_ENTRY_SIZE) = Ok (index_entry_bytes ?e)"
    by (simp add: slice_range_def)
  note b = entry_of_bounds [OF assms(1) k assms(2), THEN le_nat_bytes_exact]
  have rd: "bl_read L log (ie_pos ?e) RECORD_BLOCK_NBLOCKS = Ok (block_image V (chunks ! k))"
    using read_record_block [OF assms(3,4) k] by (simp add: entry_of_def)
  have "load_entry L C log ft k (map (entry_of chunks) [0..<k], cache) =
      Ok (map (entry_of chunks) [0..<k] @ [?e], lc_put C cache (ie_pos ?e) (block_image V (chunks ! k)))"
    unfolding load_entry_def prod.case sl rbind.simps using rd b
    by (simp add: slice_range_def index_entry_bytes_def INDEX_ENTRY_SIZE_def BID_SIZE_def K_SIZE_def Let_def)
  then show ?case using c(1) cache_ok_put [OF c(2) k] by (simp add: rfold_append entry_of_def [of chunks k])
qed


lemma sst_from_log_spec:
  assumes "chunks_ok V chunks" "length chunks < 2 ^ 16" "ntotal < 2 ^ 32" "sync_id < 2 ^ 64" "length pad = 4" "inv log"
    "content log = images V chunks @ footer_image pad (map (entry_of chunks) [0..<length chunks]) m" "m = meta_of (length chunks) ntotal sync_id"
    "pages_ready pg"
  shows "\<exists>sst. sst_from_log pg L C id' log = Ok sst \<and> sst_id sst = id' \<and> ft_meta (sst_footer sst) = m \<and> sst_ok V holds (content log) chunks sst"
proof -
  let ?n = "length chunks" and ?es = "map (entry_of chunks) [0..<length chunks]" and ?nb = "fm_index_nblocks m" and ?N = "bl_nblocks L log"
  let ?f = "footer_image pad ?es m" and ?mb = "footer_meta_bytes pad m"
  note mb = meta_of_bounds [OF assms(2-4), folded assms(8)]
  have rt: "footer_meta_from_bytes ?mb = m" "length ?mb = FOOTER_META_SIZE" using footer_meta_roundtrip [OF mb(1) assms(5)] by simp_all
  have fl: "length ?f = ?nb * BLOCK_SIZE" using mb(3) rt(2) length_index_bytes [of ?es] by (simp add: footer_image_def)
  have cl: "length (content log) = ?N * BLOCK_SIZE" by (rule log_length [OF assms(6)])
  have "?N * BLOCK_SIZE = (?n * RECORD_BLOCK_NBLOCKS + ?nb) * BLOCK_SIZE"
    using cl assms(7) fl by (simp add: length_images RECORD_BLOCK_SIZE_def add_mult_distrib)
  then have N: "?N = ?n * RECORD_BLOCK_NBLOCKS + ?nb" by simp
  have rd1: "bl_read L log (?N - 1) 1 = Ok (take BLOCK_SIZE (drop ((?N - 1) * BLOCK_SIZE) (content log)))"
    using log_read [OF assms(6), of 1 "?N - 1"] mb(2) N by simp
  have "content log = (images V chunks @ concat (map index_entry_bytes ?es) @ replicate (?nb * BLOCK_SIZE - ?n * INDEX_ENTRY_SIZE - FOOTER_META_SIZE) 0) @ ?mb"
    using assms(7) by (simp add: footer_image_def)
  then have sl: "slice_range (take BLOCK_SIZE (drop ((?N - 1) * BLOCK_SIZE) (content log))) (BLOCK_SIZE - FOOTER_META_SIZE) BLOCK_SIZE = Ok ?mb"
    using last_block_slice [OF cl _ _, of _ ?mb] rt(2) mb(2) N by (simp add: FOOTER_META_SIZE_def BLOCK_SIZE_def)
  have lb: "length (take BLOCK_SIZE (drop ((?N - 1) * BLOCK_SIZE) (content log))) = BLOCK_SIZE"
  proof -
    have "0 < ?N" using mb(2) N by simp
    then obtain M where "?N = Suc M" by (cases ?N) simp_all
    then show ?thesis using cl by simp
  qed
  have rd2: "bl_read L log (?N - ?nb) ?nb = Ok ?f"
    using log_read [OF assms(6) mb(2), of "?N - ?nb"] N fl unfolding assms(7) by (simp add: length_images RECORD_BLOCK_SIZE_def mult.assoc)
  obtain cache where c: "rfold (load_entry L C log ?f) [0..<?n] ([], lc_new C CACHE_CAP) = Ok (?es, cache)" "cache_ok V holds chunks cache"
    using load_entries_spec [OF assms(1,2,6,7), of _ ?n CACHE_CAP] by (auto simp: footer_image_def)
  obtain b1 b2 where al: "buf_alloc pg 1 = Ok b1" "buf_alloc pg ?nb = Ok b2" using buf_alloc_ready [OF assms(9)] mb(2) by (meson zero_less_one)
  have num: "fm_num_index m = ?n" by (simp add: assms(8) meta_of_def)
  have "sst_from_log pg L C id' log = Ok \<lparr>sst_id = id', sst_footer = \<lparr>ft_meta = m, ft_index = ?es\<rparr>, sst_cache = cache\<rparr>"
    unfolding sst_from_log_def Let_def al rbind.simps using rd1 rd2 sl lb rt(1) al c(1) num mb(2) N by (simp add: checked_sub_def)
  then show ?thesis using assms(1,7) c(2) num by (auto simp: sst_ok_def)
qed

end

section \<open>Properties\<close>

text \<open>Sorted records with 64-bit keys that the code divides into \<open>chunks\<close>, few enough for the fields of the footer.\<close>

definition sst_input :: "'v pod_type \<Rightarrow> bytes \<Rightarrow> (nat \<times> 'v value_ex) list \<Rightarrow> nat \<Rightarrow> (nat \<times> 'v value_ex) list list \<Rightarrow> bool" where
  "sst_input V pad records sync_id chunks \<longleftrightarrow> records \<noteq> [] \<and> btree_ok records \<and> (\<forall>r \<in> set records. fst r < 2 ^ 64) \<and>
    length records < 2 ^ 32 \<and> sync_id < 2 ^ 64 \<and> length pad = 4 \<and> chunking V 0 [] records = Some chunks \<and> length chunks < 2 ^ 16"

text \<open>The blocks that a table takes on its log.\<close>

definition sst_nblocks :: "(nat \<times> 'v value_ex) list list \<Rightarrow> nat" where
  "sst_nblocks chunks = length chunks * RECORD_BLOCK_NBLOCKS + ceil_div (length chunks * INDEX_ENTRY_SIZE + FOOTER_META_SIZE) BLOCK_SIZE"

lemma scan_recs_keep:
  assumes "\<not> sa_discard_unsynced sa"
  shows "scan_recs sa rs = map (\<lambda>(k, v). (k, if sa_all_synced sa then Synced (value_ex_get v) else v)) rs"
proof (induction rs)
  case (Cons r rs)
  obtain k v where "r = (k, v)" by (cases r)
  then show ?case using Cons assms by (cases v) auto
qed simp

lemma scan_chunks_keep:
  "\<not> sa_discard_unsynced sa \<Longrightarrow> \<forall>c \<in> set chunks. c \<noteq> [] \<Longrightarrow> scan_chunks sa chunks = scan_recs sa (concat chunks)"
  by (induction chunks) (auto simp: scan_recs_keep)

lemma sst_input_chunks:
  assumes "pod_laws V" "sst_input V pad records sync_id chunks"
  shows "chunks_ok V chunks" "concat chunks = records"
proof -
  have c: "chunking V 0 [] records = Some chunks" using assms(2) by (simp add: sst_input_def)
  then show r: "concat chunks = records" using chunking_concat [OF c] by simp
  have "length (recs_bytes V cs) \<le> RECORD_BLOCK_SIZE" if "cs \<in> set chunks" for cs
    using pod_laws.chunking_fits [OF assms(1) c] that by (simp add: recs_bytes_def)
  then show "chunks_ok V chunks"
    using assms(2) r chunking_nonempty [OF c] by (auto simp: chunks_ok_def sst_input_def)
qed

context sst_setting
begin

lemma sst_build_spec:
  assumes "sst_input V pad records sync_id chunks" "inv log" "content log = []" "room log (sst_nblocks chunks)" "listener_total el"
  shows "\<exists>sst log' e'. sst_build L C V pad el records sync_id id' log e = Ok (sst, log', e') \<and> inv log' \<and> sst_id sst = id' \<and>
    ft_meta (sst_footer sst) = meta_of (length chunks) (length records) sync_id \<and> sst_ok V holds (content log') chunks sst \<and>
    content log' = images V chunks @ footer_image pad (map (entry_of chunks) [0..<length chunks]) (meta_of (length chunks) (length records) sync_id)"
proof -
  let ?m = "meta_of (length chunks) (length records) sync_id" and ?es = "map (entry_of chunks) [0..<length chunks]"
  have i: "records \<noteq> []" "length records < 2 ^ 32" "sync_id < 2 ^ 64" "length pad = 4" "chunking V 0 [] records = Some chunks" "length chunks < 2 ^ 16"
    using assms(1) by (simp_all add: sst_input_def)
  obtain log1 cache e1 where b: "build_record_blocks L C V el records log (lc_new C CACHE_CAP) e = Ok (length records, ?es, log1, cache, e1)"
      "inv log1" "content log1 = images V chunks" "cache_ok V holds chunks cache" "room log1 (fm_index_nblocks ?m)"
    using build_record_blocks_spec [OF assms(2,3,5) i(5,1), of "fm_index_nblocks ?m" e] assms(4) by (auto simp: sst_nblocks_def meta_of_def)
  obtain log2 where f: "build_footer L pad ?es (length records) sync_id log1 = Ok (\<lparr>ft_meta = ?m, ft_index = ?es\<rparr>, log2)" "inv log2"
      "content log2 = content log1 @ footer_image pad ?es ?m"
    using build_footer_spec [OF b(2), of ?es "length records" sync_id pad] i b(5) by auto
  have "sst_ok V holds (content log2) chunks \<lparr>sst_id = id', sst_footer = \<lparr>ft_meta = ?m, ft_index = ?es\<rparr>, sst_cache = cache\<rparr>"
    using sst_input_chunks(1) [OF pod_laws_axioms assms(1)] b(3,4) f(3) by (simp add: sst_ok_def meta_of_def)
  then show ?thesis using b(1,3) f by (simp add: sst_build_def)
qed

lemma sst_reads:
  assumes "sst_ok V holds (content log) chunks sst" "inv log" "open_log (sst_id sst) = Ok log" "listener_total el"
  shows "\<exists>sst' e'. access_scan L C V open_log el sid False sst e =
      Ok (map (\<lambda>(k, v). (k, if sst_sync_id sst < sid then Synced (value_ex_get v) else v)) (concat chunks), sst', e')"
proof -
  have c: "chunks \<noteq> []" "\<forall>c \<in> set chunks. c \<noteq> []" using assms(1) by (auto simp: sst_ok_def chunks_ok_def)
  let ?sa = "\<lparr>sa_all_synced = (sst_sync_id sst < sid), sa_discard_unsynced = False\<rparr>"
  have "scan_recs ?sa (hd chunks) @ scan_chunks ?sa (tl chunks) = scan_recs ?sa (concat chunks)"
    using c by (cases chunks) (auto simp: scan_chunks_keep scan_recs_keep)
  then show ?thesis using access_scan_spec [of log chunks sst open_log el sid False e] assms by (auto simp: scan_recs_keep Let_def)
qed

lemma build_read:
  assumes "sst_input V pad records sync_id chunks" "inv log" "content log = []" "room log (sst_nblocks chunks)" "listener_total el" "pages_ready pg"
  shows "\<exists>sst log' e' sst'. sst_build L C V pad el records sync_id id' log e = Ok (sst, log', e') \<and> sst_from_log pg L C id' log' = Ok sst' \<and>
    sst_footer sst' = sst_footer sst \<and>
    (\<forall>t \<in> {sst, sst'}.
      (\<forall>sid. \<exists>t' e''. access_scan L C V (\<lambda>_. Ok log') el sid False t e =
        Ok (map (\<lambda>(k, v). (k, if sync_id < sid then Synced (value_ex_get v) else v)) records, t', e'')) \<and>
      (\<forall>key. fst (hd records) \<le> key \<and> key \<le> fst (last records) \<longrightarrow>
        (case map_of records key of None \<Rightarrow> access_point L C V (\<lambda>_. Ok log') key t = Fail NotFound
         | Some v \<Rightarrow> \<exists>t'. access_point L C V (\<lambda>_. Ok log') key t = Ok (value_ex_get v, t'))))"
proof -
  let ?m = "meta_of (length chunks) (length records) sync_id"
  obtain sst log' e' where b: "sst_build L C V pad el records sync_id id' log e = Ok (sst, log', e')" "inv log'" "sst_id sst = id'"
      "ft_meta (sst_footer sst) = ?m" "sst_ok V holds (content log') chunks sst"
      "content log' = images V chunks @ footer_image pad (map (entry_of chunks) [0..<length chunks]) ?m"
    using sst_build_spec [OF assms(1-5), of id' e] by blast
  have i: "length chunks < 2 ^ 16" "length records < 2 ^ 32" "sync_id < 2 ^ 64" "length pad = 4" using assms(1) by (simp_all add: sst_input_def)
  note c = sst_input_chunks [OF pod_laws_axioms assms(1)]
  obtain sst' where f: "sst_from_log pg L C id' log' = Ok sst'" "sst_id sst' = id'" "ft_meta (sst_footer sst') = ?m" "sst_ok V holds (content log') chunks sst'"
    using sst_from_log_spec [OF c(1) i b(2,6) refl assms(6), of id'] by blast
  have ft: "sst_footer sst' = sst_footer sst" using b(4,5) f(3,4) by (simp add: sst_ok_def)
  have sid: "sst_sync_id sst = sync_id" "sst_sync_id sst' = sync_id" using b(4) f(3) by (simp_all add: sst_sync_id_def meta_of_def)
  have "\<exists>t' e''. access_scan L C V (\<lambda>_. Ok log') el s False t e =
      Ok (map (\<lambda>(k, v). (k, if sync_id < s then Synced (value_ex_get v) else v)) records, t', e'')" if "t \<in> {sst, sst'}" for s t
    using that sst_reads [of log' chunks t "\<lambda>_. Ok log'" el s e] b(2,5) f(4) assms(5) sid c(2) by auto
  moreover have "case map_of records key of None \<Rightarrow> access_point L C V (\<lambda>_. Ok log') key t = Fail NotFound
      | Some v \<Rightarrow> \<exists>t'. access_point L C V (\<lambda>_. Ok log') key t = Ok (value_ex_get v, t')"
    if "t \<in> {sst, sst'}" "fst (hd records) \<le> key \<and> key \<le> fst (last records)" for t key
    using that access_point_spec [of log' chunks t "\<lambda>_. Ok log'" key] b(2,5) f(4) c(2) by (auto split: option.splits)
  ultimately show ?thesis using b(1) f(1) ft by blast
qed

lemma build_panics:
  assumes "inv log" "content log = []" "room log (length records * RECORD_BLOCK_NBLOCKS)" "listener_total el" "chunking V 0 [] records = None"
  shows "sst_build L C V pad el records sync_id id' log e = Panics"
  using build_loop_panics [OF build_at_init [OF assms(1,2), of CACHE_CAP e] assms(4,5)] assms(3)
  by (simp add: sst_build_def build_record_blocks_def)

lemma scan_discards:
  assumes "sst_input V pad records sync_id (c0 # c1 # cs)" "inv log" "content log = []" "room log (sst_nblocks (c0 # c1 # cs))" "listener_total el"
    "\<forall>(k, v) \<in> set c1. \<exists>u. v = Unsynced u" "sid \<le> sync_id"
  shows "\<exists>sst log' e' sst' e''. sst_build L C V pad el records sync_id id' log e = Ok (sst, log', e') \<and>
    access_scan L C V (\<lambda>_. Ok log') el sid True sst e = Ok (scan_recs \<lparr>sa_all_synced = False, sa_discard_unsynced = True\<rparr> c0, sst', e'')"
proof -
  obtain sst log' e' where b: "sst_build L C V pad el records sync_id id' log e = Ok (sst, log', e')" "inv log'" "sst_id sst = id'"
      "ft_meta (sst_footer sst) = meta_of (length (c0 # c1 # cs)) (length records) sync_id" "sst_ok V holds (content log') (c0 # c1 # cs) sst"
    using sst_build_spec [OF assms(1-5), of id' e] by blast
  have "scan_recs \<lparr>sa_all_synced = False, sa_discard_unsynced = True\<rparr> c1 = []"
    using assms(6) unfolding scan_recs_def by auto
  moreover have "\<not> sst_sync_id sst < sid" using b(4) assms(7) by (simp add: sst_sync_id_def meta_of_def)
  ultimately show ?thesis
    using access_scan_spec [of log' "c0 # c1 # cs" sst "\<lambda>_. Ok log'" el sid True e] b(1,2,5) assms(5) by (auto simp: Let_def)
qed

end

text \<open>C3: A table that is built from sorted records, and the table loaded from its log, have these records: a scan that discards
  nothing returns them in order, as synced values if the table is older than the given sync id, and a point query in the range of the
  table returns the most recent value of its key or reports that it is not found. The two tables have the same footer.\<close>

theorem sst_build_read:
  assumes "sst_setting V C holds L log_inv content room" "sst_input V pad records sync_id chunks" "log_inv log" "content log = []"
    "room log (sst_nblocks chunks)" "listener_total el" "pages_ready pg"
  shows "\<exists>sst log' e' sst'. sst_build L C V pad el records sync_id id' log e = Ok (sst, log', e') \<and> sst_from_log pg L C id' log' = Ok sst' \<and>
    sst_footer sst' = sst_footer sst \<and>
    (\<forall>t \<in> {sst, sst'}.
      (\<forall>sid. \<exists>t' e''. access_scan L C V (\<lambda>_. Ok log') el sid False t e =
        Ok (map (\<lambda>(k, v). (k, if sync_id < sid then Synced (value_ex_get v) else v)) records, t', e'')) \<and>
      (\<forall>key. fst (hd records) \<le> key \<and> key \<le> fst (last records) \<longrightarrow>
        (case map_of records key of None \<Rightarrow> access_point L C V (\<lambda>_. Ok log') key t = Fail NotFound
         | Some v \<Rightarrow> \<exists>t'. access_point L C V (\<lambda>_. Ok log') key t = Ok (value_ex_get v, t'))))"
  by (rule sst_setting.build_read [OF assms])

text \<open>C36: Building a table panics when the offset that is kept for the current record block exceeds the size of a record block. The
  offset counts the key of a record with a synced and an unsynced value twice, so this happens for records that do fit.\<close>

theorem sst_build_overflow:
  assumes "sst_setting V C holds L log_inv content room" "chunking V 0 [] records = None" "log_inv log" "content log = []"
    "room log (length records * RECORD_BLOCK_NBLOCKS)" "listener_total el"
  shows "sst_build L C V pad el records sync_id id' log e = Panics"
  by (rule sst_setting.build_panics [OF assms(1,3-6,2)])


section \<open>Instances\<close>

text \<open>Words as values, and a cache that evicts nothing.\<close>

definition word_pod :: "nat \<Rightarrow> 'a :: len word pod_type" where
  "word_pod n = \<lparr>pod_size = n, pod_as_bytes = (\<lambda>w. le_bytes n (unat w)), pod_from_bytes = (\<lambda>bs. word_of_nat (le_nat bs))\<rparr>"

lemma word_pod_laws: "LENGTH('a :: len) = 8 * n \<Longrightarrow> pod_laws (word_pod n :: 'a word pod_type)"
proof (unfold_locales, goal_cases)
  case (2 v)
  have "unat v < 2 ^ LENGTH('a)" by (rule unsigned_less)
  then have "unat v < 256 ^ n" using 2 by (simp add: power_mult)
  then show ?case by (simp add: word_pod_def le_nat_bytes_exact)
qed (simp add: word_pod_def)

definition lru_ref :: "(block_id \<Rightarrow> bytes option) lru_crate" where
  "lru_ref = \<lparr>lc_new = (\<lambda>_. Map.empty), lc_get = (\<lambda>c k. (c k, c)), lc_put = (\<lambda>c k v. c(k \<mapsto> v))\<rparr>"

interpretation w64: pod_laws "word_pod 8 :: 64 word pod_type"
  by (rule word_pod_laws) simp

interpretation w320: pod_laws "word_pod 40 :: 320 word pod_type"
  by (rule word_pod_laws) simp

interpretation lr: lru_laws lru_ref "\<lambda>c. c"
  by unfold_locales (simp_all add: lru_ref_def)

interpretation ss: sst_setting "word_pod 8 :: 64 word pod_type" lru_ref "\<lambda>c. c" memlog_ops memlog_inv memlog_content memlog_room
  by unfold_locales

interpretation ss320: sst_setting "word_pod 40 :: 320 word pod_type" lru_ref "\<lambda>c. c" memlog_ops memlog_inv memlog_content memlog_room
  by unfold_locales

definition empty_memlog :: "nat \<Rightarrow> memlog" where
  "empty_memlog n = \<lparr>ml_log = replicate (n * BLOCK_SIZE) 0, ml_append_pos = 0\<rparr>"

lemma empty_memlog_facts:
  assumes "0 < n"
  shows "memlog_inv (empty_memlog n)" "memlog_content (empty_memlog n) = []" "m \<le> n \<Longrightarrow> memlog_room (empty_memlog n) m"
  using assms by (simp_all add: empty_memlog_def memlog_inv_def memlog_content_def memlog_room_def buf_ok_def buf_nblocks_def)

text \<open>Records of one size fill a record block.\<close>

lemma chunking_skip:
  assumes "\<forall>r \<in> set xs. counted V (snd r) = c" "offset + length xs * c + MAX_RECORD_SIZE V \<le> RECORD_BLOCK_SIZE"
  shows "chunking V offset cur (xs @ ys) = chunking V (offset + length xs * c) (cur @ xs) ys"
  using assms
proof (induction xs arbitrary: offset cur)
  case (Cons x xs)
  have "MAX_RECORD_SIZE V \<le> RECORD_BLOCK_SIZE - (offset + c)" "\<not> RECORD_BLOCK_SIZE < offset + c" using Cons.prems(2) by simp_all
  then show ?case using Cons.IH [of "offset + c" "cur @ [x]"] Cons.prems by (simp add: Let_def add.assoc)
qed simp

lemma chunking_block:
  assumes "\<forall>r \<in> set (xs @ [x]). counted V (snd r) = c" "length xs * c + MAX_RECORD_SIZE V \<le> RECORD_BLOCK_SIZE"
    "Suc (length xs) * c \<le> RECORD_BLOCK_SIZE" "RECORD_BLOCK_SIZE < Suc (length xs) * c + MAX_RECORD_SIZE V"
  shows "chunking V 0 [] ((xs @ [x]) @ ys) = map_option ((#) (xs @ [x])) (chunking V 0 [] ys)"
proof -
  have "\<not> MAX_RECORD_SIZE V \<le> RECORD_BLOCK_SIZE - (length xs * c + c)" "\<not> RECORD_BLOCK_SIZE < length xs * c + c" using assms(3,4) by simp_all
  then show ?thesis using chunking_skip [of xs V c 0 "[]" "x # ys"] assms(1,2) by (simp add: Let_def)
qed

lemma word_pod_sizes [simp]: "V_SIZE (word_pod n) = n" "MAX_RECORD_SIZE (word_pod n) = 9 + 2 * n"
  "counted (word_pod n) (Synced v) = 9 + n" "counted (word_pod n) (Unsynced v) = 9 + n" "counted (word_pod n) (SyncedAndUnsynced v w) = 17 + 2 * n"
  by (simp_all add: counted_def sst_sizes word_pod_def)

lemma RECORD_BLOCK_SIZE_val: "RECORD_BLOCK_SIZE = 131072"
  by (simp add: RECORD_BLOCK_SIZE_def RECORD_BLOCK_NBLOCKS_def BLOCK_SIZE_def)

theorem sst_build_read_witness:
  "\<exists>(sst :: (block_id \<Rightarrow> bytes option) sstable) log' e' t' e'' t''.
    sst_build memlog_ops lru_ref (word_pod 8 :: 64 word pod_type) (replicate 4 0) None
      [(3, Synced 5), (4, SyncedAndUnsynced 1 2), (9, Unsynced 7)] 6 0 (empty_memlog 40) () = Ok (sst, log', e') \<and>
    access_scan memlog_ops lru_ref (word_pod 8 :: 64 word pod_type) (\<lambda>_. Ok log') None 6 False sst () =
      Ok ([(3, Synced 5), (4, SyncedAndUnsynced 1 2), (9, Unsynced 7)], t', e'') \<and>
    access_point memlog_ops lru_ref (word_pod 8 :: 64 word pod_type) (\<lambda>_. Ok log') 4 sst = Ok (2, t'')"
proof -
  let ?V = "word_pod 8 :: 64 word pod_type" and ?rs = "[(3, Synced 5), (4, SyncedAndUnsynced 1 2), (9, Unsynced 7)] :: (nat \<times> 64 word value_ex) list"
  have inp: "sst_input ?V (replicate 4 0) ?rs 6 [?rs]"
    by (simp add: sst_input_def RECORD_BLOCK_SIZE_val Let_def)
  have room: "memlog_room (empty_memlog 40) (sst_nblocks [?rs])"
    by (rule empty_memlog_facts(3))
      (simp_all add: sst_nblocks_def RECORD_BLOCK_NBLOCKS_def INDEX_ENTRY_SIZE_def BID_SIZE_def K_SIZE_def FOOTER_META_SIZE_def ceil_div_def BLOCK_SIZE_def)
  have lt: "listener_total (None :: (64 word, unit) tx_event_listener option)" by (simp add: listener_total_def)
  obtain sst log' e' where b: "sst_build memlog_ops lru_ref ?V (replicate 4 0) None ?rs 6 0 (empty_memlog 40) () = Ok (sst, log', e')"
      "\<forall>sid. \<exists>t' e''. access_scan memlog_ops lru_ref ?V (\<lambda>_. Ok log') None sid False sst () =
        Ok (map (\<lambda>(k, v). (k, if 6 < sid then Synced (value_ex_get v) else v)) ?rs, t', e'')"
      "\<forall>key. fst (hd ?rs) \<le> key \<and> key \<le> fst (last ?rs) \<longrightarrow>
        (case map_of ?rs key of None \<Rightarrow> access_point memlog_ops lru_ref ?V (\<lambda>_. Ok log') key sst = Fail NotFound
         | Some v \<Rightarrow> \<exists>t'. access_point memlog_ops lru_ref ?V (\<lambda>_. Ok log') key sst = Ok (value_ex_get v, t'))"
    using sst_build_read [OF ss.sst_setting_axioms inp empty_memlog_facts(1,2) room lt zero_pages_ready, of 0 "()"] by auto
  show ?thesis using b(1) b(2) [rule_format, of 6] b(3) [rule_format, of 4] by auto
qed

text \<open>With values of 40 bytes, 2673 records leave 95 bytes; a record with two values has 89, but is counted as 97.\<close>

theorem sst_build_overflow_witness:
  "sst_build memlog_ops lru_ref (word_pod 40 :: 320 word pod_type) (replicate 4 0) (None :: (320 word, unit) tx_event_listener option)
    (map (\<lambda>i. (i, Synced 0)) [0..<2673] @ [(2673, SyncedAndUnsynced 0 0)]) 6 0 (empty_memlog 90000) () = Panics"
proof -
  note upt_rec_numeral [simp del]
  let ?V = "word_pod 40 :: 320 word pod_type"
  let ?xs = "map (\<lambda>i. (i, Synced 0)) [0..<2673] :: (nat \<times> 320 word value_ex) list"
  have "chunking ?V 0 [] (?xs @ [(2673, SyncedAndUnsynced 0 0)]) = chunking ?V (0 + length ?xs * 49) ([] @ ?xs) [(2673, SyncedAndUnsynced 0 0)]"
    by (rule chunking_skip) (simp_all add: RECORD_BLOCK_SIZE_val)
  then have none: "chunking ?V 0 [] (?xs @ [(2673, SyncedAndUnsynced 0 0)]) = None" by (simp add: RECORD_BLOCK_SIZE_val Let_def)
  have lt: "listener_total (None :: (320 word, unit) tx_event_listener option)" by (simp add: listener_total_def)
  have room: "memlog_room (empty_memlog 90000) (length (?xs @ [(2673, SyncedAndUnsynced 0 0)]) * RECORD_BLOCK_NBLOCKS)"
    by (rule empty_memlog_facts(3)) (simp_all add: RECORD_BLOCK_NBLOCKS_def)
  show ?thesis by (rule sst_build_overflow [OF ss320.sst_setting_axioms none empty_memlog_facts(1,2) room lt]) simp_all
qed


end
