(* ===== verification/Read_Cache.thy ===== *)
theory Read_Cache
  imports Block_Buf
begin

text \<open>
  The read cache of the disk (\<open>core/src/layers/5-disk/read_cache.rs\<close>).

  \<open>lru\<close> is the doubly linked list over the slots of the cache, kept in two arrays of indices; \<open>read_cache\<close> is the
  cache. Every index into an array is checked and panics out of range, as in the code. A key is the logical block
  address that \<open>RecordKey\<close> wraps; the time that \<open>get_current_time\<close> returns is an argument.

  The properties: for a capacity of at least two the cache is exactly one block that is never given up together with a
  list of the others in the order of their last use, of which the last one is evicted; so every hit returns the data of
  the last put. The block in slot 0 is never evicted, however long it has not been used.
\<close>

section \<open>The list of slots\<close>

definition set_res :: "'a list \<Rightarrow> nat \<Rightarrow> 'a \<Rightarrow> 'a list res" where
  "set_res xs i x = (if i < length xs then Ok (xs[i := x]) else Panics)"

record lru =
  lru_prev :: "nat list"
  lru_next :: "nat list"

definition lru_new :: "nat \<Rightarrow> lru res" where
  "lru_new sz =
    rbind (checked_sub sz 1) (\<lambda>m.
      Ok \<lparr>lru_prev = [m..<sz] @ [0..<m], lru_next = [1..<sz] @ [0..<1]\<rparr>)"

definition lru_list_remove :: "nat \<Rightarrow> lru \<Rightarrow> lru res" where
  "lru_list_remove node l =
    rbind (nth_res (lru_prev l) node) (\<lambda>prev.
    rbind (nth_res (lru_next l) node) (\<lambda>next.
    rbind (set_res (lru_prev l) next prev) (\<lambda>prevs.
    rbind (set_res (lru_next l) prev next) (\<lambda>nexts.
      Ok \<lparr>lru_prev = prevs, lru_next = nexts\<rparr>))))"

definition lru_list_insert_head :: "nat \<Rightarrow> lru \<Rightarrow> lru res" where
  "lru_list_insert_head node l =
    rbind (nth_res (lru_next l) 0) (\<lambda>head.
    rbind (set_res (lru_prev l) node 0) (\<lambda>prevs.
    rbind (set_res (lru_next l) node head) (\<lambda>nexts.
    rbind (set_res nexts 0 node) (\<lambda>nexts.
    rbind (set_res prevs head node) (\<lambda>prevs.
      Ok \<lparr>lru_prev = prevs, lru_next = nexts\<rparr>)))))"

definition lru_visit :: "nat \<Rightarrow> lru \<Rightarrow> lru res" where
  "lru_visit node l =
    (if node = 0 \<or> length (lru_prev l) \<le> node then Ok l
     else rbind (lru_list_remove node l) (lru_list_insert_head node))"

definition lru_victim :: "lru \<Rightarrow> nat res" where
  "lru_victim l = nth_res (lru_prev l) 0"

section \<open>The cache\<close>

record cache_entry =
  ce_data :: bytes
  ce_access_time :: nat

record read_cache =
  rc_cache :: "(nat \<times> cache_entry) option list"
  rc_lru :: lru
  rc_capacity :: nat
  rc_size :: nat

definition rc_new :: "nat \<Rightarrow> read_cache res" where
  "rc_new capacity =
    rbind (lru_new capacity) (\<lambda>l.
      Ok \<lparr>rc_cache = replicate capacity None, rc_lru = l, rc_capacity = capacity, rc_size = 0\<rparr>)"

text \<open>The search that \<open>get\<close>, \<open>contains\<close> and \<open>put\<close> share: the first slot among \<open>is\<close> with the key.\<close>

fun rc_find :: "nat \<Rightarrow> (nat \<times> cache_entry) option list \<Rightarrow> nat list \<Rightarrow> (nat \<times> cache_entry) option res" where
  "rc_find key cache [] = Ok None"
| "rc_find key cache (i # is) =
    rbind (nth_res cache i) (\<lambda>slot.
      case slot of
        Some (cached_key, entry) \<Rightarrow> if cached_key = key then Ok (Some (i, entry)) else rc_find key cache is
      | None \<Rightarrow> rc_find key cache is)"

definition rc_get :: "nat \<Rightarrow> bytes \<Rightarrow> read_cache \<Rightarrow> (unit option \<times> bytes \<times> read_cache) res" where
  "rc_get key buf c =
    rbind (rassert (buf_nblocks buf = 1)) (\<lambda>_.
    rbind (rc_find key (rc_cache c) [0..<rc_capacity c]) (\<lambda>hit.
      case hit of
        Some (i, entry) \<Rightarrow>
          rbind (lru_visit i (rc_lru c)) (\<lambda>l.
          rbind (copy_range buf 0 (length buf) (ce_data entry)) (\<lambda>buf.
            Ok (Some (), buf, c\<lparr>rc_lru := l\<rparr>)))
      | None \<Rightarrow> Ok (None, buf, c)))"

definition rc_contains :: "nat \<Rightarrow> read_cache \<Rightarrow> bool res" where
  "rc_contains key c =
    rbind (rc_find key (rc_cache c) [0..<rc_capacity c]) (\<lambda>hit. Ok (hit \<noteq> None))"

definition entry_new :: "bytes \<Rightarrow> nat \<Rightarrow> cache_entry res" where
  "entry_new data now =
    rbind (copy_range (replicate BLOCK_SIZE 0) 0 BLOCK_SIZE data) (\<lambda>entry_data.
      Ok \<lparr>ce_data = entry_data, ce_access_time = now\<rparr>)"

definition rc_put :: "nat \<Rightarrow> bytes \<Rightarrow> nat \<Rightarrow> read_cache \<Rightarrow> read_cache res" where
  "rc_put key data now c =
    rbind (rassert (length data = BLOCK_SIZE)) (\<lambda>_.
    rbind (rc_find key (rc_cache c) [0..<rc_capacity c]) (\<lambda>hit.
      case hit of
        Some (i, _) \<Rightarrow>
          rbind (entry_new data now) (\<lambda>entry.
          rbind (set_res (rc_cache c) i (Some (key, entry))) (\<lambda>cache.
          rbind (lru_visit i (rc_lru c)) (\<lambda>l.
            Ok (c\<lparr>rc_cache := cache, rc_lru := l\<rparr>))))
      | None \<Rightarrow>
          rbind (if rc_size c < rc_capacity c then Ok (rc_size c) else lru_victim (rc_lru c)) (\<lambda>slot.
          rbind (entry_new data now) (\<lambda>entry.
          rbind (set_res (rc_cache c) slot (Some (key, entry))) (\<lambda>cache.
          rbind (lru_visit slot (rc_lru c)) (\<lambda>l.
            Ok (c\<lparr>rc_cache := cache, rc_lru := l,
              rc_size := (if rc_size c < rc_capacity c then rc_size c + 1 else rc_size c)\<rparr>)))))))"

fun clear_slots :: "nat list \<Rightarrow> 'a option list \<Rightarrow> 'a option list res" where
  "clear_slots [] cache = Ok cache"
| "clear_slots (i # is) cache = rbind (set_res cache i None) (clear_slots is)"

definition rc_clear :: "read_cache \<Rightarrow> read_cache res" where
  "rc_clear c =
    rbind (clear_slots [0..<rc_capacity c] (rc_cache c)) (\<lambda>cache.
    rbind (lru_new (rc_capacity c)) (\<lambda>l.
      Ok (c\<lparr>rc_cache := cache, rc_lru := l, rc_size := 0\<rparr>)))"

section \<open>The linked list is a cycle\<close>

lemma set_res_Ok [simp]: "i < length xs \<Longrightarrow> set_res xs i x = Ok (xs[i := x])"
  by (simp add: set_res_def)

text \<open>Adjacent elements \<open>a\<close>, \<open>b\<close> of a chain point at each other.\<close>

definition linked :: "nat list \<Rightarrow> nat list \<Rightarrow> nat list \<Rightarrow> bool" where
  "linked prevs nexts = successively (\<lambda>a b. nexts ! a = b \<and> prevs ! b = a)"

definition lru_ok :: "nat \<Rightarrow> nat list \<Rightarrow> lru \<Rightarrow> bool" where
  "lru_ok n order l \<longleftrightarrow> length (lru_prev l) = n \<and> length (lru_next l) = n \<and> 0 < n \<and>
    distinct (0 # order) \<and> set (0 # order) = {0..<n} \<and> linked (lru_prev l) (lru_next l) (0 # order @ [0])"

lemma successively_segment:
  assumes "successively P xs" "\<And>a b. a \<in> set (butlast xs) \<Longrightarrow> b \<in> set (tl xs) \<Longrightarrow> P a b \<Longrightarrow> Q a b"
  shows "successively Q xs"
  using assms by (induction xs rule: induct_list012) auto

lemma linked_split:
  "linked prevs nexts (xs @ [a]) \<and> linked prevs nexts (b # ys) \<and> nexts ! a = b \<and> prevs ! b = a \<longleftrightarrow>
    linked prevs nexts (xs @ a # b # ys)"
  unfolding linked_def by (induction xs) (auto simp: successively_Cons hd_append)

lemma linked_Cons2 [simp]: "linked prevs nexts (a # b # ys) \<longleftrightarrow> nexts ! a = b \<and> prevs ! b = a \<and> linked prevs nexts (b # ys)"
  by (simp add: linked_def)

text \<open>Assigning to \<open>next\<close> at the end and to \<open>prev\<close> at the start of a chain does not change its inner links.\<close>

lemma linked_update:
  assumes "linked prevs nexts xs" "p \<notin> set (butlast xs)" "q \<notin> set (tl xs)"
  shows "linked (prevs[q := v]) (nexts[p := w]) xs"
  unfolding linked_def by (rule successively_segment [OF assms(1) [unfolded linked_def]]) (metis assms(2,3) nth_list_update_neq)

lemma linked_remove:
  assumes "linked prevs nexts (xs @ p # i # q # ys)" "p \<notin> set xs" "q \<notin> set ys" "p \<notin> set (butlast (q # ys))"
    "q \<notin> set (tl (xs @ [p]))" "p < length nexts" "q < length prevs"
  shows "prevs ! i = p" "nexts ! i = q" "linked (prevs[q := p]) (nexts[p := q]) (xs @ p # q # ys)"
proof -
  have "linked prevs nexts (xs @ [p])" "linked prevs nexts (i # q # ys)" "prevs ! i = p"
    using assms(1) by (auto simp: linked_split [symmetric])
  moreover have "linked prevs nexts (q # ys)" "nexts ! i = q"
    using calculation(2) by auto
  ultimately show "prevs ! i = p" "nexts ! i = q" "linked (prevs[q := p]) (nexts[p := q]) (xs @ p # q # ys)"
    using assms(2-7) by (auto simp: linked_split [symmetric] intro!: linked_update)
qed

lemma linked_insert_head:
  assumes "linked prevs nexts (0 # q # ys)" "distinct (i # q # butlast ys)" "i \<notin> set ys" "i \<noteq> 0" "q \<notin> set ys"
    "0 \<notin> set (butlast (q # ys))" "i < length nexts" "i < length prevs" "q < length prevs"
  shows "nexts ! 0 = q" "linked (prevs[i := 0, q := i]) (nexts[i := q, 0 := i]) (0 # i # q # ys)"
proof -
  have "linked prevs nexts (q # ys)" "nexts ! 0 = q" using assms(1) by auto
  moreover have "i \<notin> set (butlast (q # ys))" using assms(2,3) by (auto dest: in_set_butlastD)
  ultimately have "linked (prevs[i := 0, q := i]) (nexts[i := q, 0 := i]) (q # ys)"
    using assms(3,5,6) by (auto intro!: linked_update)
  moreover have "0 < length nexts" using assms(7) by linarith
  ultimately show "nexts ! 0 = q" "linked (prevs[i := 0, q := i]) (nexts[i := q, 0 := i]) (0 # i # q # ys)"
    using assms \<open>nexts ! 0 = q\<close> by auto
qed

lemma lru_visit_spec:
  assumes "lru_ok n (A @ i # B) l"
  shows "\<exists>l'. lru_visit i l = Ok l' \<and> lru_ok n (i # A @ B) l'"
proof -
  let ?P = "lru_prev l" and ?N = "lru_next l"
  have l: "length ?P = n" "length ?N = n" "0 < n" "distinct (0 # A @ i # B)" "set (0 # A @ i # B) = {0..<n}"
      "linked ?P ?N (0 # A @ i # B @ [0])"
    using assms by (simp_all add: lru_ok_def)
  obtain xs p where xp: "0 # A = xs @ [p]" by (metis append_butlast_last_id list.discI)
  obtain q ys where qy: "B @ [0] = q # ys" by (cases "B @ [0]") auto
  obtain h zs where hz: "A @ B @ [0] = h # zs" by (cases "A @ B @ [0]") auto
  have mem: "p \<in> set (0 # A)" "q \<in> set (B @ [0])" "h \<in> set (A @ B @ [0])"
    unfolding xp hz by (simp, simp add: qy, simp)
  have "x < n" if "x \<in> set (0 # A @ i # B)" for x using that unfolding l(5) by simp
  then have lt: "p < n" "q < n" "i < n" "h < n" "i \<noteq> 0" using mem l(4) by auto
  have "linked ?P ?N (xs @ p # i # q # ys)" using l(6) xp qy by (metis append.assoc append_Cons append_Nil)
  moreover have "p \<notin> set xs" using l(4) arg_cong [OF xp, of distinct] by auto
  moreover have "q \<notin> set ys" using l(4) arg_cong [OF qy, of distinct] by auto
  moreover have "p \<notin> set (butlast (q # ys))" using mem(1) l(4) by (auto simp: qy [symmetric])
  moreover have "q \<notin> set (tl (xs @ [p]))" using mem(2) l(4) by (auto simp: xp [symmetric])
  ultimately have rem: "?P ! i = p" "?N ! i = q" "linked (?P[q := p]) (?N[p := q]) (xs @ p # q # ys)"
    using linked_remove [of ?P ?N xs p i q ys] lt(1,2) l(1,2) by simp_all
  have "linked (?P[q := p]) (?N[p := q]) (0 # h # zs)" using rem(3) xp qy hz by (metis append.assoc append_Cons append_Nil)
  moreover have hz': "distinct (h # zs)" "butlast (h # zs) = A @ B" "0 \<notin> set (A @ B)" "i \<notin> set (h # zs)"
    using l(4) lt(5) by (auto simp: hz [symmetric] butlast_append)
  moreover have "distinct (i # h # butlast zs)"
    using distinct_butlast [of zs] hz'(1,4) in_set_butlastD [of _ zs] by auto
  moreover have "h \<notin> set zs" "i \<notin> set zs" using hz'(1,4) by simp_all
  ultimately have ins: "(?N[p := q]) ! 0 = h" "linked (?P[q := p, i := 0, h := i]) (?N[p := q, i := h, 0 := i]) (0 # i # h # zs)"
    using linked_insert_head [of "?P[q := p]" "?N[p := q]" h zs i] lt l(1,2) by simp_all
  have "lru_visit i l = Ok \<lparr>lru_prev = ?P[q := p, i := 0, h := i], lru_next = ?N[p := q, i := h, 0 := i]\<rparr>"
    using l(1-3) lt rem(1,2) ins(1) by (simp add: lru_visit_def lru_list_remove_def lru_list_insert_head_def)
  moreover have "lru_ok n (i # A @ B) \<lparr>lru_prev = ?P[q := p, i := 0, h := i], lru_next = ?N[p := q, i := h, 0 := i]\<rparr>"
    unfolding lru_ok_def using l(1-5) ins(2) by (auto simp: hz simp del: linked_Cons2)
  ultimately show ?thesis by blast
qed

lemma lru_new_spec:
  assumes "0 < n"
  shows "\<exists>l. lru_new n = Ok l \<and> lru_ok n [1..<n] l"
proof -
  have "successively (\<lambda>a b. ([1..<n] @ [0]) ! a = b \<and> ([n - 1..<n] @ [0..<n - 1]) ! b = a) ([0..<n] @ [0])"
    unfolding successively_conv_nth using assms by (auto simp: nth_append)
  moreover have "[0..<n] @ [0] = 0 # [1..<n] @ [0]" using assms by (simp add: upt_rec)
  ultimately show ?thesis using assms by (auto simp: lru_new_def lru_ok_def linked_def)
qed

lemma lru_victim_spec: "lru_ok n order l \<Longrightarrow> lru_victim l = Ok (last (0 # order))"
proof -
  assume a: "lru_ok n order l"
  obtain xs p where "0 # order = xs @ [p]" by (metis append_butlast_last_id list.discI)
  then have "linked (lru_prev l) (lru_next l) (xs @ p # 0 # [])"
    using a unfolding lru_ok_def by (metis append.assoc append_Cons append_Nil)
  then show ?thesis using a \<open>0 # order = xs @ [p]\<close> by (auto simp: linked_split [symmetric] lru_victim_def lru_ok_def simp del: last.simps)
qed

section \<open>The reference cache\<close>

text \<open>
  The reference: the block that was cached first, and the others in the order of their last use, most recent first.
\<close>

type_synonym lru_spec = "(nat \<times> bytes) option \<times> (nat \<times> bytes) list"

fun spec_put :: "nat \<Rightarrow> nat \<Rightarrow> bytes \<Rightarrow> lru_spec \<Rightarrow> lru_spec" where
  "spec_put n k d (None, rest) = (Some (k, d), rest)"
| "spec_put n k d (Some (k0, d0), rest) =
    (if k0 = k \<or> n = 1 then (Some (k, d), rest)
     else (Some (k0, d0), take (n - 1) ((k, d) # filter (\<lambda>x. fst x \<noteq> k) rest)))"

fun spec_entries :: "lru_spec \<Rightarrow> (nat \<times> bytes) list" where
  "spec_entries (None, rest) = rest"
| "spec_entries (Some x, rest) = x # rest"

definition spec_touch :: "nat \<Rightarrow> lru_spec \<Rightarrow> lru_spec" where
  "spec_touch k s = (fst s, case map_of (snd s) k of None \<Rightarrow> snd s | Some d \<Rightarrow> (k, d) # filter (\<lambda>x. fst x \<noteq> k) (snd s))"

definition kv_at :: "read_cache \<Rightarrow> nat \<Rightarrow> (nat \<times> bytes) option" where
  "kv_at c i = map_option (\<lambda>(k, e). (k, ce_data e)) (rc_cache c ! i)"

definition rc_rep :: "nat \<Rightarrow> nat list \<Rightarrow> read_cache \<Rightarrow> lru_spec \<Rightarrow> bool" where
  "rc_rep n used c s \<longleftrightarrow> rc_capacity c = n \<and> length (rc_cache c) = n \<and> rc_size c \<le> n \<and>
    lru_ok n (used @ [max 1 (rc_size c)..<n]) (rc_lru c) \<and> (\<forall>i < n. kv_at c i = None \<longleftrightarrow> rc_size c \<le> i) \<and>
    kv_at c 0 = fst s \<and> map (kv_at c) used = map Some (snd s) \<and>
    distinct (map fst (spec_entries s)) \<and> (\<forall>(_, d) \<in> set (spec_entries s). length d = BLOCK_SIZE)"

text \<open>The search finds the slot with the key, if there is one.\<close>

lemma rc_find_Some:
  assumes "\<forall>i \<in> set is. i < length cache" "i \<in> set is" "cache ! i = Some (key, e)"
    "\<forall>j \<in> set is. j \<noteq> i \<longrightarrow> (\<forall>e'. cache ! j \<noteq> Some (key, e'))"
  shows "rc_find key cache is = Ok (Some (i, e))"
  using assms
proof (induction "is")
  case (Cons a "is")
  show ?case
  proof (cases "a = i")
    case False
    then have "rc_find key cache is = Ok (Some (i, e))" using Cons.IH Cons.prems by simp
    moreover have "cache ! a = None \<or> (\<exists>k e'. cache ! a = Some (k, e') \<and> k \<noteq> key)"
      using False Cons.prems(4) by (cases "cache ! a") auto
    ultimately show ?thesis using Cons.prems(1) by auto
  qed (use Cons.prems in simp)
qed simp

lemma rc_find_None:
  assumes "\<forall>i \<in> set is. i < length cache" "\<forall>j \<in> set is. \<forall>e. cache ! j \<noteq> Some (key, e)"
  shows "rc_find key cache is = Ok None"
  using assms by (induction "is") (simp_all split: option.split prod.split)

lemma rc_rep_used:
  assumes "rc_rep n used c s"
  shows "set used = {1..<rc_size c}" "distinct used" "length used = rc_size c - 1" "0 < n"
proof -
  have l: "distinct (0 # used @ [max 1 (rc_size c)..<n])" "set (0 # used @ [max 1 (rc_size c)..<n]) = {0..<n}" "0 < n" "rc_size c \<le> n"
    using assms by (simp_all add: rc_rep_def lru_ok_def)
  show "0 < n" "distinct used" using l by simp_all
  show u: "set used = {1..<rc_size c}"
  proof (intro set_eqI iffI)
    fix i assume i: "i \<in> set used"
    then have "i \<in> set (0 # used @ [max 1 (rc_size c)..<n])" by simp
    then have "i < n" unfolding l(2) by simp
    moreover have "i \<noteq> 0" "i \<notin> set [max 1 (rc_size c)..<n]" using i l(1) by auto
    ultimately have "i < n" "i \<noteq> 0" "\<not> (max 1 (rc_size c) \<le> i \<and> i < n)" by simp_all
    then show "i \<in> {1..<rc_size c}" by auto
  next
    fix i assume i: "i \<in> {1..<rc_size c}"
    then have "i \<in> set (0 # used @ [max 1 (rc_size c)..<n])" using l(2,4) by auto
    then show "i \<in> set used" using i by auto
  qed
  show "length used = rc_size c - 1" using distinct_card [OF \<open>distinct used\<close>] unfolding u by simp
qed

lemma rc_repD:
  assumes "rc_rep n used c s"
  shows "rc_capacity c = n" "length (rc_cache c) = n" "rc_size c \<le> n" "lru_ok n (used @ [max 1 (rc_size c)..<n]) (rc_lru c)"
    "\<And>i. i < n \<Longrightarrow> kv_at c i = None \<longleftrightarrow> rc_size c \<le> i" "fst s = kv_at c 0" "map (kv_at c) used = map Some (snd s)"
    "distinct (map fst (spec_entries s))" "\<forall>(_, d) \<in> set (spec_entries s). length d = BLOCK_SIZE" "length (snd s) = rc_size c - 1"
  using assms rc_rep_used(3) [OF assms] map_eq_imp_length_eq [of "kv_at c" used Some "snd s"] by (simp_all add: rc_rep_def)

text \<open>A key of the reference is in exactly one slot: slot 0 or one of the used ones.\<close>

lemma rc_rep_nth:
  assumes "rc_rep n used c s" "j < length used"
  shows "kv_at c (used ! j) = Some (snd s ! j)"
  using arg_cong [OF rc_repD(7) [OF assms(1)], of "\<lambda>xs. xs ! j"] assms(2) rc_repD(10) [OF assms(1)] rc_rep_used(3) [OF assms(1)] by simp

lemma rc_rep_slots:
  assumes "rc_rep n used c s" "0 < rc_size c"
  shows "map (kv_at c) (0 # used) = map Some (spec_entries s)" "set (0 # used) = {0..<rc_size c}" "fst s \<noteq> None"
proof -
  show "set (0 # used) = {0..<rc_size c}" using assms(2) unfolding list.set rc_rep_used(1) [OF assms(1)] by auto
  have f: "kv_at c 0 \<noteq> None" using assms(2) rc_repD(5) [OF assms(1), of 0] rc_rep_used(4) [OF assms(1)] by simp
  then show "fst s \<noteq> None" using rc_repD(6) [OF assms(1)] by simp
  then obtain x where "s = (Some x, snd s)" by (metis option.exhaust prod.collapse)
  then have "spec_entries s = x # snd s" "kv_at c 0 = Some x"
    using rc_repD(6) [OF assms(1)] by (metis spec_entries.simps(2), metis fst_conv)
  then show "map (kv_at c) (0 # used) = map Some (spec_entries s)" using rc_repD(7) [OF assms(1)] by simp
qed

lemma rc_rep_lookup:
  assumes "rc_rep n used c s" "i < n" "kv_at c i = Some (k, d)"
  shows "\<exists>m < length (spec_entries s). i = (0 # used) ! m \<and> spec_entries s ! m = (k, d)"
proof -
  have "i < rc_size c" using assms(3) rc_repD(5) [OF assms(1,2)] by simp
  then have sz: "0 < rc_size c" "i \<in> set (0 # used)" using rc_rep_slots(2) [OF assms(1)] by auto
  then obtain m where m: "m < length (0 # used)" "i = (0 # used) ! m" unfolding in_set_conv_nth by blast
  have "length (0 # used) = length (spec_entries s)" using map_eq_imp_length_eq [OF rc_rep_slots(1) [OF assms(1) sz(1)]] .
  moreover have "kv_at c ((0 # used) ! m) = Some (spec_entries s ! m)"
    using arg_cong [OF rc_rep_slots(1) [OF assms(1) sz(1)], of "\<lambda>xs. xs ! m"] m(1) calculation by (simp only: nth_map)
  ultimately show ?thesis using m assms(3) by auto
qed

lemma rc_rep_entries:
  assumes "rc_rep n used c s"
  shows "(k, d) \<in> set (spec_entries s) \<longleftrightarrow> (\<exists>i < n. kv_at c i = Some (k, d))"
proof
  assume "(k, d) \<in> set (spec_entries s)"
  then consider "fst s = Some (k, d)" | "(k, d) \<in> set (snd s)" by (cases s rule: spec_entries.cases) auto
  then show "\<exists>i < n. kv_at c i = Some (k, d)"
  proof cases
    case 1
    then show ?thesis using rc_repD(6) [OF assms] rc_rep_used(4) [OF assms] by auto
  next
    case 2
    then obtain j where j: "j < length used" "snd s ! j = (k, d)"
      using rc_repD(10) [OF assms] rc_rep_used(3) [OF assms] by (metis in_set_conv_nth)
    have "used ! j < n" using nth_mem [OF j(1)] rc_rep_used(1) [OF assms] rc_repD(3) [OF assms] by simp
    then show ?thesis using rc_rep_nth [OF assms j(1)] j(2) by auto
  qed
next
  assume "\<exists>i < n. kv_at c i = Some (k, d)"
  then obtain i where "i < n" "kv_at c i = Some (k, d)" by blast
  then show "(k, d) \<in> set (spec_entries s)" using rc_rep_lookup [OF assms] by (metis nth_mem)
qed
section \<open>The operations refine the reference\<close>

lemma filter_key_nth:
  assumes "distinct (map fst xs)" "j < length xs"
  shows "filter (\<lambda>x. fst x \<noteq> fst (xs ! j)) xs = take j xs @ drop (Suc j) xs"
proof -
  have "filter (\<lambda>x. fst x \<noteq> fst y) (as @ y # bs) = as @ bs" if "distinct (map fst (as @ y # bs))" for as bs and y :: "'a \<times> 'b"
  proof -
    have "fst y \<notin> fst ` set as" "fst y \<notin> fst ` set bs" using that by simp_all
    then have "\<forall>x \<in> set as. fst x \<noteq> fst y" "\<forall>x \<in> set bs. fst x \<noteq> fst y" by (metis imageI)+
    then show ?thesis by simp
  qed
  from this [of "take j xs" "xs ! j" "drop (Suc j) xs"] show ?thesis
    using assms id_take_nth_drop [OF assms(2)] by simp
qed

definition to_front :: "nat \<Rightarrow> 'a list \<Rightarrow> 'a list" where
  "to_front j xs = xs ! j # take j xs @ drop (Suc j) xs"

lemma map_to_front: "j < length xs \<Longrightarrow> map f (to_front j xs) = to_front j (map f xs)"
  by (simp add: to_front_def take_map drop_map)

lemma set_to_front: "j < length xs \<Longrightarrow> set (to_front j xs) = set xs"
  by (metis Un_insert_right id_take_nth_drop list.simps(15) set_append to_front_def)

lemma distinct_to_front:
  assumes "j < length xs"
  shows "distinct (to_front j xs) = distinct xs"
proof -
  have "distinct (as @ x # bs) = distinct (x # as @ bs)" for as bs and x :: 'a by auto
  then show ?thesis unfolding to_front_def using id_take_nth_drop [OF assms] by metis
qed

lemma rc_rep_touch:
  assumes "rc_rep n used c s" "j < length used"
  shows "\<exists>l. lru_visit (used ! j) (rc_lru c) = Ok l \<and> lru_ok n (to_front j used @ [max 1 (rc_size c)..<n]) l"
proof -
  have "used @ [max 1 (rc_size c)..<n] = take j used @ used ! j # drop (Suc j) used @ [max 1 (rc_size c)..<n]"
    using arg_cong [OF id_take_nth_drop [OF assms(2)], of "\<lambda>xs. xs @ [max 1 (rc_size c)..<n]"] by simp
  then show ?thesis using lru_visit_spec rc_repD(4) [OF assms(1)] by (metis append_Cons append_assoc to_front_def)
qed

lemma rc_rep_find:
  assumes "rc_rep n used c s"
  shows "(\<exists>i e. i < n \<and> rc_cache c ! i = Some (k, e) \<and> rc_find k (rc_cache c) [0..<n] = Ok (Some (i, e))) \<or>
    k \<notin> fst ` set (spec_entries s) \<and> rc_find k (rc_cache c) [0..<n] = Ok None"
proof (cases "\<exists>i < n. \<exists>e. rc_cache c ! i = Some (k, e)")
  case True
  then obtain i e where i: "i < n" "rc_cache c ! i = Some (k, e)" by blast
  have "rc_cache c ! j \<noteq> Some (k, e')" if j: "j < n" "j \<noteq> i" for j e'
  proof
    assume j': "rc_cache c ! j = Some (k, e')"
    have kv: "kv_at c i = Some (k, ce_data e)" "kv_at c j = Some (k, ce_data e')" using i(2) j' by (simp_all add: kv_at_def)
    obtain a b where "a < length (spec_entries s)" "i = (0 # used) ! a" "spec_entries s ! a = (k, ce_data e)"
        "b < length (spec_entries s)" "j = (0 # used) ! b" "spec_entries s ! b = (k, ce_data e')"
      using rc_rep_lookup [OF assms i(1) kv(1)] rc_rep_lookup [OF assms j(1) kv(2)] by blast
    moreover have "a = b"
      using calculation nth_eq_iff_index_eq [OF rc_repD(8) [OF assms], of a b] by simp
    ultimately show False using j(2) by simp
  qed
  then show ?thesis using rc_find_Some [of "[0..<n]" "rc_cache c" i k e] i rc_repD(2) [OF assms] by auto
next
  case False
  then have "rc_find k (rc_cache c) [0..<n] = Ok None" using rc_find_None [of "[0..<n]" "rc_cache c" k] rc_repD(2) [OF assms] by auto
  moreover have "k \<notin> fst ` set (spec_entries s)"
    using False rc_rep_entries [OF assms] by (auto simp: kv_at_def image_iff)
  ultimately show ?thesis by blast
qed

lemma kv_at_update [simp]:
  "kv_at (c\<lparr>rc_lru := l\<rparr>) = kv_at c" "kv_at (c\<lparr>rc_size := z\<rparr>) = kv_at c"
  "j < length (rc_cache c) \<Longrightarrow> kv_at (c\<lparr>rc_cache := (rc_cache c)[j := Some (k, e)]\<rparr>) i = (if i = j then Some (k, ce_data e) else kv_at c i)"
  by (auto simp: kv_at_def fun_eq_iff)

lemma spec_entries_conv: "spec_entries s = (case fst s of None \<Rightarrow> [] | Some x \<Rightarrow> [x]) @ snd s"
  by (cases s rule: spec_entries.cases) auto

text \<open>Storing an entry into a slot that is in use.\<close>

lemma rc_store_first:
  assumes "rc_rep n used c s" "0 < rc_size c" "k \<notin> fst ` set (snd s)" "length (ce_data e) = BLOCK_SIZE"
  shows "rc_rep n used (c\<lparr>rc_cache := (rc_cache c)[0 := Some (k, e)]\<rparr>) (Some (k, ce_data e), snd s)"
proof -
  note r = rc_repD [OF assms(1)] rc_rep_used [OF assms(1)]
  have "0 \<notin> set used" using r(11) by simp
  then have "map (kv_at (c\<lparr>rc_cache := (rc_cache c)[0 := Some (k, e)]\<rparr>)) used = map (kv_at c) used" using r(2,14) by (auto intro!: map_cong)
  then show ?thesis unfolding rc_rep_def using r assms(2-4) by (auto simp: spec_entries_conv)
qed

lemma rc_store_used:
  assumes "rc_rep n used c s" "j < length used" "k = fst (snd s ! j) \<or> k \<notin> fst ` set (spec_entries s)" "length (ce_data e) = BLOCK_SIZE"
  shows "rc_rep n used (c\<lparr>rc_cache := (rc_cache c)[used ! j := Some (k, e)]\<rparr>) (fst s, (snd s)[j := (k, ce_data e)])"
proof -
  note r = rc_repD [OF assms(1)] rc_rep_used [OF assms(1)]
  let ?c = "c\<lparr>rc_cache := (rc_cache c)[used ! j := Some (k, e)]\<rparr>"
  have u: "used ! j \<noteq> 0" "used ! j < n" "used ! j < rc_size c" using nth_mem [OF assms(2)] r(3,11) by auto
  have j: "j < length (snd s)" using assms(2) r(10,13) by simp
  have kv: "kv_at ?c i = (if i = used ! j then Some (k, ce_data e) else kv_at c i)" for i using u(2) r(2) by simp
  have "map (kv_at ?c) used = map Some ((snd s)[j := (k, ce_data e)])"
  proof (rule nth_equalityI)
    fix i assume i: "i < length (map (kv_at ?c) used)"
    then have "used ! i = used ! j \<longleftrightarrow> i = j" using assms(2) r(12) nth_eq_iff_index_eq by fastforce
    then show "map (kv_at ?c) used ! i = map Some ((snd s)[j := (k, ce_data e)]) ! i"
      using i rc_rep_nth [OF assms(1), of i] r(10,13) j by (auto simp: kv nth_list_update)
  qed (use r(10,13) in simp)
  moreover have "distinct (map fst (spec_entries (fst s, (snd s)[j := (k, ce_data e)])))"
  proof -
    have "set ((map fst (snd s))[j := k]) \<subseteq> insert k (fst ` set (snd s))"
      using set_update_subset_insert [of "map fst (snd s)" j k] by simp
    moreover have "distinct ((map fst (snd s))[j := k])"
      using r(8) assms(3) j by (intro distinct_list_update) (auto simp: spec_entries_conv nth_list_update split: option.splits)
    moreover have "fst x \<notin> insert k (fst ` set (snd s))" if "fst s = Some x" for x
      using that r(8) assms(3) nth_mem [OF j] by (auto simp: spec_entries_conv)
    ultimately show ?thesis by (auto simp: spec_entries_conv map_update split: option.splits)
  qed
  moreover have "\<forall>(_, d) \<in> set (spec_entries (fst s, (snd s)[j := (k, ce_data e)])). length d = BLOCK_SIZE"
    using r(9) assms(4) set_update_subset_insert [of "snd s" j "(k, ce_data e)"] by (auto simp: spec_entries_conv split: option.splits)
  moreover have "\<forall>i < n. kv_at ?c i = None \<longleftrightarrow> rc_size c \<le> i" using r(5) u(3) by (auto simp: kv)
  moreover have "kv_at ?c 0 = fst s" using u(1) r(6) by (simp add: kv)
  ultimately show ?thesis unfolding rc_rep_def using r by simp
qed

lemma rc_rep_move:
  assumes "rc_rep n used c s" "j < length used"
  shows "\<exists>l. lru_visit (used ! j) (rc_lru c) = Ok l \<and> rc_rep n (to_front j used) (c\<lparr>rc_lru := l\<rparr>) (fst s, to_front j (snd s))"
proof -
  note r = rc_repD [OF assms(1)] rc_rep_used [OF assms(1)]
  obtain l where l: "lru_visit (used ! j) (rc_lru c) = Ok l" "lru_ok n (to_front j used @ [max 1 (rc_size c)..<n]) l"
    using rc_rep_touch [OF assms] by blast
  have j: "j < length (snd s)" using assms(2) r(10,13) by simp
  have "map (kv_at c) (to_front j used) = map Some (to_front j (snd s))"
    using r(7) assms(2) j by (simp add: map_to_front)
  moreover have "set (spec_entries (fst s, to_front j (snd s))) = set (spec_entries s)"
    using set_to_front [OF j] by (simp add: spec_entries_conv)
  moreover have "distinct (map fst (spec_entries (fst s, to_front j (snd s))))"
    using r(8) distinct_to_front [of j "map fst (snd s)"] set_to_front [of j "map fst (snd s)"] j
    by (auto simp: spec_entries_conv map_to_front split: option.splits)
  ultimately show ?thesis using l r by (simp add: rc_rep_def)
qed

text \<open>Filling the next slot.\<close>

lemma rc_fill:
  assumes "rc_rep n used c s" "rc_size c < n" "k \<notin> fst ` set (spec_entries s)" "length (ce_data e) = BLOCK_SIZE"
  shows "\<exists>l used'. lru_visit (rc_size c) (rc_lru c) = Ok l \<and>
    rc_rep n used' (c\<lparr>rc_cache := (rc_cache c)[rc_size c := Some (k, e)], rc_lru := l, rc_size := rc_size c + 1\<rparr>)
      (case fst s of None \<Rightarrow> (Some (k, ce_data e), snd s) | Some x \<Rightarrow> (Some x, (k, ce_data e) # snd s))"
proof (cases "rc_size c")
  case 0
  note r = rc_repD [OF assms(1)] rc_rep_used [OF assms(1)]
  have s: "fst s = None" "snd s = []" "used = []" using r(5) [of 0] r(6,10,13,14) 0 by auto
  have "rc_rep n [] (c\<lparr>rc_cache := (rc_cache c)[0 := Some (k, e)], rc_lru := rc_lru c, rc_size := 1\<rparr>) (Some (k, ce_data e), [])"
    unfolding rc_rep_def using r assms(4) s 0 by auto
  then show ?thesis using s 0 by (auto simp: lru_visit_def)
next
  case (Suc z)
  note r = rc_repD [OF assms(1)] rc_rep_used [OF assms(1)]
  have "[max 1 (rc_size c)..<n] = rc_size c # [max 1 (rc_size c + 1)..<n]" using Suc assms(2) by (simp add: upt_rec)
  then obtain l where l: "lru_visit (rc_size c) (rc_lru c) = Ok l" "lru_ok n ((rc_size c # used) @ [max 1 (rc_size c + 1)..<n]) l"
    using lru_visit_spec [of n used "rc_size c" "[max 1 (rc_size c + 1)..<n]"] r(4) by auto
  obtain x where x: "fst s = Some x" using rc_rep_slots(3) [OF assms(1)] Suc by auto
  define c' where "c' = c\<lparr>rc_cache := (rc_cache c)[rc_size c := Some (k, e)], rc_lru := l, rc_size := rc_size c + 1\<rparr>"
  have kv: "kv_at c' i = (if i = rc_size c then Some (k, ce_data e) else kv_at c i)" for i
    using assms(2) r(2) by (simp add: kv_at_def c'_def)
  have "rc_size c \<notin> set used" using r(11) by simp
  then have "map (kv_at c') used = map (kv_at c) used" by (intro map_cong refl) (metis kv)
  then have "map (kv_at c') (rc_size c # used) = map Some ((k, ce_data e) # snd s)" using r(7) by (simp add: kv)
  moreover have "\<forall>i < n. kv_at c' i = None \<longleftrightarrow> rc_size c + 1 \<le> i" using r(5) by (auto simp: kv)
  moreover have "distinct (map fst (spec_entries (Some x, (k, ce_data e) # snd s)))" using r(8) assms(3) x by (simp add: spec_entries_conv)
  moreover have "\<forall>(_, d) \<in> set (spec_entries (Some x, (k, ce_data e) # snd s)). length d = BLOCK_SIZE"
    using r(9) assms(4) x by (simp add: spec_entries_conv)
  moreover have "rc_capacity c' = n" "length (rc_cache c') = n" "rc_size c' = rc_size c + 1" "rc_lru c' = l" using r(1,2) by (simp_all add: c'_def)
  moreover have "kv_at c' 0 = Some x" using r(6) x Suc by (simp add: kv)
  ultimately have "rc_rep n (rc_size c # used) c' (Some x, (k, ce_data e) # snd s)"
    unfolding rc_rep_def using assms(2) l(2) by (simp only: fst_conv snd_conv) simp
  then show ?thesis using l(1) x unfolding c'_def by auto
qed

section \<open>Runs\<close>

lemma map_of_entries:
  assumes "rc_rep n used c s"
  shows "map_of (spec_entries s) k = Some d \<longleftrightarrow> (k, d) \<in> set (spec_entries s)" "map_of (spec_entries s) k = None \<longleftrightarrow> k \<notin> fst ` set (spec_entries s)"
  using rc_repD(8) [OF assms] by (simp_all add: map_of_eq_None_iff)

text \<open>A hit is in slot 0 or in a used slot.\<close>

lemma rc_rep_hit:
  assumes "rc_rep n used c s" "i < n" "rc_cache c ! i = Some (k, e)"
  shows "i = 0 \<and> fst s = Some (k, ce_data e) \<and> k \<notin> fst ` set (snd s) \<or>
    (\<exists>j < length used. i = used ! j \<and> j < length (snd s) \<and> snd s ! j = (k, ce_data e) \<and>
      (case fst s of None \<Rightarrow> True | Some x \<Rightarrow> fst x \<noteq> k))"
proof -
  note r = rc_repD [OF assms(1)] rc_rep_used [OF assms(1)]
  obtain m where m: "m < length (spec_entries s)" "i = (0 # used) ! m" "spec_entries s ! m = (k, ce_data e)"
    using rc_rep_lookup [OF assms(1,2)] assms(3) by (auto simp: kv_at_def)
  have "0 < rc_size c" using assms(3) r(5) [OF assms(2)] by (auto simp: kv_at_def)
  then obtain x where x: "fst s = Some x" using rc_rep_slots(3) [OF assms(1)] by auto
  show ?thesis
  proof (cases m)
    case 0
    then show ?thesis using m x r(8) by (auto simp: spec_entries_conv)
  next
    case (Suc j)
    then have "j < length (snd s)" "snd s ! j = (k, ce_data e)" "i = used ! j" using m x by (auto simp: spec_entries_conv)
    moreover have "fst x \<noteq> k" using r(8) x nth_mem [OF calculation(1)] calculation(2) by (auto simp: spec_entries_conv image_iff)
    ultimately show ?thesis using x r(10,13) by auto
  qed
qed

lemma rc_get_spec:
  assumes "rc_rep n used c s" "length buf = BLOCK_SIZE"
  shows "\<exists>used' c'. rc_get k buf c = Ok (map_option (\<lambda>_. ()) (map_of (spec_entries s) k),
      case map_of (spec_entries s) k of None \<Rightarrow> buf | Some d \<Rightarrow> d, c') \<and> rc_rep n used' c' (spec_touch k s)"
proof -
  note r = rc_repD [OF assms(1)] rc_rep_used [OF assms(1)]
  have one: "buf_nblocks buf = 1" using assms(2) by (simp add: buf_nblocks_def)
  consider i e where "i < n" "rc_cache c ! i = Some (k, e)" "rc_find k (rc_cache c) [0..<n] = Ok (Some (i, e))"
    | "k \<notin> fst ` set (spec_entries s)" "rc_find k (rc_cache c) [0..<n] = Ok None"
    using rc_rep_find [OF assms(1)] by blast
  then show ?thesis
  proof cases
    case (1 i e)
    have mem: "(k, ce_data e) \<in> set (spec_entries s)" using rc_rep_entries [OF assms(1)] 1(1,2) by (auto simp: kv_at_def)
    then have d: "map_of (spec_entries s) k = Some (ce_data e)" "length (ce_data e) = BLOCK_SIZE"
      using map_of_entries(1) [OF assms(1)] r(9) by auto
    have get: "rc_get k buf c = rbind (lru_visit i (rc_lru c)) (\<lambda>l. Ok (Some (), ce_data e, c\<lparr>rc_lru := l\<rparr>))"
      using one 1(3) r(1) d(2) assms(2) by (simp add: rc_get_def copy_range_def)
    from rc_rep_hit [OF assms(1) 1(1,2)] show ?thesis
    proof (elim disjE conjE exE)
      assume "i = 0" "k \<notin> fst ` set (snd s)"
      then have "lru_visit i (rc_lru c) = Ok (rc_lru c)" "spec_touch k s = s"
        by (simp_all add: lru_visit_def spec_touch_def map_of_eq_None_iff [THEN iffD2])
      then show ?thesis using get d(1) assms(1) by auto
    next
      fix j assume j: "j < length used" "i = used ! j" "j < length (snd s)" "snd s ! j = (k, ce_data e)"
      have dist: "distinct (map fst (snd s))" using r(8) by (simp add: spec_entries_conv)
      have "spec_touch k s = (fst s, to_front j (snd s))"
        using j(3,4) dist filter_key_nth [OF dist j(3)] map_of_eq_Some_iff [OF dist] nth_mem [OF j(3)]
        by (auto simp: spec_touch_def to_front_def split: option.splits)
      then show ?thesis using rc_rep_move [OF assms(1) j(1)] get d(1) j(2) by auto
    qed
  next
    case 2
    then have n: "map_of (spec_entries s) k = None" using map_of_entries(2) [OF assms(1)] by simp
    then have "spec_touch k s = s" by (simp add: spec_touch_def spec_entries_conv split: option.splits)
    then show ?thesis using 2(2) one r(1) n assms(1) by (auto simp: rc_get_def)
  qed
qed

lemma entry_new_Ok: "length data = BLOCK_SIZE \<Longrightarrow> entry_new data now = Ok \<lparr>ce_data = data, ce_access_time = now\<rparr>"
  by (simp add: entry_new_def copy_range_def)

lemma rc_put_hit:
  assumes "rc_rep n used c s" "i < n" "rc_cache c ! i = Some (k, e0)" "length (ce_data e) = BLOCK_SIZE"
  shows "\<exists>l used'. lru_visit i (rc_lru c) = Ok l \<and>
    rc_rep n used' (c\<lparr>rc_cache := (rc_cache c)[i := Some (k, e)], rc_lru := l\<rparr>) (spec_put n k (ce_data e) s)"
  using rc_rep_hit [OF assms(1-3)]
proof (elim disjE conjE exE)
  assume i: "i = 0" "fst s = Some (k, ce_data e0)" "k \<notin> fst ` set (snd s)"
  then have "0 < rc_size c" using assms(2,3) rc_repD(5) [OF assms(1,2)] by (auto simp: kv_at_def)
  moreover have "spec_put n k (ce_data e) s = (Some (k, ce_data e), snd s)" using i(2) by (cases s) simp
  ultimately show ?thesis using rc_store_first [OF assms(1) _ i(3) assms(4)] i(1) by (auto simp: lru_visit_def)
next
  fix j assume j: "j < length used" "i = used ! j" "j < length (snd s)" "snd s ! j = (k, ce_data e0)"
    "case fst s of None \<Rightarrow> True | Some x \<Rightarrow> fst x \<noteq> k"
  note r = rc_repD [OF assms(1)] rc_rep_used [OF assms(1)]
  let ?c = "c\<lparr>rc_cache := (rc_cache c)[i := Some (k, e)]\<rparr>" and ?r = "(snd s)[j := (k, ce_data e)]"
  have "rc_rep n used ?c (fst s, ?r)" using rc_store_used [OF assms(1) j(1) _ assms(4), of k] j(2,4) by simp
  then obtain l where l: "lru_visit i (rc_lru c) = Ok l" "rc_rep n (to_front j used) (?c\<lparr>rc_lru := l\<rparr>) (fst s, to_front j ?r)"
    using rc_rep_move j(1,2) by fastforce
  obtain x where x: "fst s = Some x" using rc_rep_slots(3) [OF assms(1)] r(10) j(3) by fastforce
  have "to_front j ?r = (k, ce_data e) # filter (\<lambda>x. fst x \<noteq> k) (snd s)"
    using filter_key_nth [of "snd s" j] j(3,4) r(8) by (simp add: to_front_def spec_entries_conv)
  moreover have "length (to_front j ?r) \<le> n - 1" using j(3) r(3,10) by (auto simp: to_front_def)
  moreover have "n \<noteq> 1" using j(3) r(3,10) by auto
  ultimately have "spec_put n k (ce_data e) s = (fst s, to_front j ?r)" using x j(5) by (cases s; cases x) auto
  then show ?thesis using l by auto
qed

lemma rc_put_miss:
  assumes "rc_rep n used c s" "k \<notin> fst ` set (spec_entries s)" "length (ce_data e) = BLOCK_SIZE" "\<not> rc_size c < n"
  shows "\<exists>slot l used'. lru_victim (rc_lru c) = Ok slot \<and> slot < n \<and> lru_visit slot (rc_lru c) = Ok l \<and>
    rc_rep n used' (c\<lparr>rc_cache := (rc_cache c)[slot := Some (k, e)], rc_lru := l\<rparr>) (spec_put n k (ce_data e) s)"
proof -
  note r = rc_repD [OF assms(1)] rc_rep_used [OF assms(1)]
  have full: "rc_size c = n" using assms(4) r(3) by simp
  have v: "lru_victim (rc_lru c) = Ok (last (0 # used))" using lru_victim_spec [OF r(4)] full r(14) by simp
  obtain x where x: "fst s = Some x" using rc_rep_slots(3) [OF assms(1)] full r(14) by auto
  have x': "fst x \<noteq> k" "k \<notin> fst ` set (snd s)" using assms(2) x by (auto simp: spec_entries_conv)
  show ?thesis
  proof (cases "used = []")
    case True
    then have "n = 1" using r(13,14) full by simp
    then have "spec_put n k (ce_data e) s = (Some (k, ce_data e), snd s)" using x by (cases s; cases x) auto
    then show ?thesis using rc_store_first [OF assms(1) _ x'(2) assms(3)] True v full r(14) by (auto simp: lru_visit_def)
  next
    case False
    let ?j = "length used - 1" let ?v = "used ! ?j"
    have j: "?j < length used" "last (0 # used) = ?v" using False by (auto simp: last_conv_nth)
    have "?v < n" using nth_mem [OF j(1)] r(3,11) by simp
    let ?c = "c\<lparr>rc_cache := (rc_cache c)[?v := Some (k, e)]\<rparr>" and ?r = "(snd s)[?j := (k, ce_data e)]"
    have "rc_rep n used ?c (fst s, ?r)" using rc_store_used [OF assms(1) j(1) _ assms(3), of k] assms(2) by simp
    then obtain l where l: "lru_visit ?v (rc_lru c) = Ok l" "rc_rep n (to_front ?j used) (?c\<lparr>rc_lru := l\<rparr>) (fst s, to_front ?j ?r)"
      using rc_rep_move j(1) by fastforce
    have "filter (\<lambda>x. fst x \<noteq> k) (snd s) = snd s" using x'(2) by (auto simp: filter_id_conv)
    moreover have "to_front ?j ?r = take (n - 1) ((k, ce_data e) # snd s)"
      using False r(10,13) full by (cases "n - 1") (auto simp: to_front_def)
    moreover have "n \<noteq> 1" using False r(13) full by auto
    ultimately have "spec_put n k (ce_data e) s = (fst s, to_front ?j ?r)" using x x'(1) by (cases s; cases x) auto
    then show ?thesis using l v j(2) \<open>?v < n\<close> by auto
  qed
qed

lemma rc_put_spec:
  assumes "rc_rep n used c s" "length data = BLOCK_SIZE"
  shows "\<exists>used' c'. rc_put k data now c = Ok c' \<and> rc_rep n used' c' (spec_put n k data s)"
proof -
  note r = rc_repD [OF assms(1)] rc_rep_used [OF assms(1)]
  let ?e = "\<lparr>ce_data = data, ce_access_time = now\<rparr>"
  note e = entry_new_Ok [OF assms(2), of now]
  consider i e where "i < n" "rc_cache c ! i = Some (k, e)" "rc_find k (rc_cache c) [0..<n] = Ok (Some (i, e))"
    | "k \<notin> fst ` set (spec_entries s)" "rc_find k (rc_cache c) [0..<n] = Ok None"
    using rc_rep_find [OF assms(1)] by blast
  then show ?thesis
  proof cases
    case (1 i e')
    then show ?thesis using rc_put_hit [OF assms(1) 1(1,2), of ?e] assms(2) r(1,2) e by (auto simp: rc_put_def)
  next
    case miss: 2
    show ?thesis
    proof (cases "rc_size c < n")
      case True
      have "(case fst s of None \<Rightarrow> (Some (k, ce_data ?e), snd s) | Some x \<Rightarrow> (Some x, (k, ce_data ?e) # snd s)) = spec_put n k data s"
      proof (cases "fst s")
        case (Some x)
        then have "0 < rc_size c" using r(5) [of 0] r(6,14) by auto
        then have "n \<noteq> 1" "length (snd s) < n - 1" using True r(10) by auto
        moreover have "fst x \<noteq> k" "filter (\<lambda>x. fst x \<noteq> k) (snd s) = snd s"
          using miss(1) Some by (auto simp: spec_entries_conv filter_id_conv)
        ultimately show ?thesis using Some by (cases s; cases x) auto
      qed (cases s; simp)
      then obtain l used' where "lru_visit (rc_size c) (rc_lru c) = Ok l"
          "rc_rep n used' (c\<lparr>rc_cache := (rc_cache c)[rc_size c := Some (k, ?e)], rc_lru := l, rc_size := rc_size c + 1\<rparr>) (spec_put n k data s)"
        using rc_fill [OF assms(1) True miss(1), of ?e] assms(2) by auto
      then show ?thesis using assms(2) r(1,2) True e miss(2) by (auto simp: rc_put_def)
    next
      case False
      then show ?thesis using rc_put_miss [OF assms(1) miss(1) _ False, of ?e] assms(2) r(1,2) e miss(2) by (auto simp: rc_put_def)
    qed
  qed
qed

lemma clear_slots_spec:
  "set is \<subseteq> {0..<length cache} \<Longrightarrow> clear_slots is cache = Ok (map (\<lambda>i. if i \<in> set is then None else cache ! i) [0..<length cache])"
proof (induction "is" arbitrary: cache)
  case (Cons i "is")
  then show ?case by (auto simp: nth_list_update intro!: nth_equalityI)
qed (simp add: map_nth)

lemma rc_rep_fresh:
  assumes "0 < n" "lru_ok n [1..<n] l"
  shows "rc_rep n [] \<lparr>rc_cache = replicate n None, rc_lru = l, rc_capacity = n, rc_size = 0\<rparr> (None, [])"
  using assms by (simp add: rc_rep_def kv_at_def)

lemma rc_clear_spec:
  assumes "rc_rep n used c s"
  shows "\<exists>c'. rc_clear c = Ok c' \<and> rc_rep n [] c' (None, [])"
proof -
  note r = rc_repD [OF assms] rc_rep_used [OF assms]
  obtain l where l: "lru_new n = Ok l" "lru_ok n [1..<n] l" using lru_new_spec [OF r(14)] by blast
  have "clear_slots [0..<n] (rc_cache c) = Ok (replicate n None)"
    using clear_slots_spec [of "[0..<n]" "rc_cache c"] r(2) by (auto intro!: nth_equalityI)
  then have "rc_clear c = Ok \<lparr>rc_cache = replicate n None, rc_lru = l, rc_capacity = n, rc_size = 0\<rparr>"
    using r(1) l(1) by (simp add: rc_clear_def)
  then show ?thesis using rc_rep_fresh [OF r(14) l(2)] by auto
qed

lemma rc_contains_spec:
  assumes "rc_rep n used c s"
  shows "rc_contains k c = Ok (k \<in> fst ` set (spec_entries s))"
  using rc_rep_find [OF assms, of k] rc_rep_entries [OF assms, of k] rc_repD(1) [OF assms]
  by (force simp: rc_contains_def kv_at_def image_iff)

text \<open>Sequences of operations, with the results of the queries.\<close>

datatype rc_op = RcGet nat | RcContains nat | RcPut nat bytes nat | RcClear

datatype rc_out = RcData "bytes option" | RcHas bool

fun rc_exec :: "rc_op \<Rightarrow> rc_out list \<times> read_cache \<Rightarrow> (rc_out list \<times> read_cache) res" where
  "rc_exec (RcGet k) (outs, c) =
    rbind (rc_get k (replicate BLOCK_SIZE 0) c) (\<lambda>(hit, buf, c). Ok (outs @ [RcData (map_option (\<lambda>_. buf) hit)], c))"
| "rc_exec (RcContains k) (outs, c) = rbind (rc_contains k c) (\<lambda>b. Ok (outs @ [RcHas b], c))"
| "rc_exec (RcPut k d now) (outs, c) = rbind (rc_put k d now c) (\<lambda>c. Ok (outs, c))"
| "rc_exec RcClear (outs, c) = rbind (rc_clear c) (\<lambda>c. Ok (outs, c))"

fun rc_spec :: "nat \<Rightarrow> rc_op \<Rightarrow> rc_out list \<times> lru_spec \<Rightarrow> rc_out list \<times> lru_spec" where
  "rc_spec n (RcGet k) (outs, s) = (outs @ [RcData (map_of (spec_entries s) k)], spec_touch k s)"
| "rc_spec n (RcContains k) (outs, s) = (outs @ [RcHas (k \<in> fst ` set (spec_entries s))], s)"
| "rc_spec n (RcPut k d now) (outs, s) = (outs, spec_put n k d s)"
| "rc_spec n RcClear (outs, s) = (outs, (None, []))"

fun rc_op_ok :: "rc_op \<Rightarrow> bool" where
  "rc_op_ok (RcPut k d now) \<longleftrightarrow> length d = BLOCK_SIZE"
| "rc_op_ok _ \<longleftrightarrow> True"

lemma rc_exec_sim:
  assumes "rc_rep n used c s" "rc_op_ok op"
  shows "\<exists>used' c'. rc_exec op (outs, c) = Ok (fst (rc_spec n op (outs, s)), c') \<and> rc_rep n used' c' (snd (rc_spec n op (outs, s)))"
proof (cases op)
  case (RcGet k)
  obtain used' c' where "rc_get k (replicate BLOCK_SIZE 0) c = Ok (map_option (\<lambda>_. ()) (map_of (spec_entries s) k),
      case map_of (spec_entries s) k of None \<Rightarrow> replicate BLOCK_SIZE 0 | Some d \<Rightarrow> d, c')" "rc_rep n used' c' (spec_touch k s)"
    using rc_get_spec [OF assms(1), of "replicate BLOCK_SIZE 0" k] by auto
  then show ?thesis using RcGet by (auto split: option.splits)
next
  case (RcContains k)
  then show ?thesis using rc_contains_spec [OF assms(1)] assms(1) by auto
next
  case (RcPut k d now)
  then show ?thesis using rc_put_spec [OF assms(1), of d k now] assms(2) by auto
next
  case RcClear
  then show ?thesis using rc_clear_spec [OF assms(1)] by auto
qed

lemma rc_run_sim:
  assumes "rc_rep n used c s" "list_all rc_op_ok ops"
  shows "\<exists>used' c'. rfold rc_exec ops (outs, c) = Ok (fst (fold (rc_spec n) ops (outs, s)), c') \<and>
    rc_rep n used' c' (snd (fold (rc_spec n) ops (outs, s)))"
  using assms
proof (induction ops arbitrary: outs c s used)
  case (Cons op ops)
  obtain used' c' where s: "rc_exec op (outs, c) = Ok (fst (rc_spec n op (outs, s)), c')" "rc_rep n used' c' (snd (rc_spec n op (outs, s)))"
    using rc_exec_sim [OF Cons.prems(1), of op outs] Cons.prems(2) by auto
  then show ?case using Cons.IH [OF s(2), of "fst (rc_spec n op (outs, s))"] Cons.prems(2) by simp
qed auto

text \<open>C16: The read cache of capacity \<open>n\<close> gives, for every sequence of queries, puts and clears, the answers of the reference cache,
  which keeps the block cached first and of the others the \<open>n - 1\<close> most recently used ones (with capacity one, the last block put).
  No operation panics, and a hit returns the bytes of the last put of that address.\<close>

theorem read_cache_lru:
  assumes "0 < n" "list_all rc_op_ok ops"
  shows "\<exists>c c'. rc_new n = Ok c \<and> rfold rc_exec ops ([], c) = Ok (fst (fold (rc_spec n) ops ([], (None, []))), c') \<and>
    rc_size c' = length (spec_entries (snd (fold (rc_spec n) ops ([], (None, []))))) \<and> rc_size c' \<le> n"
proof -
  let ?s = "fold (rc_spec n) ops ([], (None, []))"
  obtain l where l: "lru_new n = Ok l" "lru_ok n [1..<n] l" using lru_new_spec [OF assms(1)] by blast
  let ?c = "\<lparr>rc_cache = replicate n None, rc_lru = l, rc_capacity = n, rc_size = 0\<rparr>"
  obtain used' c' where c': "rfold rc_exec ops ([], ?c) = Ok (fst ?s, c')" "rc_rep n used' c' (snd ?s)"
    using rc_run_sim [OF rc_rep_fresh [OF assms(1) l(2)] assms(2), of "[]"] by blast
  have "rc_size c' = length (spec_entries (snd ?s))"
    using rc_rep_slots(1) [OF c'(2), THEN map_eq_imp_length_eq] rc_rep_used(3) [OF c'(2)] rc_repD(5,6,10) [OF c'(2)] assms(1)
    by (cases "rc_size c' = 0") (auto simp: spec_entries_conv split: option.splits)
  then show ?thesis using c'(1) rc_repD(3) [OF c'(2)] l(1) by (auto simp: rc_new_def)
qed

text \<open>C38: The replacement is not least-recently-used for slot 0: in a cache of capacity at least two, the block that is cached first is
  never evicted, whatever other blocks are put or read afterwards and however long it is not used.\<close>

theorem read_cache_pins_first:
  assumes "2 \<le> n" "length d = BLOCK_SIZE" "list_all rc_op_ok ops" "RcClear \<notin> set ops"
  shows "\<exists>c outs c'. rc_new n = Ok c \<and> rfold rc_exec (RcPut k d now # ops) ([], c) = Ok (outs, c') \<and> rc_contains k c' = Ok True"
proof -
  have step: "fst (snd (rc_spec n op (outs, s))) \<noteq> None \<and> fst (the (fst (snd (rc_spec n op (outs, s))))) = k"
    if "fst s \<noteq> None \<and> fst (the (fst s)) = k" "op \<noteq> RcClear" for op outs s
    using that assms(1) by (cases op; cases s rule: spec_entries.cases) (auto simp: spec_touch_def)
  have keep: "fst (snd (fold (rc_spec n) xs (outs, s))) \<noteq> None \<and> fst (the (fst (snd (fold (rc_spec n) xs (outs, s))))) = k"
    if "fst s \<noteq> None \<and> fst (the (fst s)) = k" "RcClear \<notin> set xs" for xs outs s
    using that
  proof (induction xs arbitrary: outs s)
    case (Cons op xs)
    then show ?case using step [of s op outs] by (cases "rc_spec n op (outs, s)") auto
  qed simp
  let ?s = "fold (rc_spec n) (RcPut k d now # ops) ([], (None, []))"
  obtain l where l: "lru_new n = Ok l" "lru_ok n [1..<n] l" using lru_new_spec [of n] assms(1) by auto
  let ?c = "\<lparr>rc_cache = replicate n None, rc_lru = l, rc_capacity = n, rc_size = 0\<rparr>"
  obtain used' c' where c': "rfold rc_exec (RcPut k d now # ops) ([], ?c) = Ok (fst ?s, c')" "rc_rep n used' c' (snd ?s)"
    using rc_run_sim [OF rc_rep_fresh [OF _ l(2)], of "RcPut k d now # ops" "[]"] assms(1-3) by auto
  have "k \<in> fst ` set (spec_entries (snd ?s))" using keep [of "(Some (k, d), [])" ops "[]"] assms(4) by (auto simp: spec_entries_conv)
  then show ?thesis using c' l(1) rc_contains_spec [OF c'(2), of k] by (auto simp: rc_new_def)
qed

theorem read_cache_lru_witness:
  "\<exists>c c'. rc_new 3 = Ok c \<and> rfold rc_exec [RcPut 7 (replicate BLOCK_SIZE 1) 0, RcPut 8 (replicate BLOCK_SIZE 2) 1, RcPut 9 (replicate BLOCK_SIZE 3) 2,
      RcGet 8, RcPut 5 (replicate BLOCK_SIZE 4) 3, RcGet 9, RcGet 8] ([], c) =
    Ok ([RcData (Some (replicate BLOCK_SIZE 2)), RcData None, RcData (Some (replicate BLOCK_SIZE 2))], c') \<and> rc_size c' = 3"
  using read_cache_lru [of 3 "[RcPut 7 (replicate BLOCK_SIZE 1) 0, RcPut 8 (replicate BLOCK_SIZE 2) 1, RcPut 9 (replicate BLOCK_SIZE 3) 2,
      RcGet 8, RcPut 5 (replicate BLOCK_SIZE 4) 3, RcGet 9, RcGet 8]"]
  by (auto simp: spec_touch_def eval_nat_numeral simp del: rfold.simps)

theorem read_cache_pins_first_witness:
  "\<exists>c outs c'. rc_new 2 = Ok c \<and> rfold rc_exec [RcPut 7 (replicate BLOCK_SIZE 1) 0, RcPut 8 (replicate BLOCK_SIZE 2) 1, RcPut 9 (replicate BLOCK_SIZE 3) 2]
    ([], c) = Ok (outs, c') \<and> rc_contains 7 c' = Ok True"
  using read_cache_pins_first [of 2 "replicate BLOCK_SIZE 1" "[RcPut 8 (replicate BLOCK_SIZE 2) 1, RcPut 9 (replicate BLOCK_SIZE 3) 2]" 7 0] by simp

end
