(* ===== verification/Data_Buf.thy ===== *)
theory Data_Buf
  imports Block_Buf
begin

text \<open>
  The write buffer of the disk (\<open>core/src/layers/5-disk/data_buf.rs\<close>).

  \<open>data_buf\<close> is the struct, its \<open>BTreeMap\<close> an ordered association list from logical block addresses to blocks. A put
  waits while the buffer is full; \<open>db_put\<close> is \<open>Ok None\<close> as long as it waits, and only \<open>db_clear\<close> ends the wait.

  The property: the buffer is a map from addresses to the last block put since the last clear, and its full flag, which
  decides whether a put waits, agrees with the number of buffered blocks.
\<close>

record data_buf =
  db_buf :: "(nat \<times> bytes) list"
  db_cap :: nat
  db_is_full :: bool

definition db_new :: "nat \<Rightarrow> data_buf" where
  "db_new cap = \<lparr>db_buf = [], db_cap = cap, db_is_full = False\<rparr>"

definition data_block_from_buf :: "bytes \<Rightarrow> bytes res" where
  "data_block_from_buf buf =
    rbind (rassert (buf_nblocks buf = 1)) (\<lambda>_. if length buf = BLOCK_SIZE then Ok buf else Panics)"

definition db_get :: "nat \<Rightarrow> bytes \<Rightarrow> data_buf \<Rightarrow> (unit option \<times> bytes) res" where
  "db_get key buf b =
    rbind (rassert (buf_nblocks buf = 1)) (\<lambda>_.
      case map_of (db_buf b) key of
        Some block \<Rightarrow> rbind (copy_range buf 0 (length buf) block) (\<lambda>buf. Ok (Some (), buf))
      | None \<Rightarrow> Ok (None, buf))"

definition db_get_range :: "nat \<Rightarrow> nat \<Rightarrow> data_buf \<Rightarrow> (nat \<times> bytes) list" where
  "db_get_range start end b = filter (\<lambda>(k, _). start \<le> k \<and> k \<le> end) (db_buf b)"

definition db_nblocks :: "data_buf \<Rightarrow> nat" where
  "db_nblocks b = length (db_buf b)"

definition db_at_capacity :: "data_buf \<Rightarrow> bool" where
  "db_at_capacity b \<longleftrightarrow> db_cap b \<le> db_nblocks b"

definition db_is_empty :: "data_buf \<Rightarrow> bool" where
  "db_is_empty b \<longleftrightarrow> db_nblocks b = 0"

definition db_put :: "nat \<Rightarrow> bytes \<Rightarrow> data_buf \<Rightarrow> (bool \<times> data_buf) option res" where
  "db_put key buf b =
    rbind (rassert (buf_nblocks buf = 1)) (\<lambda>_.
      if db_is_full b then Ok None
      else
        rbind (data_block_from_buf buf) (\<lambda>block.
          let data_buf = btree_insert key block (db_buf b); is_full = (db_cap b \<le> length data_buf) in
          Ok (Some (is_full, b\<lparr>db_buf := data_buf, db_is_full := is_full\<rparr>))))"

definition db_clear :: "data_buf \<Rightarrow> data_buf" where
  "db_clear b = b\<lparr>db_buf := [], db_is_full := False\<rparr>"

definition db_all_blocks :: "data_buf \<Rightarrow> (nat \<times> bytes) list" where
  "db_all_blocks b = map (\<lambda>(k, v). (k, v)) (db_buf b)"

section \<open>The buffer is a map\<close>

definition db_inv :: "data_buf \<Rightarrow> bool" where
  "db_inv b \<longleftrightarrow> btree_ok (db_buf b) \<and> (\<forall>(_, v) \<in> set (db_buf b). length v = BLOCK_SIZE) \<and> 0 < db_cap b \<and>
    db_nblocks b \<le> db_cap b \<and> (db_is_full b \<longleftrightarrow> db_at_capacity b)"

definition db_map :: "data_buf \<Rightarrow> nat \<Rightarrow> bytes option" where
  "db_map b = map_of (db_buf b)"

lemma db_new_inv: "0 < cap \<Longrightarrow> db_inv (db_new cap) \<and> db_map (db_new cap) = Map.empty"
  by (simp add: db_inv_def db_new_def db_nblocks_def db_at_capacity_def db_map_def)

lemma db_put_spec:
  assumes "db_inv b" "length buf = BLOCK_SIZE"
  shows "if db_at_capacity b then db_put k buf b = Ok None
    else \<exists>b'. db_put k buf b = Ok (Some (db_at_capacity b', b')) \<and> db_inv b' \<and> db_map b' = (db_map b)(k \<mapsto> buf) \<and> db_cap b' = db_cap b"
proof -
  have one: "buf_nblocks buf = 1" using assms(2) by (simp add: buf_nblocks_def)
  have b: "btree_ok (db_buf b)" "\<forall>(_, v) \<in> set (db_buf b). length v = BLOCK_SIZE" "0 < db_cap b" "length (db_buf b) \<le> db_cap b"
      "db_is_full b \<longleftrightarrow> db_cap b \<le> length (db_buf b)"
    using assms(1) by (auto simp: db_inv_def db_at_capacity_def db_nblocks_def)
  let ?m = "btree_insert k buf (db_buf b)"
  let ?b = "b\<lparr>db_buf := ?m, db_is_full := db_cap b \<le> length ?m\<rparr>"
  show ?thesis
  proof (cases "db_at_capacity b")
    case True
    then show ?thesis using one b(5) by (simp add: db_put_def db_at_capacity_def db_nblocks_def)
  next
    case False
    then have "length ?m \<le> db_cap b" using length_btree_insert [OF b(1), of k buf] by (simp add: db_at_capacity_def db_nblocks_def)
    then have "db_inv ?b"
      using b set_btree_insert [OF b(1), of k buf] assms(2) by (auto simp: db_inv_def db_at_capacity_def db_nblocks_def)
    moreover have "db_put k buf b = Ok (Some (db_at_capacity ?b, ?b))"
      using False one b(5) assms(2) by (simp add: db_put_def data_block_from_buf_def db_at_capacity_def db_nblocks_def Let_def)
    moreover have "db_map ?b = (db_map b)(k \<mapsto> buf)" using b(1) by (simp add: db_map_def)
    ultimately show ?thesis using False by auto
  qed
qed

lemma db_get_spec:
  assumes "db_inv b" "length buf = BLOCK_SIZE"
  shows "db_get k buf b = Ok (case db_map b k of None \<Rightarrow> (None, buf) | Some v \<Rightarrow> (Some (), v))"
proof -
  have "length v = BLOCK_SIZE" if "db_map b k = Some v" for v
    using that assms(1) by (auto simp: db_inv_def db_map_def dest!: map_of_SomeD)
  then show ?thesis using assms(2) by (auto simp: db_get_def buf_nblocks_def db_map_def copy_range_def split: option.splits)
qed

lemma db_get_range_spec:
  assumes "db_inv b"
  shows "set (db_get_range lo hi b) = {(k, v). lo \<le> k \<and> k \<le> hi \<and> db_map b k = Some v}" "distinct (map fst (db_get_range lo hi b))"
proof -
  have d: "distinct (map fst (db_buf b))" using assms btree_ok_distinct by (auto simp: db_inv_def)
  show "distinct (map fst (db_get_range lo hi b))" using d by (simp add: db_get_range_def distinct_map_filter)
  show "set (db_get_range lo hi b) = {(k, v). lo \<le> k \<and> k \<le> hi \<and> db_map b k = Some v}"
    using d by (auto simp: db_get_range_def db_map_def)
qed

section \<open>Properties\<close>

datatype db_op = DbPut nat bytes | DbClear

text \<open>An operation that waits leaves the buffer as it is.\<close>

fun db_exec :: "db_op \<Rightarrow> data_buf \<Rightarrow> data_buf res" where
  "db_exec (DbPut k v) b = rbind (db_put k v b) (\<lambda>r. Ok (case r of None \<Rightarrow> b | Some (_, b') \<Rightarrow> b'))"
| "db_exec DbClear b = Ok (db_clear b)"

fun db_spec :: "nat \<Rightarrow> db_op \<Rightarrow> (nat \<rightharpoonup> bytes) \<Rightarrow> nat \<rightharpoonup> bytes" where
  "db_spec cap (DbPut k v) m = (if cap \<le> card (dom m) then m else m(k \<mapsto> v))"
| "db_spec cap DbClear m = Map.empty"

fun db_op_ok :: "db_op \<Rightarrow> bool" where
  "db_op_ok (DbPut k v) \<longleftrightarrow> length v = BLOCK_SIZE"
| "db_op_ok DbClear \<longleftrightarrow> True"

lemma db_nblocks_card: "db_inv b \<Longrightarrow> card (dom (db_map b)) = db_nblocks b"
  using btree_ok_distinct [of "db_buf b"] distinct_card [of "map fst (db_buf b)"]
  by (auto simp: db_inv_def db_map_def db_nblocks_def dom_map_of_conv_image_fst)

lemma db_exec_sim:
  assumes "db_inv b" "db_op_ok op"
  shows "\<exists>b'. db_exec op b = Ok b' \<and> db_inv b' \<and> db_cap b' = db_cap b \<and> db_map b' = db_spec (db_cap b) op (db_map b)"
proof (cases op)
  case (DbPut k v)
  then show ?thesis using db_put_spec [OF assms(1), of v k] assms db_nblocks_card [OF assms(1)]
    by (cases "db_at_capacity b") (auto simp: db_at_capacity_def)
next
  case DbClear
  then show ?thesis using assms(1)
    by (auto simp: db_clear_def db_inv_def db_nblocks_def db_at_capacity_def db_map_def)
qed

lemma db_run_sim:
  assumes "db_inv b" "list_all db_op_ok ops"
  shows "\<exists>b'. rfold db_exec ops b = Ok b' \<and> db_inv b' \<and> db_cap b' = db_cap b \<and> db_map b' = fold (db_spec (db_cap b)) ops (db_map b)"
  using assms
proof (induction ops arbitrary: b)
  case (Cons op ops)
  obtain b' where "db_exec op b = Ok b'" "db_inv b'" "db_cap b' = db_cap b" "db_map b' = db_spec (db_cap b) op (db_map b)"
    using db_exec_sim [OF Cons.prems(1), of op] Cons.prems(2) by auto
  then show ?case using Cons.IH [of b'] Cons.prems(2) by simp
qed auto

text \<open>C17: After any sequence of puts and clears, a get on the write buffer copies out the last block put for that address since the last
  clear and reports a miss otherwise, a range query returns exactly the buffered addresses of the range, each once, and a put waits exactly
  when the buffer has reached its capacity, which it never exceeds.\<close>

theorem data_buf_is_map:
  assumes "0 < cap" "list_all db_op_ok ops" "length buf = BLOCK_SIZE"
  shows "\<exists>b. rfold db_exec ops (db_new cap) = Ok b \<and>
    (\<forall>k. db_get k buf b = Ok (case fold (db_spec cap) ops Map.empty k of None \<Rightarrow> (None, buf) | Some v \<Rightarrow> (Some (), v))) \<and>
    (\<forall>lo hi. set (db_get_range lo hi b) = {(k, v). lo \<le> k \<and> k \<le> hi \<and> fold (db_spec cap) ops Map.empty k = Some v} \<and>
      distinct (map fst (db_get_range lo hi b))) \<and>
    db_nblocks b \<le> cap \<and> (\<forall>k. db_put k buf b = Ok None \<longleftrightarrow> db_nblocks b = cap)"
proof -
  obtain b where b: "rfold db_exec ops (db_new cap) = Ok b" "db_inv b" "db_cap b = cap" "db_map b = fold (db_spec cap) ops Map.empty"
    using db_run_sim [of "db_new cap" ops] db_new_inv [OF assms(1)] assms(2) by (auto simp: db_new_def)
  have "db_nblocks b \<le> cap" "db_at_capacity b \<longleftrightarrow> db_nblocks b = cap" using b(2,3) by (auto simp: db_inv_def db_at_capacity_def)
  moreover have "db_put k buf b = Ok None \<longleftrightarrow> db_at_capacity b" for k using db_put_spec [OF b(2) assms(3), of k] by (auto split: if_splits)
  ultimately show ?thesis
    using b(1) db_get_spec [OF b(2) assms(3)] db_get_range_spec [OF b(2)] unfolding b(4) by auto
qed

theorem data_buf_is_map_witness:
  "\<exists>b. rfold db_exec [DbPut 4 (replicate BLOCK_SIZE 1), DbPut 2 (replicate BLOCK_SIZE 2), DbPut 3 (replicate BLOCK_SIZE 3)] (db_new 2) = Ok b \<and>
    db_get 4 (replicate BLOCK_SIZE 0) b = Ok (Some (), replicate BLOCK_SIZE 1) \<and> db_get 3 (replicate BLOCK_SIZE 0) b = Ok (None, replicate BLOCK_SIZE 0)"
proof -
  let ?ops = "[DbPut 4 (replicate BLOCK_SIZE 1), DbPut 2 (replicate BLOCK_SIZE 2), DbPut 3 (replicate BLOCK_SIZE 3)]"
  have ev: "fold (db_spec 2) ?ops Map.empty 4 = Some (replicate BLOCK_SIZE 1)" "fold (db_spec 2) ?ops Map.empty 3 = None" by simp_all
  show ?thesis using data_buf_is_map [of 2 ?ops "replicate BLOCK_SIZE 0"] ev [symmetric] by (auto simp del: fold.simps rfold.simps simp: ev)
qed

end
