(* ===== verification/Crypto_Log.thy ===== *)
theory Crypto_Log
  imports Block_Log Aead_Model
begin

text \<open>
  The encrypted log (\<open>core/src/layers/1-crypto/crypto_log.rs\<close>): data blocks on an untrusted block log, protected by a
  Merkle hash tree (MHT) of 102-way nodes that is itself encrypted and appended to the same log.

  Every node is a block of the log. An entry of a node holds the position, the key and the MAC of a child, so that the
  metadata of the root vouches for the whole tree. Appended blocks first stay in a queue of plain blocks, then in a
  queue of entries of blocks already written; a flush builds the tree over them, reusing the complete nodes of the
  previous tree.

  The log and the node cache are dictionaries (\<open>block_log_ops\<close>, \<open>node_cache_ops\<close>) with their contracts as locales. The
  cipher and the page allocator are parameters as in the other theories. Random keys and vectors are arguments,
  indexed by the position of the block they are drawn for. The padding bytes of \<open>repr(C)\<close> structs and
  \<open>MhtNodeEntry::new_uninit()\<close> have unspecified contents and are arguments, too. A node read from the cache is
  \<open>downcast\<close> from \<open>dyn Any\<close>: \<open>CachedOther\<close> stands for a value of another type. The state after an error is not described.
\<close>

section \<open>Nodes and their bytes\<close>

type_synonym pbid = block_id

record mht_node_entry =
  en_pos :: pbid
  en_key :: aead_key
  en_mac :: aead_mac

record mht_node_header =
  hd_height :: nat
  hd_num_data_nodes :: nat
  hd_num_valid_entries :: nat

record mht_node =
  nd_header :: mht_node_header
  nd_entries :: "mht_node_entry list"

record root_mht_meta =
  rm_pos :: pbid
  rm_mac :: aead_mac
  rm_iv :: aead_iv

definition MHT_HEADER_SIZE :: nat where "MHT_HEADER_SIZE = 12"
definition MHT_ENTRY_SIZE :: nat where "MHT_ENTRY_SIZE = 40"
definition MHT_NBRANCHES :: nat where "MHT_NBRANCHES = (BLOCK_SIZE - MHT_HEADER_SIZE) div MHT_ENTRY_SIZE"

text \<open>
  The layout of \<open>MhtNode\<close>: the header has its fields at 0, 4 and 8, the entries start at the next multiple of 8, which
  is 16. \<open>pad i\<close> is the byte at the padding position \<open>i\<close>.
\<close>

definition entry_bytes :: "mht_node_entry \<Rightarrow> bytes" where
  "entry_bytes e = le_bytes 8 (en_pos e) @ en_key e @ en_mac e"

definition entry_from_bytes :: "bytes \<Rightarrow> mht_node_entry" where
  "entry_from_bytes bs = \<lparr>en_pos = le_nat (take 8 bs), en_key = take 16 (drop 8 bs), en_mac = take 16 (drop 24 bs)\<rparr>"

definition node_bytes :: "(nat \<Rightarrow> byte) \<Rightarrow> mht_node \<Rightarrow> bytes" where
  "node_bytes pad nd =
    le_bytes 1 (hd_height (nd_header nd)) @ map pad [1..<4] @ le_bytes 4 (hd_num_data_nodes (nd_header nd)) @
    le_bytes 2 (hd_num_valid_entries (nd_header nd)) @ map pad [10..<16] @ concat (map entry_bytes (nd_entries nd))"

definition node_from_bytes :: "bytes \<Rightarrow> mht_node" where
  "node_from_bytes bs = \<lparr>
    nd_header = \<lparr>hd_height = le_nat (take 1 bs), hd_num_data_nodes = le_nat (take 4 (drop 4 bs)),
      hd_num_valid_entries = le_nat (take 2 (drop 8 bs))\<rparr>,
    nd_entries = map (\<lambda>i. entry_from_bytes (take MHT_ENTRY_SIZE (drop (16 + i * MHT_ENTRY_SIZE) bs))) [0..<MHT_NBRANCHES]\<rparr>"

section \<open>The parameters\<close>

datatype cache_value = CachedMht mht_node | CachedOther

record 'c node_cache_ops =
  nc_get :: "'c \<Rightarrow> pbid \<Rightarrow> (cache_value option \<times> 'c) res"
  nc_put :: "'c \<Rightarrow> pbid \<Rightarrow> cache_value \<Rightarrow> (cache_value option \<times> 'c) res"

record ('l, 'c) mht_env =
  me_pages :: page_alloc
  me_ssl :: openssl
  me_log :: "'l block_log_ops"
  me_cache :: "'c node_cache_ops"
  me_pad :: "nat \<Rightarrow> byte"
  me_uninit :: mht_node_entry

record mht_random =
  rk_key :: "pbid \<Rightarrow> aead_key"
  rk_iv :: "pbid \<Rightarrow> aead_iv"

definition iv_zeroed :: aead_iv where
  "iv_zeroed = replicate AES_GCM_IV_SIZE 0"

section \<open>Nodes\<close>

definition is_lowest_level :: "nat \<Rightarrow> bool" where
  "is_lowest_level height \<longleftrightarrow> height = 1"

text \<open>\<open>pow\<close> of \<open>usize\<close>, with the overflow check.\<close>

definition max_num_data_nodes :: "nat \<Rightarrow> nat res" where
  "max_num_data_nodes height = rbind (rassert (MHT_NBRANCHES ^ height < 2 ^ 64)) (\<lambda>_. Ok (MHT_NBRANCHES ^ height))"

definition node_height :: "mht_node \<Rightarrow> nat" where
  "node_height nd = hd_height (nd_header nd)"

definition num_data_nodes :: "mht_node \<Rightarrow> nat" where
  "num_data_nodes nd = hd_num_data_nodes (nd_header nd)"

definition num_valid_entries :: "mht_node \<Rightarrow> nat" where
  "num_valid_entries nd = hd_num_valid_entries (nd_header nd)"

definition is_incomplete :: "mht_node \<Rightarrow> bool res" where
  "is_incomplete nd = rbind (max_num_data_nodes (node_height nd)) (\<lambda>m. Ok (num_data_nodes nd \<noteq> m))"

definition num_complete_children :: "mht_node \<Rightarrow> nat res" where
  "num_complete_children nd =
    (if num_data_nodes nd mod MHT_NBRANCHES = 0 \<or> is_lowest_level (node_height nd) then Ok (num_valid_entries nd)
     else checked_sub (num_valid_entries nd) 1)"

section \<open>The storage\<close>

record ('l, 'c) mht_storage =
  ms_block_log :: 'l
  ms_node_cache :: 'c

text \<open>The scratch buffers of \<open>CryptBuf\<close> are overwritten at every use; allocating them may panic.\<close>

definition crypt_buf_new :: "('l, 'c) mht_env \<Rightarrow> unit res" where
  "crypt_buf_new env =
    (case buf_alloc (me_pages env) 1 of
       Inl _ \<Rightarrow> Panics
     | Inr _ \<Rightarrow> (case buf_alloc (me_pages env) 1 of Inl _ \<Rightarrow> Panics | Inr _ \<Rightarrow> Ok ()))"

definition mht_storage_new :: "('l, 'c) mht_env \<Rightarrow> 'l \<Rightarrow> 'c \<Rightarrow> ('l, 'c) mht_storage res" where
  "mht_storage_new env log cache =
    rbind (crypt_buf_new env) (\<lambda>_. Ok \<lparr>ms_block_log = log, ms_node_cache = cache\<rparr>)"

definition mht_storage_flush :: "('l, 'c) mht_env \<Rightarrow> ('l, 'c) mht_storage \<Rightarrow> ('l, 'c) mht_storage res" where
  "mht_storage_flush env st = rbind (bl_flush (me_log env) (ms_block_log st)) (\<lambda>log. Ok (st\<lparr>ms_block_log := log\<rparr>))"

definition cache_put :: "('l, 'c) mht_env \<Rightarrow> pbid \<Rightarrow> mht_node \<Rightarrow> ('l, 'c) mht_storage \<Rightarrow> ('l, 'c) mht_storage res" where
  "cache_put env pos nd st =
    rbind (nc_put (me_cache env) (ms_node_cache st) pos (CachedMht nd)) (\<lambda>(_, cache). Ok (st\<lparr>ms_node_cache := cache\<rparr>))"

definition read_mht_node ::
    "('l, 'c) mht_env \<Rightarrow> pbid \<Rightarrow> aead_key \<Rightarrow> aead_mac \<Rightarrow> aead_iv \<Rightarrow> ('l, 'c) mht_storage \<Rightarrow>
      (mht_node \<times> ('l, 'c) mht_storage) res" where
  "read_mht_node env pos key mac iv st =
    rbind (nc_get (me_cache env) (ms_node_cache st) pos) (\<lambda>(v, cache).
    let st = st\<lparr>ms_node_cache := cache\<rparr> in
    case v of
      Some (CachedMht nd) \<Rightarrow> Ok (nd, st)
    | Some CachedOther \<Rightarrow> Fail InvalidArgs
    | None \<Rightarrow>
        rbind (bl_read (me_log env) (ms_block_log st) pos 1) (\<lambda>cipher.
        rbind (aead_decrypt (me_ssl env) cipher key iv [] mac BLOCK_SIZE) (\<lambda>plain.
        let nd = node_from_bytes plain in
        rbind (cache_put env pos nd st) (\<lambda>st. Ok (nd, st)))))"

definition root_mht_node ::
    "('l, 'c) mht_env \<Rightarrow> aead_key \<Rightarrow> root_mht_meta \<Rightarrow> ('l, 'c) mht_storage \<Rightarrow> (mht_node \<times> ('l, 'c) mht_storage) res" where
  "root_mht_node env root_key meta st = read_mht_node env (rm_pos meta) root_key (rm_mac meta) (rm_iv meta) st"

definition read_data_node :: "('l, 'c) mht_env \<Rightarrow> mht_node_entry \<Rightarrow> ('l, 'c) mht_storage \<Rightarrow> bytes res" where
  "read_data_node env e st =
    rbind (bl_read (me_log env) (ms_block_log st) (en_pos e) 1) (\<lambda>cipher.
      aead_decrypt (me_ssl env) cipher (en_key e) iv_zeroed [] (en_mac e) BLOCK_SIZE)"

definition append_root_mht_node ::
    "('l, 'c) mht_env \<Rightarrow> mht_random \<Rightarrow> aead_key \<Rightarrow> mht_node \<Rightarrow> ('l, 'c) mht_storage \<Rightarrow>
      (root_mht_meta \<times> ('l, 'c) mht_storage) res" where
  "append_root_mht_node env rnd root_key nd st =
    (let iv = rk_iv rnd (bl_nblocks (me_log env) (ms_block_log st)) in
     rbind (aead_encrypt (me_ssl env) (node_bytes (me_pad env) nd) root_key iv [] BLOCK_SIZE) (\<lambda>(cipher, mac).
     rbind (bl_append (me_log env) (ms_block_log st) cipher) (\<lambda>(pos, log).
     rbind (cache_put env pos nd (st\<lparr>ms_block_log := log\<rparr>)) (\<lambda>st.
       Ok (\<lparr>rm_pos = pos, rm_mac = mac, rm_iv = iv\<rparr>, st)))))"

text \<open>
  The body of the loops of \<open>append_mht_nodes\<close> and \<open>append_data_nodes\<close>: the \<open>i\<close>-th block is encrypted with a fresh key
  into the \<open>i\<close>-th block of the buffer.
\<close>

definition seal_block ::
    "('l, 'c) mht_env \<Rightarrow> mht_random \<Rightarrow> nat \<Rightarrow> bytes \<Rightarrow> mht_node_entry list \<times> bytes \<times> pbid \<Rightarrow>
      (mht_node_entry list \<times> bytes \<times> pbid) res" where
  "seal_block env rnd i plain = (\<lambda>(node_entries, cipher_buf, pos).
    rbind (slice_range cipher_buf (i * BLOCK_SIZE) ((i + 1) * BLOCK_SIZE)) (\<lambda>cipher.
    rbind (aead_encrypt (me_ssl env) plain (rk_key rnd pos) iv_zeroed [] (length cipher)) (\<lambda>(cipher, mac).
    rbind (copy_range cipher_buf (i * BLOCK_SIZE) ((i + 1) * BLOCK_SIZE) cipher) (\<lambda>cipher_buf.
      Ok (node_entries @ [\<lparr>en_pos = pos, en_key = rk_key rnd pos, en_mac = mac\<rparr>], cipher_buf, pos + 1)))))"

definition append_mht_nodes ::
    "('l, 'c) mht_env \<Rightarrow> mht_random \<Rightarrow> mht_node list \<Rightarrow> ('l, 'c) mht_storage \<Rightarrow>
      (mht_node_entry list \<times> ('l, 'c) mht_storage) res" where
  "append_mht_nodes env rnd nodes st =
    rbind (buf_alloc (me_pages env) (length nodes)) (\<lambda>cipher_buf.
    let start_pos = bl_nblocks (me_log env) (ms_block_log st) in
    rbind (rfold (\<lambda>(i, nd) (acc, st).
        rbind (seal_block env rnd i (node_bytes (me_pad env) nd) acc) (\<lambda>acc'.
        rbind (cache_put env (snd (snd acc)) nd st) (\<lambda>st. Ok (acc', st))))
      (enumerate 0 nodes) (([], cipher_buf, start_pos), st)) (\<lambda>((node_entries, cipher_buf, _), st).
    rbind (bl_append (me_log env) (ms_block_log st) cipher_buf) (\<lambda>(append_pos, log).
    rbind (rassert (start_pos = append_pos)) (\<lambda>_.
      Ok (node_entries, st\<lparr>ms_block_log := log\<rparr>)))))"

definition append_data_nodes ::
    "('l, 'c) mht_env \<Rightarrow> mht_random \<Rightarrow> bytes list \<Rightarrow> ('l, 'c) mht_storage \<Rightarrow>
      (mht_node_entry list \<times> ('l, 'c) mht_storage) res" where
  "append_data_nodes env rnd nodes st =
    (if nodes = [] then Ok ([], st)
     else
       rbind (buf_alloc (me_pages env) (length nodes)) (\<lambda>cipher_buf.
       let start_pos = bl_nblocks (me_log env) (ms_block_log st) in
       rbind (rfold (\<lambda>(i, plain) acc. seal_block env rnd i plain acc) (enumerate 0 nodes)
         ([], cipher_buf, start_pos)) (\<lambda>(node_entries, cipher_buf, _).
       rbind (bl_append (me_log env) (ms_block_log st) cipher_buf) (\<lambda>(append_pos, log).
       rbind (rassert (start_pos = append_pos)) (\<lambda>_.
         Ok (node_entries, st\<lparr>ms_block_log := log\<rparr>))))))"

section \<open>The previous build\<close>

record previous_build =
  pb_root :: mht_node
  pb_height :: nat
  pb_internal_incomplete_nodes :: "(nat \<times> mht_node) list"

text \<open>The node that the last valid entry names; a failed read is unwrapped.\<close>

definition read_last_child ::
    "('l, 'c) mht_env \<Rightarrow> mht_node \<Rightarrow> ('l, 'c) mht_storage \<Rightarrow> (mht_node \<times> ('l, 'c) mht_storage) res" where
  "read_last_child env nd st =
    rbind (checked_sub (num_valid_entries nd) 1) (\<lambda>i.
    rbind (nth_res (nd_entries nd) i) (\<lambda>e.
      case read_mht_node env (en_pos e) (en_key e) (en_mac e) iv_zeroed st of Inl _ \<Rightarrow> Panics | Inr r \<Rightarrow> Ok r))"

text \<open>
  The loop of \<open>collect_incomplete_nodes\<close>. A height is a \<open>u8\<close> and goes down along the path in every tree that was built,
  so 256 rounds are enough; the theorems about builds show that the loop ends before.
\<close>

fun collect_loop ::
    "('l, 'c) mht_env \<Rightarrow> nat \<Rightarrow> mht_node \<Rightarrow> (nat \<times> mht_node) list \<Rightarrow> ('l, 'c) mht_storage \<Rightarrow>
      ((nat \<times> mht_node) list \<times> ('l, 'c) mht_storage) res" where
  "collect_loop env 0 lookup_node nodes st = Panics"
| "collect_loop env (Suc fuel) lookup_node nodes st =
    rbind (is_incomplete lookup_node) (\<lambda>incomplete.
    if \<not> incomplete then Ok (nodes, st)
    else
      let height = node_height lookup_node; nodes = AList.update height lookup_node nodes in
      if is_lowest_level height then Ok (nodes, st)
      else
        rbind (read_last_child env lookup_node st) (\<lambda>(lookup_node, st). collect_loop env fuel lookup_node nodes st))"

definition collect_incomplete_nodes ::
    "('l, 'c) mht_env \<Rightarrow> mht_node \<Rightarrow> ('l, 'c) mht_storage \<Rightarrow> ((nat \<times> mht_node) list \<times> ('l, 'c) mht_storage) res" where
  "collect_incomplete_nodes env root st =
    rbind (is_incomplete root) (\<lambda>incomplete.
    if \<not> incomplete \<or> is_lowest_level (node_height root) then Ok ([], st)
    else rbind (read_last_child env root st) (\<lambda>(lookup_node, st). collect_loop env 256 lookup_node [] st))"

definition previous_build_new ::
    "('l, 'c) mht_env \<Rightarrow> mht_node \<Rightarrow> ('l, 'c) mht_storage \<Rightarrow> (previous_build \<times> ('l, 'c) mht_storage) res" where
  "previous_build_new env root st =
    rbind (collect_incomplete_nodes env root st) (\<lambda>(nodes, st).
      Ok (\<lparr>pb_root = root, pb_height = node_height root, pb_internal_incomplete_nodes = nodes\<rparr>, st))"

definition target_node :: "previous_build \<Rightarrow> nat \<Rightarrow> mht_node option" where
  "target_node pre target_height =
    (if target_height = pb_height pre then Some (pb_root pre)
     else map_of (pb_internal_incomplete_nodes pre) target_height)"

section \<open>Building a level\<close>

record level_builder =
  lb_level_entries :: "mht_node_entry list"
  lb_total_data_nodes :: nat
  lb_height :: nat
  lb_previous_incomplete_node :: "mht_node option"

definition build_last_node :: "('l, 'c) mht_env \<Rightarrow> level_builder \<Rightarrow> mht_node_entry list \<Rightarrow> mht_node res" where
  "build_last_node env b entries =
    rbind (max_num_data_nodes (lb_height b)) (\<lambda>max_data_nodes.
    let incomplete_nodes = lb_total_data_nodes b mod max_data_nodes;
        num_data_nodes = (if incomplete_nodes = 0 then max_data_nodes else incomplete_nodes);
        num_valid_entries = length entries in
      Ok \<lparr>nd_header = \<lparr>hd_height = lb_height b, hd_num_data_nodes = num_data_nodes mod 2 ^ 32,
             hd_num_valid_entries = num_valid_entries mod 2 ^ 16\<rparr>,
           nd_entries = map (\<lambda>i. if i < num_valid_entries then entries ! i else me_uninit env) [0..<MHT_NBRANCHES]\<rparr>)"

definition build_full_node :: "level_builder \<Rightarrow> mht_node_entry list \<Rightarrow> mht_node res" where
  "build_full_node b entries_per_node =
    rbind (max_num_data_nodes (lb_height b)) (\<lambda>max_data_nodes.
    rbind (rmap (nth_res entries_per_node) [0..<MHT_NBRANCHES]) (\<lambda>entries.
      Ok \<lparr>nd_header = \<lparr>hd_height = lb_height b, hd_num_data_nodes = max_data_nodes mod 2 ^ 32,
             hd_num_valid_entries = MHT_NBRANCHES mod 2 ^ 16\<rparr>,
           nd_entries = entries\<rparr>))"

text \<open>The loop leaves at the last piece, which is the piece number \<open>num_build - 1\<close>.\<close>

definition level_build :: "('l, 'c) mht_env \<Rightarrow> level_builder \<Rightarrow> mht_node list res" where
  "level_build env b =
    rbind (case lb_previous_incomplete_node b of
        Some pre_node \<Rightarrow>
          rbind (num_complete_children pre_node) (\<lambda>n. Ok (take n (nd_entries pre_node) @ lb_level_entries b))
      | None \<Rightarrow> Ok (lb_level_entries b)) (\<lambda>all_level_entries.
    rbind (align_up (length all_level_entries) MHT_NBRANCHES) (\<lambda>aligned.
    let num_build = aligned div MHT_NBRANCHES in
      rmap (\<lambda>(nth, entries_per_node).
          if nth = num_build - 1 then build_last_node env b entries_per_node else build_full_node b entries_per_node)
        (enumerate 0 (chunks_of MHT_NBRANCHES all_level_entries))))"

section \<open>Building the tree\<close>

text \<open>\<open>ilog\<close> of \<open>usize\<close>; of zero it panics.\<close>

function ilog :: "nat \<Rightarrow> nat \<Rightarrow> nat" where
  "ilog base n = (if base < 2 \<or> n < base then 0 else Suc (ilog base (n div base)))"
  by pat_completeness auto
termination
  by (relation "measure snd") auto

declare ilog.simps [simp del]

definition calc_target_height :: "nat \<Rightarrow> nat res" where
  "calc_target_height num_data_node_entries =
    rbind (rassert (0 < num_data_node_entries)) (\<lambda>_.
    let target_height = ilog MHT_NBRANCHES num_data_node_entries in
      Ok (if MHT_NBRANCHES ^ target_height < num_data_node_entries \<or> target_height = 0
          then target_height + 1 else target_height))"

text \<open>A height is a \<open>u8\<close>, so the increment of \<open>curr_height\<close> is checked.\<close>

function build_hierarchy ::
    "('l, 'c) mht_env \<Rightarrow> mht_random \<Rightarrow> previous_build option \<Rightarrow> mht_node_entry list \<Rightarrow> nat \<Rightarrow> nat \<Rightarrow> nat \<Rightarrow>
      ('l, 'c) mht_storage \<Rightarrow> (mht_node \<times> ('l, 'c) mht_storage) res" where
  "build_hierarchy env rnd pre level_entries total_data_nodes curr_height target_height st =
    rbind (level_build env \<lparr>lb_level_entries = level_entries, lb_total_data_nodes = total_data_nodes,
      lb_height = curr_height,
      lb_previous_incomplete_node = (case pre of None \<Rightarrow> None | Some pre \<Rightarrow> target_node pre curr_height)\<rparr>) (\<lambda>new_mht_nodes.
    if curr_height = target_height then
      rbind (rassert (length new_mht_nodes = 1)) (\<lambda>_. Ok (last new_mht_nodes, st))
    else
      rbind (append_mht_nodes env rnd new_mht_nodes st) (\<lambda>(next_level_entries, st).
      if curr_height + 1 < 256
      then build_hierarchy env rnd pre next_level_entries total_data_nodes (curr_height + 1) target_height st
      else Panics))"
  by pat_completeness auto
termination
  by (relation "measure (\<lambda>(env, rnd, pre, level_entries, n, curr_height, target_height, st). 256 - curr_height)") auto

declare build_hierarchy.simps [simp del]

definition tree_build ::
    "('l, 'c) mht_env \<Rightarrow> mht_random \<Rightarrow> mht_node option \<Rightarrow> mht_node_entry list \<Rightarrow> ('l, 'c) mht_storage \<Rightarrow>
      (mht_node \<times> ('l, 'c) mht_storage) res" where
  "tree_build env rnd previous_built_root data_node_entries st =
    rbind (case previous_built_root of
        None \<Rightarrow> Ok (None, st)
      | Some root \<Rightarrow> rbind (previous_build_new env root st) (\<lambda>(pre, st). Ok (Some pre, st))) (\<lambda>(pre, st).
    let total_data_nodes = length data_node_entries + (case pre of None \<Rightarrow> 0 | Some pre \<Rightarrow> num_data_nodes (pb_root pre)) in
    rbind (calc_target_height total_data_nodes) (\<lambda>target_height.
      build_hierarchy env rnd pre data_node_entries total_data_nodes 1 target_height st))"

section \<open>The buffer of appended data\<close>

record append_data_buf =
  ab_node_queue :: "bytes list"
  ab_node_queue_cap :: nat
  ab_entry_queue :: "mht_node_entry list"
  ab_entry_queue_cap :: nat
  ab_start_pos :: nat

definition MAX_ENTRY_QUEUE_CAP :: nat where "MAX_ENTRY_QUEUE_CAP = MHT_NBRANCHES ^ 3"
definition APPEND_BUF_CAPACITY :: nat where "APPEND_BUF_CAPACITY = 2048"

definition calc_queue_cap :: "nat \<Rightarrow> nat \<Rightarrow> (nat \<times> nat) res" where
  "calc_queue_cap capacity append_pos =
    (let node_queue_cap = capacity * 1 div 2 in
     rbind (checked_sub MAX_ENTRY_QUEUE_CAP append_pos) (\<lambda>max_cap.
     let remain_cap = (capacity - node_queue_cap) * BLOCK_SIZE div MHT_ENTRY_SIZE in
       Ok (node_queue_cap, min max_cap remain_cap)))"

definition append_buf_new :: "nat \<Rightarrow> nat \<Rightarrow> append_data_buf res" where
  "append_buf_new capacity start_pos =
    rbind (calc_queue_cap capacity start_pos) (\<lambda>(node_queue_cap, entry_queue_cap).
      Ok \<lparr>ab_node_queue = [], ab_node_queue_cap = node_queue_cap, ab_entry_queue = [],
           ab_entry_queue_cap = entry_queue_cap, ab_start_pos = start_pos\<rparr>)"

definition num_append :: "append_data_buf \<Rightarrow> nat" where
  "num_append b = length (ab_node_queue b) + length (ab_entry_queue b)"

definition append_buf_is_full :: "append_data_buf \<Rightarrow> bool" where
  "append_buf_is_full b \<longleftrightarrow> ab_entry_queue_cap b \<le> length (ab_entry_queue b)"

definition flush_node_queue ::
    "('l, 'c) mht_env \<Rightarrow> mht_random \<Rightarrow> append_data_buf \<Rightarrow> ('l, 'c) mht_storage \<Rightarrow>
      (append_data_buf \<times> ('l, 'c) mht_storage) res" where
  "flush_node_queue env rnd b st =
    rbind (append_data_nodes env rnd (ab_node_queue b) st) (\<lambda>(new_node_entries, st).
      Ok (b\<lparr>ab_entry_queue := ab_entry_queue b @ new_node_entries, ab_node_queue := []\<rparr>, st))"

definition append_buf_append ::
    "('l, 'c) mht_env \<Rightarrow> mht_random \<Rightarrow> bytes list \<Rightarrow> append_data_buf \<Rightarrow> ('l, 'c) mht_storage \<Rightarrow>
      (append_data_buf \<times> ('l, 'c) mht_storage) res" where
  "append_buf_append env rnd nodes b st =
    (if append_buf_is_full b then Fail OutOfMemory
     else
       let b = b\<lparr>ab_node_queue := ab_node_queue b @ nodes\<rparr> in
       if ab_node_queue_cap b \<le> length (ab_node_queue b) then flush_node_queue env rnd b st else Ok (b, st))"

definition append_buf_flush ::
    "('l, 'c) mht_env \<Rightarrow> mht_random \<Rightarrow> append_data_buf \<Rightarrow> ('l, 'c) mht_storage \<Rightarrow>
      (mht_node_entry list \<times> append_data_buf \<times> ('l, 'c) mht_storage) res" where
  "append_buf_flush env rnd b st =
    rbind (flush_node_queue env rnd b st) (\<lambda>(b, st).
    let all_cached_entries = ab_entry_queue b in
      Ok (all_cached_entries,
          b\<lparr>ab_entry_queue := [], ab_start_pos := ab_start_pos b + length all_cached_entries\<rparr>, st))"

section \<open>Searching\<close>

record search_ctx =
  sc_pos :: nat
  sc_data_buf :: bytes
  sc_offset :: nat
  sc_num :: nat
  sc_is_completed :: bool

definition search_ctx_new :: "nat \<Rightarrow> bytes \<Rightarrow> search_ctx" where
  "search_ctx_new pos data_buf =
    \<lparr>sc_pos = pos, sc_data_buf = data_buf, sc_offset = 0, sc_num = buf_nblocks data_buf, sc_is_completed = False\<rparr>"

text \<open>Writing a block to \<open>node_buf(offset)\<close>.\<close>

definition node_buf_fill :: "nat \<Rightarrow> bytes \<Rightarrow> search_ctx \<Rightarrow> search_ctx res" where
  "node_buf_fill offset block ctx =
    rbind (copy_range (sc_data_buf ctx) (offset * BLOCK_SIZE) ((offset + 1) * BLOCK_SIZE) block) (\<lambda>buf.
      Ok (ctx\<lparr>sc_data_buf := buf\<rparr>))"

text \<open>
  \<open>search_data_nodes\<close>: the loop over the entry queue counts \<open>end_nth\<close> down and \<open>offset\<close> up and sets \<open>start_nth\<close> to zero;
  what it takes is fixed before the loop.
\<close>

definition search_data_nodes ::
    "('l, 'c) mht_env \<Rightarrow> append_data_buf \<Rightarrow> ('l, 'c) mht_storage \<Rightarrow> search_ctx \<Rightarrow> search_ctx res" where
  "search_data_nodes env b st ctx =
    (let start_pos = ab_start_pos b; pos = sc_pos ctx; num = sc_num ctx in
     if pos + num \<le> start_pos then Ok ctx
     else
       let (start_nth, end_nth, offset, ctx) =
         (if start_pos \<le> pos then (pos - start_pos, pos - start_pos + num, 0, ctx)
          else let end = pos + num - start_pos in (0, end, num - end, ctx\<lparr>sc_num := num - end\<rparr>)) in
       rbind (rassert (end_nth \<le> num_append b)) (\<lambda>_.
       rbind (rfold (\<lambda>entry (ctx, start_nth, end_nth, offset).
           rbind (read_data_node env entry st) (\<lambda>block.
           rbind (node_buf_fill offset block ctx) (\<lambda>ctx.
           rbind (checked_sub end_nth 1) (\<lambda>end_nth. Ok (ctx, 0, end_nth, offset + 1)))))
         (take (end_nth - start_nth) (drop start_nth (ab_entry_queue b)))
         (ctx, start_nth, end_nth, offset)) (\<lambda>(ctx, start_nth, end_nth, offset).
       rbind (checked_sub end_nth start_nth) (\<lambda>n.
       rbind (rfold (\<lambda>block (ctx, offset). rbind (node_buf_fill offset block ctx) (\<lambda>ctx. Ok (ctx, offset + 1)))
         (take n (drop start_nth (ab_node_queue b))) (ctx, offset)) (\<lambda>(ctx, _).
         Ok (if start_pos \<le> pos then ctx\<lparr>sc_is_completed := True\<rparr> else ctx))))))"

text \<open>Reading the nodes of the next level.\<close>

fun read_mht_nodes ::
    "('l, 'c) mht_env \<Rightarrow> mht_node_entry list \<Rightarrow> ('l, 'c) mht_storage \<Rightarrow> (mht_node list \<times> ('l, 'c) mht_storage) res" where
  "read_mht_nodes env [] st = Ok ([], st)"
| "read_mht_nodes env (e # es) st =
    rbind (read_mht_node env (en_pos e) (en_key e) (en_mac e) iv_zeroed st) (\<lambda>(nd, st).
    rbind (read_mht_nodes env es st) (\<lambda>(nds, st). Ok (nd # nds, st)))"

text \<open>The recursion is on \<open>curr_height\<close>; at zero, \<open>curr_height - 1\<close> underflows.\<close>

fun search_hierarchy ::
    "('l, 'c) mht_env \<Rightarrow> mht_node list \<Rightarrow> nat \<Rightarrow> search_ctx \<Rightarrow> ('l, 'c) mht_storage \<Rightarrow>
      (search_ctx \<times> ('l, 'c) mht_storage) res" where
  "search_hierarchy env level_targets 0 ctx st = Panics"
| "search_hierarchy env level_targets (Suc h) ctx st =
    rbind (rassert (level_targets \<noteq> [] \<and> Suc h = node_height (hd level_targets))) (\<lambda>_.
    rbind (max_num_data_nodes h) (\<lambda>next_level_max.
    let skipped = sc_pos ctx div next_level_max;
        pos = sc_pos ctx - skipped * next_level_max;
        num = sc_num ctx;
        ctx = ctx\<lparr>sc_pos := pos\<rparr> in
    rbind (align_up (num + pos) next_level_max) (\<lambda>aligned.
    let needed = aligned div next_level_max;
        target_entries = take needed (drop skipped (concat (map nd_entries level_targets))) in
    if is_lowest_level (Suc h) then
      rbind (rassert (num = needed)) (\<lambda>_.
      rbind (rfold (\<lambda>entry ctx.
          rbind (read_data_node env entry st) (\<lambda>block.
          rbind (node_buf_fill (sc_offset ctx) block ctx) (\<lambda>ctx. Ok (ctx\<lparr>sc_offset := sc_offset ctx + 1\<rparr>))))
        target_entries ctx) (\<lambda>ctx.
        Ok (ctx\<lparr>sc_is_completed := True\<rparr>, st)))
    else
      rbind (read_mht_nodes env target_entries st) (\<lambda>(next_level_targets, st).
        search_hierarchy env next_level_targets h ctx st))))"

section \<open>The tree and the log\<close>

record ('l, 'c) mht =
  mh_root :: "(root_mht_meta \<times> mht_node) option"
  mh_root_key :: aead_key
  mh_data_buf :: append_data_buf
  mh_storage :: "('l, 'c) mht_storage"

definition mht_new :: "('l, 'c) mht_env \<Rightarrow> 'l \<Rightarrow> aead_key \<Rightarrow> 'c \<Rightarrow> ('l, 'c) mht res" where
  "mht_new env log root_key cache =
    rbind (mht_storage_new env log cache) (\<lambda>st.
    rbind (append_buf_new APPEND_BUF_CAPACITY 0) (\<lambda>b.
      Ok \<lparr>mh_root = None, mh_root_key = root_key, mh_data_buf = b, mh_storage = st\<rparr>))"

definition mht_open ::
    "('l, 'c) mht_env \<Rightarrow> 'l \<Rightarrow> aead_key \<Rightarrow> root_mht_meta \<Rightarrow> 'c \<Rightarrow> ('l, 'c) mht res" where
  "mht_open env log root_key root_meta cache =
    rbind (mht_storage_new env log cache) (\<lambda>st.
    rbind (root_mht_node env root_key root_meta st) (\<lambda>(root_node, st).
    rbind (append_buf_new APPEND_BUF_CAPACITY (num_data_nodes root_node)) (\<lambda>b.
      Ok \<lparr>mh_root = Some (root_meta, root_node), mh_root_key = root_key, mh_data_buf = b, mh_storage = st\<rparr>)))"

definition total_data_nodes :: "('l, 'c) mht \<Rightarrow> nat" where
  "total_data_nodes m = num_append (mh_data_buf m) +
    (case mh_root m of None \<Rightarrow> 0 | Some (_, root_node) \<Rightarrow> num_data_nodes root_node)"

definition mht_search ::
    "('l, 'c) mht_env \<Rightarrow> search_ctx \<Rightarrow> ('l, 'c) mht \<Rightarrow> (search_ctx \<times> ('l, 'c) mht) res" where
  "mht_search env ctx m =
    rbind (ok_or NotFound (map_option snd (mh_root m))) (\<lambda>root_node.
    if total_data_nodes m < sc_pos ctx + sc_num ctx then Fail InvalidArgs
    else
      rbind (search_data_nodes env (mh_data_buf m) (mh_storage m) ctx) (\<lambda>ctx.
      if sc_is_completed ctx then Ok (ctx, m)
      else
        rbind (search_hierarchy env [root_node] (node_height root_node) ctx (mh_storage m)) (\<lambda>(ctx, st).
          Ok (ctx, m\<lparr>mh_storage := st\<rparr>))))"

definition do_build ::
    "('l, 'c) mht_env \<Rightarrow> mht_random \<Rightarrow> mht_node_entry list \<Rightarrow> ('l, 'c) mht \<Rightarrow> ('l, 'c) mht res" where
  "do_build env rnd data_node_entries m =
    rbind (tree_build env rnd (map_option snd (mh_root m)) data_node_entries (mh_storage m)) (\<lambda>(new_root_node, st).
    rbind (append_root_mht_node env rnd (mh_root_key m) new_root_node st) (\<lambda>(root_meta, st).
      Ok (m\<lparr>mh_root := Some (root_meta, new_root_node), mh_storage := st\<rparr>)))"

definition mht_flush :: "('l, 'c) mht_env \<Rightarrow> mht_random \<Rightarrow> ('l, 'c) mht \<Rightarrow> ('l, 'c) mht res" where
  "mht_flush env rnd m =
    rbind (append_buf_flush env rnd (mh_data_buf m) (mh_storage m)) (\<lambda>(data_node_entries, b, st).
      do_build env rnd data_node_entries (m\<lparr>mh_data_buf := b, mh_storage := st\<rparr>))"

definition mht_append_data_nodes ::
    "('l, 'c) mht_env \<Rightarrow> mht_random \<Rightarrow> bytes list \<Rightarrow> ('l, 'c) mht \<Rightarrow> ('l, 'c) mht res" where
  "mht_append_data_nodes env rnd data_nodes m =
    rbind (append_buf_append env rnd data_nodes (mh_data_buf m) (mh_storage m)) (\<lambda>(b, st).
    let m = m\<lparr>mh_data_buf := b, mh_storage := st\<rparr> in
    if append_buf_is_full b then mht_flush env rnd m else Ok m)"

text \<open>\<open>CryptoLog\<close> is the tree behind a lock.\<close>

type_synonym ('l, 'c) crypto_log = "('l, 'c) mht"

definition crypto_log_new :: "('l, 'c) mht_env \<Rightarrow> 'l \<Rightarrow> aead_key \<Rightarrow> 'c \<Rightarrow> ('l, 'c) crypto_log res" where
  "crypto_log_new env log root_key node_cache = mht_new env log root_key node_cache"

definition crypto_log_open ::
    "('l, 'c) mht_env \<Rightarrow> 'l \<Rightarrow> aead_key \<Rightarrow> root_mht_meta \<Rightarrow> 'c \<Rightarrow> ('l, 'c) crypto_log res" where
  "crypto_log_open env log root_key root_meta node_cache = mht_open env log root_key root_meta node_cache"

definition crypto_log_root_meta :: "('l, 'c) crypto_log \<Rightarrow> root_mht_meta option" where
  "crypto_log_root_meta cl = map_option fst (mh_root cl)"

definition crypto_log_nblocks :: "('l, 'c) crypto_log \<Rightarrow> nat" where
  "crypto_log_nblocks cl = total_data_nodes cl"

definition crypto_log_read ::
    "('l, 'c) mht_env \<Rightarrow> nat \<Rightarrow> bytes \<Rightarrow> ('l, 'c) crypto_log \<Rightarrow> (bytes \<times> ('l, 'c) crypto_log) res" where
  "crypto_log_read env pos buf cl =
    rbind (mht_search env (search_ctx_new pos buf) cl) (\<lambda>(ctx, cl).
    rbind (rassert (sc_is_completed ctx)) (\<lambda>_. Ok (sc_data_buf ctx, cl)))"

definition crypto_log_append ::
    "('l, 'c) mht_env \<Rightarrow> mht_random \<Rightarrow> bytes \<Rightarrow> ('l, 'c) crypto_log \<Rightarrow> ('l, 'c) crypto_log res" where
  "crypto_log_append env rnd buf cl =
    rbind (buf_iter_collect (buf_iter_new buf)) (\<lambda>data_nodes. mht_append_data_nodes env rnd data_nodes cl)"

definition crypto_log_flush :: "('l, 'c) mht_env \<Rightarrow> mht_random \<Rightarrow> ('l, 'c) crypto_log \<Rightarrow> ('l, 'c) crypto_log res" where
  "crypto_log_flush env rnd cl = mht_flush env rnd cl"

end
