(* ===== verification/Mht_Proofs.thy ===== *)
theory Mht_Proofs
  imports Crypto_Log
begin

text \<open>
  The Merkle hash tree of the crypto log: the bytes of a node, the contracts of the log and of the node cache, what a tree
  covers, and that building a tree over an old one and new entries covers the old and the new blocks.

  \<open>covers\<close> is the meaning of an entry: the block at its position decrypts to a node of the right shape whose entries cover
  the pieces of the data. A build goes up level by level. At each level it has entries for the last pieces only; the
  lemma \<open>level_entries\<close> shows that the entries kept from the incomplete node of the previous tree are those of the pieces
  before. The condition \<open>rebuild_ok\<close> is where the count of complete children in the code is right.
\<close>

section \<open>The bytes of a node\<close>

lemma MHT_NBRANCHES_eq: "MHT_NBRANCHES = 102"
  by (simp add: MHT_NBRANCHES_def BLOCK_SIZE_def MHT_HEADER_SIZE_def MHT_ENTRY_SIZE_def)

lemma MHT_NBRANCHES_pos [simp]: "0 < MHT_NBRANCHES" "MHT_NBRANCHES \<noteq> 0" "1 < MHT_NBRANCHES" "Suc 0 < MHT_NBRANCHES" "Suc 0 \<le> MHT_NBRANCHES"
  by (simp_all add: MHT_NBRANCHES_eq)

definition valid_entry :: "mht_node_entry \<Rightarrow> bool" where
  "valid_entry e \<longleftrightarrow> en_pos e < 2 ^ 64 \<and> length (en_key e) = AES_GCM_KEY_SIZE \<and> length (en_mac e) = AES_GCM_MAC_SIZE"

definition valid_node :: "mht_node \<Rightarrow> bool" where
  "valid_node nd \<longleftrightarrow> node_height nd < 256 \<and> num_data_nodes nd < 2 ^ 32 \<and> num_valid_entries nd < 2 ^ 16 \<and>
    length (nd_entries nd) = MHT_NBRANCHES \<and> (\<forall>e \<in> set (nd_entries nd). valid_entry e)"

lemma entry_roundtrip:
  assumes "valid_entry e"
  shows "length (entry_bytes e) = MHT_ENTRY_SIZE" "entry_from_bytes (entry_bytes e) = e"
proof -
  have "(2 :: nat) ^ 64 = 256 ^ 8" by simp
  then show "length (entry_bytes e) = MHT_ENTRY_SIZE" "entry_from_bytes (entry_bytes e) = e"
    using assms by (simp_all add: entry_bytes_def entry_from_bytes_def valid_entry_def aes_sizes MHT_ENTRY_SIZE_def le_nat_bytes_exact)
qed

lemma length_node_bytes:
  assumes "valid_node nd"
  shows "length (node_bytes pad nd) = BLOCK_SIZE"
proof -
  have "\<forall>e \<in> set (nd_entries nd). length (entry_bytes e) = MHT_ENTRY_SIZE"
    using assms by (simp add: valid_node_def entry_roundtrip)
  then have "length (concat (map entry_bytes (nd_entries nd))) = length (nd_entries nd) * MHT_ENTRY_SIZE"
    by (induction "nd_entries nd" arbitrary: nd) (auto simp: length_concat sum_list_triv cong: map_cong)
  then show ?thesis
    using assms by (simp add: node_bytes_def valid_node_def MHT_NBRANCHES_eq MHT_ENTRY_SIZE_def BLOCK_SIZE_def)
qed

lemma node_roundtrip:
  assumes "valid_node nd"
  shows "node_from_bytes (node_bytes pad nd) = nd"
proof -
  let ?es = "concat (map entry_bytes (nd_entries nd))"
  have el: "\<forall>x \<in> set (map entry_bytes (nd_entries nd)). length x = MHT_ENTRY_SIZE"
    using assms by (auto simp: valid_node_def entry_roundtrip)
  have len: "length (nd_entries nd) = MHT_NBRANCHES" using assms by (simp add: valid_node_def)
  have "take MHT_ENTRY_SIZE (drop (i * MHT_ENTRY_SIZE) ?es) = entry_bytes (nd_entries nd ! i)" if "i < MHT_NBRANCHES" for i
    using concat_slice [OF el, of i "[]"] len that by simp
  moreover have "drop (16 + i) (node_bytes pad nd) = drop i ?es" for i
  proof -
    obtain h where "node_bytes pad nd = h @ ?es" "length h = 16"
    proof
      let ?h = "le_bytes 1 (hd_height (nd_header nd)) @ map pad [1..<4] @ le_bytes 4 (hd_num_data_nodes (nd_header nd)) @
        le_bytes 2 (hd_num_valid_entries (nd_header nd)) @ map pad [10..<16]"
      show "node_bytes pad nd = ?h @ ?es" by (simp only: node_bytes_def append_assoc)
      show "length ?h = 16" by simp
    qed
    then show ?thesis by simp
  qed
  ultimately have "entry_from_bytes (take MHT_ENTRY_SIZE (drop (16 + i * MHT_ENTRY_SIZE) (node_bytes pad nd))) = nd_entries nd ! i"
    if "i < MHT_NBRANCHES" for i
    using that assms len by (simp add: entry_roundtrip valid_node_def)
  then have es: "nd_entries (node_from_bytes (node_bytes pad nd)) = nd_entries nd"
    using len by (intro nth_equalityI) (simp_all add: node_from_bytes_def)
  have "(2 :: nat) ^ 32 = 256 ^ 4" "(2 :: nat) ^ 16 = 256 ^ 2" by simp_all
  then have "nd_header (node_from_bytes (node_bytes pad nd)) = nd_header nd"
    using assms by (cases nd, cases "nd_header nd") (simp add: node_from_bytes_def node_bytes_def le_nat_bytes_exact unat_of_nat
      valid_node_def node_height_def num_data_nodes_def num_valid_entries_def)
  then show ?thesis using es by simp
qed

section \<open>Contracts\<close>

text \<open>
  What the tree relies on in a node cache: it never returns a value that was not the last one put at the position. It
  may forget values. \<open>holds c\<close> is what the cache has.
\<close>

locale node_cache_laws =
  fixes C :: "'c node_cache_ops" and cinv :: "'c \<Rightarrow> bool" and holds :: "'c \<Rightarrow> pbid \<Rightarrow> cache_value option"
  assumes cache_get: "cinv c \<Longrightarrow> \<exists>c'. nc_get C c pos = Ok (holds c pos, c') \<and> cinv c' \<and> holds c' = holds c"
    and cache_put: "cinv c \<Longrightarrow> \<exists>old c'. nc_put C c pos v = Ok (old, c') \<and> cinv c' \<and> holds c' \<subseteq>\<^sub>m (holds c)(pos \<mapsto> v)"

locale mht_setting =
  roomy_log "me_log E" linv content room + openssl_laws "me_ssl E" + node_cache_laws "me_cache E" cinv holds
  for E :: "('l, 'c) mht_env" and linv content room cinv holds +
  assumes pages: "pages_ready (me_pages E)"
    and uninit: "valid_entry (me_uninit E)"
    and nblocks_usize: "linv s \<Longrightarrow> bl_nblocks (me_log E) s < 2 ^ 64"

section \<open>What a tree covers\<close>

text \<open>
  The block at a position of the log decrypts to \<open>p\<close>. \<open>G\<close> gives the nodes that the log has, by position; a cache may
  hold these and nothing else.
\<close>

definition sealed :: "openssl \<Rightarrow> bytes \<Rightarrow> pbid \<Rightarrow> aead_key \<Rightarrow> aead_iv \<Rightarrow> aead_mac \<Rightarrow> bytes \<Rightarrow> bool" where
  "sealed ssl c pos key iv mac p \<longleftrightarrow>
    Suc pos * BLOCK_SIZE \<le> length c \<and> length p = BLOCK_SIZE \<and> aead_decrypt ssl (block_at c pos) key iv [] mac BLOCK_SIZE = Ok p"

definition node_shape :: "nat \<Rightarrow> mht_node \<Rightarrow> 'a list \<Rightarrow> bool" where
  "node_shape h nd ds \<longleftrightarrow> node_height nd = Suc h \<and> num_data_nodes nd = length ds \<and>
    num_valid_entries nd = length (chunks_of (MHT_NBRANCHES ^ h) ds) \<and> length (nd_entries nd) = MHT_NBRANCHES \<and>
    0 < length ds \<and> length ds \<le> MHT_NBRANCHES ^ Suc h"

text \<open>An entry of level \<open>h\<close> stands for the data blocks \<open>ds\<close>; level 0 is the level of the data.\<close>

fun covers :: "openssl \<Rightarrow> bytes \<Rightarrow> (pbid \<Rightarrow> mht_node option) \<Rightarrow> nat \<Rightarrow> mht_node_entry \<Rightarrow> bytes list \<Rightarrow> bool" where
  "covers ssl c G 0 e ds \<longleftrightarrow> (\<exists>b. ds = [b] \<and> sealed ssl c (en_pos e) (en_key e) iv_zeroed (en_mac e) b)"
| "covers ssl c G (Suc h) e ds \<longleftrightarrow> (\<exists>nd p. G (en_pos e) = Some nd \<and>
    sealed ssl c (en_pos e) (en_key e) iv_zeroed (en_mac e) p \<and> node_from_bytes p = nd \<and> node_shape h nd ds \<and>
    list_all2 (covers ssl c G h) (take (num_valid_entries nd) (nd_entries nd)) (chunks_of (MHT_NBRANCHES ^ h) ds))"

definition node_covers :: "openssl \<Rightarrow> bytes \<Rightarrow> (pbid \<Rightarrow> mht_node option) \<Rightarrow> nat \<Rightarrow> mht_node \<Rightarrow> bytes list \<Rightarrow> bool" where
  "node_covers ssl c G h nd ds \<longleftrightarrow> node_shape h nd ds \<and>
    list_all2 (covers ssl c G h) (take (num_valid_entries nd) (nd_entries nd)) (chunks_of (MHT_NBRANCHES ^ h) ds)"

definition storage_ok ::
    "('l, 'c) mht_env \<Rightarrow> ('l \<Rightarrow> bool) \<Rightarrow> ('c \<Rightarrow> bool) \<Rightarrow> ('c \<Rightarrow> pbid \<Rightarrow> cache_value option) \<Rightarrow> (pbid \<Rightarrow> mht_node option) \<Rightarrow>
      ('l, 'c) mht_storage \<Rightarrow> bool" where
  "storage_ok E linv cinv holds G st \<longleftrightarrow> linv (ms_block_log st) \<and> cinv (ms_node_cache st) \<and>
    (\<forall>pos v. holds (ms_node_cache st) pos = Some v \<longrightarrow> (\<exists>nd. v = CachedMht nd \<and> G pos = Some nd)) \<and>
    (\<forall>pos nd. G pos = Some nd \<longrightarrow> pos < bl_nblocks (me_log E) (ms_block_log st))"

lemma sealed_append: "sealed ssl c pos key iv mac p \<Longrightarrow> sealed ssl (c @ c') pos key iv mac p"
  by (auto simp: sealed_def block_at_def)

lemma covers_Suc: "covers ssl c G (Suc h) e ds \<longleftrightarrow> (\<exists>nd p. G (en_pos e) = Some nd \<and>
    sealed ssl c (en_pos e) (en_key e) iv_zeroed (en_mac e) p \<and> node_from_bytes p = nd \<and> node_covers ssl c G h nd ds)"
  by (simp add: node_covers_def)

lemma covers_mono: "covers ssl c G h e ds \<Longrightarrow> G \<subseteq>\<^sub>m G' \<Longrightarrow> covers ssl (c @ c') G' h e ds"
proof (induction h arbitrary: e ds)
  case 0
  then show ?case by (auto intro: sealed_append)
next
  case (Suc h)
  then obtain nd p where "G (en_pos e) = Some nd" "sealed ssl c (en_pos e) (en_key e) iv_zeroed (en_mac e) p"
      "node_from_bytes p = nd" "node_shape h nd ds"
      and all: "list_all2 (covers ssl c G h) (take (num_valid_entries nd) (nd_entries nd)) (chunks_of (MHT_NBRANCHES ^ h) ds)"
    by auto
  moreover have "G' (en_pos e) = Some nd" using calculation(1) Suc.prems(2) by (force simp: map_le_def)
  moreover have "list_all2 (covers ssl (c @ c') G' h) (take (num_valid_entries nd) (nd_entries nd)) (chunks_of (MHT_NBRANCHES ^ h) ds)"
    using all by (rule list_all2_mono) (use Suc in blast)
  ultimately show ?case by (auto intro: sealed_append)
qed

lemma node_covers_mono: "node_covers ssl c G h nd ds \<Longrightarrow> G \<subseteq>\<^sub>m G' \<Longrightarrow> node_covers ssl (c @ c') G' h nd ds"
  unfolding node_covers_def by (blast intro: list_all2_mono covers_mono)

lemma covers_list_mono:
  "list_all2 (covers ssl c G h) es dss \<Longrightarrow> G \<subseteq>\<^sub>m G' \<Longrightarrow> list_all2 (covers ssl (c @ c') G' h) es dss"
  by (blast intro: list_all2_mono covers_mono)

lemma covers_nonempty: "covers ssl c G h e ds \<Longrightarrow> ds \<noteq> []"
  by (cases h) (auto simp: node_shape_def)

lemma covers_blocks: "covers ssl c G h e ds \<Longrightarrow> b \<in> set ds \<Longrightarrow> length b = BLOCK_SIZE"
proof (induction h arbitrary: e ds)
  case 0
  then show ?case by (auto simp: sealed_def)
next
  case (Suc h)
  then obtain nd where all: "list_all2 (covers ssl c G h) (take (num_valid_entries nd) (nd_entries nd)) (chunks_of (MHT_NBRANCHES ^ h) ds)"
    by auto
  have "ds = concat (chunks_of (MHT_NBRANCHES ^ h) ds)" by simp
  then obtain xs where "xs \<in> set (chunks_of (MHT_NBRANCHES ^ h) ds)" "b \<in> set xs"
    using Suc.prems(2) by (metis UN_E set_concat)
  then show ?case using all Suc.IH by (metis in_set_conv_nth list_all2_conv_all_nth)
qed

section \<open>Reading and writing nodes\<close>

text \<open>The random keys and vectors have the lengths of their types.\<close>

definition random_ok :: "mht_random \<Rightarrow> bool" where
  "random_ok rnd \<longleftrightarrow> (\<forall>pos. length (rk_key rnd pos) = AES_GCM_KEY_SIZE \<and> length (rk_iv rnd pos) = AES_GCM_IV_SIZE)"

text \<open>What the loops that encrypt blocks produce: entries \<open>es\<close> and ciphertexts \<open>cs\<close> for the blocks \<open>ds\<close> from \<open>pos\<close> on.\<close>

definition sealed_list :: "openssl \<Rightarrow> pbid \<Rightarrow> bytes list \<Rightarrow> mht_node_entry list \<Rightarrow> bytes list \<Rightarrow> bool" where
  "sealed_list ssl pos ds es cs \<longleftrightarrow> length es = length ds \<and> length cs = length ds \<and>
    (\<forall>i < length ds. en_pos (es ! i) = pos + i \<and> length (en_key (es ! i)) = AES_GCM_KEY_SIZE \<and>
      length (en_mac (es ! i)) = AES_GCM_MAC_SIZE \<and> length (cs ! i) = BLOCK_SIZE \<and> length (ds ! i) = BLOCK_SIZE \<and>
      aead_decrypt ssl (cs ! i) (en_key (es ! i)) iv_zeroed [] (en_mac (es ! i)) BLOCK_SIZE = Ok (ds ! i))"

lemma sealed_list_Cons:
  assumes "sealed_list ssl (Suc pos) ds es cs" "en_pos e = pos" "length (en_key e) = AES_GCM_KEY_SIZE"
    "length (en_mac e) = AES_GCM_MAC_SIZE" "length c = BLOCK_SIZE" "length d = BLOCK_SIZE"
    "aead_decrypt ssl c (en_key e) iv_zeroed [] (en_mac e) BLOCK_SIZE = Ok d"
  shows "sealed_list ssl pos (d # ds) (e # es) (c # cs)"
  using assms by (auto simp: sealed_list_def All_less_Suc2)

lemma sealed_list_lengths: "sealed_list ssl pos ds es cs \<Longrightarrow> \<forall>x \<in> set cs. length x = BLOCK_SIZE"
  unfolding sealed_list_def by (metis in_set_conv_nth)

lemma sealed_list_sealed:
  assumes "sealed_list ssl pos ds es cs" "length c = pos * BLOCK_SIZE" "i < length ds"
  shows "sealed ssl (c @ concat cs) (en_pos (es ! i)) (en_key (es ! i)) iv_zeroed (en_mac (es ! i)) (ds ! i)"
proof -
  have l: "\<forall>x \<in> set cs. length x = BLOCK_SIZE" "i < length cs" "en_pos (es ! i) = pos + i"
    using assms(3) sealed_list_lengths [OF assms(1)] by (auto simp: assms(1) [unfolded sealed_list_def])
  have "block_at (c @ concat cs) (pos + i) = cs ! i"
    using concat_slice [OF l(1,2), of "[]"] assms(2) by (simp add: block_at_def add_mult_distrib)
  moreover have "Suc (pos + i) * BLOCK_SIZE \<le> (pos + length cs) * BLOCK_SIZE"
    using l(2) by (intro mult_le_mono1) simp
  ultimately show ?thesis
    using assms l length_concat_blocks [OF l(1)] by (simp add: sealed_def sealed_list_def add_mult_distrib)
qed

lemma sealed_list_entries:
  assumes "sealed_list ssl pos ds es cs" "e \<in> set es" "pos + length ds \<le> 2 ^ 64"
  shows "valid_entry e"
proof -
  obtain i where "i < length ds" "e = es ! i" using assms(1,2) by (metis in_set_conv_nth sealed_list_def)
  then show ?thesis using assms(1,3) by (simp add: sealed_list_def valid_entry_def)
qed

lemma overwrite_adjacent:
  "a + length s + length t \<le> length xs \<Longrightarrow> overwrite (overwrite xs a s) (a + length s) t = overwrite xs a (s @ t)"
  by (simp add: overwrite_def add.commute add.left_commute)

lemma map_le_upd_cases: "m \<subseteq>\<^sub>m m'(k \<mapsto> v) \<Longrightarrow> m x = Some y \<Longrightarrow> x = k \<and> y = v \<or> m' x = Some y"
  by (metis domI fun_upd_apply map_le_def option.inject)

lemma storage_ok_cache:
  assumes "storage_ok E linv cinv holds G st" "cinv c" "holds c \<subseteq>\<^sub>m (holds (ms_node_cache st))(pos \<mapsto> CachedMht nd)" "G pos = Some nd"
  shows "storage_ok E linv cinv holds G (st\<lparr>ms_node_cache := c\<rparr>)"
  using assms(1,2,4) map_le_upd_cases [OF assms(3)] by (fastforce simp: storage_ok_def)

context mht_setting
begin

lemma cache_put_ok:
  assumes "cinv (ms_node_cache st)"
  shows "\<exists>c'. Crypto_Log.cache_put E pos nd st = Ok (st\<lparr>ms_node_cache := c'\<rparr>) \<and> cinv c' \<and>
    holds c' \<subseteq>\<^sub>m (holds (ms_node_cache st))(pos \<mapsto> CachedMht nd)"
  using cache_put [OF assms, of pos "CachedMht nd"] by (auto simp: Crypto_Log.cache_put_def)

lemma log_read_block:
  assumes "linv s" "sealed (me_ssl E) (content s) pos key iv mac p"
  shows "bl_read (me_log E) s pos 1 = Ok (block_at (content s) pos)" "pos < bl_nblocks (me_log E) s"
proof -
  have "Suc pos * BLOCK_SIZE \<le> bl_nblocks (me_log E) s * BLOCK_SIZE"
    using assms log_length by (simp add: sealed_def)
  then show "pos < bl_nblocks (me_log E) s" by (simp only: mult_le_cancel2) simp
  then show "bl_read (me_log E) s pos 1 = Ok (block_at (content s) pos)"
    using log_read [OF assms(1), of 1 pos] by (simp add: block_at_def)
qed

lemma read_data_node_ok:
  assumes "linv (ms_block_log st)" "covers (me_ssl E) (content (ms_block_log st)) G 0 e [b]"
  shows "read_data_node E e st = Ok b"
  using assms log_read_block [OF assms(1)] by (auto simp: read_data_node_def sealed_def)

lemma read_mht_node_ok:
  assumes "storage_ok E linv cinv holds G st" "G pos = Some nd"
    "sealed (me_ssl E) (content (ms_block_log st)) pos key iv mac p" "node_from_bytes p = nd"
  shows "\<exists>st'. read_mht_node E pos key mac iv st = Ok (nd, st') \<and> storage_ok E linv cinv holds G st' \<and>
    ms_block_log st' = ms_block_log st"
proof -
  obtain c' where c': "nc_get (me_cache E) (ms_node_cache st) pos = Ok (holds (ms_node_cache st) pos, c')" "cinv c'"
      "holds c' = holds (ms_node_cache st)"
    using cache_get assms(1) by (metis storage_ok_def)
  have log: "linv (ms_block_log st)" using assms(1) by (simp add: storage_ok_def)
  show ?thesis
  proof (cases "holds (ms_node_cache st) pos")
    case None
    obtain c2 where "Crypto_Log.cache_put E pos nd (st\<lparr>ms_node_cache := c'\<rparr>) = Ok (st\<lparr>ms_node_cache := c2\<rparr>)" "cinv c2"
        "holds c2 \<subseteq>\<^sub>m (holds (ms_node_cache st))(pos \<mapsto> CachedMht nd)"
      using cache_put_ok [of "st\<lparr>ms_node_cache := c'\<rparr>" pos nd] c' by auto
    moreover have "storage_ok E linv cinv holds G (st\<lparr>ms_node_cache := c2\<rparr>)"
      by (rule storage_ok_cache [OF assms(1) calculation(2,3) assms(2)])
    ultimately show ?thesis
      using None c'(1) log_read_block [OF log assms(3)] assms(3,4) by (simp add: read_mht_node_def sealed_def Let_def)
  next
    case (Some v)
    then have "v = CachedMht nd" using assms(1,2) unfolding storage_ok_def by fastforce
    moreover have "storage_ok E linv cinv holds G (st\<lparr>ms_node_cache := c'\<rparr>)"
      using assms(1) c' by (simp add: storage_ok_def)
    ultimately show ?thesis using Some c'(1) by (simp add: read_mht_node_def Let_def)
  qed
qed

lemma seal_block_ok:
  assumes "length plain = BLOCK_SIZE" "(i + 1) * BLOCK_SIZE \<le> length buf" "random_ok rnd"
  shows "\<exists>c mac. seal_block E rnd i plain (es, buf, pos) =
      Ok (es @ [\<lparr>en_pos = pos, en_key = rk_key rnd pos, en_mac = mac\<rparr>], overwrite buf (i * BLOCK_SIZE) c, pos + 1) \<and>
    length c = BLOCK_SIZE \<and> length mac = AES_GCM_MAC_SIZE \<and>
    aead_decrypt (me_ssl E) c (rk_key rnd pos) iv_zeroed [] mac BLOCK_SIZE = Ok plain"
proof -
  obtain c mac where "aead_encrypt (me_ssl E) plain (rk_key rnd pos) iv_zeroed [] BLOCK_SIZE = Ok (c, mac)"
      "length c = BLOCK_SIZE" "length mac = AES_GCM_MAC_SIZE"
      "aead_decrypt (me_ssl E) c (rk_key rnd pos) iv_zeroed [] mac BLOCK_SIZE = Ok plain"
    using aead_encrypt_ok [of "rk_key rnd pos" iv_zeroed plain "[]"] assms by (auto simp: random_ok_def iv_zeroed_def)
  then show ?thesis
    using assms(2) by (intro exI [of _ c] exI [of _ mac]) (simp add: seal_block_def slice_range_def copy_range_def)
qed

lemma seal_loop:
  assumes "\<forall>d \<in> set ds. length d = BLOCK_SIZE" "(k + length ds) * BLOCK_SIZE \<le> length buf" "random_ok rnd"
  shows "\<exists>es cs. rfold (\<lambda>(i, plain) acc. seal_block E rnd i plain acc) (enumerate k ds) (es0, buf, pos) =
      Ok (es0 @ es, overwrite buf (k * BLOCK_SIZE) (concat cs), pos + length ds) \<and>
    sealed_list (me_ssl E) pos ds es cs"
  using assms
proof (induction ds arbitrary: k es0 buf pos)
  case Nil
  show ?case by (rule exI [of _ "[]"], rule exI [of _ "[]"]) (simp add: sealed_list_def overwrite_def)
next
  case (Cons d ds)
  have fit: "(k + 1) * BLOCK_SIZE \<le> length buf" using Cons.prems(2) by (simp add: add_mult_distrib)
  obtain c mac where s: "seal_block E rnd k d (es0, buf, pos) =
        Ok (es0 @ [\<lparr>en_pos = pos, en_key = rk_key rnd pos, en_mac = mac\<rparr>], overwrite buf (k * BLOCK_SIZE) c, pos + 1)"
      "length c = BLOCK_SIZE" "length mac = AES_GCM_MAC_SIZE"
      "aead_decrypt (me_ssl E) c (rk_key rnd pos) iv_zeroed [] mac BLOCK_SIZE = Ok d"
    using seal_block_ok [of d k buf rnd es0 pos] fit Cons.prems by auto
  let ?e = "\<lparr>en_pos = pos, en_key = rk_key rnd pos, en_mac = mac\<rparr>" and ?buf = "overwrite buf (k * BLOCK_SIZE) c"
  have "length ?buf = length buf" using fit s(2) by (simp add: length_overwrite add.commute)
  then obtain es cs where r: "rfold (\<lambda>(i, plain) acc. seal_block E rnd i plain acc) (enumerate (Suc k) ds) (es0 @ [?e], ?buf, Suc pos) =
        Ok ((es0 @ [?e]) @ es, overwrite ?buf (Suc k * BLOCK_SIZE) (concat cs), Suc pos + length ds)"
      "sealed_list (me_ssl E) (Suc pos) ds es cs"
    using Cons.IH [of "Suc k" ?buf "es0 @ [?e]" "Suc pos"] Cons.prems by auto
  have "length (concat cs) = length ds * BLOCK_SIZE"
    using length_concat_blocks [OF sealed_list_lengths [OF r(2)]] r(2) by (simp add: sealed_list_def)
  then have "overwrite ?buf (Suc k * BLOCK_SIZE) (concat cs) = overwrite buf (k * BLOCK_SIZE) (c @ concat cs)"
    using overwrite_adjacent [of "k * BLOCK_SIZE" c "concat cs" buf] Cons.prems(2) s(2)
    by (simp add: add_mult_distrib add.commute add.left_commute)
  moreover have "sealed_list (me_ssl E) pos (d # ds) (?e # es) (c # cs)"
    using sealed_list_Cons [OF r(2)] s Cons.prems(1,3) by (simp add: random_ok_def)
  ultimately show ?case
    using s(1) r(1) by (intro exI [of _ "?e # es"] exI [of _ "c # cs"]) simp
qed

end

lemma rfold_map: "rfold f (map g xs) s = rfold (\<lambda>x. f (g x)) xs s"
  by (induction xs arbitrary: s) (auto cong: rbind_cong)

lemma enumerate_map: "enumerate k (map f xs) = map (\<lambda>(i, x). (i, f x)) (enumerate k xs)"
  by (induction xs arbitrary: k) auto

text \<open>Encrypting nodes and caching them are independent of each other.\<close>

lemma seal_and_cache:
  assumes "rfold (\<lambda>(i, nd) acc. seal_block E rnd i (f nd) acc) (enumerate k nds) (es, buf, pos) = Ok acc'"
  shows "rfold (\<lambda>(i, nd) (acc, st).
        rbind (seal_block E rnd i (f nd) acc) (\<lambda>acc'.
        rbind (Crypto_Log.cache_put E (snd (snd acc)) nd st) (\<lambda>st. Ok (acc', st))))
      (enumerate k nds) ((es, buf, pos), st) =
    rbind (rfold (\<lambda>(pos, nd) st. Crypto_Log.cache_put E pos nd st) (enumerate pos nds) st) (\<lambda>st. Ok (acc', st))"
  using assms
proof (induction nds arbitrary: k es buf pos st)
  case (Cons nd nds)
  obtain es' buf' pos' where s: "seal_block E rnd k (f nd) (es, buf, pos) = Ok (es', buf', pos')"
      "rfold (\<lambda>(i, nd) acc. seal_block E rnd i (f nd) acc) (enumerate (Suc k) nds) (es', buf', pos') = Ok acc'"
    using Cons.prems by (auto simp: res_simps)
  have "pos' = Suc pos" using s(1) by (auto simp: seal_block_def res_simps)
  then show ?case
    using s(1) Cons.IH [OF s(2)] by (cases "Crypto_Log.cache_put E pos nd st") simp_all
qed simp

lemma storage_ok_log:
  assumes "storage_ok E linv cinv holds G st" "linv log" "bl_nblocks (me_log E) (ms_block_log st) \<le> bl_nblocks (me_log E) log"
  shows "storage_ok E linv cinv holds G (st\<lparr>ms_block_log := log\<rparr>)"
  using assms by (force simp: storage_ok_def)

context mht_setting
begin

text \<open>Appending whole blocks.\<close>

lemma append_blocks:
  assumes "linv s" "\<forall>x \<in> set cs. length x = BLOCK_SIZE" "cs \<noteq> []" "room s (length cs + n)"
  shows "\<exists>s'. bl_append (me_log E) s (concat cs) = Ok (bl_nblocks (me_log E) s, s') \<and> linv s' \<and>
    content s' = content s @ concat cs \<and> room s' n \<and> bl_nblocks (me_log E) s' = bl_nblocks (me_log E) s + length cs"
proof -
  have l: "length (concat cs) = length cs * BLOCK_SIZE" using length_concat_blocks [OF assms(2)] .
  then have b: "buf_ok (concat cs)" "buf_nblocks (concat cs) = length cs"
    using assms(3) by (auto simp: buf_ok_iff buf_nblocks_def)
  obtain s' where s': "bl_append (me_log E) s (concat cs) = Ok (bl_nblocks (me_log E) s, s')" "linv s'"
      "content s' = content s @ concat cs" "room s' n"
    using append_room [OF assms(1) b(1), of n] assms(4) b(2) by auto
  moreover have "bl_nblocks (me_log E) s' = bl_nblocks (me_log E) s + length cs"
    using append_nblocks(3) [OF assms(1) b(1) _ s'(1)] room_less assms(4) b(2) by simp
  ultimately show ?thesis by blast
qed

lemma append_data_nodes_ok:
  assumes "storage_ok E linv cinv holds G st" "\<forall>d \<in> set ds. length d = BLOCK_SIZE" "random_ok rnd"
    "room (ms_block_log st) (length ds + n)"
  shows "\<exists>es st' x. append_data_nodes E rnd ds st = Ok (es, st') \<and> storage_ok E linv cinv holds G st' \<and>
    content (ms_block_log st') = content (ms_block_log st) @ x \<and> room (ms_block_log st') n \<and>
    list_all2 (covers (me_ssl E) (content (ms_block_log st')) G 0) es (map (\<lambda>d. [d]) ds) \<and> (\<forall>e \<in> set es. valid_entry e)"
proof (cases "ds = []")
  case True
  then show ?thesis using assms(1,4) by (intro exI [of _ "[]"] exI [of _ st]) (simp add: append_data_nodes_def)
next
  case False
  let ?log = "ms_block_log st"
  let ?n = "bl_nblocks (me_log E) ?log"
  have log: "linv ?log" using assms(1) by (simp add: storage_ok_def)
  obtain buf where buf: "buf_alloc (me_pages E) (length ds) = Ok buf" "length buf = length ds * BLOCK_SIZE"
    using buf_alloc_ready [OF pages] False by blast
  obtain es cs where r: "rfold (\<lambda>(i, plain) acc. seal_block E rnd i plain acc) (enumerate 0 ds) ([], buf, ?n) =
        Ok (es, overwrite buf 0 (concat cs), ?n + length ds)" "sealed_list (me_ssl E) ?n ds es cs"
    using seal_loop [OF assms(2) _ assms(3), of 0 buf "[]" ?n] buf(2) by auto
  note cl = sealed_list_lengths [OF r(2)]
  have len: "length cs = length ds" "length es = length ds" using r(2) by (simp_all add: sealed_list_def)
  then have "overwrite buf 0 (concat cs) = concat cs" using buf(2) length_concat_blocks [OF cl] by simp
  moreover obtain s' where s': "bl_append (me_log E) ?log (concat cs) = Ok (?n, s')" "linv s'"
      "content s' = content ?log @ concat cs" "room s' n" "bl_nblocks (me_log E) s' = ?n + length cs"
    using append_blocks [OF log cl, of n] False len assms(4) by fastforce
  ultimately have "append_data_nodes E rnd ds st = Ok (es, st\<lparr>ms_block_log := s'\<rparr>)"
    using False buf(1) r(1) by (simp add: append_data_nodes_def Let_def)
  moreover have "list_all2 (covers (me_ssl E) (content s') G 0) es (map (\<lambda>d. [d]) ds)"
    using sealed_list_sealed [OF r(2) log_length [OF log]] len s'(3) by (simp add: list_all2_conv_all_nth)
  moreover have "storage_ok E linv cinv holds G (st\<lparr>ms_block_log := s'\<rparr>)"
    using storage_ok_log [OF assms(1) s'(2)] s'(5) by simp
  moreover have "\<forall>e \<in> set es. valid_entry e"
    using sealed_list_entries [OF r(2)] nblocks_usize [OF s'(2)] s'(5) len by simp
  ultimately show ?thesis using s' by (intro exI [of _ es] exI [of _ "st\<lparr>ms_block_log := s'\<rparr>"] exI [of _ "concat cs"]) simp
qed

lemma cache_loop:
  assumes "cinv (ms_node_cache st)"
  shows "\<exists>c. rfold (\<lambda>(pos, nd) st. Crypto_Log.cache_put E pos nd st) (enumerate pos nds) st = Ok (st\<lparr>ms_node_cache := c\<rparr>) \<and>
    cinv c \<and> (\<forall>p v. holds c p = Some v \<longrightarrow> holds (ms_node_cache st) p = Some v \<or>
      (\<exists>i < length nds. p = pos + i \<and> v = CachedMht (nds ! i)))"
  using assms
proof (induction nds arbitrary: pos st)
  case Nil
  then show ?case by (intro exI [of _ "ms_node_cache st"]) simp
next
  case (Cons nd nds)
  obtain c' where c': "Crypto_Log.cache_put E pos nd st = Ok (st\<lparr>ms_node_cache := c'\<rparr>)" "cinv c'"
      "holds c' \<subseteq>\<^sub>m (holds (ms_node_cache st))(pos \<mapsto> CachedMht nd)"
    using cache_put_ok [OF Cons.prems] by blast
  obtain c where c: "rfold (\<lambda>(pos, nd) st. Crypto_Log.cache_put E pos nd st) (enumerate (Suc pos) nds) (st\<lparr>ms_node_cache := c'\<rparr>)
        = Ok (st\<lparr>ms_node_cache := c\<rparr>)" "cinv c"
      "\<forall>p v. holds c p = Some v \<longrightarrow> holds c' p = Some v \<or> (\<exists>i < length nds. p = Suc pos + i \<and> v = CachedMht (nds ! i))"
    using Cons.IH [of "st\<lparr>ms_node_cache := c'\<rparr>" "Suc pos"] c'(2) by auto
  have "holds (ms_node_cache st) p = Some v \<or> (\<exists>i < length (nd # nds). p = pos + i \<and> v = CachedMht ((nd # nds) ! i))"
    if "holds c p = Some v" for p v
  proof -
    consider "holds c' p = Some v" | i where "i < length nds" "p = Suc pos + i" "v = CachedMht (nds ! i)"
      using c(3) \<open>holds c p = Some v\<close> by blast
    then show ?thesis
    proof cases
      case 1
      then show ?thesis using map_le_upd_cases [OF c'(3)] by fastforce
    next
      case 2
      then show ?thesis by (intro disjI2 exI [of _ "Suc i"]) simp
    qed
  qed
  then show ?case using c'(1) c(1,2) by (intro exI [of _ c]) simp
qed

lemma append_mht_nodes_ok:
  assumes "storage_ok E linv cinv holds G st" "random_ok rnd" "room (ms_block_log st) (length nds + n)" "nds \<noteq> []"
    "\<forall>nd \<in> set nds. valid_node nd" "list_all2 (node_covers (me_ssl E) (content (ms_block_log st)) G h) nds dss"
  shows "\<exists>es st' x G'. append_mht_nodes E rnd nds st = Ok (es, st') \<and> storage_ok E linv cinv holds G' st' \<and> G \<subseteq>\<^sub>m G' \<and>
    content (ms_block_log st') = content (ms_block_log st) @ x \<and> room (ms_block_log st') n \<and>
    list_all2 (covers (me_ssl E) (content (ms_block_log st')) G' (Suc h)) es dss \<and> (\<forall>e \<in> set es. valid_entry e)"
proof -
  let ?log = "ms_block_log st" and ?ds = "map (node_bytes (me_pad E)) nds"
  let ?n = "bl_nblocks (me_log E) ?log"
  have log: "linv ?log" "cinv (ms_node_cache st)" using assms(1) by (simp_all add: storage_ok_def)
  obtain buf where buf: "buf_alloc (me_pages E) (length nds) = Ok buf" "length buf = length nds * BLOCK_SIZE"
    using buf_alloc_ready [OF pages] assms(4) by blast
  have "\<forall>d \<in> set ?ds. length d = BLOCK_SIZE" using assms(5) by (simp add: length_node_bytes)
  then obtain es cs where r: "rfold (\<lambda>(i, nd) acc. seal_block E rnd i (node_bytes (me_pad E) nd) acc) (enumerate 0 nds) ([], buf, ?n) =
        Ok (es, overwrite buf 0 (concat cs), ?n + length nds)" "sealed_list (me_ssl E) ?n ?ds es cs"
    using seal_loop [OF _ _ assms(2), of ?ds 0 buf "[]" ?n] buf(2)
    by (auto simp: enumerate_map rfold_map case_prod_unfold)
  note cl = sealed_list_lengths [OF r(2)]
  have len: "length cs = length nds" "length es = length nds" using r(2) by (simp_all add: sealed_list_def)
  then have ow: "overwrite buf 0 (concat cs) = concat cs" using buf(2) length_concat_blocks [OF cl] by simp
  obtain c where c: "rfold (\<lambda>(pos, nd) st. Crypto_Log.cache_put E pos nd st) (enumerate ?n nds) st = Ok (st\<lparr>ms_node_cache := c\<rparr>)"
      "cinv c" "\<forall>p v. holds c p = Some v \<longrightarrow> holds (ms_node_cache st) p = Some v \<or>
        (\<exists>i < length nds. p = ?n + i \<and> v = CachedMht (nds ! i))"
    using cache_loop [OF log(2)] by blast
  obtain s' where s': "bl_append (me_log E) ?log (concat cs) = Ok (?n, s')" "linv s'"
      "content s' = content ?log @ concat cs" "room s' n" "bl_nblocks (me_log E) s' = ?n + length cs"
    using append_blocks [OF log(1) cl, of n] assms(3,4) len by fastforce
  let ?st = "st\<lparr>ms_node_cache := c, ms_block_log := s'\<rparr>"
  let ?G = "\<lambda>p. if ?n \<le> p \<and> p < ?n + length nds then Some (nds ! (p - ?n)) else G p"
  have run: "append_mht_nodes E rnd nds st = Ok (es, ?st)"
    using buf(1) seal_and_cache [OF r(1)] c(1) ow s'(1) by (simp add: append_mht_nodes_def Let_def)
  have G_old: "p < ?n" if "G p = Some nd" for p nd using assms(1) that by (auto simp: storage_ok_def)
  then have le: "G \<subseteq>\<^sub>m ?G" by (fastforce simp: map_le_def)
  have "storage_ok E linv cinv holds ?G ?st"
  proof -
    have "\<exists>nd. v = CachedMht nd \<and> ?G p = Some nd" if "holds c p = Some v" for p v
      using c(3) [rule_format, OF that] assms(1) G_old unfolding storage_ok_def by fastforce
    then show ?thesis using s'(2,5) c(2) len G_old by (force simp: storage_ok_def)
  qed
  moreover have "list_all2 (covers (me_ssl E) (content s') ?G (Suc h)) es dss"
  proof (rule list_all2_all_nthI)
    show "length es = length dss" using len assms(6) by (simp add: list_all2_lengthD)
    fix i assume "i < length es"
    then have i: "i < length nds" "i < length ?ds" using len by simp_all
    have "sealed (me_ssl E) (content s') (en_pos (es ! i)) (en_key (es ! i)) iv_zeroed (en_mac (es ! i)) (?ds ! i)"
      using sealed_list_sealed [OF r(2) log_length [OF log(1)] i(2)] s'(3) by simp
    moreover have "en_pos (es ! i) = ?n + i" using r(2) i(2) by (simp add: sealed_list_def)
    moreover have "node_from_bytes (?ds ! i) = nds ! i" using i assms(5) by (simp add: node_roundtrip)
    moreover have "node_covers (me_ssl E) (content s') ?G h (nds ! i) (dss ! i)"
      using assms(6) i(1) node_covers_mono [OF _ le] s'(3) by (simp add: list_all2_conv_all_nth)
    ultimately show "covers (me_ssl E) (content s') ?G (Suc h) (es ! i) (dss ! i)"
      using i(1) unfolding covers_Suc by (intro exI [of _ "nds ! i"] exI [of _ "?ds ! i"]) simp
  qed
  moreover have "\<forall>e \<in> set es. valid_entry e"
    using sealed_list_entries [OF r(2)] nblocks_usize [OF s'(2)] s'(5) len by simp
  ultimately show ?thesis
    using run s' le by (intro exI [of _ es] exI [of _ ?st] exI [of _ "concat cs"] exI [of _ ?G]) simp
qed

end

section \<open>Building one level\<close>

lemma ceil_div_mult [simp]: "0 < b \<Longrightarrow> ceil_div (k * b) b = k"
  unfolding ceil_div_def by (rule div_nat_eqI) (simp_all add: mult.commute)

lemma last_chunk_length:
  assumes "0 < m" "Suc i = length (chunks_of m xs)"
  shows "length (chunks_of m xs ! i) = (if length xs mod m = 0 then m else length xs mod m)"
proof (cases "length xs mod m = 0")
  case True
  then show ?thesis using length_in_chunks [OF assms(1), of i xs] assms(2) by simp
next
  case False
  have lo: "\<not> length xs \<le> i * m" and hi: "length xs \<le> Suc i * m"
    using length_chunks_le [OF assms(1), of xs i] length_chunks_le [OF assms(1), of xs "Suc i"] assms(2) by simp_all
  have "length xs \<noteq> Suc i * m" using False by (metis mod_mult_self2_is_0)
  then have "length xs div m = i" using lo hi by (intro div_nat_eqI) (simp_all add: mult.commute)
  then have "length xs - i * m = length xs mod m" by (metis minus_div_mult_eq_mod)
  moreover have "length xs mod m < m" using assms(1) by simp
  ultimately show ?thesis
    using False assms by (simp add: nth_chunks)
qed

lemma list_all2_chunks: "list_all2 P xs ys \<Longrightarrow> list_all2 (list_all2 P) (chunks_of n xs) (chunks_of n ys)"
proof (induction n xs arbitrary: ys rule: chunks_of.induct)
  case (1 n xs)
  show ?case
  proof (cases "n = 0 \<or> xs = []")
    case True
    then show ?thesis using 1(2) by (auto simp: chunks_of.simps [of 0])
  next
    case False
    then have "ys \<noteq> []" using 1(2) by auto
    then show ?thesis
      using False 1(1) [OF False list_all2_dropI [OF 1(2)]] 1(2) by (simp add: chunks_Cons list_all2_takeI)
  qed
qed

lemma max_num_data_nodes_ok: "MHT_NBRANCHES ^ h < 2 ^ 64 \<Longrightarrow> max_num_data_nodes h = Ok (MHT_NBRANCHES ^ h)"
  by (simp add: max_num_data_nodes_def)

lemma rmap_all: "\<forall>i < length xs. \<exists>y. f (xs ! i) = Ok y \<and> P i y \<Longrightarrow>
    \<exists>ys. rmap f xs = Ok ys \<and> length ys = length xs \<and> (\<forall>i < length xs. P i (ys ! i))"
proof (induction xs arbitrary: P)
  case (Cons x xs)
  then obtain y where y: "f x = Ok y" "P 0 y" by force
  obtain ys where "rmap f xs = Ok ys" "length ys = length xs" "\<forall>i < length xs. P (Suc i) (ys ! i)"
    using Cons.IH [of "\<lambda>i. P (Suc i)"] Cons.prems by force
  then show ?case using y by (intro exI [of _ "y # ys"]) (simp add: All_less_Suc2)
qed simp

lemma rmap_nth_res: "length xs = n \<Longrightarrow> rmap (nth_res xs) [0..<n] = Ok xs"
  by (simp add: rmap_eq_Ok list_all2_conv_all_nth)

text \<open>The node over a piece of entries.\<close>

lemma built_node:
  assumes "list_all2 (covers ssl c G h) es (chunks_of (MHT_NBRANCHES ^ h) ds)" "0 < length ds" "length ds \<le> MHT_NBRANCHES ^ Suc h"
    and "nd_header nd = \<lparr>hd_height = Suc h, hd_num_data_nodes = length ds, hd_num_valid_entries = length es\<rparr>"
    and "take (length es) (nd_entries nd) = es" "length (nd_entries nd) = MHT_NBRANCHES"
    and "length ds < 2 ^ 32" "h < 255" "\<forall>e \<in> set (nd_entries nd). valid_entry e"
  shows "node_covers ssl c G h nd ds" "valid_node nd"
proof -
  have "length es = length (chunks_of (MHT_NBRANCHES ^ h) ds)" using assms(1) by (rule list_all2_lengthD)
  moreover have "length (chunks_of (MHT_NBRANCHES ^ h) ds) \<le> MHT_NBRANCHES"
    using assms(3) length_chunks_le [of "MHT_NBRANCHES ^ h" ds MHT_NBRANCHES] by simp
  ultimately have "length es < 2 ^ 16" "length es = length (chunks_of (MHT_NBRANCHES ^ h) ds)"
    by (simp_all add: MHT_NBRANCHES_eq)
  then show "node_covers ssl c G h nd ds" "valid_node nd"
    using assms by (simp_all add: node_covers_def node_shape_def valid_node_def node_height_def num_data_nodes_def
      num_valid_entries_def)
qed

context mht_setting
begin

lemma build_last_node_ok:
  assumes "list_all2 (covers ssl c G h) es (chunks_of (MHT_NBRANCHES ^ h) ds)" "0 < length ds" "length ds \<le> MHT_NBRANCHES ^ Suc h"
    and "lb_height b = Suc h" "MHT_NBRANCHES ^ Suc h < 2 ^ 64" "length ds < 2 ^ 32" "h < 255" "\<forall>e \<in> set es. valid_entry e"
    and "length ds = (if lb_total_data_nodes b mod MHT_NBRANCHES ^ Suc h = 0 then MHT_NBRANCHES ^ Suc h
      else lb_total_data_nodes b mod MHT_NBRANCHES ^ Suc h)"
  shows "\<exists>nd. build_last_node E b es = Ok nd \<and> node_covers ssl c G h nd ds \<and> valid_node nd"
proof -
  let ?es = "map (\<lambda>i. if i < length es then es ! i else me_uninit E) [0..<MHT_NBRANCHES]"
  let ?nd = "\<lparr>nd_header = \<lparr>hd_height = Suc h, hd_num_data_nodes = length ds, hd_num_valid_entries = length es\<rparr>, nd_entries = ?es\<rparr>"
  have le: "length es \<le> MHT_NBRANCHES"
    using list_all2_lengthD [OF assms(1)] assms(3) length_chunks_le [of "MHT_NBRANCHES ^ h" ds MHT_NBRANCHES] by simp
  then have "length es < 2 ^ 16" by (simp add: MHT_NBRANCHES_eq)
  then have "build_last_node E b es = Ok ?nd"
    unfolding build_last_node_def assms(4) max_num_data_nodes_ok [OF assms(5)] rbind.simps Let_def assms(9) [symmetric]
    using assms(6) by simp
  moreover have "take (length es) ?es = es"
    using le by (intro nth_equalityI) simp_all
  moreover have "\<forall>e \<in> set ?es. valid_entry e" using assms(8) uninit by (auto intro: nth_mem)
  ultimately have "node_covers ssl c G h ?nd ds \<and> valid_node ?nd" "build_last_node E b es = Ok ?nd"
    using built_node [OF assms(1-3), of ?nd] assms(6,7) by simp_all
  then show ?thesis by blast
qed

lemma build_full_node_ok:
  assumes "list_all2 (covers ssl c G h) es (chunks_of (MHT_NBRANCHES ^ h) ds)" "length ds = MHT_NBRANCHES ^ Suc h"
    and "lb_height b = Suc h" "MHT_NBRANCHES ^ Suc h < 2 ^ 64" "length ds < 2 ^ 32" "h < 255" "\<forall>e \<in> set es. valid_entry e"
  shows "\<exists>nd. build_full_node b es = Ok nd \<and> node_covers ssl c G h nd ds \<and> valid_node nd"
proof -
  let ?nd = "\<lparr>nd_header = \<lparr>hd_height = Suc h, hd_num_data_nodes = length ds, hd_num_valid_entries = length es\<rparr>, nd_entries = es\<rparr>"
  have "length es = MHT_NBRANCHES"
    using list_all2_lengthD [OF assms(1)] assms(2) by (simp add: length_chunks)
  moreover from this have "build_full_node b es = Ok ?nd"
    using assms(2-5) rmap_nth_res [of es] by (simp add: build_full_node_def max_num_data_nodes_ok MHT_NBRANCHES_eq)
  moreover have "node_covers ssl c G h ?nd ds" "valid_node ?nd"
    using built_node [OF assms(1), of ?nd] assms(2,5-7) calculation(1) by auto
  ultimately show ?thesis by blast
qed

lemma level_build_ok:
  assumes all: "(case lb_previous_incomplete_node b of
        Some pre_node \<Rightarrow> rbind (num_complete_children pre_node) (\<lambda>n. Ok (take n (nd_entries pre_node) @ lb_level_entries b))
      | None \<Rightarrow> Ok (lb_level_entries b)) = Ok all" "\<forall>e \<in> set all. valid_entry e"
    and cov: "list_all2 (covers ssl c G h) all (chunks_of (MHT_NBRANCHES ^ h) ds)"
    and b: "lb_height b = Suc h" "MHT_NBRANCHES ^ Suc h < 2 ^ 64" "h < 255"
    and ds: "length ds < 2 ^ 32" "lb_total_data_nodes b mod MHT_NBRANCHES ^ Suc h = length ds mod MHT_NBRANCHES ^ Suc h"
  shows "\<exists>nds. level_build E b = Ok nds \<and> list_all2 (node_covers ssl c G h) nds (chunks_of (MHT_NBRANCHES ^ Suc h) ds) \<and>
    (\<forall>nd \<in> set nds. valid_node nd)"
proof -
  let ?m = "MHT_NBRANCHES ^ Suc h" and ?es = "chunks_of MHT_NBRANCHES all"
  let ?dss = "chunks_of ?m ds"
  have m: "0 < ?m" by simp
  have pieces: "list_all2 (\<lambda>es ds. list_all2 (covers ssl c G h) es (chunks_of (MHT_NBRANCHES ^ h) ds)) ?es ?dss"
    using list_all2_chunks [OF cov, of MHT_NBRANCHES] by (simp add: chunks_chunks list_all2_map2)
  then have len: "length ?es = length ?dss" by (rule list_all2_lengthD)
  have nb: "(length all + MHT_NBRANCHES - 1) div MHT_NBRANCHES = length ?dss"
    using length_chunks [of MHT_NBRANCHES all] len by (simp add: ceil_div_def)
  let ?f = "\<lambda>(nth, es). if nth = length ?dss - 1 then build_last_node E b es else build_full_node b es"
  have "\<exists>nd. ?f (enumerate 0 ?es ! i) = Ok nd \<and> node_covers ssl c G h nd (?dss ! i) \<and> valid_node nd"
    if i: "i < length (enumerate 0 ?es)" for i
  proof -
    have i': "i < length ?es" "i < length ?dss" using i len by simp_all
    have cov_i: "list_all2 (covers ssl c G h) (?es ! i) (chunks_of (MHT_NBRANCHES ^ h) (?dss ! i))"
      using list_all2_nthD [OF pieces i'(1)] .
    have valid: "\<forall>e \<in> set (?es ! i). valid_entry e"
      using all(2) nth_mem [OF i'(1)] set_concat [of ?es] by auto
    have short: "length (?dss ! i) < 2 ^ 32" using ds(1) unfolding nth_chunks [OF m i'(2)] by simp
    show ?thesis
    proof (cases "Suc i = length ?dss")
      case True
      have l: "length (?dss ! i) = (if length ds mod ?m = 0 then ?m else length ds mod ?m)"
        by (rule last_chunk_length [OF m True])
      have "0 < length (?dss ! i)" "length (?dss ! i) \<le> ?m" unfolding l using m by (auto intro: less_imp_le mod_less_divisor)
      moreover have "length (?dss ! i) = (if lb_total_data_nodes b mod ?m = 0 then ?m else lb_total_data_nodes b mod ?m)"
        unfolding ds(2) by (rule l)
      ultimately have "\<exists>nd. build_last_node E b (?es ! i) = Ok nd \<and> node_covers ssl c G h nd (?dss ! i) \<and> valid_node nd"
        by (intro build_last_node_ok [OF cov_i _ _ b(1,2) short b(3) valid])
      then show ?thesis by (simp add: nth_enumerate_eq [OF i'(1)] del: power_Suc flip: True)
    next
      case False
      then have "length (?dss ! i) = ?m" using length_in_chunks [OF m i'(2)] i'(2) by simp
      from build_full_node_ok [OF cov_i this b(1,2) short b(3) valid] show ?thesis
        using False i' by (auto simp: nth_enumerate_eq)
    qed
  qed
  then obtain nds where "rmap ?f (enumerate 0 ?es) = Ok nds" "length nds = length ?dss"
      "\<forall>i < length ?dss. node_covers ssl c G h (nds ! i) (?dss ! i) \<and> valid_node (nds ! i)"
    using rmap_all [of "enumerate 0 ?es" ?f "\<lambda>i nd. node_covers ssl c G h nd (?dss ! i) \<and> valid_node nd"] len by auto
  then show ?thesis
    using all(1) nb by (intro exI [of _ nds]) (auto simp: level_build_def align_up_def Let_def list_all2_conv_all_nth in_set_conv_nth)
qed

end

section \<open>Heights\<close>

definition height_for :: "nat \<Rightarrow> nat \<Rightarrow> bool" where
  "height_for n t \<longleftrightarrow> 1 \<le> t \<and> n \<le> MHT_NBRANCHES ^ t \<and> (t = 1 \<or> MHT_NBRANCHES ^ (t - 1) < n)"

lemma ilog_bounds: "2 \<le> base \<Longrightarrow> 0 < n \<Longrightarrow> base ^ ilog base n \<le> n \<and> n < base ^ Suc (ilog base n)"
proof (induction base n rule: ilog.induct)
  case (1 base n)
  show ?case
  proof (cases "n < base")
    case True
    then show ?thesis using 1 by (simp add: ilog.simps)
  next
    case False
    then have "base ^ ilog base (n div base) \<le> n div base \<and> n div base < base ^ Suc (ilog base (n div base))"
      using 1 by (simp add: div_greater_zero_iff)
    then have "base * base ^ ilog base (n div base) \<le> n" "n < base * base ^ Suc (ilog base (n div base))"
      using 1(2) by (simp_all add: less_eq_div_iff_mult_less_eq div_less_iff_less_mult mult.commute)
    then show ?thesis using False 1(2) by (subst (1 2) ilog.simps) simp
  qed
qed

lemma calc_target_height_ok:
  assumes "0 < n"
  shows "\<exists>t. calc_target_height n = Ok t \<and> height_for n t"
proof -
  let ?t = "ilog MHT_NBRANCHES n"
  have b: "MHT_NBRANCHES ^ ?t \<le> n" "n < MHT_NBRANCHES ^ Suc ?t"
    using ilog_bounds [of MHT_NBRANCHES n] assms by (simp_all add: MHT_NBRANCHES_eq)
  show ?thesis
  proof (cases "MHT_NBRANCHES ^ ?t < n \<or> ?t = 0")
    case True
    then show ?thesis using assms b by (auto simp: calc_target_height_def Let_def height_for_def)
  next
    case False
    then have "MHT_NBRANCHES ^ ?t = n" "?t \<noteq> 0" using b by auto
    moreover from this have "MHT_NBRANCHES ^ (?t - 1) < n"
      by (metis MHT_NBRANCHES_pos(3) diff_less power_strict_increasing_iff bot_nat_0.not_eq_extremum less_one)
    ultimately show ?thesis using assms by (auto simp: calc_target_height_def Let_def height_for_def)
  qed
qed

lemma height_for_mono:
  assumes "height_for n s" "height_for m t" "n \<le> m"
  shows "s \<le> t"
proof (rule ccontr)
  assume "\<not> s \<le> t"
  then have "s \<noteq> 1" "t \<le> s - 1" using assms(2) by (auto simp: height_for_def)
  then have "MHT_NBRANCHES ^ (s - 1) < n" "n \<le> MHT_NBRANCHES ^ t" "MHT_NBRANCHES ^ t \<le> MHT_NBRANCHES ^ (s - 1)"
    using assms by (auto simp: height_for_def intro: power_increasing)
  then show False by linarith
qed

lemma height_for_u32:
  assumes "height_for n t" "n < 2 ^ 32"
  shows "t \<le> 5" "MHT_NBRANCHES ^ t < 2 ^ 64"
proof -
  show t: "t \<le> 5"
  proof (rule ccontr)
    assume "\<not> t \<le> 5"
    then have "MHT_NBRANCHES ^ 5 \<le> MHT_NBRANCHES ^ (t - 1)" "MHT_NBRANCHES ^ (t - 1) < n"
      using assms(1) by (auto simp: height_for_def intro: power_increasing)
    then show False using assms(2) by (simp add: MHT_NBRANCHES_eq)
  qed
  have "MHT_NBRANCHES ^ t \<le> MHT_NBRANCHES ^ 5" using t by (intro power_increasing) simp_all
  also have "\<dots> < 2 ^ 64" by (simp add: MHT_NBRANCHES_eq)
  finally show "MHT_NBRANCHES ^ t < 2 ^ 64" .
qed

section \<open>The incomplete nodes of a tree\<close>

lemma last_concat: "zs \<noteq> [] \<Longrightarrow> last zs \<noteq> [] \<Longrightarrow> last (concat zs) = last (last zs)"
  by (induction zs) (auto simp: last_append)

lemma last_chunks_chunks:
  assumes "0 < a" "0 < b" "xs \<noteq> []"
  shows "last (chunks_of a (last (chunks_of (b * a) xs))) = last (chunks_of a xs)"
proof -
  have ne: "chunks_of (b * a) xs \<noteq> []" "chunks_of a xs \<noteq> []" using assms by simp_all
  have "last (chunks_of (b * a) xs) \<noteq> []"
    using assms ne last_chunk_length [of "b * a" "length (chunks_of (b * a) xs) - 1" xs]
    by (auto simp: last_conv_nth split: if_splits)
  then have "last (chunks_of a xs) = last (last (map (chunks_of a) (chunks_of (b * a) xs)))"
    using last_concat [of "map (chunks_of a) (chunks_of (b * a) xs)"] ne assms chunks_chunks [OF assms(1,2), of xs]
      concat_chunks [OF assms(2), of "chunks_of a xs"] by (simp add: last_map)
  then show ?thesis using ne by (simp add: last_map)
qed

lemma length_last_chunk: "0 < m \<Longrightarrow> xs \<noteq> [] \<Longrightarrow> length (last (chunks_of m xs)) = (if length xs mod m = 0 then m else length xs mod m)"
  using last_chunk_length [of m "length (chunks_of m xs) - 1" xs] by (simp add: last_conv_nth)

definition valid_entries :: "mht_node \<Rightarrow> bool" where
  "valid_entries nd \<longleftrightarrow> (\<forall>e \<in> set (nd_entries nd). valid_entry e)"

lemma valid_entries_from_bytes: "length p = BLOCK_SIZE \<Longrightarrow> valid_entries (node_from_bytes p)"
proof -
  assume p: "length p = BLOCK_SIZE"
  have "valid_entry (entry_from_bytes (take MHT_ENTRY_SIZE (drop (16 + i * MHT_ENTRY_SIZE) p)))" if "i < MHT_NBRANCHES" for i
  proof -
    let ?bs = "take MHT_ENTRY_SIZE (drop (16 + i * MHT_ENTRY_SIZE) p)"
    have "Suc i * MHT_ENTRY_SIZE \<le> MHT_NBRANCHES * MHT_ENTRY_SIZE" using that by (intro mult_le_mono1) simp
    then have "length ?bs = 40" using p by (simp add: MHT_NBRANCHES_eq MHT_ENTRY_SIZE_def BLOCK_SIZE_def)
    moreover from this have "le_nat (take 8 ?bs) < 2 ^ 64" using le_nat_less [of "take 8 ?bs"] by simp
    ultimately show ?thesis by (simp add: valid_entry_def entry_from_bytes_def aes_sizes)
  qed
  then show ?thesis by (auto simp: valid_entries_def node_from_bytes_def)
qed

text \<open>What a previous build knows about the tree over \<open>old\<close>.\<close>

definition pb_ok :: "openssl \<Rightarrow> bytes \<Rightarrow> (pbid \<Rightarrow> mht_node option) \<Rightarrow> previous_build \<Rightarrow> bytes list \<Rightarrow> bool" where
  "pb_ok ssl c G pb old \<longleftrightarrow> (\<exists>h. pb_height pb = Suc h \<and> node_covers ssl c G h (pb_root pb) old \<and> valid_entries (pb_root pb) \<and>
    height_for (length old) (Suc h) \<and>
    (\<forall>j. map_of (pb_internal_incomplete_nodes pb) (Suc j) \<noteq> None \<longleftrightarrow> j < h \<and> length old mod MHT_NBRANCHES ^ Suc j \<noteq> 0) \<and>
    (\<forall>j nd. map_of (pb_internal_incomplete_nodes pb) (Suc j) = Some nd \<longrightarrow>
      node_covers ssl c G j nd (last (chunks_of (MHT_NBRANCHES ^ Suc j) old)) \<and> valid_entries nd))"

lemma is_incomplete_ok:
  "node_shape h nd ds \<Longrightarrow> MHT_NBRANCHES ^ Suc h < 2 ^ 64 \<Longrightarrow> is_incomplete nd = Ok (length ds \<noteq> MHT_NBRANCHES ^ Suc h)"
  by (simp add: is_incomplete_def node_shape_def max_num_data_nodes_ok)

lemma mod_pow_less: "(n :: nat) mod b ^ Suc j = 0 \<Longrightarrow> i \<le> j \<Longrightarrow> n mod b ^ Suc i = 0"
  by (metis Suc_le_mono dvd_trans le_imp_power_dvd mod_eq_0_iff_dvd)

context mht_setting
begin

lemma read_last_child_ok:
  assumes "storage_ok E linv cinv holds G st" "node_covers (me_ssl E) (content (ms_block_log st)) G (Suc h) nd ds"
  shows "\<exists>nd' st'. read_last_child E nd st = Ok (nd', st') \<and> storage_ok E linv cinv holds G st' \<and>
    ms_block_log st' = ms_block_log st \<and> valid_entries nd' \<and>
    node_covers (me_ssl E) (content (ms_block_log st)) G h nd' (last (chunks_of (MHT_NBRANCHES ^ Suc h) ds))"
proof -
  let ?n = "num_valid_entries nd" and ?dss = "chunks_of (MHT_NBRANCHES ^ Suc h) ds"
  have sh: "?n = length ?dss" "length (nd_entries nd) = MHT_NBRANCHES" "ds \<noteq> []"
    using assms(2) by (auto simp: node_covers_def node_shape_def)
  have all: "list_all2 (covers (me_ssl E) (content (ms_block_log st)) G (Suc h)) (take ?n (nd_entries nd)) ?dss"
    using assms(2) by (simp add: node_covers_def)
  then have le: "?n \<le> MHT_NBRANCHES" using list_all2_lengthD [OF all] sh by simp
  have pos: "0 < ?n" using sh by simp
  let ?e = "nd_entries nd ! (?n - 1)"
  have "covers (me_ssl E) (content (ms_block_log st)) G (Suc h) ?e (last ?dss)"
    using list_all2_nthD2 [OF all, of "?n - 1"] pos sh by (simp add: last_conv_nth del: power_Suc)
  then obtain nd' p where nd': "G (en_pos ?e) = Some nd'"
      "sealed (me_ssl E) (content (ms_block_log st)) (en_pos ?e) (en_key ?e) iv_zeroed (en_mac ?e) p" "node_from_bytes p = nd'"
      "node_covers (me_ssl E) (content (ms_block_log st)) G h nd' (last ?dss)"
    unfolding covers_Suc by blast
  moreover have "valid_entries nd'" using nd'(2,3) valid_entries_from_bytes by (auto simp: sealed_def)
  ultimately show ?thesis
    using read_mht_node_ok [OF assms(1) nd'(1,2,3)] pos le sh(2) by (auto simp: read_last_child_def)
qed

lemma collect_loop_ok:
  assumes "storage_ok E linv cinv holds G st" "old \<noteq> []" "h < fuel" "MHT_NBRANCHES ^ Suc h < 2 ^ 64"
    and "node_covers (me_ssl E) (content (ms_block_log st)) G h nd (last (chunks_of (MHT_NBRANCHES ^ Suc h) old))" "valid_entries nd"
    and "\<forall>j \<le> h. map_of nodes (Suc j) = None"
  shows "\<exists>nodes' st'. collect_loop E fuel nd nodes st = Ok (nodes', st') \<and> storage_ok E linv cinv holds G st' \<and>
    ms_block_log st' = ms_block_log st \<and> (\<forall>j > h. map_of nodes' (Suc j) = map_of nodes (Suc j)) \<and>
    (\<forall>j \<le> h. map_of nodes' (Suc j) \<noteq> None \<longleftrightarrow> length old mod MHT_NBRANCHES ^ Suc j \<noteq> 0) \<and>
    (\<forall>j nd. j \<le> h \<longrightarrow> map_of nodes' (Suc j) = Some nd \<longrightarrow>
      node_covers (me_ssl E) (content (ms_block_log st)) G j nd (last (chunks_of (MHT_NBRANCHES ^ Suc j) old)) \<and> valid_entries nd)"
  using assms
proof (induction h arbitrary: fuel nd nodes st)
  case 0
  then obtain fuel' where f: "fuel = Suc fuel'" by (cases fuel) auto
  have sh: "node_shape 0 nd (last (chunks_of (MHT_NBRANCHES ^ Suc 0) old))" using 0(5) by (simp add: node_covers_def)
  have inc: "is_incomplete nd = Ok (length old mod MHT_NBRANCHES \<noteq> 0)"
    using is_incomplete_ok [OF sh 0(4)] length_last_chunk [of MHT_NBRANCHES old] 0(2) mod_less_divisor [of MHT_NBRANCHES "length old"]
    by (auto split: if_splits simp del: mod_less_divisor)
  show ?case
  proof (cases "length old mod MHT_NBRANCHES = 0")
    case True
    then show ?thesis using 0 f inc by (intro exI [of _ nodes] exI [of _ st]) simp
  next
    case False
    then show ?thesis using 0 f inc sh
      by (intro exI [of _ "AList.update (Suc 0) nd nodes"] exI [of _ st])
        (simp add: Let_def is_lowest_level_def node_shape_def update_conv')
  qed
next
  case (Suc h)
  obtain fuel' where f: "fuel = Suc fuel'" "h < fuel'" using Suc.prems(3) by (cases fuel) auto
  let ?m = "MHT_NBRANCHES ^ Suc (Suc h)"
  have sh: "node_shape (Suc h) nd (last (chunks_of ?m old))" using Suc.prems(5) by (simp add: node_covers_def)
  have inc: "is_incomplete nd = Ok (length old mod ?m \<noteq> 0)"
    using is_incomplete_ok [OF sh Suc.prems(4)] length_last_chunk [of ?m old] Suc.prems(2) mod_less_divisor [of ?m "length old"]
    by (auto split: if_splits simp del: mod_less_divisor power_Suc)
  show ?case
  proof (cases "length old mod ?m = 0")
    case True
    have "length old mod MHT_NBRANCHES ^ Suc j = 0" if "j \<le> Suc h" for j by (rule mod_pow_less [OF True that])
    then show ?thesis using Suc.prems f inc True by (intro exI [of _ nodes] exI [of _ st]) (auto simp del: power_Suc)
  next
    case False
    have "MHT_NBRANCHES ^ Suc h \<le> ?m" by (intro power_increasing) simp_all
    then have m: "MHT_NBRANCHES ^ Suc h < 2 ^ 64" using Suc.prems(4) by (rule le_less_trans)
    let ?nodes = "AList.update (Suc (Suc h)) nd nodes"
    obtain nd' st1 where r: "read_last_child E nd st = Ok (nd', st1)" "storage_ok E linv cinv holds G st1"
        "ms_block_log st1 = ms_block_log st" "valid_entries nd'"
        "node_covers (me_ssl E) (content (ms_block_log st)) G h nd' (last (chunks_of (MHT_NBRANCHES ^ Suc h) old))"
      using read_last_child_ok [OF Suc.prems(1,5)] last_chunks_chunks [of "MHT_NBRANCHES ^ Suc h" MHT_NBRANCHES old] Suc.prems(2)
      by (auto simp: mult.assoc)
    have none: "\<forall>j \<le> h. map_of ?nodes (Suc j) = None" using Suc.prems(7) by (simp add: update_conv')
    obtain nodes' st' where IH: "collect_loop E fuel' nd' ?nodes st1 = Ok (nodes', st')" "storage_ok E linv cinv holds G st'"
        "ms_block_log st' = ms_block_log st1" "\<forall>j > h. map_of nodes' (Suc j) = map_of ?nodes (Suc j)"
        "\<forall>j \<le> h. map_of nodes' (Suc j) \<noteq> None \<longleftrightarrow> length old mod MHT_NBRANCHES ^ Suc j \<noteq> 0"
        "\<forall>j nd. j \<le> h \<longrightarrow> map_of nodes' (Suc j) = Some nd \<longrightarrow>
          node_covers (me_ssl E) (content (ms_block_log st1)) G j nd (last (chunks_of (MHT_NBRANCHES ^ Suc j) old)) \<and> valid_entries nd"
      using Suc.IH [OF r(2) Suc.prems(2) f(2) m _ r(4) none] r(3,5) by auto
    have top: "map_of nodes' (Suc (Suc h)) = Some nd" using IH(4) by (simp add: update_conv')
    have "collect_loop E fuel nd nodes st = Ok (nodes', st')"
      using f inc False sh r(1) IH(1) by (simp add: Let_def is_lowest_level_def node_shape_def del: power_Suc)
    moreover have "\<forall>j > Suc h. map_of nodes' (Suc j) = map_of nodes (Suc j)" using IH(4) by (simp add: update_conv')
    moreover have "\<forall>j \<le> Suc h. map_of nodes' (Suc j) \<noteq> None \<longleftrightarrow> length old mod MHT_NBRANCHES ^ Suc j \<noteq> 0"
      using IH(5) top False by (auto simp: le_Suc_eq simp del: power_Suc)
    moreover have "\<forall>j nd. j \<le> Suc h \<longrightarrow> map_of nodes' (Suc j) = Some nd \<longrightarrow>
        node_covers (me_ssl E) (content (ms_block_log st)) G j nd (last (chunks_of (MHT_NBRANCHES ^ Suc j) old)) \<and> valid_entries nd"
      using IH(6) top Suc.prems(5,6) r(3) by (auto simp: le_Suc_eq simp del: power_Suc)
    ultimately show ?thesis using IH(2,3) r(3) by (intro exI [of _ nodes'] exI [of _ st']) simp
  qed
qed

lemma previous_build_ok:
  assumes "storage_ok E linv cinv holds G st" "node_covers (me_ssl E) (content (ms_block_log st)) G h root old" "valid_entries root"
    and "height_for (length old) (Suc h)" "length old < 2 ^ 32"
  shows "\<exists>pb st'. previous_build_new E root st = Ok (pb, st') \<and> storage_ok E linv cinv holds G st' \<and>
    ms_block_log st' = ms_block_log st \<and> pb_root pb = root \<and> pb_ok (me_ssl E) (content (ms_block_log st)) G pb old"
proof -
  have sh: "node_shape h root old" "old \<noteq> []" using assms(2) by (auto simp: node_covers_def node_shape_def)
  have m: "MHT_NBRANCHES ^ Suc h < 2 ^ 64" "h < 5" using height_for_u32 [OF assms(4,5)] by auto
  note inc = is_incomplete_ok [OF sh(1) m(1)]
  let ?pb = "\<lambda>nodes. \<lparr>pb_root = root, pb_height = node_height root, pb_internal_incomplete_nodes = nodes\<rparr>"
  show ?thesis
  proof (cases "length old = MHT_NBRANCHES ^ Suc h \<or> h = 0")
    case True
    then have "length old mod MHT_NBRANCHES ^ Suc j = 0" if "j < h" for j
      using that mod_pow_less [of "length old" MHT_NBRANCHES h j] by auto
    then have "pb_ok (me_ssl E) (content (ms_block_log st)) G (?pb []) old"
      using assms sh by (auto simp: pb_ok_def node_shape_def)
    then show ?thesis
      using assms(1) inc sh True by (intro exI [of _ "?pb []"] exI [of _ st])
        (auto simp: previous_build_new_def collect_incomplete_nodes_def is_lowest_level_def node_shape_def)
  next
    case False
    then obtain h' where h': "h = Suc h'" by (cases h) auto
    obtain nd st1 where r: "read_last_child E root st = Ok (nd, st1)" "storage_ok E linv cinv holds G st1"
        "ms_block_log st1 = ms_block_log st" "valid_entries nd"
        "node_covers (me_ssl E) (content (ms_block_log st)) G h' nd (last (chunks_of (MHT_NBRANCHES ^ Suc h') old))"
      using read_last_child_ok [of G st h' root old] assms(1,2) h' by auto
    have "MHT_NBRANCHES ^ Suc h' \<le> MHT_NBRANCHES ^ Suc h" using h' by (intro power_increasing) simp_all
    then have m': "MHT_NBRANCHES ^ Suc h' < 2 ^ 64" using m(1) by (rule le_less_trans)
    obtain nodes st' where c: "collect_loop E 256 nd [] st1 = Ok (nodes, st')" "storage_ok E linv cinv holds G st'"
        "ms_block_log st' = ms_block_log st1" "\<forall>j > h'. map_of nodes (Suc j) = None"
        "\<forall>j \<le> h'. map_of nodes (Suc j) \<noteq> None \<longleftrightarrow> length old mod MHT_NBRANCHES ^ Suc j \<noteq> 0"
        "\<forall>j nd. j \<le> h' \<longrightarrow> map_of nodes (Suc j) = Some nd \<longrightarrow>
          node_covers (me_ssl E) (content (ms_block_log st1)) G j nd (last (chunks_of (MHT_NBRANCHES ^ Suc j) old)) \<and> valid_entries nd"
      using collect_loop_ok [OF r(2) sh(2) _ m' _ r(4), of 256 "[]"] r(3,5) m(2) h' by auto
    have dom: "map_of nodes (Suc j) \<noteq> None \<longleftrightarrow> j < h \<and> length old mod MHT_NBRANCHES ^ Suc j \<noteq> 0" for j
      using c(4,5) h' by (cases "j \<le> h'") (auto simp del: power_Suc)
    have "node_covers (me_ssl E) (content (ms_block_log st)) G j nd (last (chunks_of (MHT_NBRANCHES ^ Suc j) old)) \<and> valid_entries nd"
      if "map_of nodes (Suc j) = Some nd" for j nd
      using c(6) [rule_format, OF _ that] dom [of j] that r(3) h' by simp
    then have "pb_ok (me_ssl E) (content (ms_block_log st)) G (?pb nodes) old"
      unfolding pb_ok_def using assms(2-4) sh dom
      by (intro exI [of _ h]) (simp add: node_shape_def del: power_Suc)
    moreover have "previous_build_new E root st = Ok (?pb nodes, st')"
      using inc False sh r(1) c(1) by (simp add: previous_build_new_def collect_incomplete_nodes_def is_lowest_level_def node_shape_def del: power_Suc)
    ultimately show ?thesis using c(2,3) r(3) by (intro exI [of _ "?pb nodes"] exI [of _ st']) simp
  qed
qed

end

section \<open>Rebuilding a tree\<close>

text \<open>
  The number of complete children of a node is computed from the number of its data blocks modulo 102 alone. It is right
  unless this number is a multiple of 102 while the last child of the root is incomplete, which needs a tree of height
  three or more.
\<close>

definition rebuild_ok :: "nat \<Rightarrow> bool" where
  "rebuild_ok n \<longleftrightarrow> n mod MHT_NBRANCHES = 0 \<longrightarrow> (\<forall>t. height_for n t \<longrightarrow> n mod MHT_NBRANCHES ^ (t - 1) = 0)"

lemma ceil_div_eq: "0 < b \<Longrightarrow> ceil_div a b = a div b + (if a mod b = 0 then 0 else 1)"
proof -
  assume b: "0 < b"
  have a: "a = a div b * b + a mod b" by simp
  show ?thesis
  proof (cases "a mod b = 0")
    case True
    then have "ceil_div a b = ceil_div (a div b * b) b" using a by simp
    then show ?thesis using True b by simp
  next
    case False
    then obtain r where r: "a mod b = Suc r" by (cases "a mod b") auto
    have "r < b" using r mod_less_divisor [OF b, of a] by simp
    moreover have "a + b - 1 = r + Suc (a div b) * b" using a r by simp
    ultimately show ?thesis using False b unfolding ceil_div_def by (simp only: div_mult_self1) simp
  qed
qed

lemma num_complete_children_ok:
  assumes "node_shape h nd ds" "length ds mod MHT_NBRANCHES = 0 \<longrightarrow> length ds mod MHT_NBRANCHES ^ h = 0"
  shows "num_complete_children nd = Ok (length ds div MHT_NBRANCHES ^ h)"
proof -
  have v: "num_valid_entries nd = length ds div MHT_NBRANCHES ^ h + (if length ds mod MHT_NBRANCHES ^ h = 0 then 0 else 1)"
    using assms(1) by (simp add: node_shape_def length_chunks ceil_div_eq)
  have nd: "node_height nd = Suc h" "num_data_nodes nd = length ds" using assms(1) by (simp_all add: node_shape_def)
  show ?thesis
  proof (cases "length ds mod MHT_NBRANCHES = 0 \<or> h = 0")
    case True
    then show ?thesis using assms(2) v nd by (auto simp: num_complete_children_def is_lowest_level_def)
  next
    case False
    then have "MHT_NBRANCHES dvd MHT_NBRANCHES ^ h" by (simp add: dvd_power)
    then have "length ds mod MHT_NBRANCHES ^ h \<noteq> 0" using False by (metis dvd_trans mod_eq_0_iff_dvd)
    then show ?thesis using False nd v by (simp add: num_complete_children_def is_lowest_level_def)
  qed
qed

definition prev_ok ::
    "openssl \<Rightarrow> bytes \<Rightarrow> (pbid \<Rightarrow> mht_node option) \<Rightarrow> previous_build option \<Rightarrow> bytes list \<Rightarrow> nat \<Rightarrow> bool" where
  "prev_ok ssl c G pre old t \<longleftrightarrow>
    (case pre of None \<Rightarrow> old = [] \<and> t = 0 | Some pb \<Rightarrow> pb_ok ssl c G pb old \<and> pb_height pb = t)"

lemma prev_ok_mono:
  assumes "prev_ok ssl c G pre old t" "G \<subseteq>\<^sub>m G'"
  shows "prev_ok ssl (c @ c') G' pre old t"
proof (cases pre)
  case (Some pb)
  note m = node_covers_mono [OF _ assms(2), where c' = c']
  obtain h where "pb_height pb = Suc h" "node_covers ssl c G h (pb_root pb) old" "valid_entries (pb_root pb)"
      "height_for (length old) (Suc h)"
      "\<forall>j. map_of (pb_internal_incomplete_nodes pb) (Suc j) \<noteq> None \<longleftrightarrow> j < h \<and> length old mod MHT_NBRANCHES ^ Suc j \<noteq> 0"
      "\<forall>j nd. map_of (pb_internal_incomplete_nodes pb) (Suc j) = Some nd \<longrightarrow>
        node_covers ssl c G j nd (last (chunks_of (MHT_NBRANCHES ^ Suc j) old)) \<and> valid_entries nd"
    using assms(1) Some by (auto simp: prev_ok_def pb_ok_def simp del: power_Suc)
  then have "pb_ok ssl (c @ c') G' pb old" unfolding pb_ok_def using m by (intro exI [of _ h] conjI) blast+
  then show ?thesis using assms(1) Some by (simp add: prev_ok_def)
qed (use assms in \<open>simp add: prev_ok_def\<close>)

text \<open>The complete pieces of level \<open>h\<close> that a rebuild keeps.\<close>

definition kept :: "nat \<Rightarrow> nat \<Rightarrow> nat \<Rightarrow> nat" where
  "kept n t h = (if h < t then n div MHT_NBRANCHES ^ h else 0)"

lemma prefix_pieces:
  assumes "list_all2 P (take v es) (chunks_of a xs)" "0 < a" "k * a \<le> length xs" "v \<le> length es"
  shows "list_all2 P (take k es) (take k (chunks_of a (xs @ ys)))"
proof -
  have v: "v = length (chunks_of a xs)" using list_all2_lengthD [OF assms(1)] assms(4) by simp
  have "k \<le> v"
  proof (rule ccontr)
    assume "\<not> k \<le> v"
    then have "Suc v * a \<le> k * a" by (intro mult_le_mono1) simp
    moreover have "length xs \<le> v * a" using length_chunks_le [OF assms(2), of xs v] v by simp
    ultimately show False using assms(2,3) by simp
  qed
  then have "list_all2 P (take k es) (take k (chunks_of a xs))"
    using list_all2_takeI [OF assms(1), of k] by (simp add: min_def)
  then show ?thesis using assms(2,3) by (simp add: take_chunks)
qed

lemma pieces_split:
  assumes "list_all2 P as (take k xs)" "list_all2 P bs (drop k xs)"
  shows "list_all2 P (as @ bs) xs"
  using list_all2_appendI [OF assms] by simp

text \<open>All entries of a level: those of the previous node of this level and the new ones.\<close>

lemma root_entries:
  assumes "pb_ok ssl c G pb old" "pb_height pb = Suc h" "rebuild_ok (length old)"
    "list_all2 (covers ssl c G h) les (drop (kept (length old) (Suc h) h) (chunks_of (MHT_NBRANCHES ^ h) (old @ new)))"
  shows "\<exists>n. num_complete_children (pb_root pb) = Ok n \<and>
    list_all2 (covers ssl c G h) (take n (nd_entries (pb_root pb)) @ les) (chunks_of (MHT_NBRANCHES ^ h) (old @ new))"
proof -
  let ?n = "length old" and ?a = "MHT_NBRANCHES ^ h"
  have r: "node_shape h (pb_root pb) old" "height_for ?n (Suc h)"
      "list_all2 (covers ssl c G h) (take (num_valid_entries (pb_root pb)) (nd_entries (pb_root pb))) (chunks_of ?a old)"
    using assms(1,2) by (auto simp: pb_ok_def node_covers_def)
  have "?n mod MHT_NBRANCHES = 0 \<longrightarrow> ?n mod ?a = 0" using assms(3) r(2) by (auto simp: rebuild_ok_def)
  then have "num_complete_children (pb_root pb) = Ok (?n div ?a)" by (rule num_complete_children_ok [OF r(1)])
  moreover have "length old \<le> MHT_NBRANCHES * ?a" using r(1) by (simp add: node_shape_def)
  then have "num_valid_entries (pb_root pb) \<le> length (nd_entries (pb_root pb))"
    using r(1) length_chunks_le [of ?a old MHT_NBRANCHES] by (simp add: node_shape_def)
  then have "list_all2 (covers ssl c G h) (take (?n div ?a) (nd_entries (pb_root pb))) (take (?n div ?a) (chunks_of ?a (old @ new)))"
    by (intro prefix_pieces [OF r(3)]) simp_all
  ultimately show ?thesis using assms(4) pieces_split by (force simp: kept_def)
qed

lemma internal_entries:
  assumes "pb_ok ssl c G pb old" "pb_height pb = t" "Suc h < t" "rebuild_ok (length old)"
    "map_of (pb_internal_incomplete_nodes pb) (Suc h) = Some nd"
    "list_all2 (covers ssl c G h) les (drop (kept (length old) t h) (chunks_of (MHT_NBRANCHES ^ h) (old @ new)))"
  shows "\<exists>n. num_complete_children nd = Ok n \<and> valid_entries nd \<and>
    list_all2 (covers ssl c G h) (take n (nd_entries nd) @ les)
      (chunks_of (MHT_NBRANCHES ^ h) (drop (length old div MHT_NBRANCHES ^ Suc h * MHT_NBRANCHES ^ Suc h) (old @ new)))"
proof -
  let ?n = "length old" and ?a = "MHT_NBRANCHES ^ h" and ?m = "MHT_NBRANCHES ^ Suc h"
  let ?q = "?n div ?m" and ?x = "last (chunks_of ?m old)"
  have p: "?n mod ?m \<noteq> 0" "node_covers ssl c G h nd ?x" "valid_entries nd" "height_for ?n t" "old \<noteq> []"
    using assms(1,2,5) unfolding pb_ok_def by (auto simp: node_covers_def node_shape_def simp del: power_Suc)
  have len: "length (chunks_of ?m old) = Suc ?q"
    using p(1) length_chunks [of ?m old] ceil_div_eq [of ?m ?n] by (simp del: power_Suc)
  have x: "?x = drop (?q * ?m) old" using last_chunks [of ?m old] p(5) len by simp
  then have lx: "length ?x = ?n mod ?m" by (simp add: minus_div_mult_eq_mod del: power_Suc)
  have "?n mod MHT_NBRANCHES \<noteq> 0"
  proof
    assume "?n mod MHT_NBRANCHES = 0"
    then have "?n mod MHT_NBRANCHES ^ (t - 1) = 0" using assms(4) p(4) by (simp add: rebuild_ok_def)
    moreover have "?m dvd MHT_NBRANCHES ^ (t - 1)" using assms(3) by (intro le_imp_power_dvd) simp
    ultimately show False using p(1) by (metis dvd_trans mod_eq_0_iff_dvd)
  qed
  then have "length ?x mod MHT_NBRANCHES \<noteq> 0" unfolding lx by (simp add: mod_mod_cancel)
  then have cc: "num_complete_children nd = Ok (length ?x div ?a)"
    using num_complete_children_ok [of h nd ?x] p(2) by (simp add: node_covers_def)
  let ?k = "length ?x div ?a"
  have "length ?x \<le> MHT_NBRANCHES * ?a" using p(2) by (simp add: node_covers_def node_shape_def)
  then have "num_valid_entries nd \<le> length (nd_entries nd)"
    using p(2) length_chunks_le [of ?a ?x MHT_NBRANCHES] by (simp add: node_covers_def node_shape_def)
  then have "list_all2 (covers ssl c G h) (take ?k (nd_entries nd)) (take ?k (chunks_of ?a (?x @ new)))"
    using p(2) by (intro prefix_pieces [of _ "num_valid_entries nd"]) (simp_all add: node_covers_def)
  moreover have "?n div ?a = ?q * MHT_NBRANCHES + ?k"
  proof -
    have "?n = ?q * MHT_NBRANCHES * ?a + length ?x" unfolding lx by (metis div_mult_mod_eq mult.assoc power_Suc)
    then show ?thesis by (metis add.commute div_mult_self2 power_not_zero MHT_NBRANCHES_pos(2) mult.commute)
  qed
  then have kq: "kept ?n t h = ?k + ?q * MHT_NBRANCHES" using assms(3) by (simp add: kept_def)
  have dr: "drop (?q * ?m) (old @ new) = ?x @ new" using x by simp
  have "drop (?q * MHT_NBRANCHES) (chunks_of ?a (old @ new)) = chunks_of ?a (?x @ new)"
    unfolding dr [symmetric] by (simp only: drop_chunks [of ?a] power_Suc mult.assoc zero_less_power MHT_NBRANCHES_pos)
  then have "drop (kept ?n t h) (chunks_of ?a (old @ new)) = drop ?k (chunks_of ?a (?x @ new))"
    unfolding kq drop_drop [symmetric] by simp
  ultimately have "list_all2 (covers ssl c G h) (take ?k (nd_entries nd) @ les) (chunks_of ?a (?x @ new))"
    using assms(6) pieces_split by force
  then show ?thesis using cc p(3) dr by auto
qed

lemma level_entries:
  assumes "prev_ok ssl c G pre old t" "rebuild_ok (length old)" "\<forall>e \<in> set les. valid_entry e"
    "list_all2 (covers ssl c G h) les (drop (kept (length old) t h) (chunks_of (MHT_NBRANCHES ^ h) (old @ new)))"
  shows "\<exists>all. (case (case pre of None \<Rightarrow> None | Some pre \<Rightarrow> target_node pre (Suc h)) of
        Some pre_node \<Rightarrow> rbind (num_complete_children pre_node) (\<lambda>n. Ok (take n (nd_entries pre_node) @ les))
      | None \<Rightarrow> Ok les) = Ok all \<and> (\<forall>e \<in> set all. valid_entry e) \<and>
    list_all2 (covers ssl c G h) all
      (chunks_of (MHT_NBRANCHES ^ h) (drop (kept (length old) t (Suc h) * MHT_NBRANCHES ^ Suc h) (old @ new)))"
proof (cases pre)
  case None
  then show ?thesis using assms by (auto simp: prev_ok_def kept_def)
next
  case (Some pb)
  then have pb: "pb_ok ssl c G pb old" "pb_height pb = t" using assms(1) by (simp_all add: prev_ok_def)
  have sub: "\<forall>e \<in> set (take n (nd_entries nd) @ les). valid_entry e" if "valid_entries nd" for n nd
    using that assms(3) by (auto simp: valid_entries_def dest: in_set_takeD)
  have root: "valid_entries (pb_root pb)" using pb(1) by (auto simp: pb_ok_def)
  consider "t = Suc h" | "t < Suc h" | "Suc h < t" by linarith
  then show ?thesis
  proof cases
    case 1
    then obtain n where "num_complete_children (pb_root pb) = Ok n"
        "list_all2 (covers ssl c G h) (take n (nd_entries (pb_root pb)) @ les) (chunks_of (MHT_NBRANCHES ^ h) (old @ new))"
      using root_entries [OF pb(1) _ assms(2)] pb(2) assms(4) by blast
    then show ?thesis using 1 Some pb(2) sub [OF root, of n] by (simp add: target_node_def kept_def)
  next
    case 2
    obtain h0 where h0: "t = Suc h0" "map_of (pb_internal_incomplete_nodes pb) (Suc h) \<noteq> None \<longleftrightarrow> h < h0 \<and> length old mod MHT_NBRANCHES ^ Suc h \<noteq> 0"
      using pb by (auto simp: pb_ok_def simp del: power_Suc)
    then have "target_node pb (Suc h) = None" using 2 pb(2) by (simp add: target_node_def)
    then show ?thesis using 2 Some assms(3,4) by (simp add: kept_def)
  next
    case 3
    let ?m = "MHT_NBRANCHES ^ Suc h"
    have iff: "map_of (pb_internal_incomplete_nodes pb) (Suc h) \<noteq> None \<longleftrightarrow> length old mod ?m \<noteq> 0"
      using pb 3 by (auto simp: pb_ok_def simp del: power_Suc)
    have tn: "target_node pb (Suc h) = map_of (pb_internal_incomplete_nodes pb) (Suc h)" using 3 pb(2) by (simp add: target_node_def)
    show ?thesis
    proof (cases "map_of (pb_internal_incomplete_nodes pb) (Suc h)")
      case None
      then have "length old mod ?m = 0" using iff by simp
      then obtain q where q: "length old = q * ?m" by (metis mod_0_imp_dvd dvdE mult.commute)
      then have "length old = q * MHT_NBRANCHES * MHT_NBRANCHES ^ h" by simp
      then have "length old div MHT_NBRANCHES ^ h = q * MHT_NBRANCHES" by (simp only: nonzero_mult_div_cancel_right power_not_zero MHT_NBRANCHES_pos not_False_eq_True)
      then have "length old div MHT_NBRANCHES ^ h = length old div ?m * MHT_NBRANCHES" using q by simp
      then have "drop (kept (length old) t h) (chunks_of (MHT_NBRANCHES ^ h) (old @ new)) =
          chunks_of (MHT_NBRANCHES ^ h) (drop (kept (length old) t (Suc h) * ?m) (old @ new))"
        using 3 by (simp add: kept_def drop_chunks mult.assoc)
      then show ?thesis using None Some tn assms(3,4) by simp
    next
      case (Some nd)
      obtain n where "num_complete_children nd = Ok n" "valid_entries nd"
          "list_all2 (covers ssl c G h) (take n (nd_entries nd) @ les)
            (chunks_of (MHT_NBRANCHES ^ h) (drop (length old div ?m * ?m) (old @ new)))"
        using internal_entries [OF pb 3 assms(2) Some assms(4)] by blast
      then show ?thesis using Some \<open>pre = Some pb\<close> tn 3 sub [of nd n] by (simp add: kept_def)
    qed
  qed
qed

text \<open>The number of nodes that a rebuild writes at a level.\<close>

lemma level_size:
  assumes "t \<noteq> 0 \<longrightarrow> height_for (length old) t" "t = 0 \<longrightarrow> old = []"
  shows "length (chunks_of (MHT_NBRANCHES ^ l) (drop (kept (length old) t l * MHT_NBRANCHES ^ l) (old @ new))) \<le> Suc (length new)"
proof -
  let ?m = "MHT_NBRANCHES ^ l"
  have m: "0 < ?m" by simp
  have "length (drop (kept (length old) t l * ?m) (old @ new)) \<le> ?m + length new"
  proof (cases "l < t")
    case True
    have "length old mod ?m < ?m" using m by (rule mod_less_divisor)
    then show ?thesis using True by (simp add: kept_def minus_div_mult_eq_mod)
  next
    case False
    then have "length old \<le> ?m"
    proof (cases "t = 0")
      case False
      have "MHT_NBRANCHES ^ t \<le> ?m" using \<open>\<not> l < t\<close> by (intro power_increasing) simp_all
      then show ?thesis using assms(1) False by (auto simp only: height_for_def intro: le_trans)
    qed (use assms(2) in simp)
    then show ?thesis using False by (simp add: kept_def)
  qed
  also have "\<dots> \<le> Suc (length new) * ?m" using m by simp
  finally show ?thesis by (simp add: length_chunks_le)
qed

lemma level_nonempty:
  assumes "new \<noteq> [] \<or> length old mod MHT_NBRANCHES \<noteq> 0 \<or> t \<le> 1" "old @ new \<noteq> []" "1 \<le> l"
  shows "drop (kept (length old) t l * MHT_NBRANCHES ^ l) (old @ new) \<noteq> []"
proof (cases "l < t \<and> new = []")
  case True
  then have "length old mod MHT_NBRANCHES \<noteq> 0" using assms(1,3) by auto
  moreover have "MHT_NBRANCHES dvd MHT_NBRANCHES ^ l" using assms(3) by (simp add: dvd_power)
  ultimately have "length old mod MHT_NBRANCHES ^ l \<noteq> 0" by (metis dvd_trans mod_eq_0_iff_dvd)
  then have "length old div MHT_NBRANCHES ^ l * MHT_NBRANCHES ^ l < length old"
    by (metis add_cancel_right_right div_mult_mod_eq le_neq_implies_less times_div_less_eq_dividend mult.commute)
  then show ?thesis using True by (simp add: kept_def)
next
  case False
  have "kept (length old) t l * MHT_NBRANCHES ^ l \<le> length old" by (simp add: kept_def)
  then show ?thesis using False assms(2) by (cases "new = []") (auto simp: kept_def)
qed

lemma total_mod:
  assumes "kept n t l * m \<le> n'" "m = MHT_NBRANCHES ^ l"
  shows "n' mod m = (n' - kept n t l * m) mod m"
  using assms by (metis le_add_diff_inverse2 mod_mult_self1)

context mht_setting
begin

lemma level_step:
  assumes "prev_ok ssl c G pre old t" "rebuild_ok (length old)" "\<forall>e \<in> set les. valid_entry e"
    and "list_all2 (covers ssl c G h) les (drop (kept (length old) t h) (chunks_of (MHT_NBRANCHES ^ h) (old @ new)))"
    and "height_for (length (old @ new)) T" "length (old @ new) < 2 ^ 32" "Suc h \<le> T"
  shows "\<exists>nds. level_build E \<lparr>lb_level_entries = les, lb_total_data_nodes = length (old @ new), lb_height = Suc h,
        lb_previous_incomplete_node = (case pre of None \<Rightarrow> None | Some pre \<Rightarrow> target_node pre (Suc h))\<rparr> = Ok nds \<and>
    list_all2 (node_covers ssl c G h) nds
      (chunks_of (MHT_NBRANCHES ^ Suc h) (drop (kept (length old) t (Suc h) * MHT_NBRANCHES ^ Suc h) (old @ new))) \<and>
    (\<forall>nd \<in> set nds. valid_node nd)"
proof -
  let ?m = "MHT_NBRANCHES ^ Suc h" and ?k = "kept (length old) t (Suc h)"
  obtain all where all: "(case (case pre of None \<Rightarrow> None | Some pre \<Rightarrow> target_node pre (Suc h)) of
        Some pre_node \<Rightarrow> rbind (num_complete_children pre_node) (\<lambda>n. Ok (take n (nd_entries pre_node) @ les))
      | None \<Rightarrow> Ok les) = Ok all" "\<forall>e \<in> set all. valid_entry e"
    "list_all2 (covers ssl c G h) all (chunks_of (MHT_NBRANCHES ^ h) (drop (?k * ?m) (old @ new)))"
    using level_entries [OF assms(1-4)] by blast
  have "?m \<le> MHT_NBRANCHES ^ T" using assms(7) by (intro power_increasing) simp_all
  then have m: "?m < 2 ^ 64" using height_for_u32(2) [OF assms(5,6)] by (rule le_less_trans)
  have h: "h < 255" using height_for_u32(1) [OF assms(5,6)] assms(7) by simp
  have "?k * ?m \<le> length old" by (simp add: kept_def del: power_Suc)
  then have tm: "length (old @ new) mod ?m = length (drop (?k * ?m) (old @ new)) mod ?m"
    using total_mod [of "length old" t "Suc h" ?m "length (old @ new)"] by (simp del: power_Suc)
  show ?thesis
  proof (rule level_build_ok [OF _ all(2,3) _ m h], unfold level_builder.select_convs)
    show "(case (case pre of None \<Rightarrow> None | Some pre \<Rightarrow> target_node pre (Suc h)) of
        None \<Rightarrow> Ok les
      | Some pre_node \<Rightarrow> rbind (num_complete_children pre_node) (\<lambda>n. Ok (take n (nd_entries pre_node) @ les))) = Ok all"
      by (rule all(1))
    show "length (drop (?k * ?m) (old @ new)) < 2 ^ 32" using assms(6) by simp
    show "length (old @ new) mod ?m = length (drop (?k * ?m) (old @ new)) mod ?m" by (rule tm)
  qed simp
qed

lemma build_hierarchy_ok:
  assumes "storage_ok E linv cinv holds G st" "prev_ok (me_ssl E) (content (ms_block_log st)) G pre old t"
    and "rebuild_ok (length old)" "new \<noteq> [] \<or> length old mod MHT_NBRANCHES \<noteq> 0 \<or> t \<le> 1"
    and "t \<noteq> 0 \<longrightarrow> height_for (length old) t" "\<forall>e \<in> set les. valid_entry e"
    and "list_all2 (covers (me_ssl E) (content (ms_block_log st)) G h) les
      (drop (kept (length old) t h) (chunks_of (MHT_NBRANCHES ^ h) (old @ new)))"
    and "height_for (length (old @ new)) T" "old @ new \<noteq> []" "length (old @ new) < 2 ^ 32" "Suc h \<le> T" "random_ok rnd"
    and "room (ms_block_log st) ((T - Suc h) * Suc (length new) + k)"
  shows "\<exists>root st' x G'. build_hierarchy E rnd pre les (length (old @ new)) (Suc h) T st = Ok (root, st') \<and>
    storage_ok E linv cinv holds G' st' \<and> G \<subseteq>\<^sub>m G' \<and> content (ms_block_log st') = content (ms_block_log st) @ x \<and>
    room (ms_block_log st') k \<and> node_covers (me_ssl E) (content (ms_block_log st')) G' (T - 1) root (old @ new) \<and> valid_node root"
  using assms
proof (induction "T - Suc h" arbitrary: h les st G)
  case (0 h les st G)
  note prems = 0(2-)
  have T: "T = Suc h" using 0(1) prems(11) by simp
  have "t \<le> T" using height_for_mono [OF _ prems(8), of "length old" t] prems(5) by (cases "t = 0") simp_all
  then have "kept (length old) t (Suc h) = 0" using T by (simp add: kept_def)
  then obtain nds where nds: "level_build E \<lparr>lb_level_entries = les, lb_total_data_nodes = length (old @ new), lb_height = Suc h,
        lb_previous_incomplete_node = (case pre of None \<Rightarrow> None | Some pre \<Rightarrow> target_node pre (Suc h))\<rparr> = Ok nds"
      "list_all2 (node_covers (me_ssl E) (content (ms_block_log st)) G h) nds (chunks_of (MHT_NBRANCHES ^ Suc h) (old @ new))"
      "\<forall>nd \<in> set nds. valid_node nd"
    using level_step [OF prems(2,3,6,7,8,10,11)] by auto
  have "chunks_of (MHT_NBRANCHES ^ Suc h) (old @ new) = [old @ new]"
    using prems(8,9) T by (intro chunks_single) (simp_all add: height_for_def)
  then obtain root where "nds = [root]" "node_covers (me_ssl E) (content (ms_block_log st)) G h root (old @ new)"
    using nds(2) by (auto simp: list_all2_Cons2)
  then show ?case
    using nds(1,3) prems(1,13) T by (intro exI [of _ root] exI [of _ st] exI [of _ "[]"] exI [of _ G])
      (simp add: build_hierarchy.simps [of _ _ _ _ _ "Suc h"])
next
  case (Suc d h les st G)
  note prems = Suc.prems
  let ?m = "MHT_NBRANCHES ^ Suc h" and ?n = "(T - Suc (Suc h)) * Suc (length new) + k"
  have T: "Suc (Suc h) \<le> T" "d = T - Suc (Suc h)" using Suc.hyps(2) by simp_all
  obtain nds where nds: "level_build E \<lparr>lb_level_entries = les, lb_total_data_nodes = length (old @ new), lb_height = Suc h,
        lb_previous_incomplete_node = (case pre of None \<Rightarrow> None | Some pre \<Rightarrow> target_node pre (Suc h))\<rparr> = Ok nds"
      "list_all2 (node_covers (me_ssl E) (content (ms_block_log st)) G h) nds
        (chunks_of ?m (drop (kept (length old) t (Suc h) * ?m) (old @ new)))" "\<forall>nd \<in> set nds. valid_node nd"
    using level_step [OF prems(2,3,6,7,8,10,11)] by blast
  have old: "t = 0 \<longrightarrow> old = []" using prems(2) by (auto simp: prev_ok_def pb_ok_def split: option.splits)
  have len: "length nds \<le> Suc (length new)"
    using list_all2_lengthD [OF nds(2)] level_size [OF prems(5) old, of "Suc h" new] by simp
  have "nds \<noteq> []" using nds(2) level_nonempty [OF prems(4,9), of "Suc h"] by auto
  moreover have "(T - Suc h) * Suc (length new) + k = length nds + ?n + (Suc (length new) - length nds)"
    using len T(1) by (simp add: Suc_diff_Suc [symmetric] del: diff_Suc_Suc)
  then have "room (ms_block_log st) (length nds + ?n)" using prems(13) room_less by metis
  ultimately obtain es st1 x G1 where a: "append_mht_nodes E rnd nds st = Ok (es, st1)" "storage_ok E linv cinv holds G1 st1" "G \<subseteq>\<^sub>m G1"
      "content (ms_block_log st1) = content (ms_block_log st) @ x" "room (ms_block_log st1) ?n"
      "list_all2 (covers (me_ssl E) (content (ms_block_log st1)) G1 (Suc h)) es
        (chunks_of ?m (drop (kept (length old) t (Suc h) * ?m) (old @ new)))" "\<forall>e \<in> set es. valid_entry e"
    using append_mht_nodes_ok [OF prems(1,12) _ _ nds(3,2)] by blast
  have prev: "prev_ok (me_ssl E) (content (ms_block_log st1)) G1 pre old t"
    unfolding a(4) by (rule prev_ok_mono [OF prems(2) a(3)])
  have "list_all2 (covers (me_ssl E) (content (ms_block_log st1)) G1 (Suc h)) es
      (drop (kept (length old) t (Suc h)) (chunks_of ?m (old @ new)))"
    using a(6) by (simp add: drop_chunks del: power_Suc)
  then obtain root st' x' G' where r: "build_hierarchy E rnd pre es (length (old @ new)) (Suc (Suc h)) T st1 = Ok (root, st')"
      "storage_ok E linv cinv holds G' st'" "G1 \<subseteq>\<^sub>m G'" "content (ms_block_log st') = content (ms_block_log st1) @ x'"
      "room (ms_block_log st') k" "node_covers (me_ssl E) (content (ms_block_log st')) G' (T - 1) root (old @ new)" "valid_node root"
    using Suc.hyps(1) [OF T(2) a(2) prev prems(3-5) a(7) _ prems(8-10) T(1) prems(12) a(5)] by blast
  have "Suc h \<noteq> T" "Suc (Suc h) < 256" using T(1) height_for_u32(1) [OF prems(8,10)] by simp_all
  then have "build_hierarchy E rnd pre les (length (old @ new)) (Suc h) T st = Ok (root, st')"
    using nds(1) a(1) r(1) by (simp add: build_hierarchy.simps [of _ _ _ _ _ "Suc h"])
  moreover have "G \<subseteq>\<^sub>m G'" using a(3) r(3) by (rule map_le_trans)
  ultimately show ?case
    using r a(4) by (intro exI [of _ root] exI [of _ st'] exI [of _ "x @ x'"] exI [of _ G']) simp
qed

end

section \<open>The state of a log\<close>

text \<open>The root node and its metadata stand for the blocks \<open>rs\<close>.\<close>

definition root_ok ::
    "openssl \<Rightarrow> bytes \<Rightarrow> (pbid \<Rightarrow> mht_node option) \<Rightarrow> aead_key \<Rightarrow> bytes list \<Rightarrow> (root_mht_meta \<times> mht_node) option \<Rightarrow> bool" where
  "root_ok ssl c G key rs r \<longleftrightarrow>
    (case r of
       None \<Rightarrow> rs = []
     | Some (meta, root) \<Rightarrow> (\<exists>h p. node_covers ssl c G h root rs \<and> height_for (length rs) (Suc h) \<and> G (rm_pos meta) = Some root \<and>
         sealed ssl c (rm_pos meta) key (rm_iv meta) (rm_mac meta) p \<and> node_from_bytes p = root))"

text \<open>
  A log with the blocks \<open>rs\<close> in the tree, \<open>es\<close> written but only in the queue of entries, and \<open>ns\<close> in the queue of plain
  blocks.
\<close>

definition log_rep ::
    "('l, 'c) mht_env \<Rightarrow> ('l \<Rightarrow> bool) \<Rightarrow> ('l \<Rightarrow> bytes) \<Rightarrow> ('c \<Rightarrow> bool) \<Rightarrow> ('c \<Rightarrow> pbid \<Rightarrow> cache_value option) \<Rightarrow>
      bytes list \<times> bytes list \<times> bytes list \<Rightarrow> ('l, 'c) mht \<Rightarrow> bool" where
  "log_rep E linv content cinv holds = (\<lambda>(rs, es, ns) m. \<exists>G. let c = content (ms_block_log (mh_storage m)); b = mh_data_buf m in
    storage_ok E linv cinv holds G (mh_storage m) \<and> length (mh_root_key m) = AES_GCM_KEY_SIZE \<and>
    root_ok (me_ssl E) c G (mh_root_key m) rs (mh_root m) \<and>
    list_all2 (covers (me_ssl E) c G 0) (ab_entry_queue b) (map (\<lambda>d. [d]) es) \<and> (\<forall>e \<in> set (ab_entry_queue b). valid_entry e) \<and>
    ab_start_pos b = length rs \<and> ab_node_queue b = ns \<and> (\<forall>d \<in> set ns. length d = BLOCK_SIZE) \<and>
    ab_node_queue_cap b = APPEND_BUF_CAPACITY div 2)"

lemma root_ok_mono: "root_ok ssl c G key rs r \<Longrightarrow> G \<subseteq>\<^sub>m G' \<Longrightarrow> root_ok ssl (c @ c') G' key rs r"
proof (cases r)
  case (Some mr)
  assume ok: "root_ok ssl c G key rs r" and le: "G \<subseteq>\<^sub>m G'"
  obtain meta root where r: "r = Some (meta, root)" using Some by (cases mr) simp
  then obtain h p where "node_covers ssl c G h root rs" "height_for (length rs) (Suc h)" "G (rm_pos meta) = Some root"
      "sealed ssl c (rm_pos meta) key (rm_iv meta) (rm_mac meta) p" "node_from_bytes p = root"
    using ok by (auto simp: root_ok_def)
  moreover from this have "G' (rm_pos meta) = Some root" using le by (force simp: map_le_def)
  ultimately show ?thesis
    using r node_covers_mono [OF _ le] sealed_append unfolding root_ok_def by (auto intro!: exI [of _ h] exI [of _ p])
qed (simp add: root_ok_def)

text \<open>When a build over \<open>n\<close> old and \<open>m\<close> new blocks is right.\<close>

definition build_fine :: "nat \<Rightarrow> nat \<Rightarrow> bool" where
  "build_fine n m \<longleftrightarrow> rebuild_ok n \<and> (0 < m \<or> n mod MHT_NBRANCHES \<noteq> 0 \<or> n \<le> MHT_NBRANCHES) \<and> 0 < n + m \<and> n + m < 2 ^ 32"

context mht_setting
begin

lemma tree_build_ok:
  assumes "storage_ok E linv cinv holds G st" "root_ok (me_ssl E) (content (ms_block_log st)) G key rs r"
    and "list_all2 (covers (me_ssl E) (content (ms_block_log st)) G 0) les (map (\<lambda>d. [d]) new)" "\<forall>e \<in> set les. valid_entry e"
    and "build_fine (length rs) (length new)" "random_ok rnd" "room (ms_block_log st) (4 * Suc (length new) + k)"
  shows "\<exists>root st' x G' h. tree_build E rnd (map_option snd r) les st = Ok (root, st') \<and>
    storage_ok E linv cinv holds G' st' \<and> G \<subseteq>\<^sub>m G' \<and> content (ms_block_log st') = content (ms_block_log st) @ x \<and>
    room (ms_block_log st') k \<and> node_covers (me_ssl E) (content (ms_block_log st')) G' h root (rs @ new) \<and>
    height_for (length (rs @ new)) (Suc h) \<and> valid_node root"
proof -
  have total: "0 < length (rs @ new)" "length (rs @ new) < 2 ^ 32" using assms(5) by (simp_all add: build_fine_def)
  obtain T where T: "calc_target_height (length (rs @ new)) = Ok T" "height_for (length (rs @ new)) T"
    using calc_target_height_ok [OF total(1)] by blast
  have T5: "T \<le> 5" "1 \<le> T" using height_for_u32(1) [OF T(2) total(2)] T(2) by (simp_all add: height_for_def)
  obtain pre st1 t where pre: "(case map_option snd r of None \<Rightarrow> Ok (None, st)
        | Some root \<Rightarrow> rbind (previous_build_new E root st) (\<lambda>(pre, st). Ok (Some pre, st))) = Ok (pre, st1)"
      "storage_ok E linv cinv holds G st1" "ms_block_log st1 = ms_block_log st"
      "prev_ok (me_ssl E) (content (ms_block_log st)) G pre rs t" "t \<noteq> 0 \<longrightarrow> height_for (length rs) t"
      "(case pre of None \<Rightarrow> 0 | Some pre \<Rightarrow> num_data_nodes (pb_root pre)) = length rs"
  proof (cases r)
    case None
    then show ?thesis
      using assms(1,2) by (intro that [of None st 0]) (simp_all add: prev_ok_def root_ok_def)
  next
    case (Some mr)
    then obtain meta root h p where r: "r = Some (meta, root)" "node_covers (me_ssl E) (content (ms_block_log st)) G h root rs"
        "height_for (length rs) (Suc h)" "sealed (me_ssl E) (content (ms_block_log st)) (rm_pos meta) key (rm_iv meta) (rm_mac meta) p"
        "node_from_bytes p = root"
      using assms(2) by (cases mr) (auto simp: root_ok_def)
    have "valid_entries root" using r(4,5) valid_entries_from_bytes by (auto simp: sealed_def)
    then obtain pb st' where pb: "previous_build_new E root st = Ok (pb, st')" "storage_ok E linv cinv holds G st'"
        "ms_block_log st' = ms_block_log st" "pb_root pb = root" "pb_ok (me_ssl E) (content (ms_block_log st)) G pb rs"
      using previous_build_ok [OF assms(1) r(2) _ r(3)] total(2) by auto
    then have "height_for (length rs) (pb_height pb)" by (auto simp: pb_ok_def)
    then show ?thesis
      using pb r(1,2) by (intro that [of "Some pb" st' "pb_height pb"])
        (simp_all add: prev_ok_def node_covers_def node_shape_def)
  qed
  have les: "list_all2 (covers (me_ssl E) (content (ms_block_log st1)) G 0) les
      (drop (kept (length rs) t 0) (chunks_of (MHT_NBRANCHES ^ 0) (rs @ new)))"
  proof -
    have "kept (length rs) t 0 = length rs" using pre(4) by (auto simp: kept_def prev_ok_def pb_ok_def split: option.splits)
    then show ?thesis using assms(3) pre(3) by (simp add: chunks_1)
  qed
  have small: "new \<noteq> [] \<or> length rs mod MHT_NBRANCHES \<noteq> 0 \<or> t \<le> 1"
  proof (rule ccontr)
    assume "\<not> ?thesis"
    then have "length rs \<le> MHT_NBRANCHES" "2 \<le> t" using assms(5) by (auto simp: build_fine_def)
    moreover from this have "MHT_NBRANCHES ^ (t - 1) < length rs" using pre(5) by (auto simp: height_for_def)
    moreover have "MHT_NBRANCHES ^ 1 \<le> MHT_NBRANCHES ^ (t - 1)" using calculation(2) by (intro power_increasing) simp_all
    ultimately show False by simp
  qed
  obtain d where d: "T - Suc 0 + d = 4" by (rule that [of "4 - (T - Suc 0)"]) (use T5(1) in simp)
  have "(T - Suc 0 + d) * Suc (length new) + k = ((T - Suc 0) * Suc (length new) + k) + d * Suc (length new)"
    by (simp only: add_mult_distrib add.assoc add.commute [of k])
  then have "4 * Suc (length new) + k = ((T - Suc 0) * Suc (length new) + k) + d * Suc (length new)" unfolding d .
  then have room: "room (ms_block_log st1) ((T - Suc 0) * Suc (length new) + k)"
    using assms(7) pre(3) room_less by metis
  have len: "length les = length new" using list_all2_lengthD [OF assms(3)] by simp
  obtain root st' x G' where b: "build_hierarchy E rnd pre les (length (rs @ new)) (Suc 0) T st1 = Ok (root, st')"
      "storage_ok E linv cinv holds G' st'" "G \<subseteq>\<^sub>m G'" "content (ms_block_log st') = content (ms_block_log st1) @ x"
      "room (ms_block_log st') k" "node_covers (me_ssl E) (content (ms_block_log st')) G' (T - 1) root (rs @ new)" "valid_node root"
    using build_hierarchy_ok [of G st1 pre rs t new les 0 T rnd k] pre(2-5) assms(4-6) small les T(2) total T5(2) room
    by (auto simp: build_fine_def)
  have "tree_build E rnd (map_option snd r) les st = Ok (root, st')"
    using pre(1,6) T(1) b(1) len by (simp add: tree_build_def Let_def add.commute)
  moreover have "height_for (length (rs @ new)) (Suc (T - 1))" using T(2) T5(2) by simp
  ultimately show ?thesis
    using b pre(3) by (intro exI [of _ root] exI [of _ st'] exI [of _ x] exI [of _ G'] exI [of _ "T - 1"]) simp
qed

lemma append_root_ok:
  assumes "storage_ok E linv cinv holds G st" "valid_node nd" "length key = AES_GCM_KEY_SIZE" "random_ok rnd"
    "room (ms_block_log st) (1 + k)"
  shows "\<exists>meta st' x G'. append_root_mht_node E rnd key nd st = Ok (meta, st') \<and> storage_ok E linv cinv holds G' st' \<and>
    G \<subseteq>\<^sub>m G' \<and> content (ms_block_log st') = content (ms_block_log st) @ x \<and> room (ms_block_log st') k \<and> G' (rm_pos meta) = Some nd \<and>
    sealed (me_ssl E) (content (ms_block_log st')) (rm_pos meta) key (rm_iv meta) (rm_mac meta) (node_bytes (me_pad E) nd)"
proof -
  let ?log = "ms_block_log st" and ?p = "node_bytes (me_pad E) nd"
  let ?n = "bl_nblocks (me_log E) ?log"
  have log: "linv ?log" "cinv (ms_node_cache st)" using assms(1) by (simp_all add: storage_ok_def)
  note p = length_node_bytes [OF assms(2), of "me_pad E"]
  obtain c mac where e: "aead_encrypt (me_ssl E) ?p key (rk_iv rnd ?n) [] BLOCK_SIZE = Ok (c, mac)" "length c = BLOCK_SIZE"
      "aead_decrypt (me_ssl E) c key (rk_iv rnd ?n) [] mac BLOCK_SIZE = Ok ?p"
    using aead_encrypt_ok [of key "rk_iv rnd ?n" ?p "[]"] assms(3,4) p by (auto simp: random_ok_def)
  obtain s' where s': "bl_append (me_log E) ?log c = Ok (?n, s')" "linv s'" "content s' = content ?log @ c" "room s' k"
      "bl_nblocks (me_log E) s' = ?n + 1"
    using append_blocks [OF log(1), of "[c]" k] e(2) assms(5) by auto
  obtain c' where c': "Crypto_Log.cache_put E ?n nd (st\<lparr>ms_block_log := s'\<rparr>) = Ok (st\<lparr>ms_block_log := s', ms_node_cache := c'\<rparr>)"
      "cinv c'" "holds c' \<subseteq>\<^sub>m (holds (ms_node_cache st))(?n \<mapsto> CachedMht nd)"
    using cache_put_ok [of "st\<lparr>ms_block_log := s'\<rparr>" ?n nd] log(2) by auto
  let ?G = "G(?n \<mapsto> nd)"
  have new: "G ?n = None" using assms(1) by (fastforce simp: storage_ok_def)
  then have le: "G \<subseteq>\<^sub>m ?G" by (auto simp: map_le_def)
  have "storage_ok E linv cinv holds ?G (st\<lparr>ms_block_log := s'\<rparr>)"
    using storage_ok_log [OF assms(1) s'(2)] s'(5) new by (fastforce simp: storage_ok_def)
  then have "storage_ok E linv cinv holds ?G (st\<lparr>ms_block_log := s', ms_node_cache := c'\<rparr>)"
    using storage_ok_cache [of E linv cinv holds ?G "st\<lparr>ms_block_log := s'\<rparr>" c' ?n nd] c'(2,3) by simp
  moreover have "sealed (me_ssl E) (content s') ?n key (rk_iv rnd ?n) mac ?p"
    using block_at_snoc(2) [OF log_length [OF log(1)] e(2)] e(2,3) p s'(3) log_length [OF log(1)] by (simp add: sealed_def)
  ultimately show ?thesis
    using e(1) s' c'(1) le
    by (intro exI [of _ "\<lparr>rm_pos = ?n, rm_mac = mac, rm_iv = rk_iv rnd ?n\<rparr>"] exI [of _ "st\<lparr>ms_block_log := s', ms_node_cache := c'\<rparr>"]
        exI [of _ c] exI [of _ ?G]) (simp add: append_root_mht_node_def Let_def)
qed

end

end
