(* ===== verification/Crypto_Log_Spec.thy ===== *)
theory Crypto_Log_Spec
  imports Mht_Proofs
begin

text \<open>
  What the encrypted log does, in terms of the blocks appended to it.

  The state of a log is three lists of blocks (\<open>abs_log\<close>): those in the tree, those with an entry in the queue and plain
  ones. Every operation of \<open>crypto_log.rs\<close> is shown to act on them as specified (\<open>mht_append_ok\<close>, \<open>mht_flush_ok\<close>,
  \<open>crypto_log_read_ok\<close>), and so is every run of operations (\<open>clog_run_ok\<close>). Two conditions say where the code is right:
  \<open>build_fine\<close> for a build of the tree over an older one, and \<open>search_fine\<close> for a search in the queues.
\<close>

section \<open>Appending and flushing\<close>

text \<open>
  The abstract log: blocks in the tree, blocks with an entry in the queue, and plain blocks. \<open>cap\<close> is the capacity of the
  entry queue.
\<close>

type_synonym abs_log = "bytes list \<times> bytes list \<times> bytes list"

definition abs_blocks :: "abs_log \<Rightarrow> bytes list" where
  "abs_blocks = (\<lambda>(rs, es, ns). rs @ es @ ns)"

definition abs_flush :: "abs_log \<Rightarrow> abs_log" where
  "abs_flush = (\<lambda>(rs, es, ns). (rs @ es @ ns, [], []))"

definition abs_append :: "nat \<Rightarrow> bytes list \<Rightarrow> abs_log \<Rightarrow> abs_log" where
  "abs_append cap bs = (\<lambda>(rs, es, ns).
    if length (ns @ bs) < APPEND_BUF_CAPACITY div 2 then (rs, es, ns @ bs)
    else if length (es @ ns @ bs) < cap then (rs, es @ ns @ bs, [])
    else (rs @ es @ ns @ bs, [], []))"

lemma abs_blocks_ops [simp]: "abs_blocks (abs_flush a) = abs_blocks a" "abs_blocks (abs_append cap bs a) = abs_blocks a @ bs"
  by (cases a; simp add: abs_blocks_def abs_flush_def abs_append_def)+

text \<open>The room an operation may need on the block log is bounded by what is not yet written.\<close>

definition abs_room :: "abs_log \<Rightarrow> nat" where
  "abs_room = (\<lambda>(rs, es, ns). length ns + 4 * length (es @ ns))"

definition log_cap :: "('l, 'c) mht \<Rightarrow> nat" where
  "log_cap m = ab_entry_queue_cap (mh_data_buf m)"

context mht_setting
begin

lemma flush_node_queue_ok:
  assumes "log_rep E linv content cinv holds (rs, es, ns) m" "random_ok rnd" "room (ms_block_log (mh_storage m)) (length ns + k)"
  shows "\<exists>b st. flush_node_queue E rnd (mh_data_buf m) (mh_storage m) = Ok (b, st) \<and>
    log_rep E linv content cinv holds (rs, es @ ns, []) (m\<lparr>mh_data_buf := b, mh_storage := st\<rparr>) \<and> room (ms_block_log st) k \<and>
    ab_entry_queue_cap b = log_cap m"
proof -
  let ?b = "mh_data_buf m" and ?st = "mh_storage m"
  obtain G where G: "storage_ok E linv cinv holds G ?st" "length (mh_root_key m) = AES_GCM_KEY_SIZE"
      "root_ok (me_ssl E) (content (ms_block_log ?st)) G (mh_root_key m) rs (mh_root m)"
      "list_all2 (covers (me_ssl E) (content (ms_block_log ?st)) G 0) (ab_entry_queue ?b) (map (\<lambda>d. [d]) es)"
      "\<forall>e \<in> set (ab_entry_queue ?b). valid_entry e" "ab_start_pos ?b = length rs" "ab_node_queue ?b = ns"
      "\<forall>d \<in> set ns. length d = BLOCK_SIZE" "ab_node_queue_cap ?b = APPEND_BUF_CAPACITY div 2"
    using assms(1) by (auto simp: log_rep_def Let_def)
  obtain xs st x where a: "append_data_nodes E rnd ns ?st = Ok (xs, st)" "storage_ok E linv cinv holds G st"
      "content (ms_block_log st) = content (ms_block_log ?st) @ x" "room (ms_block_log st) k"
      "list_all2 (covers (me_ssl E) (content (ms_block_log st)) G 0) xs (map (\<lambda>d. [d]) ns)" "\<forall>e \<in> set xs. valid_entry e"
    using append_data_nodes_ok [OF G(1,8) assms(2,3)] by blast
  let ?b' = "?b\<lparr>ab_entry_queue := ab_entry_queue ?b @ xs, ab_node_queue := []\<rparr>"
  have "list_all2 (covers (me_ssl E) (content (ms_block_log st)) G 0) (ab_entry_queue ?b @ xs) (map (\<lambda>d. [d]) (es @ ns))"
    using list_all2_appendI [OF covers_list_mono [OF G(4) map_le_refl, of x] a(5) [unfolded a(3)]] a(3) by simp
  moreover have "root_ok (me_ssl E) (content (ms_block_log st)) G (mh_root_key m) rs (mh_root m)"
    using root_ok_mono [OF G(3) map_le_refl] a(3) by simp
  ultimately have "log_rep E linv content cinv holds (rs, es @ ns, []) (m\<lparr>mh_data_buf := ?b', mh_storage := st\<rparr>)"
    unfolding log_rep_def Let_def using a(2,6) G(2,5,6,9) by (simp add: exI [of _ G] ball_Un)
  then show ?thesis
    using a(1,4) G(7) by (intro exI [of _ ?b'] exI [of _ st]) (simp add: flush_node_queue_def log_cap_def)
qed

lemma do_build_ok:
  assumes "log_rep E linv content cinv holds (rs, es, []) m" "build_fine (length rs) (length es)" "random_ok rnd"
    "room (ms_block_log (mh_storage m)) (4 * length es + 5 + k)"
    and "b = (mh_data_buf m)\<lparr>ab_entry_queue := [], ab_start_pos := ab_start_pos (mh_data_buf m) + length es\<rparr>"
  shows "\<exists>m'. do_build E rnd (ab_entry_queue (mh_data_buf m)) (m\<lparr>mh_data_buf := b\<rparr>) = Ok m' \<and>
    log_rep E linv content cinv holds (rs @ es, [], []) m' \<and> room (ms_block_log (mh_storage m')) k \<and> log_cap m' = log_cap m"
proof -
  let ?st = "mh_storage m"
  obtain G where G: "storage_ok E linv cinv holds G ?st" "length (mh_root_key m) = AES_GCM_KEY_SIZE"
      "root_ok (me_ssl E) (content (ms_block_log ?st)) G (mh_root_key m) rs (mh_root m)"
      "list_all2 (covers (me_ssl E) (content (ms_block_log ?st)) G 0) (ab_entry_queue (mh_data_buf m)) (map (\<lambda>d. [d]) es)"
      "\<forall>e \<in> set (ab_entry_queue (mh_data_buf m)). valid_entry e" "ab_start_pos (mh_data_buf m) = length rs"
      "ab_node_queue (mh_data_buf m) = []" "ab_node_queue_cap (mh_data_buf m) = APPEND_BUF_CAPACITY div 2"
    using assms(1) by (auto simp: log_rep_def Let_def)
  have "room (ms_block_log ?st) (4 * Suc (length es) + (1 + k))" using assms(4) by (simp add: algebra_simps)
  from tree_build_ok [OF G(1,3,4,5) assms(2,3) this] obtain root st1 x G1 h where
      t: "tree_build E rnd (map_option snd (mh_root m)) (ab_entry_queue (mh_data_buf m)) ?st = Ok (root, st1)"
      "storage_ok E linv cinv holds G1 st1" "room (ms_block_log st1) (1 + k)"
      "node_covers (me_ssl E) (content (ms_block_log st1)) G1 h root (rs @ es)" "height_for (length (rs @ es)) (Suc h)" "valid_node root"
    by blast
  from append_root_ok [OF t(2,6) G(2) assms(3) t(3)] obtain meta st2 y G2 where
      r: "append_root_mht_node E rnd (mh_root_key m) root st1 = Ok (meta, st2)" "storage_ok E linv cinv holds G2 st2" "G1 \<subseteq>\<^sub>m G2"
      "content (ms_block_log st2) = content (ms_block_log st1) @ y" "room (ms_block_log st2) k" "G2 (rm_pos meta) = Some root"
      "sealed (me_ssl E) (content (ms_block_log st2)) (rm_pos meta) (mh_root_key m) (rm_iv meta) (rm_mac meta) (node_bytes (me_pad E) root)"
    by blast
  let ?m = "m\<lparr>mh_data_buf := b, mh_root := Some (meta, root), mh_storage := st2\<rparr>"
  have "node_covers (me_ssl E) (content (ms_block_log st2)) G2 h root (rs @ es)"
    unfolding r(4) by (rule node_covers_mono [OF t(4) r(3)])
  then have "root_ok (me_ssl E) (content (ms_block_log st2)) G2 (mh_root_key m) (rs @ es) (Some (meta, root))"
    unfolding root_ok_def using t(5,6) r(6,7)
    by (auto intro!: exI [of _ h] exI [of _ "node_bytes (me_pad E) root"] simp: node_roundtrip)
  then have "log_rep E linv content cinv holds (rs @ es, [], []) ?m"
    unfolding log_rep_def Let_def using r(2) G(2,6-8) assms(5) by (simp add: exI [of _ G2])
  then show ?thesis
    using t(1) r(1,5) assms(5) by (intro exI [of _ ?m]) (simp add: do_build_def log_cap_def)
qed

lemma mht_flush_ok:
  assumes "log_rep E linv content cinv holds a m" "a = (rs, es, ns)" "build_fine (length rs) (length (es @ ns))" "random_ok rnd"
    "room (ms_block_log (mh_storage m)) (abs_room a + 5 + k)"
  shows "\<exists>m'. mht_flush E rnd m = Ok m' \<and> log_rep E linv content cinv holds (abs_flush a) m' \<and>
    room (ms_block_log (mh_storage m')) (abs_room (abs_flush a) + k) \<and> log_cap m' = log_cap m"
proof -
  have "room (ms_block_log (mh_storage m)) (length ns + (4 * length (es @ ns) + 5 + k))"
    using assms(2,5) by (simp add: abs_room_def algebra_simps)
  from flush_node_queue_ok [OF assms(1) [unfolded assms(2)] assms(4) this] obtain b st where
    q: "flush_node_queue E rnd (mh_data_buf m) (mh_storage m) = Ok (b, st)"
      "log_rep E linv content cinv holds (rs, es @ ns, []) (m\<lparr>mh_data_buf := b, mh_storage := st\<rparr>)"
      "room (ms_block_log st) (4 * length (es @ ns) + 5 + k)" "ab_entry_queue_cap b = log_cap m"
    by blast
  have len: "length (ab_entry_queue b) = length (es @ ns)"
    using q(2) by (auto simp: log_rep_def Let_def dest: list_all2_lengthD)
  let ?b = "b\<lparr>ab_entry_queue := [], ab_start_pos := ab_start_pos b + length (es @ ns)\<rparr>"
  have sw: "m\<lparr>mh_storage := st, mh_data_buf := b'\<rparr> = m\<lparr>mh_data_buf := b', mh_storage := st\<rparr>" for b' by simp
  from do_build_ok [OF q(2) assms(3,4), of k ?b] q(3) obtain m' where
    "do_build E rnd (ab_entry_queue b) (m\<lparr>mh_data_buf := ?b, mh_storage := st\<rparr>) = Ok m'"
      "log_rep E linv content cinv holds (rs @ es @ ns, [], []) m'" "room (ms_block_log (mh_storage m')) k"
      "log_cap m' = ab_entry_queue_cap b"
    by (auto simp: log_cap_def sw)
  then show ?thesis
    using q(1,4) assms(2) len by (intro exI [of _ m']) (simp add: mht_flush_def append_buf_flush_def Let_def abs_flush_def abs_room_def)
qed

lemma mht_append_ok:
  assumes "log_rep E linv content cinv holds a m" "a = (rs, es, ns)" "length es < log_cap m" "random_ok rnd"
    and "\<forall>d \<in> set bs. length d = BLOCK_SIZE"
    and "abs_append (log_cap m) bs a = (rs @ es @ ns @ bs, [], []) \<Longrightarrow> build_fine (length rs) (length (es @ ns @ bs))"
    and "room (ms_block_log (mh_storage m)) (abs_room a + 5 * length bs + 5 + k)"
  shows "\<exists>m'. mht_append_data_nodes E rnd bs m = Ok m' \<and> log_rep E linv content cinv holds (abs_append (log_cap m) bs a) m' \<and>
    room (ms_block_log (mh_storage m')) (abs_room (abs_append (log_cap m) bs a) + k) \<and> log_cap m' = log_cap m"
proof -
  let ?b = "mh_data_buf m"
  let ?m = "m\<lparr>mh_data_buf := ?b\<lparr>ab_node_queue := ns @ bs\<rparr>\<rparr>"
  have q: "ab_node_queue ?b = ns" "ab_node_queue_cap ?b = APPEND_BUF_CAPACITY div 2"
      "length (ab_entry_queue ?b) = length es"
    using assms(1,2) by (auto simp: log_rep_def Let_def dest: list_all2_lengthD)
  have nf: "\<not> append_buf_is_full ?b" using assms(3) q(3) by (simp add: append_buf_is_full_def log_cap_def)
  have rep: "log_rep E linv content cinv holds (rs, es, ns @ bs) ?m"
    using assms(1,2,5) by (auto simp: log_rep_def Let_def)
  have cap: "log_cap ?m = log_cap m" by (simp add: log_cap_def)
  have room: "room (ms_block_log (mh_storage ?m)) (abs_room (rs, es, ns @ bs) + 5 + k)"
    using assms(2,7) by (simp add: abs_room_def algebra_simps)
  show ?thesis
  proof (cases "length (ns @ bs) < APPEND_BUF_CAPACITY div 2")
    case True
    have "\<not> append_buf_is_full (?b\<lparr>ab_node_queue := ns @ bs\<rparr>)" using nf by (simp add: append_buf_is_full_def)
    then have "mht_append_data_nodes E rnd bs m = Ok ?m"
      using nf q True by (simp add: mht_append_data_nodes_def append_buf_append_def Let_def)
    moreover have "room (ms_block_log (mh_storage ?m)) (abs_room (rs, es, ns @ bs) + k)"
      using room room_less [of "ms_block_log (mh_storage ?m)" "abs_room (rs, es, ns @ bs) + k" 5] by (simp add: algebra_simps)
    ultimately show ?thesis using rep cap True assms(2) by (intro exI [of _ ?m]) (simp add: abs_append_def)
  next
    case False
    have "room (ms_block_log (mh_storage ?m)) (length (ns @ bs) + (4 * length (es @ ns @ bs) + 5 + k))"
      using room by (simp add: abs_room_def algebra_simps)
    from flush_node_queue_ok [OF rep assms(4) this] cap obtain b st where
      f: "flush_node_queue E rnd (?b\<lparr>ab_node_queue := ns @ bs\<rparr>) (mh_storage m) = Ok (b, st)"
        "log_rep E linv content cinv holds (rs, es @ ns @ bs, []) (m\<lparr>mh_data_buf := b, mh_storage := st\<rparr>)"
        "room (ms_block_log st) (4 * length (es @ ns @ bs) + 5 + k)" "ab_entry_queue_cap b = log_cap m"
      by auto
    let ?m' = "m\<lparr>mh_data_buf := b, mh_storage := st\<rparr>"
    have len: "length (ab_entry_queue b) = length (es @ ns @ bs)"
      using f(2) by (auto simp: log_rep_def Let_def dest: list_all2_lengthD)
    have run: "mht_append_data_nodes E rnd bs m = (if append_buf_is_full b then mht_flush E rnd ?m' else Ok ?m')"
      using nf q False f(1) by (simp add: mht_append_data_nodes_def append_buf_append_def Let_def)
    have full: "append_buf_is_full b \<longleftrightarrow> \<not> length (es @ ns @ bs) < log_cap m"
      using f(4) len by (simp add: append_buf_is_full_def not_less)
    have cap': "log_cap ?m' = log_cap m" using f(4) by (simp add: log_cap_def)
    show ?thesis
    proof (cases "append_buf_is_full b")
      case True
      then have abs: "abs_append (log_cap m) bs a = (rs @ es @ ns @ bs, [], [])"
        using False full assms(2) by (simp add: abs_append_def)
      have "build_fine (length rs) (length ((es @ ns @ bs) @ []))" using assms(6) [OF abs] by simp
      moreover have "room (ms_block_log (mh_storage ?m')) (abs_room (rs, es @ ns @ bs, []) + 5 + k)"
        using f(3) by (simp add: abs_room_def)
      ultimately show ?thesis
        using mht_flush_ok [OF f(2) refl _ assms(4)] run True abs cap' by (simp add: abs_flush_def)
    next
      case not_full: False
      then have abs: "abs_append (log_cap m) bs a = (rs, es @ ns @ bs, [])"
        using False full assms(2) by (simp add: abs_append_def)
      have "room (ms_block_log st) (abs_room (rs, es @ ns @ bs, []) + k)"
        using f(3) room_less [of "ms_block_log st" "4 * length (es @ ns @ bs) + k" 5] by (simp add: abs_room_def algebra_simps)
      then show ?thesis using run not_full f(2) abs cap' by (intro exI [of _ ?m']) simp
    qed
  qed
qed

end

section \<open>Searching\<close>

declare search_hierarchy.simps [simp del]

lemma fill_block:
  assumes "length b = BLOCK_SIZE" "(o' + 1) * BLOCK_SIZE \<le> length (sc_data_buf ctx)"
  shows "node_buf_fill o' b ctx = Ok (ctx\<lparr>sc_data_buf := overwrite (sc_data_buf ctx) (o' * BLOCK_SIZE) b\<rparr>)"
  using assms by (simp add: node_buf_fill_def copy_range_def)

lemma overwrite_next:
  assumes "length b = BLOCK_SIZE" "\<forall>x \<in> set bs. length x = BLOCK_SIZE" "(o' + Suc (length bs)) * BLOCK_SIZE \<le> length buf"
  shows "overwrite (overwrite buf (o' * BLOCK_SIZE) b) (Suc o' * BLOCK_SIZE) (concat bs) = overwrite buf (o' * BLOCK_SIZE) (b @ concat bs)"
  using overwrite_adjacent [of "o' * BLOCK_SIZE" b "concat bs" buf] assms length_concat_blocks [OF assms(2)]
  by (simp add: add_mult_distrib add.commute add.left_commute)

lemma overwrite_nothing [simp]: "overwrite buf a [] = buf"
  by (simp add: overwrite_def)

lemma covers_single_blocks:
  "list_all2 (covers ssl c G 0) es (map (\<lambda>d. [d]) bs) \<Longrightarrow> \<forall>x \<in> set bs. length x = BLOCK_SIZE"
proof (induction bs arbitrary: es)
  case (Cons b bs)
  then obtain e es' where e: "covers ssl c G 0 e [b]" "list_all2 (covers ssl c G 0) es' (map (\<lambda>d. [d]) bs)"
    by (auto simp: list_all2_Cons2 simp del: covers.simps)
  show ?case using Cons.IH [OF e(2)] covers_blocks [OF e(1)] by simp
qed simp

lemma fill_loop:
  assumes "\<forall>x \<in> set bs. length x = BLOCK_SIZE" "(o' + length bs) * BLOCK_SIZE \<le> length (sc_data_buf ctx)"
  shows "rfold (\<lambda>block (ctx, offset). rbind (node_buf_fill offset block ctx) (\<lambda>ctx. Ok (ctx, offset + 1))) bs (ctx, o') =
    Ok (ctx\<lparr>sc_data_buf := overwrite (sc_data_buf ctx) (o' * BLOCK_SIZE) (concat bs)\<rparr>, o' + length bs)"
  using assms
proof (induction bs arbitrary: ctx o')
  case (Cons b bs)
  let ?ctx = "ctx\<lparr>sc_data_buf := overwrite (sc_data_buf ctx) (o' * BLOCK_SIZE) b\<rparr>"
  have fit: "(o' + 1) * BLOCK_SIZE \<le> length (sc_data_buf ctx)" using Cons.prems(2) by (simp add: add_mult_distrib)
  then have "length (sc_data_buf ?ctx) = length (sc_data_buf ctx)" using Cons.prems(1) by (simp add: length_overwrite add.commute)
  then show ?case
    using Cons.IH [of "Suc o'" ?ctx] fill_block [OF _ fit] overwrite_next [of b bs o' "sc_data_buf ctx"] Cons.prems by simp
qed simp

context mht_setting
begin

lemma entry_fill_loop:
  assumes "linv (ms_block_log st)" "list_all2 (covers (me_ssl E) (content (ms_block_log st)) G 0) es (map (\<lambda>d. [d]) bs)"
    and "(sc_offset ctx + length bs) * BLOCK_SIZE \<le> length (sc_data_buf ctx)"
  shows "rfold (\<lambda>entry ctx. rbind (read_data_node E entry st) (\<lambda>block.
        rbind (node_buf_fill (sc_offset ctx) block ctx) (\<lambda>ctx. Ok (ctx\<lparr>sc_offset := sc_offset ctx + 1\<rparr>)))) es ctx =
    Ok (ctx\<lparr>sc_data_buf := overwrite (sc_data_buf ctx) (sc_offset ctx * BLOCK_SIZE) (concat bs), sc_offset := sc_offset ctx + length bs\<rparr>)"
  using assms(2,3)
proof (induction bs arbitrary: es ctx)
  case (Cons b bs)
  then obtain e es' where e: "es = e # es'" "covers (me_ssl E) (content (ms_block_log st)) G 0 e [b]"
      "list_all2 (covers (me_ssl E) (content (ms_block_log st)) G 0) es' (map (\<lambda>d. [d]) bs)"
    by (auto simp: list_all2_Cons2 simp del: covers.simps)
  let ?ctx = "ctx\<lparr>sc_data_buf := overwrite (sc_data_buf ctx) (sc_offset ctx * BLOCK_SIZE) b, sc_offset := Suc (sc_offset ctx)\<rparr>"
  have b: "length b = BLOCK_SIZE" using covers_blocks [OF e(2)] by simp
  have bs: "\<forall>x \<in> set bs. length x = BLOCK_SIZE"
    using covers_single_blocks [OF e(3)] .
  have fit: "(sc_offset ctx + 1) * BLOCK_SIZE \<le> length (sc_data_buf ctx)" using Cons.prems(2) by (simp add: add_mult_distrib)
  then have "length (sc_data_buf ?ctx) = length (sc_data_buf ctx)" using b by (simp add: length_overwrite add.commute)
  then show ?case
    using Cons.IH [OF e(3), of ?ctx] fill_block [OF b fit] overwrite_next [OF b bs, of "sc_offset ctx" "sc_data_buf ctx"] Cons.prems(2)
      read_data_node_ok [OF assms(1) e(2)] e(1) by simp
qed simp

lemma queue_fill_loop:
  assumes "linv (ms_block_log st)" "list_all2 (covers (me_ssl E) (content (ms_block_log st)) G 0) es (map (\<lambda>d. [d]) bs)"
    and "(o' + length bs) * BLOCK_SIZE \<le> length (sc_data_buf ctx)" "length bs \<le> e'"
  shows "rfold (\<lambda>entry (ctx, start_nth, end_nth, offset).
        rbind (read_data_node E entry st) (\<lambda>block.
        rbind (node_buf_fill offset block ctx) (\<lambda>ctx.
        rbind (checked_sub end_nth 1) (\<lambda>end_nth. Ok (ctx, 0, end_nth, offset + 1))))) es (ctx, s, e', o') =
    Ok (ctx\<lparr>sc_data_buf := overwrite (sc_data_buf ctx) (o' * BLOCK_SIZE) (concat bs)\<rparr>, if bs = [] then s else 0,
      e' - length bs, o' + length bs)"
  using assms(2-)
proof (induction bs arbitrary: es ctx s e' o')
  case (Cons b bs)
  then obtain e es' where e: "es = e # es'" "covers (me_ssl E) (content (ms_block_log st)) G 0 e [b]"
      "list_all2 (covers (me_ssl E) (content (ms_block_log st)) G 0) es' (map (\<lambda>d. [d]) bs)"
    by (auto simp: list_all2_Cons2 simp del: covers.simps)
  let ?ctx = "ctx\<lparr>sc_data_buf := overwrite (sc_data_buf ctx) (o' * BLOCK_SIZE) b\<rparr>"
  have b: "length b = BLOCK_SIZE" using covers_blocks [OF e(2)] by simp
  have bs: "\<forall>x \<in> set bs. length x = BLOCK_SIZE"
    using covers_single_blocks [OF e(3)] .
  have fit: "(o' + 1) * BLOCK_SIZE \<le> length (sc_data_buf ctx)" using Cons.prems(2) by (simp add: add_mult_distrib)
  then have "length (sc_data_buf ?ctx) = length (sc_data_buf ctx)" using b by (simp add: length_overwrite add.commute)
  then show ?case
    using Cons.IH [OF e(3), of "Suc o'" ?ctx "e' - 1" 0] fill_block [OF b fit] overwrite_next [OF b bs, of o' "sc_data_buf ctx"]
      Cons.prems(2,3) read_data_node_ok [OF assms(1) e(2)] e(1) by simp
qed simp

lemma read_mht_nodes_ok:
  assumes "storage_ok E linv cinv holds G st" "list_all2 (covers (me_ssl E) (content (ms_block_log st)) G (Suc h)) es dss"
  shows "\<exists>nds st'. read_mht_nodes E es st = Ok (nds, st') \<and> storage_ok E linv cinv holds G st' \<and> ms_block_log st' = ms_block_log st \<and>
    list_all2 (node_covers (me_ssl E) (content (ms_block_log st)) G h) nds dss"
  using assms
proof (induction es arbitrary: dss st)
  case Nil
  then show ?case by simp
next
  case (Cons e es)
  then obtain ds dss' where d: "dss = ds # dss'" "covers (me_ssl E) (content (ms_block_log st)) G (Suc h) e ds"
      "list_all2 (covers (me_ssl E) (content (ms_block_log st)) G (Suc h)) es dss'"
    by (auto simp: list_all2_Cons1 simp del: covers.simps)
  obtain nd p where nd: "G (en_pos e) = Some nd" "sealed (me_ssl E) (content (ms_block_log st)) (en_pos e) (en_key e) iv_zeroed (en_mac e) p"
      "node_from_bytes p = nd" "node_covers (me_ssl E) (content (ms_block_log st)) G h nd ds"
    using d(2) unfolding covers_Suc by blast
  obtain st1 where st1: "read_mht_node E (en_pos e) (en_key e) (en_mac e) iv_zeroed st = Ok (nd, st1)" "storage_ok E linv cinv holds G st1"
      "ms_block_log st1 = ms_block_log st"
    using read_mht_node_ok [OF Cons.prems(1) nd(1,2,3)] by blast
  obtain nds st' where "read_mht_nodes E es st1 = Ok (nds, st')" "storage_ok E linv cinv holds G st'" "ms_block_log st' = ms_block_log st1"
      "list_all2 (node_covers (me_ssl E) (content (ms_block_log st)) G h) nds dss'"
    using Cons.IH [OF st1(2), unfolded st1(3), OF d(3)] st1(3) by auto
  then show ?case using st1 nd(4) d(1) by (intro exI [of _ "nd # nds"] exI [of _ st']) simp
qed

end

text \<open>The entries of a level one after the other. \<open>P\<close> is what an entry says about the blocks below it.\<close>

definition node_over :: "(mht_node_entry \<Rightarrow> 'a list \<Rightarrow> bool) \<Rightarrow> nat \<Rightarrow> mht_node \<Rightarrow> 'a list \<Rightarrow> bool" where
  "node_over P h nd ds \<longleftrightarrow> node_shape h nd ds \<and>
    list_all2 P (take (num_valid_entries nd) (nd_entries nd)) (chunks_of (MHT_NBRANCHES ^ h) ds)"

lemma node_covers_over: "node_covers ssl c G h = node_over (covers ssl c G h) h"
  by (intro ext) (simp add: node_covers_def node_over_def)

lemma flat_entries:
  assumes "list_all2 (node_over P h) nds (chunks_of (MHT_NBRANCHES ^ Suc h) ds)"
  shows "list_all2 P (take (length (chunks_of (MHT_NBRANCHES ^ h) ds)) (concat (map nd_entries nds)))
    (chunks_of (MHT_NBRANCHES ^ h) ds)"
  using assms
proof (induction nds arbitrary: ds)
  case Nil
  then show ?case by simp
next
  case (Cons nd nds)
  let ?a = "MHT_NBRANCHES ^ h" and ?m = "MHT_NBRANCHES ^ Suc h"
  have ne: "ds \<noteq> []" using Cons.prems by auto
  then have ch: "chunks_of ?m ds = take ?m ds # chunks_of ?m (drop ?m ds)" by (simp add: chunks_Cons del: power_Suc)
  have nd: "node_over P h nd (take ?m ds)" and nds: "list_all2 (node_over P h) nds (chunks_of ?m (drop ?m ds))"
    using Cons.prems unfolding ch by simp_all
  have v: "num_valid_entries nd = length (chunks_of ?a (take ?m ds))" "length (nd_entries nd) = MHT_NBRANCHES"
      "list_all2 P (take (num_valid_entries nd) (nd_entries nd)) (chunks_of ?a (take ?m ds))"
    using nd unfolding node_over_def node_shape_def by blast+
  show ?case
  proof (cases "length ds \<le> ?m")
    case True
    then have "nds = []" using nds by simp
    then show ?thesis using v True by simp
  next
    case False
    then have l: "length (take ?m ds) = MHT_NBRANCHES * ?a" by simp
    have "chunks_of ?a ds = chunks_of ?a (take ?m ds) @ chunks_of ?a (drop ?m ds)"
      using chunks_append [of ?a "take ?m ds" MHT_NBRANCHES "drop ?m ds"] l by simp
    moreover have "num_valid_entries nd = MHT_NBRANCHES" unfolding v(1) using l by (simp add: length_chunks)
    ultimately show ?thesis using v Cons.IH [OF nds] by (auto intro: list_all2_appendI)
  qed
qed

text \<open>The pieces that a search visits.\<close>

lemma search_window:
  fixes ds :: "'a list"
  assumes "0 < a" "0 < num" "pos + num \<le> length ds"
  defines "k \<equiv> pos div a" and "n \<equiv> ceil_div (num + pos mod a) a"
  shows "take n (drop k (chunks_of a ds)) = chunks_of a (take (n * a) (drop (k * a) ds))" "k + n \<le> length (chunks_of a ds)" "0 < n"
    "pos mod a + num \<le> length (take (n * a) (drop (k * a) ds))"
    "take num (drop (pos mod a) (take (n * a) (drop (k * a) ds))) = take num (drop pos ds)"
proof -
  show "take n (drop k (chunks_of a ds)) = chunks_of a (take (n * a) (drop (k * a) ds))"
    using assms(1) by (simp add: drop_chunks take_chunks)
  have pos: "pos = k * a + pos mod a" by (simp add: k_def)
  have hi: "num + pos mod a \<le> n * a" and lo: "n * a < num + pos mod a + a"
    unfolding n_def by (rule ceil_div_bounds [OF assms(1)])+
  show "0 < n" using hi assms(2) by (cases n) simp_all
  have "k * a + (num + pos mod a) \<le> length ds" using assms(3) pos by linarith
  moreover have "length ds \<le> length (chunks_of a ds) * a" using length_chunks_le [OF assms(1)] by blast
  ultimately have "(k + n) * a < (length (chunks_of a ds) + 1) * a" using lo by (simp add: add_mult_distrib)
  then show "k + n \<le> length (chunks_of a ds)" using assms(1) by (simp only: mult_less_cancel2) simp
  show "pos mod a + num \<le> length (take (n * a) (drop (k * a) ds))"
    using hi \<open>k * a + (num + pos mod a) \<le> length ds\<close> by simp
  have "take num (drop (pos mod a) (take (n * a) (drop (k * a) ds))) = take num (drop (pos mod a) (drop (k * a) ds))"
    using hi by (simp add: drop_take min_def)
  also have "\<dots> = take num (drop pos ds)" using pos by (metis add.commute drop_drop)
  finally show "take num (drop (pos mod a) (take (n * a) (drop (k * a) ds))) = take num (drop pos ds)" .
qed

text \<open>The entries that a search of a level goes on with, and the first node of the level.\<close>

lemma target_entries:
  assumes "list_all2 (node_over P h) nds (chunks_of (MHT_NBRANCHES ^ Suc h) ds)" "0 < num" "pos + num \<le> length ds"
  defines "a \<equiv> MHT_NBRANCHES ^ h"
  defines "k \<equiv> pos div a" and "n \<equiv> ceil_div (num + pos mod a) a"
  shows "list_all2 P (take n (drop k (concat (map nd_entries nds)))) (chunks_of a (take (n * a) (drop (k * a) ds)))"
    "nds \<noteq> []" "node_height (hd nds) = Suc h"
proof -
  have a: "0 < a" by (simp add: a_def)
  note w = search_window [OF a assms(2,3), folded k_def, folded n_def]
  have "list_all2 P (take n (drop k (take (length (chunks_of a ds)) (concat (map nd_entries nds))))) (take n (drop k (chunks_of a ds)))"
    unfolding a_def by (intro list_all2_takeI list_all2_dropI flat_entries assms(1))
  moreover have "take n (drop k (take (length (chunks_of a ds)) xs)) = take n (drop k xs)" for xs :: "mht_node_entry list"
    using w(2) by (simp add: drop_take min_def)
  ultimately show "list_all2 P (take n (drop k (concat (map nd_entries nds)))) (chunks_of a (take (n * a) (drop (k * a) ds)))"
    unfolding w(1) by simp
  have "ds \<noteq> []" using assms(2,3) by auto
  then show "nds \<noteq> []" "node_height (hd nds) = Suc h"
    using assms(1) by (auto simp: chunks_Cons list_all2_Cons2 node_over_def node_shape_def simp del: power_Suc)
qed

lemma align_up_div: "0 < a \<Longrightarrow> \<exists>x. align_up n a = Ok x \<and> x div a = ceil_div n a"
  by (simp add: align_up_def ceil_div_def)

lemma map_single_chunks: "take n (drop k (map (\<lambda>d. [d]) ds)) = map (\<lambda>d. [d]) (take n (drop k ds))"
  by (simp add: take_map drop_map)

text \<open>When the search of the queues is right: it starts at the first queued block, or one of the queues is empty.\<close>

definition search_fine :: "nat \<Rightarrow> abs_log \<Rightarrow> bool" where
  "search_fine pos = (\<lambda>(rs, es, ns). rs \<noteq> [] \<and> (pos \<le> length rs \<or> es = [] \<or> ns = []))"

context mht_setting
begin

lemma search_hierarchy_ok:
  assumes "storage_ok E linv cinv holds G st" "MHT_NBRANCHES ^ h < 2 ^ 64" "0 < sc_num ctx" "sc_pos ctx + sc_num ctx \<le> length ds"
    and "list_all2 (node_covers (me_ssl E) (content (ms_block_log st)) G h) nds (chunks_of (MHT_NBRANCHES ^ Suc h) ds)"
    and "(sc_offset ctx + sc_num ctx) * BLOCK_SIZE \<le> length (sc_data_buf ctx)"
  shows "\<exists>ctx' st'. search_hierarchy E nds (Suc h) ctx st = Ok (ctx', st') \<and> storage_ok E linv cinv holds G st' \<and>
    ms_block_log st' = ms_block_log st \<and> sc_is_completed ctx' \<and>
    sc_data_buf ctx' = overwrite (sc_data_buf ctx) (sc_offset ctx * BLOCK_SIZE) (concat (take (sc_num ctx) (drop (sc_pos ctx) ds)))"
  using assms
proof (induction h arbitrary: nds ctx st ds)
  case 0
  let ?ds = "take (sc_num ctx) (drop (sc_pos ctx) ds)" and ?ctx = "ctx\<lparr>sc_pos := 0\<rparr>"
  note t = target_entries [OF "0.prems"(5) [unfolded node_covers_over] "0.prems"(3,4)]
  have "list_all2 (covers (me_ssl E) (content (ms_block_log st)) G 0)
      (take (sc_num ctx) (drop (sc_pos ctx) (concat (map nd_entries nds)))) (map (\<lambda>d. [d]) ?ds)"
    using t(1) by (simp add: chunks_1 ceil_div_def del: covers.simps)
  from entry_fill_loop [OF _ this, of ?ctx] show ?case
    using "0.prems"(1,4,6) t(2,3) by (simp add: search_hierarchy.simps(2) max_num_data_nodes_ok align_up_def is_lowest_level_def Let_def storage_ok_def)
next
  case (Suc h)
  let ?a = "MHT_NBRANCHES ^ Suc h" and ?pos = "sc_pos ctx" and ?num = "sc_num ctx"
  let ?k = "?pos div ?a" and ?n = "ceil_div (?num + ?pos mod ?a) ?a" and ?ctx = "ctx\<lparr>sc_pos := ?pos mod ?a\<rparr>"
  let ?ds = "take (?n * ?a) (drop (?k * ?a) ds)"
  have a: "0 < ?a" by simp
  note w = search_window [OF a Suc.prems(3,4)]
  note t = target_entries [OF Suc.prems(5) [unfolded node_covers_over] Suc.prems(3,4)]
  from read_mht_nodes_ok [OF Suc.prems(1) t(1)] obtain nds' st1 where
    r: "read_mht_nodes E (take ?n (drop ?k (concat (map nd_entries nds)))) st = Ok (nds', st1)" "storage_ok E linv cinv holds G st1"
      "ms_block_log st1 = ms_block_log st" "list_all2 (node_covers (me_ssl E) (content (ms_block_log st)) G h) nds' (chunks_of ?a ?ds)"
    by blast
  have "MHT_NBRANCHES ^ h \<le> ?a" by (intro power_increasing) simp_all
  then have small: "MHT_NBRANCHES ^ h < 2 ^ 64" using Suc.prems(2) by (rule le_less_trans)
  obtain ctx' st' where s: "search_hierarchy E nds' (Suc h) ?ctx st1 = Ok (ctx', st')" "storage_ok E linv cinv holds G st'"
      "ms_block_log st' = ms_block_log st1" "sc_is_completed ctx'"
      "sc_data_buf ctx' = overwrite (sc_data_buf ctx) (sc_offset ctx * BLOCK_SIZE) (concat (take ?num (drop (?pos mod ?a) ?ds)))"
    using Suc.IH [OF r(2) small, of ?ctx ?ds nds'] Suc.prems(3,6) w(4) r(3,4) by auto
  obtain x where x: "align_up (?num + ?pos mod ?a) ?a = Ok x" "x div ?a = ?n" using align_up_div [OF a] by blast
  have pm: "?pos - ?k * ?a = ?pos mod ?a" by (simp add: minus_div_mult_eq_mod del: power_Suc)
  have "search_hierarchy E nds (Suc (Suc h)) ctx st = Ok (ctx', st')"
    unfolding search_hierarchy.simps(2) [of E nds "Suc h"] max_num_data_nodes_ok [OF Suc.prems(2)] rbind.simps Let_def pm x
    using t(2,3) r(1) s(1) by (simp add: is_lowest_level_def del: power_Suc)
  then show ?case using s r(3) w(5) by (intro exI [of _ ctx'] exI [of _ st']) (simp del: power_Suc)
qed

text \<open>What the search of the queues reads, as it is written.\<close>

lemma search_data_nodes_eq:
  assumes "linv (ms_block_log st)" "list_all2 (covers (me_ssl E) (content (ms_block_log st)) G 0) (ab_entry_queue b) (map (\<lambda>d. [d]) es)"
    and "\<forall>d \<in> set (ab_node_queue b). length d = BLOCK_SIZE" "ab_start_pos b < sc_pos ctx + sc_num ctx"
    and "sc_pos ctx + sc_num ctx \<le> ab_start_pos b + num_append b"
    and "s = sc_pos ctx - ab_start_pos b" "e = sc_pos ctx + sc_num ctx - ab_start_pos b" "o' = ab_start_pos b - sc_pos ctx"
    and "xs = take (e - s) (drop s es)"
    and "ys = take (e - length xs - (if xs = [] then s else 0)) (drop (if xs = [] then s else 0) (ab_node_queue b))"
    and "(o' + length xs + length ys) * BLOCK_SIZE \<le> length (sc_data_buf ctx)"
  shows "\<exists>ctx'. search_data_nodes E b st ctx = Ok ctx' \<and> sc_is_completed ctx' = (ab_start_pos b \<le> sc_pos ctx \<or> sc_is_completed ctx) \<and>
    sc_data_buf ctx' = overwrite (sc_data_buf ctx) (o' * BLOCK_SIZE) (concat (xs @ ys)) \<and> sc_pos ctx' = sc_pos ctx \<and>
    sc_offset ctx' = sc_offset ctx \<and> sc_num ctx' = (if ab_start_pos b \<le> sc_pos ctx then sc_num ctx else o')"
proof -
  define c0 where "c0 = (if ab_start_pos b \<le> sc_pos ctx then ctx else ctx\<lparr>sc_num := o'\<rparr>)"
  define s1 where "s1 = (if xs = [] then s else 0)"
  have set: "(if ab_start_pos b \<le> sc_pos ctx then (sc_pos ctx - ab_start_pos b, sc_pos ctx - ab_start_pos b + sc_num ctx, 0, ctx)
      else let end = sc_pos ctx + sc_num ctx - ab_start_pos b in (0, end, sc_num ctx - end, ctx\<lparr>sc_num := sc_num ctx - end\<rparr>))
    = (s, e, o', c0)"
    using assms(4,6-8) by (auto simp: Let_def c0_def)
  have e: "e \<le> num_append b" "s \<le> e" using assms(5-7) by simp_all
  have cov: "list_all2 (covers (me_ssl E) (content (ms_block_log st)) G 0) (take (e - s) (drop s (ab_entry_queue b))) (map (\<lambda>d. [d]) xs)"
    unfolding assms(9) map_single_chunks [symmetric] by (intro list_all2_takeI list_all2_dropI assms(2))
  have lx: "length xs \<le> e - s" using assms(9) by simp
  have bx: "\<forall>x \<in> set xs. length x = BLOCK_SIZE"
    using covers_single_blocks [OF cov] .
  have by': "\<forall>y \<in> set ys. length y = BLOCK_SIZE" using assms(3,10) by (auto dest: in_set_takeD in_set_dropD)
  have buf: "sc_data_buf c0 = sc_data_buf ctx" by (simp add: c0_def)
  let ?ctx1 = "c0\<lparr>sc_data_buf := overwrite (sc_data_buf ctx) (o' * BLOCK_SIZE) (concat xs)\<rparr>"
  have fit: "(o' + length xs) * BLOCK_SIZE \<le> length (sc_data_buf c0)" using assms(11) buf by (simp add: add_mult_distrib)
  have q: "rfold (\<lambda>entry (ctx, start_nth, end_nth, offset).
        rbind (read_data_node E entry st) (\<lambda>block.
        rbind (node_buf_fill offset block ctx) (\<lambda>ctx.
        rbind (checked_sub end_nth 1) (\<lambda>end_nth. Ok (ctx, 0, end_nth, offset + 1)))))
      (take (e - s) (drop s (ab_entry_queue b))) (c0, s, e, o') = Ok (?ctx1, s1, e - length xs, o' + length xs)"
    using queue_fill_loop [OF assms(1) cov fit, of e s] lx buf by (simp add: s1_def)
  have len1: "length (sc_data_buf ?ctx1) = length (sc_data_buf ctx)"
    using fit [unfolded buf] length_concat_blocks [OF bx] by (simp add: length_overwrite add_mult_distrib)
  have fit1: "(o' + length xs + length ys) * BLOCK_SIZE \<le> length (sc_data_buf ?ctx1)" using assms(11) len1 by simp
  note f = fill_loop [OF by' fit1]
  have ow: "overwrite (overwrite (sc_data_buf ctx) (o' * BLOCK_SIZE) (concat xs)) ((o' + length xs) * BLOCK_SIZE) (concat ys)
      = overwrite (sc_data_buf ctx) (o' * BLOCK_SIZE) (concat (xs @ ys))"
    using overwrite_adjacent [of "o' * BLOCK_SIZE" "concat xs" "concat ys" "sc_data_buf ctx"] assms(11)
      length_concat_blocks [OF bx] length_concat_blocks [OF by'] by (simp add: add_mult_distrib)
  have sub: "s1 \<le> e - length xs" using lx e(2) by (auto simp: s1_def)
  have ys: "take (e - (length xs + s1)) (drop s1 (ab_node_queue b)) = ys" using assms(10) by (simp add: s1_def)
  have not_le: "\<not> sc_pos ctx + sc_num ctx \<le> ab_start_pos b" using assms(4) by simp
  have "search_data_nodes E b st ctx = Ok (if ab_start_pos b \<le> sc_pos ctx
      then c0\<lparr>sc_data_buf := overwrite (sc_data_buf ctx) (o' * BLOCK_SIZE) (concat (xs @ ys)), sc_is_completed := True\<rparr>
      else c0\<lparr>sc_data_buf := overwrite (sc_data_buf ctx) (o' * BLOCK_SIZE) (concat (xs @ ys))\<rparr>)"
    unfolding search_data_nodes_def
    using q f ow sub e not_le by (simp add: set ys Let_def)
  then show ?thesis by (auto simp: c0_def)
qed

end

lemma queue_parts:
  assumes "s = 0 \<or> es = [] \<or> ns = []" "xs = take (e - s) (drop s es)"
    "ys = take (e - length xs - (if xs = [] then s else 0)) (drop (if xs = [] then s else 0) ns)"
  shows "xs @ ys = take (e - s) (drop s (es @ ns))"
  using assms(1)
proof (elim disjE)
  assume "s = 0"
  then show ?thesis using assms(2,3) by (simp add: min_def)
next
  assume "es = []"
  then show ?thesis using assms(2,3) by simp
next
  assume "ns = []"
  then show ?thesis using assms(2,3) by simp
qed

lemma overwrite_halves:
  "length v + length w = length buf \<Longrightarrow> overwrite (overwrite buf (length v) w) 0 v = v @ w"
  by (simp add: overwrite_def)

lemma log_rep_storage:
  assumes "log_rep E linv content cinv holds a m" "\<And>G. storage_ok E linv cinv holds G (mh_storage m) \<Longrightarrow> storage_ok E linv cinv holds G st"
    "ms_block_log st = ms_block_log (mh_storage m)"
  shows "log_rep E linv content cinv holds a (m\<lparr>mh_storage := st\<rparr>)"
  using assms by (cases a) (auto simp: log_rep_def Let_def)

lemma log_rep_nblocks: "log_rep E linv content cinv holds a m \<Longrightarrow> crypto_log_nblocks m = length (abs_blocks a)"
  by (cases a) (auto simp: log_rep_def Let_def root_ok_def node_covers_def node_shape_def crypto_log_nblocks_def total_data_nodes_def
      num_append_def abs_blocks_def dest!: list_all2_lengthD split: option.splits)

lemma log_rep_blocks:
  assumes "log_rep E linv content cinv holds a m" "b \<in> set (abs_blocks a)"
  shows "length b = BLOCK_SIZE"
proof -
  obtain rs es ns where a: "a = (rs, es, ns)" by (cases a)
  obtain G where G: "root_ok (me_ssl E) (content (ms_block_log (mh_storage m))) G (mh_root_key m) rs (mh_root m)"
      "list_all2 (covers (me_ssl E) (content (ms_block_log (mh_storage m))) G 0) (ab_entry_queue (mh_data_buf m)) (map (\<lambda>d. [d]) es)"
      "\<forall>d \<in> set ns. length d = BLOCK_SIZE"
    using assms(1) a by (auto simp: log_rep_def Let_def)
  have "length b = BLOCK_SIZE" if b: "b \<in> set rs"
  proof -
    obtain h root where "node_covers (me_ssl E) (content (ms_block_log (mh_storage m))) G h root rs"
      using G(1) b by (auto simp: root_ok_def split: option.splits)
    then have all: "list_all2 (covers (me_ssl E) (content (ms_block_log (mh_storage m))) G h) (take (num_valid_entries root) (nd_entries root))
        (chunks_of (MHT_NBRANCHES ^ h) rs)"
      by (simp add: node_covers_def)
    have "rs = concat (chunks_of (MHT_NBRANCHES ^ h) rs)" by simp
    then obtain xs where "xs \<in> set (chunks_of (MHT_NBRANCHES ^ h) rs)" "b \<in> set xs" using b by (metis UN_E set_concat)
    then show ?thesis using all covers_blocks by (metis in_set_conv_nth list_all2_conv_all_nth)
  qed
  then show ?thesis using assms(2) a covers_single_blocks [OF G(2)] G(3) by (auto simp: abs_blocks_def)
qed

context mht_setting
begin

text \<open>The search from the root.\<close>

lemma root_search_ok:
  assumes "storage_ok E linv cinv holds G st" "root_ok (me_ssl E) (content (ms_block_log st)) G key rs (Some (meta, root))"
    and "length rs < 2 ^ 32" "0 < sc_num ctx" "sc_pos ctx + sc_num ctx \<le> length rs"
    and "(sc_offset ctx + sc_num ctx) * BLOCK_SIZE \<le> length (sc_data_buf ctx)"
  shows "\<exists>ctx' st'. search_hierarchy E [root] (node_height root) ctx st = Ok (ctx', st') \<and> storage_ok E linv cinv holds G st' \<and>
    ms_block_log st' = ms_block_log st \<and> sc_is_completed ctx' \<and>
    sc_data_buf ctx' = overwrite (sc_data_buf ctx) (sc_offset ctx * BLOCK_SIZE) (concat (take (sc_num ctx) (drop (sc_pos ctx) rs)))"
proof -
  obtain h where root: "node_covers (me_ssl E) (content (ms_block_log st)) G h root rs" "height_for (length rs) (Suc h)"
    using assms(2) by (auto simp: root_ok_def)
  have sh: "node_height root = Suc h" "rs \<noteq> []" using root(1) by (auto simp: node_covers_def node_shape_def)
  have "MHT_NBRANCHES ^ h \<le> MHT_NBRANCHES ^ Suc h" by (intro power_increasing) simp_all
  moreover have "MHT_NBRANCHES ^ Suc h < 2 ^ 64" by (rule height_for_u32(2) [OF root(2) assms(3)])
  ultimately have pow: "MHT_NBRANCHES ^ h < 2 ^ 64" by (rule le_less_trans)
  have "list_all2 (node_covers (me_ssl E) (content (ms_block_log st)) G h) [root] (chunks_of (MHT_NBRANCHES ^ Suc h) rs)"
    using root sh(2) chunks_single [of rs "MHT_NBRANCHES ^ Suc h"] by (simp add: height_for_def)
  from search_hierarchy_ok [OF assms(1) pow assms(4,5) this assms(6)] show ?thesis unfolding sh(1) .
qed

text \<open>The search of the queues, where it is right.\<close>

lemma queues_search_ok:
  assumes "linv (ms_block_log st)" "list_all2 (covers (me_ssl E) (content (ms_block_log st)) G 0) (ab_entry_queue b) (map (\<lambda>d. [d]) es)"
    and "ab_node_queue b = ns" "\<forall>d \<in> set ns. length d = BLOCK_SIZE" "ab_start_pos b = r" "pos \<le> r \<or> es = [] \<or> ns = []" "buf_ok buf"
    and "r < pos + buf_nblocks buf" "pos + buf_nblocks buf \<le> r + length (es @ ns)"
  defines "w \<equiv> take (pos + buf_nblocks buf - r - (pos - r)) (drop (pos - r) (es @ ns))"
  shows "\<exists>ctx. search_data_nodes E b st (search_ctx_new pos buf) = Ok ctx \<and> sc_is_completed ctx = (r \<le> pos) \<and>
    sc_data_buf ctx = overwrite buf ((r - pos) * BLOCK_SIZE) (concat w) \<and> sc_pos ctx = pos \<and> sc_offset ctx = 0 \<and>
    sc_num ctx = (if r \<le> pos then buf_nblocks buf else r - pos)"
    "length (concat w) = (buf_nblocks buf - (r - pos)) * BLOCK_SIZE"
proof -
  let ?n = "buf_nblocks buf" and ?ctx = "search_ctx_new pos buf" and ?s = "pos - r" and ?e = "pos + buf_nblocks buf - r" and ?o = "r - pos"
  define xs where "xs = take (?e - ?s) (drop ?s es)"
  define ys where "ys = take (?e - length xs - (if xs = [] then ?s else 0)) (drop (if xs = [] then ?s else 0) (ab_node_queue b))"
  have lb: "length buf = ?n * BLOCK_SIZE" by (rule buf_ok_length [OF assms(7)])
  have lens: "length (ab_entry_queue b) = length es" using assms(2) by (simp add: list_all2_lengthD)
  have w: "xs @ ys = w" unfolding w_def using queue_parts [OF _ xs_def ys_def] assms(3,6) by auto
  have "?e - ?s \<le> length (es @ ns) - ?s" using assms(9) by (intro diff_le_mono) simp
  then have lw: "length w = ?e - ?s" unfolding w_def length_take length_drop by (rule min_absorb2)
  have on: "?o + (?e - ?s) = ?n" using assms(8) by simp
  have ctx0: "sc_pos ?ctx = pos" "sc_num ?ctx = ?n" "sc_offset ?ctx = 0" "sc_data_buf ?ctx = buf" "\<not> sc_is_completed ?ctx"
    by (simp_all add: search_ctx_new_def)
  have p: "\<forall>d \<in> set (ab_node_queue b). length d = BLOCK_SIZE" "ab_start_pos b < sc_pos ?ctx + sc_num ?ctx"
      "sc_pos ?ctx + sc_num ?ctx \<le> ab_start_pos b + num_append b" "?s = sc_pos ?ctx - ab_start_pos b"
      "?e = sc_pos ?ctx + sc_num ?ctx - ab_start_pos b" "?o = ab_start_pos b - sc_pos ?ctx"
    using assms(3-5,8,9) lens by (simp_all add: ctx0 num_append_def)
  have "length xs + length ys = ?e - ?s" using w lw by (metis length_append)
  then have fit: "(?o + length xs + length ys) * BLOCK_SIZE \<le> length (sc_data_buf ?ctx)"
    using on lb by (simp only: ctx0 add.assoc)
  show "\<exists>ctx. search_data_nodes E b st ?ctx = Ok ctx \<and> sc_is_completed ctx = (r \<le> pos) \<and>
      sc_data_buf ctx = overwrite buf (?o * BLOCK_SIZE) (concat w) \<and> sc_pos ctx = pos \<and> sc_offset ctx = 0 \<and>
      sc_num ctx = (if r \<le> pos then ?n else ?o)"
    using search_data_nodes_eq [OF assms(1,2) p xs_def ys_def fit] unfolding w ctx0 assms(5) by (auto simp: ctx0)
  have "\<forall>d \<in> set w. length d = BLOCK_SIZE"
    using assms(4) covers_single_blocks [OF assms(2)] by (auto simp: w_def dest!: in_set_takeD in_set_dropD)
  from length_concat_blocks [OF this] show "length (concat w) = (?n - ?o) * BLOCK_SIZE" using lw assms(8) by simp
qed

lemma crypto_log_read_ok:
  assumes rep: "log_rep E linv content cinv holds a m" and fine: "search_fine pos a" "buf_ok buf"
    "pos + buf_nblocks buf \<le> length (abs_blocks a)" "length (fst a) < 2 ^ 32"
  shows "\<exists>m'. crypto_log_read E pos buf m = Ok (concat (take (buf_nblocks buf) (drop pos (abs_blocks a))), m') \<and>
    log_rep E linv content cinv holds a m' \<and> log_cap m' = log_cap m \<and> ms_block_log (mh_storage m') = ms_block_log (mh_storage m)"
proof -
  obtain rs es ns where a: "a = (rs, es, ns)" by (cases a)
  let ?b = "mh_data_buf m" and ?st = "mh_storage m" and ?n = "buf_nblocks buf" and ?ctx = "search_ctx_new pos buf"
  let ?c = "content (ms_block_log ?st)" and ?o = "length rs - pos"
  obtain meta root G where G: "storage_ok E linv cinv holds G ?st" "root_ok (me_ssl E) ?c G (mh_root_key m) rs (Some (meta, root))"
      "list_all2 (covers (me_ssl E) ?c G 0) (ab_entry_queue ?b) (map (\<lambda>d. [d]) es)" "ab_start_pos ?b = length rs" "ab_node_queue ?b = ns"
      "\<forall>d \<in> set ns. length d = BLOCK_SIZE" "mh_root m = Some (meta, root)"
  proof -
    obtain meta root where r: "mh_root m = Some (meta, root)"
      using rep a fine(1) by (cases "mh_root m") (auto simp: log_rep_def Let_def root_ok_def search_fine_def)
    show ?thesis using rep that unfolding a log_rep_def Let_def prod.case r by blast
  qed
  have n: "0 < ?n" "length buf = ?n * BLOCK_SIZE" using buf_ok_nblocks_pos buf_ok_length fine(2) by blast+
  have total: "\<not> total_data_nodes m < pos + ?n"
    using fine(3) a log_rep_nblocks [OF rep] by (simp add: crypto_log_nblocks_def)
  have keep: "log_rep E linv content cinv holds a (m\<lparr>mh_storage := st\<rparr>)"
    if "storage_ok E linv cinv holds G st" "ms_block_log st = ms_block_log ?st" for st
    using rep a that G unfolding log_rep_def Let_def by (auto intro!: exI [of _ G])
  have small: "length rs < 2 ^ 32" using fine(4) a by simp
  have blocks: "\<forall>x \<in> set (take k (drop pos rs)). length x = BLOCK_SIZE" for k
    using log_rep_blocks [OF rep] a by (auto simp: abs_blocks_def dest!: in_set_takeD in_set_dropD)
  show ?thesis
  proof (cases "pos + ?n \<le> length rs")
    case True
    then have q: "search_data_nodes E ?b ?st ?ctx = Ok ?ctx" using G(4) by (simp add: search_data_nodes_def search_ctx_new_def Let_def)
    have l: "length (concat (take ?n (drop pos rs))) = length buf" using length_concat_blocks [OF blocks, of ?n] True n(2) by simp
    then obtain ctx' st' where s: "search_hierarchy E [root] (node_height root) ?ctx ?st = Ok (ctx', st')" "storage_ok E linv cinv holds G st'"
        "ms_block_log st' = ms_block_log ?st" "sc_is_completed ctx'" "sc_data_buf ctx' = concat (take ?n (drop pos rs))"
      using root_search_ok [OF G(1,2) small, of ?ctx] True n by (auto simp: search_ctx_new_def)
    moreover have "take ?n (drop pos (abs_blocks a)) = take ?n (drop pos rs)" using True a by (simp add: abs_blocks_def)
    ultimately show ?thesis
      using q G(7) total keep [OF s(2,3)] by (intro exI [of _ "m\<lparr>mh_storage := st'\<rparr>"])
        (simp add: crypto_log_read_def mht_search_def search_ctx_new_def log_cap_def)
  next
    case False
    let ?w = "take (pos + ?n - length rs - (pos - length rs)) (drop (pos - length rs) (es @ ns))"
    have q0: "linv (ms_block_log ?st)" "pos \<le> length rs \<or> es = [] \<or> ns = []" "length rs < pos + ?n" "pos + ?n \<le> length rs + length (es @ ns)"
      using G(1) fine(1,3) a False by (simp_all add: storage_ok_def search_fine_def abs_blocks_def)
    note q = queues_search_ok [OF q0(1) G(3,5,6,4) q0(2) fine(2) q0(3,4)]
    obtain ctx where ctx: "search_data_nodes E ?b ?st ?ctx = Ok ctx" "sc_is_completed ctx = (length rs \<le> pos)"
        "sc_data_buf ctx = overwrite buf (?o * BLOCK_SIZE) (concat ?w)" "sc_pos ctx = pos" "sc_offset ctx = 0"
        "sc_num ctx = (if length rs \<le> pos then ?n else ?o)"
      using q(1) by auto
    show ?thesis
    proof (cases "length rs \<le> pos")
      case True
      then have "?w = take ?n (drop pos (abs_blocks a))" using a by (simp add: abs_blocks_def)
      moreover have "sc_data_buf ctx = concat ?w" using ctx(3) q(2) True n(2) by simp
      ultimately show ?thesis
        using ctx(1,2) True rep G(7) total by (intro exI [of _ m])
          (simp add: crypto_log_read_def mht_search_def search_ctx_new_def)
    next
      case below: False
      let ?v = "take ?o (drop pos rs)"
      have cv: "length (concat ?v) = ?o * BLOCK_SIZE" using length_concat_blocks [OF blocks, of ?o] by simp
      have "?n = ?o + (?n - ?o)" using q0(3) by simp
      then have lb: "length (concat ?v) + length (concat ?w) = length buf" using cv q(2) n(2) by (metis add_mult_distrib)
      then have "?o * BLOCK_SIZE \<le> length (sc_data_buf ctx)" using ctx(3) cv by (simp add: length_overwrite)
      then obtain ctx' st' where s: "search_hierarchy E [root] (node_height root) ctx ?st = Ok (ctx', st')"
          "storage_ok E linv cinv holds G st'" "ms_block_log st' = ms_block_log ?st" "sc_is_completed ctx'"
          "sc_data_buf ctx' = overwrite (sc_data_buf ctx) 0 (concat ?v)"
        using root_search_ok [OF G(1,2) small, of ctx] ctx(4-6) below by auto
      have "sc_data_buf ctx' = concat ?v @ concat ?w"
        unfolding s(5) ctx(3) cv [symmetric] by (rule overwrite_halves [OF lb])
      moreover have "?v @ ?w = take ?n (drop pos (abs_blocks a))"
        using below False a q0(3) by (simp add: abs_blocks_def add.commute)
      ultimately have "sc_data_buf ctx' = concat (take ?n (drop pos (abs_blocks a)))" by (metis concat_append)
      then show ?thesis
        using ctx(1,2) below G(7) total s(1,4) keep [OF s(2,3)] s(3) by (intro exI [of _ "m\<lparr>mh_storage := st'\<rparr>"])
          (simp add: crypto_log_read_def mht_search_def search_ctx_new_def log_cap_def)
    qed
  qed
qed

end

section \<open>Runs of operations\<close>

datatype log_op = LogAppend bytes | LogFlush | LogRead nat bytes

fun clog_step ::
    "('l, 'c) mht_env \<Rightarrow> mht_random \<Rightarrow> log_op \<Rightarrow> ('l, 'c) crypto_log \<Rightarrow> (bytes option \<times> ('l, 'c) crypto_log) res" where
  "clog_step env rnd (LogAppend buf) cl = rbind (crypto_log_append env rnd buf cl) (\<lambda>cl. Ok (None, cl))"
| "clog_step env rnd LogFlush cl = rbind (crypto_log_flush env rnd cl) (\<lambda>cl. Ok (None, cl))"
| "clog_step env rnd (LogRead pos buf) cl = rbind (crypto_log_read env pos buf cl) (\<lambda>(buf, cl). Ok (Some buf, cl))"

text \<open>\<open>rnds\<close> has the random numbers of each operation.\<close>

fun clog_run ::
    "('l, 'c) mht_env \<Rightarrow> (nat \<Rightarrow> mht_random) \<Rightarrow> nat \<Rightarrow> log_op list \<Rightarrow> ('l, 'c) crypto_log \<Rightarrow>
      (bytes option list \<times> ('l, 'c) crypto_log) res" where
  "clog_run env rnds i [] cl = Ok ([], cl)"
| "clog_run env rnds i (op # ops) cl =
    rbind (clog_step env (rnds i) op cl) (\<lambda>(out, cl).
    rbind (clog_run env rnds (Suc i) ops cl) (\<lambda>(outs, cl). Ok (out # outs, cl)))"

text \<open>The specification: a log is the list of the blocks appended to it.\<close>

definition buf_blocks :: "bytes \<Rightarrow> bytes list" where
  "buf_blocks buf = blocks_of (buf_nblocks buf) buf"

fun clog_spec_step :: "log_op \<Rightarrow> bytes list \<Rightarrow> bytes option \<times> bytes list" where
  "clog_spec_step (LogAppend buf) xs = (None, xs @ buf_blocks buf)"
| "clog_spec_step LogFlush xs = (None, xs)"
| "clog_spec_step (LogRead pos buf) xs = (Some (concat (take (buf_nblocks buf) (drop pos xs))), xs)"

fun clog_spec :: "log_op list \<Rightarrow> bytes list \<Rightarrow> bytes option list \<times> bytes list" where
  "clog_spec [] xs = ([], xs)"
| "clog_spec (op # ops) xs = (let (out, xs) = clog_spec_step op xs; (outs, xs) = clog_spec ops xs in (out # outs, xs))"

text \<open>
  The operations for which the code is right. It keeps track of the queues, because a build happens when the queue of
  entries is full, and because the search of the queues is wrong for some of their states.
\<close>

fun op_fine :: "nat \<Rightarrow> log_op \<Rightarrow> abs_log \<Rightarrow> bool" where
  "op_fine cap (LogAppend buf) (rs, es, ns) \<longleftrightarrow> buf_ok buf \<and> length es < cap \<and>
    (APPEND_BUF_CAPACITY div 2 \<le> length (ns @ buf_blocks buf) \<and> cap \<le> length (es @ ns @ buf_blocks buf) \<longrightarrow>
      build_fine (length rs) (length (es @ ns @ buf_blocks buf)))"
| "op_fine cap LogFlush (rs, es, ns) \<longleftrightarrow> build_fine (length rs) (length (es @ ns))"
| "op_fine cap (LogRead pos buf) a \<longleftrightarrow> buf_ok buf \<and> pos + buf_nblocks buf \<le> length (abs_blocks a) \<and> search_fine pos a"

fun abs_step :: "nat \<Rightarrow> log_op \<Rightarrow> abs_log \<Rightarrow> abs_log" where
  "abs_step cap (LogAppend buf) a = abs_append cap (buf_blocks buf) a"
| "abs_step cap LogFlush a = abs_flush a"
| "abs_step cap (LogRead pos buf) a = a"

fun ops_fine :: "nat \<Rightarrow> log_op list \<Rightarrow> abs_log \<Rightarrow> bool" where
  "ops_fine cap [] a \<longleftrightarrow> True"
| "ops_fine cap (op # ops) a \<longleftrightarrow> op_fine cap op a \<and> ops_fine cap ops (abs_step cap op a)"

fun op_room :: "log_op \<Rightarrow> nat" where
  "op_room (LogAppend buf) = 5 * buf_nblocks buf + 5"
| "op_room LogFlush = 5"
| "op_room (LogRead pos buf) = 0"

definition ENTRY_QUEUE_CAP :: nat where
  "ENTRY_QUEUE_CAP = APPEND_BUF_CAPACITY div 2 * BLOCK_SIZE div MHT_ENTRY_SIZE"

lemma queue_cap_new: "calc_queue_cap APPEND_BUF_CAPACITY 0 = Ok (APPEND_BUF_CAPACITY div 2, ENTRY_QUEUE_CAP)"
  by (simp add: calc_queue_cap_def ENTRY_QUEUE_CAP_def APPEND_BUF_CAPACITY_def MAX_ENTRY_QUEUE_CAP_def BLOCK_SIZE_def MHT_ENTRY_SIZE_def
      MHT_NBRANCHES_eq Let_def)

lemma buf_blocks_ok:
  assumes "buf_ok buf"
  shows "buf_iter_collect (buf_iter_new buf) = Ok (buf_blocks buf)" "\<forall>d \<in> set (buf_blocks buf). length d = BLOCK_SIZE"
    "length (buf_blocks buf) = buf_nblocks buf" "buf_blocks buf \<noteq> []" "concat (buf_blocks buf) = buf"
proof -
  have l: "length buf = buf_nblocks buf * BLOCK_SIZE" using buf_ok_length [OF assms] .
  show "buf_iter_collect (buf_iter_new buf) = Ok (buf_blocks buf)"
    using buf_iter_collect_from [of buf 0 "buf_nblocks buf"] l by (simp add: buf_iter_new_def buf_blocks_def)
  show "\<forall>d \<in> set (buf_blocks buf). length d = BLOCK_SIZE" using set_blocks_of_length [OF l] by (simp add: buf_blocks_def)
  show "length (buf_blocks buf) = buf_nblocks buf" "concat (buf_blocks buf) = buf"
    using concat_blocks_of [OF l] by (simp_all add: buf_blocks_def)
  then show "buf_blocks buf \<noteq> []" using buf_ok_nblocks_pos [OF assms] by auto
qed

text \<open>Blocks get into the tree only by builds, which keep their number below \<open>2 ^ 32\<close>.\<close>

lemma abs_step_small: "op_fine cap op a \<Longrightarrow> length (fst a) < 2 ^ 32 \<Longrightarrow> length (fst (abs_step cap op a)) < 2 ^ 32"
  by (cases op; cases a) (auto simp: abs_append_def abs_flush_def build_fine_def Let_def split: if_splits)

lemma abs_step_blocks: "op_fine cap op a \<Longrightarrow> snd (clog_spec_step op (abs_blocks a)) = abs_blocks (abs_step cap op a)"
  by (cases op) simp_all

context mht_setting
begin

lemma clog_step_ok:
  assumes "log_rep E linv content cinv holds a m" "log_cap m = cap" "op_fine cap op a" "random_ok rnd" "length (fst a) < 2 ^ 32"
    "room (ms_block_log (mh_storage m)) (abs_room a + op_room op + k)"
  shows "\<exists>m'. clog_step E rnd op m = Ok (fst (clog_spec_step op (abs_blocks a)), m') \<and>
    log_rep E linv content cinv holds (abs_step cap op a) m' \<and> log_cap m' = cap \<and>
    room (ms_block_log (mh_storage m')) (abs_room (abs_step cap op a) + k)"
proof -
  obtain rs es ns where a: "a = (rs, es, ns)" by (cases a)
  show ?thesis
  proof (cases op)
    case (LogAppend buf)
    then have fine: "buf_ok buf" "length es < log_cap m"
        "APPEND_BUF_CAPACITY div 2 \<le> length (ns @ buf_blocks buf) \<and> cap \<le> length (es @ ns @ buf_blocks buf) \<longrightarrow>
          build_fine (length rs) (length (es @ ns @ buf_blocks buf))"
      using assms(2,3) a by simp_all
    note b = buf_blocks_ok [OF fine(1)]
    have "build_fine (length rs) (length (es @ ns @ buf_blocks buf))"
      if "abs_append (log_cap m) (buf_blocks buf) a = (rs @ es @ ns @ buf_blocks buf, [], [])"
      using that fine(3) a assms(2) b(4) by (auto simp: abs_append_def split: if_splits)
    moreover have "room (ms_block_log (mh_storage m)) (abs_room a + 5 * length (buf_blocks buf) + 5 + k)"
      using assms(6) LogAppend b(3) by (simp add: add.assoc)
    ultimately obtain m' where "mht_append_data_nodes E rnd (buf_blocks buf) m = Ok m'"
        "log_rep E linv content cinv holds (abs_append (log_cap m) (buf_blocks buf) a) m'"
        "room (ms_block_log (mh_storage m')) (abs_room (abs_append (log_cap m) (buf_blocks buf) a) + k)" "log_cap m' = log_cap m"
      using mht_append_ok [OF assms(1) a fine(2) assms(4) b(2)] by blast
    then show ?thesis using LogAppend b(1) assms(2) by (simp add: crypto_log_append_def)
  next
    case LogFlush
    then show ?thesis
      using mht_flush_ok [OF assms(1) a _ assms(4), of k] assms(2,3,6) a by (auto simp: crypto_log_flush_def)
  next
    case (LogRead pos buf)
    then show ?thesis
      using crypto_log_read_ok [OF assms(1), of pos buf] assms(2,3,5,6) by auto
  qed
qed

lemma clog_run_ok:
  assumes "log_rep E linv content cinv holds a m" "log_cap m = cap" "ops_fine cap ops a" "\<forall>i. random_ok (rnds i)"
    "length (fst a) < 2 ^ 32" "room (ms_block_log (mh_storage m)) (abs_room a + sum_list (map op_room ops) + k)"
  shows "\<exists>m'. clog_run E rnds i ops m = Ok (fst (clog_spec ops (abs_blocks a)), m') \<and>
    log_rep E linv content cinv holds (fold (abs_step cap) ops a) m' \<and> room (ms_block_log (mh_storage m')) (abs_room (fold (abs_step cap) ops a) + k)"
  using assms
proof (induction ops arbitrary: a m i)
  case (Cons op ops)
  have "room (ms_block_log (mh_storage m)) (abs_room a + op_room op + (sum_list (map op_room ops) + k))"
    using Cons.prems(6) by (simp add: add.assoc)
  then obtain m1 where m1: "clog_step E (rnds i) op m = Ok (fst (clog_spec_step op (abs_blocks a)), m1)"
      "log_rep E linv content cinv holds (abs_step cap op a) m1" "log_cap m1 = cap"
      "room (ms_block_log (mh_storage m1)) (abs_room (abs_step cap op a) + (sum_list (map op_room ops) + k))"
    using clog_step_ok [OF Cons.prems(1,2) _ _ Cons.prems(5), of op "rnds i"] Cons.prems(3,4) by auto
  obtain m' where "clog_run E rnds (Suc i) ops m1 = Ok (fst (clog_spec ops (abs_blocks (abs_step cap op a))), m')"
      "log_rep E linv content cinv holds (fold (abs_step cap) ops (abs_step cap op a)) m'"
      "room (ms_block_log (mh_storage m')) (abs_room (fold (abs_step cap) ops (abs_step cap op a)) + k)"
    using Cons.IH [OF m1(2,3), of "Suc i"] Cons.prems(3-5) abs_step_small m1(4) by (auto simp: add.assoc)
  moreover have "snd (clog_spec_step op (abs_blocks a)) = abs_blocks (abs_step cap op a)"
    using Cons.prems(3) abs_step_blocks by simp
  ultimately show ?case
    using m1(1) by (intro exI [of _ m']) (simp add: case_prod_unfold Let_def)
qed simp

lemma crypto_log_new_ok:
  assumes "linv log" "cinv cache" "holds cache = Map.empty" "length key = AES_GCM_KEY_SIZE"
  shows "\<exists>m. crypto_log_new E log key cache = Ok m \<and> log_rep E linv content cinv holds ([], [], []) m \<and> log_cap m = ENTRY_QUEUE_CAP \<and>
    ms_block_log (mh_storage m) = log"
proof -
  let ?m = "\<lparr>mh_root = None, mh_root_key = key, mh_data_buf = \<lparr>ab_node_queue = [], ab_node_queue_cap = APPEND_BUF_CAPACITY div 2,
      ab_entry_queue = [], ab_entry_queue_cap = ENTRY_QUEUE_CAP, ab_start_pos = 0\<rparr>,
    mh_storage = \<lparr>ms_block_log = log, ms_node_cache = cache\<rparr>\<rparr>"
  obtain bs where "buf_alloc (me_pages E) 1 = Ok bs" using buf_alloc_ready [OF pages] by fastforce
  then have "crypto_log_new E log key cache = Ok ?m"
    by (simp add: crypto_log_new_def mht_new_def mht_storage_new_def crypt_buf_new_def append_buf_new_def queue_cap_new)
  moreover have "log_rep E linv content cinv holds ([], [], []) ?m"
    using assms by (auto simp: log_rep_def Let_def storage_ok_def root_ok_def intro!: exI [of _ Map.empty])
  ultimately show ?thesis by (intro exI [of _ ?m]) (simp add: log_cap_def)
qed

end

end
