(* ===== verification/Log_Cache.thy ===== *)
theory Log_Cache
  imports Mht_Proofs
begin

text \<open>
  The node cache of an encrypted log inside a transaction (\<open>CryptoLogCache\<close> of \<open>core/src/layers/3-log/tx_log.rs\<close>).

  A log has one cache of its own and, in every transaction that has the log open, a second one that takes what the
  transaction reads and writes. \<open>LruCache\<close> is the crate \<open>lru\<close>, a parameter. The interpretation shows that the two
  caches together satisfy what the Merkle tree relies on.
\<close>

section \<open>The crate\<close>

record 'c node_lru =
  nl_new :: 'c
  nl_get :: "'c \<Rightarrow> pbid \<Rightarrow> cache_value option \<times> 'c"
  nl_put :: "'c \<Rightarrow> pbid \<Rightarrow> cache_value \<Rightarrow> cache_value option \<times> 'c"
  nl_is_empty :: "'c \<Rightarrow> bool"
  nl_iter :: "'c \<Rightarrow> (pbid \<times> cache_value) list"

text \<open>\<open>LruCache::unbounded\<close> never evicts.\<close>

locale node_lru_laws =
  fixes U :: "'c node_lru" and holds :: "'c \<Rightarrow> pbid \<Rightarrow> cache_value option"
  assumes nlru_new: "holds (nl_new U) = Map.empty"
    and nlru_get: "fst (nl_get U c pos) = holds c pos" "holds (snd (nl_get U c pos)) = holds c"
    and nlru_put: "fst (nl_put U c pos v) = holds c pos" "holds (snd (nl_put U c pos v)) = (holds c)(pos \<mapsto> v)"
    and nlru_is_empty: "nl_is_empty U c \<longleftrightarrow> holds c = Map.empty"
    and nlru_iter: "map_of (nl_iter U c) = holds c" "distinct (map fst (nl_iter U c))"

definition node_lru_ref :: "(pbid \<times> cache_value) list node_lru" where
  "node_lru_ref = \<lparr>nl_new = [],
    nl_get = (\<lambda>c pos. (map_of c pos, case map_of c pos of None \<Rightarrow> c | Some v \<Rightarrow> (pos, v) # AList.delete pos c)),
    nl_put = (\<lambda>c pos v. (map_of c pos, (pos, v) # AList.delete pos c)),
    nl_is_empty = (\<lambda>c. AList.clearjunk c = []), nl_iter = AList.clearjunk\<rparr>"

interpretation nlr: node_lru_laws node_lru_ref map_of
proof (unfold_locales, goal_cases)
  case (2 c pos)
  then show ?case by (simp add: node_lru_ref_def)
next
  case (3 c pos)
  then show ?case by (auto simp: node_lru_ref_def delete_conv' fun_upd_idem_iff split: option.split)
next
  case (6 c)
  have "AList.clearjunk c = [] \<longleftrightarrow> c = []" by (metis clearjunk.simps(1) clearjunk_restrict dom_clearjunk image_is_empty list.set(1) set_empty)
  then show ?case by (cases c) (auto simp: node_lru_ref_def fun_eq_iff)
qed (simp_all add: node_lru_ref_def delete_conv' map_of_clearjunk distinct_clearjunk)

section \<open>The cache of a log\<close>

text \<open>\<open>lk_open_table\<close> is the \<open>OpenLogCache\<close> in the data of the current transaction, by log.\<close>

record 'c log_cache =
  lk_inner :: 'c
  lk_open_table :: "(nat \<times> 'c) list"

definition crypto_log_cache_new :: "'c node_lru \<Rightarrow> 'c" where
  "crypto_log_cache_new U = nl_new U"

definition crypto_log_cache_get :: "'c node_lru \<Rightarrow> nat \<Rightarrow> 'c log_cache \<Rightarrow> pbid \<Rightarrow> (cache_value option \<times> 'c log_cache) res" where
  "crypto_log_cache_get U log_id k pos =
    (let (value_opt, k) =
       (case map_of (lk_open_table k) log_id of
          None \<Rightarrow> (None, k)
        | Some open_cache \<Rightarrow>
            let (v, open_cache) = nl_get U open_cache pos in (v, k\<lparr>lk_open_table := AList.update log_id open_cache (lk_open_table k)\<rparr>)) in
     if value_opt \<noteq> None then Ok (value_opt, k)
     else let (v, lru) = nl_get U (lk_inner k) pos in Ok (v, k\<lparr>lk_inner := lru\<rparr>))"

definition crypto_log_cache_put ::
    "'c node_lru \<Rightarrow> nat \<Rightarrow> 'c log_cache \<Rightarrow> pbid \<Rightarrow> cache_value \<Rightarrow> (cache_value option \<times> 'c log_cache) res" where
  "crypto_log_cache_put U log_id k pos value =
    (case map_of (lk_open_table k) log_id of
       None \<Rightarrow> Panics
     | Some open_cache \<Rightarrow>
         let (old, open_cache) = nl_put U open_cache pos value in
           Ok (old, k\<lparr>lk_open_table := AList.update log_id open_cache (lk_open_table k)\<rparr>))"

definition log_cache_ops :: "'c node_lru \<Rightarrow> nat \<Rightarrow> 'c log_cache node_cache_ops" where
  "log_cache_ops U log_id = \<lparr>nc_get = crypto_log_cache_get U log_id, nc_put = crypto_log_cache_put U log_id\<rparr>"

text \<open>
  The log is open in the transaction, and the caches of the other open logs are those of \<open>table\<close>. What the
  transaction has put is found first.
\<close>

definition log_cache_inv :: "nat \<Rightarrow> (nat \<times> 'c) list \<Rightarrow> 'c log_cache \<Rightarrow> bool" where
  "log_cache_inv log_id table k \<longleftrightarrow> log_id \<in> fst ` set table \<and> map fst (lk_open_table k) = map fst table \<and>
    (\<forall>i. i \<noteq> log_id \<longrightarrow> map_of (lk_open_table k) i = map_of table i)"

lemma log_cache_inv_open:
  assumes "log_cache_inv log_id table k"
  shows "\<exists>c. map_of (lk_open_table k) log_id = Some c"
proof -
  have "log_id \<in> fst ` set (lk_open_table k)"
    using assms unfolding log_cache_inv_def by (metis list.set_map)
  then show ?thesis by (metis map_of_eq_None_iff not_None_eq)
qed

lemma log_cache_inv_update:
  assumes "log_cache_inv log_id table k"
  shows "log_cache_inv log_id table (k\<lparr>lk_open_table := AList.update log_id c (lk_open_table k)\<rparr>)"
proof -
  have "log_id \<in> fst ` set (lk_open_table k)"
    using assms unfolding log_cache_inv_def by (metis list.set_map)
  then show ?thesis using assms by (simp add: log_cache_inv_def update_keys update_conv')
qed

lemma log_cache_inv_inner: "log_cache_inv log_id table k \<Longrightarrow> log_cache_inv log_id table (k\<lparr>lk_inner := c\<rparr>)"
  by (simp add: log_cache_inv_def)

definition log_cache_holds :: "('c \<Rightarrow> pbid \<Rightarrow> cache_value option) \<Rightarrow> nat \<Rightarrow> 'c log_cache \<Rightarrow> pbid \<Rightarrow> cache_value option" where
  "log_cache_holds holds log_id k =
    (case map_of (lk_open_table k) log_id of None \<Rightarrow> holds (lk_inner k) | Some c \<Rightarrow> holds (lk_inner k) ++ holds c)"

context node_lru_laws
begin

lemma log_cache_get:
  assumes "log_cache_inv log_id table k"
  shows "\<exists>k'. crypto_log_cache_get U log_id k pos = Ok (log_cache_holds holds log_id k pos, k') \<and> log_cache_inv log_id table k' \<and>
    log_cache_holds holds log_id k' = log_cache_holds holds log_id k"
proof -
  obtain oc where oc: "map_of (lk_open_table k) log_id = Some oc" using log_cache_inv_open [OF assms] by blast
  obtain v oc' where g: "nl_get U oc pos = (v, oc')" by fastforce
  obtain w c' where i: "nl_get U (lk_inner k) pos = (w, c')" by fastforce
  have "v = holds oc pos" "holds oc' = holds oc" "w = holds (lk_inner k) pos" "holds c' = holds (lk_inner k)"
    using nlru_get [of oc pos] nlru_get [of "lk_inner k" pos] g i by simp_all
  then show ?thesis
    using oc g i log_cache_inv_update [OF assms] log_cache_inv_inner [OF log_cache_inv_update [OF assms]]
    by (cases v) (auto simp: crypto_log_cache_get_def log_cache_holds_def map_add_def update_conv')
qed

lemma log_cache_put:
  assumes "log_cache_inv log_id table k"
  shows "\<exists>old k'. crypto_log_cache_put U log_id k pos v = Ok (old, k') \<and> log_cache_inv log_id table k' \<and>
    log_cache_holds holds log_id k' = (log_cache_holds holds log_id k)(pos \<mapsto> v)"
proof -
  obtain oc where oc: "map_of (lk_open_table k) log_id = Some oc" using log_cache_inv_open [OF assms] by blast
  obtain old oc' where "nl_put U oc pos v = (old, oc')" by fastforce
  moreover have "holds oc' = (holds oc)(pos \<mapsto> v)" using nlru_put(2) [of oc pos v] calculation by simp
  ultimately show ?thesis
    using oc log_cache_inv_update [OF assms] by (simp add: crypto_log_cache_put_def log_cache_holds_def update_conv')
qed

lemma log_cache_laws: "node_cache_laws (log_cache_ops U log_id) (log_cache_inv log_id table) (log_cache_holds holds log_id)"
proof
  fix c :: "'c log_cache" and pos v
  assume i: "log_cache_inv log_id table c"
  show "\<exists>c'. nc_get (log_cache_ops U log_id) c pos = Ok (log_cache_holds holds log_id c pos, c') \<and> log_cache_inv log_id table c' \<and>
      log_cache_holds holds log_id c' = log_cache_holds holds log_id c"
    using log_cache_get [OF i] by (simp add: log_cache_ops_def)
  show "\<exists>old c'. nc_put (log_cache_ops U log_id) c pos v = Ok (old, c') \<and> log_cache_inv log_id table c' \<and>
      log_cache_holds holds log_id c' \<subseteq>\<^sub>m (log_cache_holds holds log_id c)(pos \<mapsto> v)"
    using log_cache_put [OF i, of pos v] by (auto simp: log_cache_ops_def)
qed

end

interpretation lkc: node_cache_laws "log_cache_ops node_lru_ref log_id" "log_cache_inv log_id table" "log_cache_holds map_of log_id"
  by (rule nlr.log_cache_laws)

end
