(* ===== verification/Crypto_Log_Props.thy ===== *)
theory Crypto_Log_Props
  imports Crypto_Log_Spec Log_Cache
begin

text \<open>
  The properties of the encrypted log: it is a log, a flushed log can be opened again from its root metadata, what is read
  from a log that somebody else has changed is what was appended or an error, and a read of queued blocks can
  miss them.
\<close>

section \<open>Opening a log\<close>

lemma flush_node_queue_key: "mht_flush E rnd m = Ok m' \<Longrightarrow> mh_root_key m' = mh_root_key m"
  by (auto simp: mht_flush_def do_build_def res_simps)

lemma clog_step_key: "clog_step E rnd op m = Ok (out, m') \<Longrightarrow> mh_root_key m' = mh_root_key m"
proof (cases op)
  case (LogAppend buf)
  then show "clog_step E rnd op m = Ok (out, m') \<Longrightarrow> mh_root_key m' = mh_root_key m"
    by (auto simp: crypto_log_append_def mht_append_data_nodes_def Let_def res_simps dest!: flush_node_queue_key split: if_splits)
next
  case LogFlush
  then show "clog_step E rnd op m = Ok (out, m') \<Longrightarrow> mh_root_key m' = mh_root_key m"
    by (auto simp: crypto_log_flush_def res_simps dest!: flush_node_queue_key)
next
  case (LogRead pos buf)
  then show "clog_step E rnd op m = Ok (out, m') \<Longrightarrow> mh_root_key m' = mh_root_key m"
    by (auto simp: crypto_log_read_def mht_search_def res_simps split: if_splits)
qed

lemma clog_run_key: "clog_run E rnds i ops m = Ok (outs, m') \<Longrightarrow> mh_root_key m' = mh_root_key m"
  by (induction ops arbitrary: i m outs) (auto simp: res_simps dest!: clog_step_key)

lemma clog_spec_append: "clog_spec (ops @ ops') xs = (let (o1, ys) = clog_spec ops xs; (o2, zs) = clog_spec ops' ys in (o1 @ o2, zs))"
  by (induction ops arbitrary: xs) (auto simp: case_prod_unfold Let_def)

lemma clog_spec_blocks: "ops_fine cap ops a \<Longrightarrow> snd (clog_spec ops (abs_blocks a)) = abs_blocks (fold (abs_step cap) ops a)"
proof (induction ops arbitrary: a)
  case (Cons op ops)
  then show ?case using Cons.IH [of "abs_step cap op a"] abs_step_blocks [of cap op a] by (simp add: case_prod_unfold Let_def)
qed simp

lemma ops_fine_append: "ops_fine cap (ops @ ops') a \<longleftrightarrow> ops_fine cap ops a \<and> ops_fine cap ops' (fold (abs_step cap) ops a)"
  by (induction ops arbitrary: a) auto

lemma ops_fine_small: "ops_fine cap ops a \<Longrightarrow> length (fst a) < 2 ^ 32 \<Longrightarrow> length (fst (fold (abs_step cap) ops a)) < 2 ^ 32"
proof (induction ops arbitrary: a)
  case (Cons op ops)
  then show ?case using Cons.IH [of "abs_step cap op a"] abs_step_small [of cap op a] by simp
qed simp

lemma abs_blocks_empty [simp]: "abs_blocks ([], [], []) = []"
  by (simp add: abs_blocks_def)

lemma log_rep_root: "log_rep E linv content cinv holds (rs, es, ns) m \<Longrightarrow> rs \<noteq> [] \<Longrightarrow> \<exists>meta root. mh_root m = Some (meta, root)"
  by (cases "mh_root m") (auto simp: log_rep_def Let_def root_ok_def)

text \<open>A log and the blocks in it after a run from an empty log.\<close>

definition clog_ready ::
    "('l, 'c) mht_env \<Rightarrow> 'l \<Rightarrow> aead_key \<Rightarrow> 'c \<Rightarrow> (nat \<Rightarrow> mht_random) \<Rightarrow> log_op list \<Rightarrow> (bytes option list \<times> ('l, 'c) crypto_log) res" where
  "clog_ready E log key cache rnds ops = rbind (crypto_log_new E log key cache) (clog_run E rnds 0 ops)"

text \<open>The capacity of the queue of entries of a log that is opened with \<open>n\<close> blocks.\<close>

definition open_cap :: "nat \<Rightarrow> nat" where
  "open_cap n = min (MAX_ENTRY_QUEUE_CAP - n) ENTRY_QUEUE_CAP"

lemma queue_cap_open:
  "n \<le> MAX_ENTRY_QUEUE_CAP \<Longrightarrow> calc_queue_cap APPEND_BUF_CAPACITY n = Ok (APPEND_BUF_CAPACITY div 2, open_cap n)"
  by (simp add: calc_queue_cap_def open_cap_def ENTRY_QUEUE_CAP_def APPEND_BUF_CAPACITY_def checked_sub_def)

context mht_setting
begin

lemma clog_ready_ok:
  assumes "linv log" "cinv cache" "holds cache = Map.empty" "length key = AES_GCM_KEY_SIZE" "\<forall>i. random_ok (rnds i)"
    "ops_fine ENTRY_QUEUE_CAP ops ([], [], [])" "room log (sum_list (map op_room ops))"
  shows "\<exists>m. clog_ready E log key cache rnds ops = Ok (fst (clog_spec ops []), m) \<and>
    log_rep E linv content cinv holds (fold (abs_step ENTRY_QUEUE_CAP) ops ([], [], [])) m \<and> mh_root_key m = key"
proof -
  obtain m0 where m0: "crypto_log_new E log key cache = Ok m0" "log_rep E linv content cinv holds ([], [], []) m0"
      "log_cap m0 = ENTRY_QUEUE_CAP" "ms_block_log (mh_storage m0) = log"
    using crypto_log_new_ok [OF assms(1-4)] by blast
  have "mh_root_key m0 = key" using m0(1) by (auto simp: crypto_log_new_def mht_new_def res_simps)
  moreover have "room (ms_block_log (mh_storage m0)) (abs_room ([], [], []) + sum_list (map op_room ops) + 0)"
    using assms(7) m0(4) by (simp add: abs_room_def)
  ultimately show ?thesis
    using clog_run_ok [OF m0(2,3) assms(6,5), of 0 0] m0(1) clog_run_key [of E rnds 0 ops m0] by (auto simp: clog_ready_def)
qed

lemma crypto_log_open_root:
  assumes "linv log" "length key = AES_GCM_KEY_SIZE" "root_ok (me_ssl E) (content log) G key rs (Some (meta, root))"
    "\<forall>pos nd. G pos = Some nd \<longrightarrow> pos < bl_nblocks (me_log E) log" "length rs \<le> MAX_ENTRY_QUEUE_CAP"
    "cinv cache" "\<forall>pos v. holds cache pos = Some v \<longrightarrow> (\<exists>nd. v = CachedMht nd \<and> G pos = Some nd)"
  shows "\<exists>m'. crypto_log_open E log key meta cache = Ok m' \<and> log_rep E linv content cinv holds (rs, [], []) m' \<and>
    mh_root_key m' = key \<and> mh_root m' = Some (meta, root) \<and> ms_block_log (mh_storage m') = log \<and> log_cap m' = open_cap (length rs)"
proof -
  let ?st = "\<lparr>ms_block_log = log, ms_node_cache = cache\<rparr>"
  obtain bs where "buf_alloc (me_pages E) 1 = Ok bs" using buf_alloc_ready [OF pages] by fastforce
  then have s: "mht_storage_new E log cache = Ok ?st" by (simp add: mht_storage_new_def crypt_buf_new_def)
  have ok: "storage_ok E linv cinv holds G ?st" using assms by (simp add: storage_ok_def)
  obtain p where p: "G (rm_pos meta) = Some root" "num_data_nodes root = length rs"
      "sealed (me_ssl E) (content log) (rm_pos meta) key (rm_iv meta) (rm_mac meta) p" "node_from_bytes p = root"
    using assms(3) by (auto simp: root_ok_def node_covers_def node_shape_def)
  obtain st' where r: "root_mht_node E key meta ?st = Ok (root, st')" "storage_ok E linv cinv holds G st'" "ms_block_log st' = log"
    using read_mht_node_ok [OF ok p(1) _ p(4), of key "rm_iv meta" "rm_mac meta"] p(3) by (auto simp: root_mht_node_def)
  define b :: append_data_buf where "b = \<lparr>ab_node_queue = [], ab_node_queue_cap = APPEND_BUF_CAPACITY div 2,
    ab_entry_queue = [], ab_entry_queue_cap = open_cap (length rs), ab_start_pos = length rs\<rparr>"
  have b: "append_buf_new APPEND_BUF_CAPACITY (length rs) = Ok b" "ab_start_pos b = length rs" "ab_node_queue b = []"
      "ab_entry_queue b = []" "ab_node_queue_cap b = APPEND_BUF_CAPACITY div 2" "ab_entry_queue_cap b = open_cap (length rs)"
    by (simp_all add: append_buf_new_def queue_cap_open [OF assms(5)] b_def)
  let ?m = "\<lparr>mh_root = Some (meta, root), mh_root_key = key, mh_data_buf = b, mh_storage = st'\<rparr>"
  have "crypto_log_open E log key meta cache = Ok ?m"
    using s r(1) b(1) p(2) by (simp add: crypto_log_open_def mht_open_def)
  moreover have "log_rep E linv content cinv holds (rs, [], []) ?m"
    using r(2,3) b(2-) assms(2,3) by (auto simp: log_rep_def Let_def)
  ultimately show ?thesis using r(3) b(6) by (intro exI [of _ ?m]) (simp add: log_cap_def)
qed

lemma crypto_log_open_ok:
  assumes "log_rep E linv content cinv holds (rs, [], []) m" "mh_root m = Some (meta, root)" "length rs \<le> MAX_ENTRY_QUEUE_CAP"
    "cinv cache" "holds cache = Map.empty"
  shows "\<exists>m'. crypto_log_open E (ms_block_log (mh_storage m)) (mh_root_key m) meta cache = Ok m' \<and>
    log_rep E linv content cinv holds (rs, [], []) m'"
proof -
  obtain G where G: "storage_ok E linv cinv holds G (mh_storage m)" "length (mh_root_key m) = AES_GCM_KEY_SIZE"
      "root_ok (me_ssl E) (content (ms_block_log (mh_storage m))) G (mh_root_key m) rs (Some (meta, root))"
    using assms(1,2) by (auto simp: log_rep_def Let_def)
  then show ?thesis
    using crypto_log_open_root [OF _ G(2,3) _ assms(3,4)] assms(5) by (auto simp: storage_ok_def)
qed

lemma clog_reopen_ok:
  assumes "linv log" "cinv cache" "holds cache = Map.empty" "length key = AES_GCM_KEY_SIZE" "\<forall>i. random_ok (rnds i)"
    "ops_fine ENTRY_QUEUE_CAP (ops @ [LogFlush]) ([], [], [])" "room log (sum_list (map op_room (ops @ [LogFlush])))"
    "cinv cache2" "holds cache2 = Map.empty" "length (snd (clog_spec ops [])) \<le> MAX_ENTRY_QUEUE_CAP"
  shows "\<exists>outs m meta m2. clog_ready E log key cache rnds (ops @ [LogFlush]) = Ok (outs, m) \<and> crypto_log_root_meta m = Some meta \<and>
    crypto_log_open E (ms_block_log (mh_storage m)) key meta cache2 = Ok m2 \<and>
    log_rep E linv content cinv holds (snd (clog_spec ops []), [], []) m2"
proof -
  let ?a = "fold (abs_step ENTRY_QUEUE_CAP) ops ([], [], [])" and ?xs = "snd (clog_spec ops [])"
  obtain outs m where m: "clog_ready E log key cache rnds (ops @ [LogFlush]) = Ok (outs, m)"
      "log_rep E linv content cinv holds (abs_flush ?a) m" "mh_root_key m = key"
    using clog_ready_ok [OF assms(1-7)] by auto
  have fine: "ops_fine ENTRY_QUEUE_CAP ops ([], [], [])" "op_fine ENTRY_QUEUE_CAP LogFlush ?a"
    using assms(6) by (simp_all add: ops_fine_append)
  have "abs_flush ?a = (?xs, [], [])"
    using clog_spec_blocks [OF fine(1)] by (cases ?a) (simp add: abs_flush_def abs_blocks_def)
  moreover have "?xs \<noteq> []"
    using fine(2) clog_spec_blocks [OF fine(1)] by (cases ?a) (auto simp: build_fine_def abs_blocks_def)
  ultimately obtain meta root where r: "mh_root m = Some (meta, root)" and rep: "log_rep E linv content cinv holds (?xs, [], []) m"
    using m(2) log_rep_root [of E linv content cinv holds ?xs "[]" "[]" m] by auto
  obtain m2 where "crypto_log_open E (ms_block_log (mh_storage m)) key meta cache2 = Ok m2"
      "log_rep E linv content cinv holds (?xs, [], []) m2"
    using crypto_log_open_ok [OF rep r assms(10,8,9)] m(3) by blast
  then show ?thesis using m(1) r by (auto simp: crypto_log_root_meta_def)
qed

end

section \<open>Reading from a log that was changed\<close>

text \<open>
  The blocks the tree below a root vouches for: position, key, vector and MAC as the parent has them, and the
  plaintext. Level 0 is the level of the data.
\<close>

inductive seal_of :: "openssl \<Rightarrow> bytes \<Rightarrow> aead_key \<Rightarrow> root_mht_meta \<Rightarrow> nat \<Rightarrow> pbid \<Rightarrow> aead_key \<Rightarrow> aead_iv \<Rightarrow> aead_mac \<Rightarrow> bytes \<Rightarrow> bool"
  for ssl c key meta where
  seal_root: "sealed ssl c (rm_pos meta) key (rm_iv meta) (rm_mac meta) p \<Longrightarrow>
    seal_of ssl c key meta (node_height (node_from_bytes p)) (rm_pos meta) key (rm_iv meta) (rm_mac meta) p"
| seal_child: "seal_of ssl c key meta (Suc h) pos k iv mac p \<Longrightarrow>
    e \<in> set (take (num_valid_entries (node_from_bytes p)) (nd_entries (node_from_bytes p))) \<Longrightarrow>
    sealed ssl c (en_pos e) (en_key e) iv_zeroed (en_mac e) p' \<Longrightarrow>
    seal_of ssl c key meta h (en_pos e) (en_key e) iv_zeroed (en_mac e) p'"

text \<open>
  What an attacker cannot do: present, at a position that the tree refers to, a block other than the original that the
  cipher accepts with the MAC of the original. \<open>read1\<close> reads a block of the changed log.
\<close>

definition unforged :: "openssl \<Rightarrow> bytes \<Rightarrow> aead_key \<Rightarrow> root_mht_meta \<Rightarrow> (pbid \<Rightarrow> bytes res) \<Rightarrow> bool" where
  "unforged ssl c key meta read1 \<longleftrightarrow> (\<forall>h pos k iv mac p b p'. seal_of ssl c key meta h pos k iv mac p \<and> read1 pos = Ok b \<and>
    aead_decrypt ssl b k iv [] mac BLOCK_SIZE = Ok p' \<longrightarrow> p' = p)"

text \<open>\<open>trusts F\<close> is \<open>covers\<close> with \<open>F\<close> for \<open>sealed\<close>: what the changed log may say about an entry.\<close>

fun trusts :: "(pbid \<Rightarrow> aead_key \<Rightarrow> aead_iv \<Rightarrow> aead_mac \<Rightarrow> bytes \<Rightarrow> bool) \<Rightarrow> (pbid \<Rightarrow> mht_node option) \<Rightarrow> nat \<Rightarrow> mht_node_entry \<Rightarrow> bytes list \<Rightarrow> bool" where
  "trusts F G 0 e ds \<longleftrightarrow> (\<exists>b. ds = [b] \<and> length b = BLOCK_SIZE \<and> F (en_pos e) (en_key e) iv_zeroed (en_mac e) b)"
| "trusts F G (Suc h) e ds \<longleftrightarrow> (\<exists>nd p. G (en_pos e) = Some nd \<and> F (en_pos e) (en_key e) iv_zeroed (en_mac e) p \<and>
    node_from_bytes p = nd \<and> node_over (trusts F G h) h nd ds)"

lemma node_over_mono:
  "node_over P h nd ds \<Longrightarrow> (\<And>e ds'. e \<in> set (take (num_valid_entries nd) (nd_entries nd)) \<Longrightarrow> P e ds' \<Longrightarrow> Q e ds') \<Longrightarrow> node_over Q h nd ds"
  unfolding node_over_def by (blast intro: list.rel_mono_strong)

lemma covers_trusts:
  assumes "seal_of ssl c key meta (Suc h) pos k iv mac p" "e \<in> set (take (num_valid_entries (node_from_bytes p)) (nd_entries (node_from_bytes p)))"
    "covers ssl c G h e ds" "\<And>h pos k iv mac p. seal_of ssl c key meta h pos k iv mac p \<Longrightarrow> F pos k iv mac p"
  shows "trusts F G h e ds"
  using assms(1-3)
proof (induction h arbitrary: pos k iv mac p e ds)
  case 0
  then obtain b where b: "ds = [b]" "sealed ssl c (en_pos e) (en_key e) iv_zeroed (en_mac e) b" by auto
  then show ?case using assms(4) [OF seal_child [OF 0(1,2) b(2)]] by (simp add: sealed_def)
next
  case (Suc h)
  then obtain nd p' where nd: "G (en_pos e) = Some nd" "sealed ssl c (en_pos e) (en_key e) iv_zeroed (en_mac e) p'"
      "node_from_bytes p' = nd" "node_over (covers ssl c G h) h nd ds"
    unfolding covers_Suc node_covers_over by blast
  note s = seal_child [OF Suc.prems(1,2) nd(2)]
  have "node_over (trusts F G h) h nd ds"
    using nd(4) by (rule node_over_mono) (use Suc.IH [OF s] nd(3) in blast)
  then show ?case using nd(1,3) assms(4) [OF s] by auto
qed

text \<open>The storage over the changed log: its cache has only nodes of the original.\<close>

definition cache_auth ::
    "('c \<Rightarrow> bool) \<Rightarrow> ('c \<Rightarrow> pbid \<Rightarrow> cache_value option) \<Rightarrow> (pbid \<Rightarrow> mht_node option) \<Rightarrow> 'l \<Rightarrow> ('l, 'c) mht_storage \<Rightarrow> bool" where
  "cache_auth cinv holds G log st \<longleftrightarrow> ms_block_log st = log \<and> cinv (ms_node_cache st) \<and>
    (\<forall>pos v. holds (ms_node_cache st) pos = Some v \<longrightarrow> (\<exists>nd. v = CachedMht nd \<and> G pos = Some nd))"

definition only_original :: "('l, 'c) mht_env \<Rightarrow> 'l \<Rightarrow> (pbid \<Rightarrow> aead_key \<Rightarrow> aead_iv \<Rightarrow> aead_mac \<Rightarrow> bytes \<Rightarrow> bool) \<Rightarrow> bool" where
  "only_original E log F \<longleftrightarrow> (\<forall>pos k iv mac p b p'. F pos k iv mac p \<longrightarrow> bl_read (me_log E) log pos 1 = Ok b \<longrightarrow>
    aead_decrypt (me_ssl E) b k iv [] mac BLOCK_SIZE = Ok p' \<longrightarrow> p' = p)"

lemma read_mht_node_auth:
  assumes "node_cache_laws (me_cache E) cinv holds" "only_original E log F" "cache_auth cinv holds G log st"
    and "G pos = Some nd" "F pos k iv mac p" "node_from_bytes p = nd" "read_mht_node E pos k mac iv st = Ok (nd', st')"
  shows "nd' = nd \<and> cache_auth cinv holds G log st'"
proof -
  have st: "cinv (ms_node_cache st)" "ms_block_log st = log" using assms(3) by (simp_all add: cache_auth_def)
  obtain c' where c': "nc_get (me_cache E) (ms_node_cache st) pos = Ok (holds (ms_node_cache st) pos, c')" "cinv c'"
      "holds c' = holds (ms_node_cache st)"
    using node_cache_laws.cache_get [OF assms(1) st(1)] by blast
  show ?thesis
  proof (cases "holds (ms_node_cache st) pos")
    case None
    obtain b q where "bl_read (me_log E) log pos 1 = Ok b" "aead_decrypt (me_ssl E) b k iv [] mac BLOCK_SIZE = Ok q"
        "nd' = node_from_bytes q" "cache_put E pos nd' (st\<lparr>ms_node_cache := c'\<rparr>) = Ok st'"
      using assms(7) None c'(1) st(2) by (auto simp: read_mht_node_def res_simps Let_def)
    moreover from this have "q = p" using assms(2,5) unfolding only_original_def by blast
    ultimately have nd: "nd' = nd" "cache_put E pos nd (st\<lparr>ms_node_cache := c'\<rparr>) = Ok st'" using assms(6) by simp_all
    then obtain c2 where "st' = st\<lparr>ms_node_cache := c2\<rparr>" "cinv c2" "holds c2 \<subseteq>\<^sub>m (holds c')(pos \<mapsto> CachedMht nd)"
      using node_cache_laws.cache_put [OF assms(1) c'(2), of pos "CachedMht nd"] by (auto simp: cache_put_def)
    then show ?thesis
      using nd(1) c'(3) assms(3,4) map_le_upd_cases [of "holds c2" "holds (ms_node_cache st)" pos "CachedMht nd"]
      by (fastforce simp: cache_auth_def)
  next
    case (Some v)
    then have "v = CachedMht nd" using assms(3,4) unfolding cache_auth_def by fastforce
    then show ?thesis using Some c' assms(3,7) by (auto simp: read_mht_node_def Let_def cache_auth_def)
  qed
qed

lemma read_mht_nodes_auth:
  assumes "node_cache_laws (me_cache E) cinv holds" "only_original E log F" "cache_auth cinv holds G log st"
    and "list_all2 (trusts F G (Suc h)) es dss" "read_mht_nodes E es st = Ok (nds, st')"
  shows "list_all2 (node_over (trusts F G h) h) nds dss \<and> cache_auth cinv holds G log st'"
  using assms(3-)
proof (induction es arbitrary: dss st nds)
  case (Cons e es)
  obtain ds dss' where d: "dss = ds # dss'" "trusts F G (Suc h) e ds" "list_all2 (trusts F G (Suc h)) es dss'"
    using Cons.prems(2) by (auto simp: list_all2_Cons1 simp del: trusts.simps)
  obtain nd p where nd: "G (en_pos e) = Some nd" "F (en_pos e) (en_key e) iv_zeroed (en_mac e) p" "node_from_bytes p = nd"
      "node_over (trusts F G h) h nd ds"
    using d(2) by auto
  obtain nd' st1 nds' where r: "read_mht_node E (en_pos e) (en_key e) (en_mac e) iv_zeroed st = Ok (nd', st1)"
      "read_mht_nodes E es st1 = Ok (nds', st')" "nds = nd' # nds'"
    using Cons.prems(3) by (auto simp: res_simps)
  then show ?case
    using read_mht_node_auth [OF assms(1,2) Cons.prems(1) nd(1-3) r(1)] Cons.IH [OF _ d(3) r(2)] nd(4) d(1) by auto
qed simp

lemma entry_fill_auth:
  assumes "only_original E (ms_block_log st) F" "list_all2 (trusts F G 0) es (map (\<lambda>d. [d]) bs)"
    and "(sc_offset ctx + length bs) * BLOCK_SIZE \<le> length (sc_data_buf ctx)"
    and "rfold (\<lambda>entry ctx. rbind (read_data_node E entry st) (\<lambda>block.
        rbind (node_buf_fill (sc_offset ctx) block ctx) (\<lambda>ctx. Ok (ctx\<lparr>sc_offset := sc_offset ctx + 1\<rparr>)))) es ctx = Ok ctx'"
  shows "sc_data_buf ctx' = overwrite (sc_data_buf ctx) (sc_offset ctx * BLOCK_SIZE) (concat bs)"
  using assms(2-)
proof (induction bs arbitrary: es ctx)
  case (Cons b bs)
  obtain e es' where e: "es = e # es'" "trusts F G 0 e [b]" "list_all2 (trusts F G 0) es' (map (\<lambda>d. [d]) bs)"
    using Cons.prems(1) by (auto simp: list_all2_Cons2 simp del: trusts.simps)
  let ?ctx = "ctx\<lparr>sc_data_buf := overwrite (sc_data_buf ctx) (sc_offset ctx * BLOCK_SIZE) b, sc_offset := Suc (sc_offset ctx)\<rparr>"
  have b: "length b = BLOCK_SIZE" using e(2) by simp
  have bs: "\<forall>x \<in> set bs. length x = BLOCK_SIZE"
    using e(3) by (auto simp: list_all2_conv_all_nth in_set_conv_nth)
  have fit: "(sc_offset ctx + 1) * BLOCK_SIZE \<le> length (sc_data_buf ctx)" using Cons.prems(2) by (simp add: add_mult_distrib)
  then have l: "length (sc_data_buf ?ctx) = length (sc_data_buf ctx)" using b by (simp add: length_overwrite add.commute)
  have read: "read_data_node E e st = Ok b'' \<Longrightarrow> b'' = b" for b''
    using assms(1) e(2) unfolding only_original_def by (auto simp: read_data_node_def res_simps)
  then have "rfold (\<lambda>entry ctx. rbind (read_data_node E entry st) (\<lambda>block.
        rbind (node_buf_fill (sc_offset ctx) block ctx) (\<lambda>ctx. Ok (ctx\<lparr>sc_offset := sc_offset ctx + 1\<rparr>)))) es' ?ctx = Ok ctx'"
    using Cons.prems(3) fill_block [OF b fit] e(1) by (auto simp: res_simps)
  from Cons.IH [OF e(3) _ this] show ?case
    using l Cons.prems(2) overwrite_next [OF b bs, of "sc_offset ctx" "sc_data_buf ctx"] by simp
qed simp

lemma search_hierarchy_auth:
  assumes "node_cache_laws (me_cache E) cinv holds" "only_original E log F" "cache_auth cinv holds G log st"
    and "0 < sc_num ctx" "sc_pos ctx + sc_num ctx \<le> length ds"
    and "list_all2 (node_over (trusts F G h) h) nds (chunks_of (MHT_NBRANCHES ^ Suc h) ds)"
    and "(sc_offset ctx + sc_num ctx) * BLOCK_SIZE \<le> length (sc_data_buf ctx)"
    and "search_hierarchy E nds (Suc h) ctx st = Ok (ctx', st')"
  shows "sc_data_buf ctx' = overwrite (sc_data_buf ctx) (sc_offset ctx * BLOCK_SIZE) (concat (take (sc_num ctx) (drop (sc_pos ctx) ds)))"
  using assms(3-)
proof (induction h arbitrary: nds ctx st ds)
  case 0
  let ?ds = "take (sc_num ctx) (drop (sc_pos ctx) ds)" and ?es = "take (sc_num ctx) (drop (sc_pos ctx) (concat (map nd_entries nds)))"
  note t = target_entries [OF "0.prems"(4,2,3)]
  have es: "list_all2 (trusts F G 0) ?es (map (\<lambda>d. [d]) ?ds)"
    using t(1) by (simp add: chunks_1 ceil_div_def del: trusts.simps)
  have log: "ms_block_log st = log" using "0.prems"(1) by (simp add: cache_auth_def)
  obtain ctx1 where "rfold (\<lambda>entry ctx. rbind (read_data_node E entry st) (\<lambda>block.
        rbind (node_buf_fill (sc_offset ctx) block ctx) (\<lambda>ctx. Ok (ctx\<lparr>sc_offset := sc_offset ctx + 1\<rparr>)))) ?es (ctx\<lparr>sc_pos := 0\<rparr>) = Ok ctx1"
      "ctx' = ctx1\<lparr>sc_is_completed := True\<rparr>"
    using "0.prems"(6) t(2,3) by (auto simp: search_hierarchy.simps(2) max_num_data_nodes_ok align_up_def is_lowest_level_def Let_def res_simps)
  then show ?case
    using entry_fill_auth [OF _ es, of E st "ctx\<lparr>sc_pos := 0\<rparr>" ctx1] assms(2) log "0.prems"(3,5) by simp
next
  case (Suc h)
  let ?a = "MHT_NBRANCHES ^ Suc h" and ?pos = "sc_pos ctx" and ?num = "sc_num ctx"
  let ?k = "?pos div ?a" and ?n = "ceil_div (?num + ?pos mod ?a) ?a" and ?ctx = "ctx\<lparr>sc_pos := ?pos mod ?a\<rparr>"
  let ?ds = "take (?n * ?a) (drop (?k * ?a) ds)"
  have a: "0 < ?a" by simp
  note w = search_window [OF a Suc.prems(2,3)] and t = target_entries [OF Suc.prems(4,2,3)]
  have max: "max_num_data_nodes (Suc h) = Ok ?a"
    using Suc.prems(6) by (auto simp: search_hierarchy.simps(2) [of E nds "Suc h"] res_simps max_num_data_nodes_def simp del: power_Suc)
  obtain x where x: "align_up (?num + ?pos mod ?a) ?a = Ok x" "x div ?a = ?n" using align_up_div [OF a] by blast
  have pm: "?pos - ?k * ?a = ?pos mod ?a" by (simp add: minus_div_mult_eq_mod del: power_Suc)
  obtain nds' st1 where r: "read_mht_nodes E (take ?n (drop ?k (concat (map nd_entries nds)))) st = Ok (nds', st1)"
      "search_hierarchy E nds' (Suc h) ?ctx st1 = Ok (ctx', st')"
    using Suc.prems(6) t(2,3) unfolding search_hierarchy.simps(2) [of E nds "Suc h"] max rbind.simps Let_def pm x
    by (auto simp: is_lowest_level_def res_simps simp del: power_Suc)
  have n: "list_all2 (node_over (trusts F G h) h) nds' (chunks_of ?a ?ds)" "cache_auth cinv holds G log st1"
    using read_mht_nodes_auth [OF assms(1,2) Suc.prems(1) t(1) r(1)] by simp_all
  from Suc.IH [OF n(2) _ _ n(1) _ r(2)] show ?case using Suc.prems(2,5) w(4,5) by (simp del: power_Suc)
qed

lemma crypto_log_open_auth:
  assumes "node_cache_laws (me_cache E) cinv holds" "only_original E log F" "cinv cache" "holds cache = Map.empty"
    and "G (rm_pos meta) = Some root" "F (rm_pos meta) key (rm_iv meta) (rm_mac meta) p" "node_from_bytes p = root"
    and "crypto_log_open E log key meta cache = Ok m"
  shows "mh_root m = Some (meta, root) \<and> ab_node_queue (mh_data_buf m) = [] \<and> ab_entry_queue (mh_data_buf m) = [] \<and>
    ab_start_pos (mh_data_buf m) = num_data_nodes root \<and> cache_auth cinv holds G log (mh_storage m)"
proof -
  let ?st = "\<lparr>ms_block_log = log, ms_node_cache = cache\<rparr>"
  obtain root' st b where r: "read_mht_node E (rm_pos meta) key (rm_mac meta) (rm_iv meta) ?st = Ok (root', st)"
      "append_buf_new APPEND_BUF_CAPACITY (num_data_nodes root') = Ok b"
      "m = \<lparr>mh_root = Some (meta, root'), mh_root_key = key, mh_data_buf = b, mh_storage = st\<rparr>"
    using assms(8) by (auto simp: crypto_log_open_def mht_open_def mht_storage_new_def root_mht_node_def res_simps)
  have "cache_auth cinv holds G log ?st" using assms(3,4) by (simp add: cache_auth_def)
  from read_mht_node_auth [OF assms(1,2) this assms(5-7) r(1)] show ?thesis
    using r(2,3) by (auto simp: append_buf_new_def res_simps)
qed

lemma crypto_log_read_auth:
  assumes "node_cache_laws (me_cache E) cinv holds" "only_original E log F" "buf_ok buf"
    and "node_over (trusts F G h) h root rs"
    and "mh_root m = Some (meta, root)" "ab_node_queue (mh_data_buf m) = []" "ab_entry_queue (mh_data_buf m) = []"
    and "ab_start_pos (mh_data_buf m) = length rs" "cache_auth cinv holds G log (mh_storage m)"
    and "\<forall>b \<in> set rs. length b = BLOCK_SIZE" "crypto_log_read E pos buf m = Ok (buf', m')"
  shows "pos + buf_nblocks buf \<le> length rs \<and> buf' = concat (take (buf_nblocks buf) (drop pos rs))"
proof -
  let ?n = "buf_nblocks buf" and ?ctx = "search_ctx_new pos buf"
  have n: "0 < ?n" "length buf = ?n * BLOCK_SIZE" using buf_ok_nblocks_pos buf_ok_length assms(3) by blast+
  have sh: "num_data_nodes root = length rs" "node_height root = Suc h" "rs \<noteq> []" "length rs \<le> MHT_NBRANCHES ^ Suc h"
    using assms(4) by (auto simp: node_over_def node_shape_def)
  have fits: "pos + ?n \<le> length rs"
    using assms(5-7,11) sh(1) by (auto simp: crypto_log_read_def mht_search_def total_data_nodes_def num_append_def search_ctx_new_def ok_or_def res_simps split: if_splits)
  then have "search_data_nodes E (mh_data_buf m) (mh_storage m) ?ctx = Ok ?ctx"
    using assms(8) by (simp add: search_data_nodes_def search_ctx_new_def Let_def)
  then obtain ctx st where s: "search_hierarchy E [root] (Suc h) ?ctx (mh_storage m) = Ok (ctx, st)" "buf' = sc_data_buf ctx"
    using assms(5,11) sh(2) by (auto simp: crypto_log_read_def mht_search_def search_ctx_new_def ok_or_def res_simps split: if_splits)
  have "list_all2 (node_over (trusts F G h) h) [root] (chunks_of (MHT_NBRANCHES ^ Suc h) rs)"
    using assms(4) chunks_single [of rs "MHT_NBRANCHES ^ Suc h"] sh(3,4) by simp
  from search_hierarchy_auth [OF assms(1,2,9) _ _ this _ s(1)] have "sc_data_buf ctx = overwrite buf 0 (concat (take ?n (drop pos rs)))"
    using n fits by (simp add: search_ctx_new_def)
  moreover have "length (concat (take ?n (drop pos rs))) = length buf"
    using length_concat_blocks [of "take ?n (drop pos rs)"] assms(10) n(2) fits by (auto dest!: in_set_takeD in_set_dropD)
  ultimately show ?thesis using fits s(2) by simp
qed

lemma seal_of_sealed: "seal_of ssl c key meta h pos k iv mac p \<Longrightarrow> sealed ssl c pos k iv mac p"
  by (induction rule: seal_of.induct)

lemma root_trusts:
  assumes "root_ok ssl c G key rs (Some (meta, root))" "\<And>h pos k iv mac p. seal_of ssl c key meta h pos k iv mac p \<Longrightarrow> F pos k iv mac p"
  shows "\<exists>h p. node_over (trusts F G h) h root rs \<and> F (rm_pos meta) key (rm_iv meta) (rm_mac meta) p \<and> node_from_bytes p = root \<and>
    G (rm_pos meta) = Some root"
proof -
  obtain h p where r: "node_over (covers ssl c G h) h root rs" "G (rm_pos meta) = Some root"
      "sealed ssl c (rm_pos meta) key (rm_iv meta) (rm_mac meta) p" "node_from_bytes p = root"
    using assms(1) by (auto simp: root_ok_def node_covers_over)
  have "node_height root = Suc h" using r(1) by (simp add: node_over_def node_shape_def)
  then have s: "seal_of ssl c key meta (Suc h) (rm_pos meta) key (rm_iv meta) (rm_mac meta) p"
    using seal_root [OF r(3)] r(4) by simp
  have "node_over (trusts F G h) h root rs"
  proof (rule node_over_mono [OF r(1)])
    fix e ds
    assume e: "e \<in> set (take (num_valid_entries root) (nd_entries root))" "covers ssl c G h e ds"
    show "trusts F G h e ds" by (rule covers_trusts [OF s _ e(2) assms(2)]) (use e(1) r(4) in simp_all)
  qed
  then show ?thesis using r(2,4) assms(2) [OF s] by blast
qed

context mht_setting
begin

text \<open>The log as it was left is not forged.\<close>

lemma unforged_self:
  assumes "linv log"
  shows "unforged (me_ssl E) (content log) key meta (\<lambda>pos. bl_read (me_log E) log pos 1)"
  unfolding unforged_def
proof (intro allI impI)
  fix h pos k iv mac p b p'
  assume a: "seal_of (me_ssl E) (content log) key meta h pos k iv mac p \<and> bl_read (me_log E) log pos 1 = Ok b \<and>
    aead_decrypt (me_ssl E) b k iv [] mac BLOCK_SIZE = Ok p'"
  then have s: "sealed (me_ssl E) (content log) pos k iv mac p" using seal_of_sealed by blast
  then show "p' = p" using log_read_block(1) [OF assms s] a by (simp add: sealed_def)
qed

lemma crypto_log_tamper:
  assumes rep: "log_rep E linv content cinv holds (rs, [], []) m" "crypto_log_root_meta m = Some meta" "mh_root_key m = key"
    and other: "me_ssl E' = me_ssl E" "node_cache_laws (me_cache E') cinv' holds'" "cinv' cache" "holds' cache = Map.empty"
    and safe: "unforged (me_ssl E) (content (ms_block_log (mh_storage m))) key meta (\<lambda>pos. bl_read (me_log E') log' pos 1)"
    and opened: "crypto_log_open E' log' key meta cache = Ok m2"
    and read: "buf_ok buf" "crypto_log_read E' pos buf m2 = Ok (buf', m3)"
  shows "pos + buf_nblocks buf \<le> length rs \<and> buf' = concat (take (buf_nblocks buf) (drop pos rs))"
proof -
  let ?c = "content (ms_block_log (mh_storage m))"
  define F where "F pos k iv mac p = (\<exists>h. seal_of (me_ssl E) ?c key meta h pos k iv mac p)" for pos k iv mac p
  obtain root G where root: "root_ok (me_ssl E) ?c G key rs (Some (meta, root))"
    using rep by (auto simp: log_rep_def Let_def crypto_log_root_meta_def)
  have only: "only_original E' log' F"
    using safe unfolding only_original_def unforged_def F_def other(1) by blast
  obtain h p where t: "node_over (trusts F G h) h root rs" "F (rm_pos meta) key (rm_iv meta) (rm_mac meta) p" "node_from_bytes p = root"
      "G (rm_pos meta) = Some root"
    using root_trusts [OF root, of F] F_def by blast
  have o: "mh_root m2 = Some (meta, root) \<and> ab_node_queue (mh_data_buf m2) = [] \<and> ab_entry_queue (mh_data_buf m2) = [] \<and>
      ab_start_pos (mh_data_buf m2) = num_data_nodes root \<and> cache_auth cinv' holds' G log' (mh_storage m2)"
    by (rule crypto_log_open_auth [where E = E' and cinv = cinv' and holds = holds' and F = F and G = G])
      (use other only t opened in simp_all)
  have "num_data_nodes root = length rs" using t(1) by (simp add: node_over_def node_shape_def)
  moreover have "\<forall>b \<in> set rs. length b = BLOCK_SIZE" using log_rep_blocks [OF rep(1)] by (simp add: abs_blocks_def)
  ultimately show ?thesis
    using crypto_log_read_auth [OF other(2) only read(1) t(1) _ _ _ _ _ _ read(2)] o by simp
qed

text \<open>A read that starts behind as many blocks as either queue has.\<close>

lemma crypto_log_read_skips:
  assumes rep: "log_rep E linv content cinv holds (rs, es, ns) m" and "rs \<noteq> []" "buf_ok buf"
    "length rs + length es \<le> pos" "length rs + length ns \<le> pos" "pos + buf_nblocks buf \<le> length (rs @ es @ ns)"
  shows "crypto_log_read E pos buf m = Ok (buf, m)"
proof -
  let ?b = "mh_data_buf m" and ?st = "mh_storage m" and ?ctx = "search_ctx_new pos buf"
  let ?c = "content (ms_block_log ?st)"
  obtain G where G: "linv (ms_block_log ?st)" "list_all2 (covers (me_ssl E) ?c G 0) (ab_entry_queue ?b) (map (\<lambda>d. [d]) es)"
      "ab_start_pos ?b = length rs" "ab_node_queue ?b = ns" "\<forall>d \<in> set (ab_node_queue ?b). length d = BLOCK_SIZE"
    using rep by (auto simp: log_rep_def Let_def storage_ok_def)
  obtain meta root where r: "mh_root m = Some (meta, root)" using log_rep_root [OF rep assms(2)] by blast
  have total: "\<not> total_data_nodes m < pos + buf_nblocks buf"
    using log_rep_nblocks [OF rep] assms(6) by (simp add: crypto_log_nblocks_def abs_blocks_def)
  have num: "length (ab_entry_queue ?b) = length es" using G(2) by (simp add: list_all2_lengthD)
  have n: "0 < buf_nblocks buf" using buf_ok_nblocks_pos [OF assms(3)] .
  have p: "ab_start_pos ?b < sc_pos ?ctx + sc_num ?ctx" "sc_pos ?ctx + sc_num ?ctx \<le> ab_start_pos ?b + num_append ?b"
      "pos - length rs = sc_pos ?ctx - ab_start_pos ?b" "pos + buf_nblocks buf - length rs = sc_pos ?ctx + sc_num ?ctx - ab_start_pos ?b"
      "0 = ab_start_pos ?b - sc_pos ?ctx"
    using G(3,4) assms(4-6) num n by (simp_all add: search_ctx_new_def num_append_def)
  have xs: "[] = take (pos + buf_nblocks buf - length rs - (pos - length rs)) (drop (pos - length rs) es)"
    "[] = take (pos + buf_nblocks buf - length rs - length ([] :: bytes list) - (if ([] :: bytes list) = [] then pos - length rs else 0))
      (drop (if ([] :: bytes list) = [] then pos - length rs else 0) (ab_node_queue ?b))"
    using assms(4,5) G(4) by simp_all
  obtain ctx where "search_data_nodes E ?b ?st ?ctx = Ok ctx" "sc_is_completed ctx" "sc_data_buf ctx = buf"
    using search_data_nodes_eq [OF G(1,2,5) p xs] assms(4) G(3) by (auto simp: search_ctx_new_def)
  then show ?thesis using r total by (simp add: crypto_log_read_def mht_search_def search_ctx_new_def)
qed

end

section \<open>An instance\<close>

text \<open>The log in memory, short enough that its positions are of type \<open>usize\<close>.\<close>

definition memlog_small :: "memlog \<Rightarrow> bool" where
  "memlog_small l \<longleftrightarrow> memlog_inv l \<and> length (ml_log l) < 2 ^ 64"

lemma memlog_append_length:
  assumes "memlog_inv s" "buf_ok buf" "memlog_append s buf = Ok (pos, s')"
  shows "length (ml_log s') = length (ml_log s)"
  using assms(3) by (auto simp: memlog_append_def memlog_offset_def copy_range_def Let_def res_simps length_overwrite split: if_splits)

interpretation mls: roomy_log memlog_ops memlog_small memlog_content memlog_room
proof (unfold_locales, goal_cases)
  case (1 s)
  then show ?case using ml.log_length by (simp add: memlog_small_def)
next
  case (2 s n pos)
  then show ?case using ml.log_read by (simp add: memlog_small_def)
next
  case (3 s buf)
  then show ?case using ml.log_append [of s buf] memlog_append_length [of s buf] by (fastforce simp: memlog_small_def)
next
  case (4 s a b)
  then show ?case using mlr.room_less by blast
next
  case (5 s buf n pos s')
  then show ?case using mlr.room_append [of s buf n pos s'] by (simp add: memlog_small_def)
qed

definition demo_mht :: "(memlog, (pbid \<times> cache_value) list log_cache) mht_env" where
  "demo_mht = \<lparr>me_pages = zero_pages, me_ssl = openssl_ref, me_log = memlog_ops, me_cache = log_cache_ops node_lru_ref 7,
    me_pad = (\<lambda>_. 0), me_uninit = \<lparr>en_pos = 0, en_key = replicate 16 0, en_mac = replicate 16 0\<rparr>\<rparr>"

definition demo_cache :: "(pbid \<times> cache_value) list log_cache" where
  "demo_cache = \<lparr>lk_inner = [], lk_open_table = [(7, [])]\<rparr>"

definition demo_memlog :: "nat \<Rightarrow> memlog" where
  "demo_memlog n = \<lparr>ml_log = replicate (n * BLOCK_SIZE) 0, ml_append_pos = 0\<rparr>"

definition demo_random :: mht_random where
  "demo_random = \<lparr>rk_key = (\<lambda>pos. le_bytes 16 pos), rk_iv = (\<lambda>pos. le_bytes 12 pos)\<rparr>"

interpretation dm: mht_setting demo_mht memlog_small memlog_content memlog_room "log_cache_inv 7 [(7, [])]" "log_cache_holds map_of 7"
proof -
  have "memlog_small s \<Longrightarrow> memlog_nblocks s < 2 ^ 64" for s
  proof -
    assume s: "memlog_small s"
    then have "ml_append_pos s * BLOCK_SIZE \<le> length (ml_log s)"
      using memlog_fits [of s "ml_append_pos s"] by (simp add: memlog_small_def memlog_inv_def)
    then have "ml_append_pos s \<le> length (ml_log s)" by (rule order_trans [rotated]) (simp add: BLOCK_SIZE_def)
    then show ?thesis using s by (simp add: memlog_small_def memlog_nblocks_def)
  qed
  then have n: "memlog_small s \<Longrightarrow> bl_nblocks (me_log demo_mht) s < 2 ^ 64" for s by (simp add: demo_mht_def)
  have "roomy_log (me_log demo_mht) memlog_small memlog_content memlog_room"
    by (simp add: demo_mht_def mls.roomy_log_axioms)
  moreover have "openssl_laws (me_ssl demo_mht)" by (simp add: demo_mht_def ssl_ref.openssl_laws_axioms)
  moreover have "node_cache_laws (me_cache demo_mht) (log_cache_inv 7 [(7, [])]) (log_cache_holds map_of 7)"
    by (simp add: demo_mht_def lkc.node_cache_laws_axioms)
  moreover have "pages_ready (me_pages demo_mht)" "valid_entry (me_uninit demo_mht)"
    by (simp_all add: demo_mht_def valid_entry_def aes_sizes)
  ultimately show "mht_setting demo_mht memlog_small memlog_content memlog_room (log_cache_inv 7 [(7, [])]) (log_cache_holds map_of 7)"
    using n by (intro mht_setting.intro mht_setting_axioms.intro)
qed

lemma demo_log_ok:
  assumes "0 < n" "n < 2 ^ 40"
  shows "memlog_small (demo_memlog n)" "memlog_room (demo_memlog n) n"
  using assms by (simp_all add: memlog_small_def memlog_inv_def demo_memlog_def buf_ok_def buf_nblocks_def memlog_room_def BLOCK_SIZE_def)

lemma demo_cache_ok: "log_cache_inv 7 [(7, [])] demo_cache" "log_cache_holds map_of 7 demo_cache = Map.empty"
  by (simp_all add: log_cache_inv_def log_cache_holds_def demo_cache_def)

lemma demo_random_ok: "random_ok demo_random"
  by (simp add: random_ok_def demo_random_def aes_sizes)

lemma replicate_buf: "0 < n \<Longrightarrow> buf_ok (replicate (n * BLOCK_SIZE) b)" "buf_nblocks (replicate (n * BLOCK_SIZE) b) = n"
  by (simp_all add: buf_ok_def buf_nblocks_def)

lemma length_replicate_blocks [simp]: "0 < n \<Longrightarrow> length (buf_blocks (replicate (n * BLOCK_SIZE) b)) = n"
  using buf_blocks_ok(3) [OF replicate_buf(1)] replicate_buf(2) by metis

lemma one_block: "buf_blocks (replicate (1 * BLOCK_SIZE) b) = [replicate BLOCK_SIZE b]"
proof -
  obtain x where x: "buf_blocks (replicate (1 * BLOCK_SIZE) b) = [x]"
    using length_replicate_blocks [of 1 b] by (cases "buf_blocks (replicate (1 * BLOCK_SIZE) b)") auto
  then show ?thesis using buf_blocks_ok(5) [OF replicate_buf(1) [of 1 b]] by simp
qed

lemma cap_values: "APPEND_BUF_CAPACITY div 2 = 1024" "ENTRY_QUEUE_CAP = 104857"
  by (simp_all add: APPEND_BUF_CAPACITY_def ENTRY_QUEUE_CAP_def BLOCK_SIZE_def MHT_ENTRY_SIZE_def)

lemma build_fine_first: "0 < m \<Longrightarrow> m < 2 ^ 32 \<Longrightarrow> build_fine 0 m"
  by (simp add: build_fine_def rebuild_ok_def)

definition demo_ops :: "log_op list" where
  "demo_ops = [LogAppend (replicate (1 * BLOCK_SIZE) 1)]"

definition demo_read :: log_op where
  "demo_read = LogRead 0 (replicate (1 * BLOCK_SIZE) 0)"

lemma demo_ops_fine: "ops_fine ENTRY_QUEUE_CAP (demo_ops @ [LogFlush]) ([], [], [])"
    "ops_fine ENTRY_QUEUE_CAP (demo_ops @ [LogFlush, demo_read]) ([], [], [])"
  using replicate_buf [of 1 1] replicate_buf [of 1 0] one_block [of 1]
  by (simp_all add: demo_ops_def demo_read_def cap_values abs_append_def abs_flush_def build_fine_first abs_blocks_def search_fine_def)

lemma demo_ops_room: "sum_list (map op_room (demo_ops @ [LogFlush])) = 15" "sum_list (map op_room (demo_ops @ [LogFlush, demo_read])) = 15"
  using replicate_buf(2) [of 1 1] by (simp_all add: demo_ops_def demo_read_def)

lemma demo_ops_run: "snd (clog_spec demo_ops []) = [replicate BLOCK_SIZE 1]"
    "fst (clog_spec (demo_ops @ [LogFlush, demo_read]) []) = [None, None, Some (replicate BLOCK_SIZE 1)]"
  using one_block [of 1] replicate_buf(2) [of 1 0] by (simp_all add: demo_ops_def demo_read_def)

lemma demo_mht_cache: "me_cache demo_mht = log_cache_ops node_lru_ref 7"
  by (simp add: demo_mht_def)

section \<open>Properties\<close>

text \<open>C4: an encrypted log is a log: from a new log, any sequence of appends, flushes and reads that meets the conditions of
  \<open>ops_fine\<close> succeeds when the block log has room, every read returns the blocks at its position of the list of all
  blocks appended so far, whether they are in the tree or in a queue, and the log has as many blocks as were appended.
\<close>

theorem crypto_log_is_log:
  assumes "mht_setting E linv content room cinv holds"
    and "linv log" "cinv cache" "holds cache = Map.empty" "length key = AES_GCM_KEY_SIZE" "\<forall>i. random_ok (rnds i)"
    and "ops_fine ENTRY_QUEUE_CAP ops ([], [], [])" "room log (sum_list (map op_room ops))"
  shows "\<exists>cl. clog_ready E log key cache rnds ops = Ok (fst (clog_spec ops []), cl) \<and>
    crypto_log_nblocks cl = length (snd (clog_spec ops []))"
proof -
  obtain m where "clog_ready E log key cache rnds ops = Ok (fst (clog_spec ops []), m)"
      "log_rep E linv content cinv holds (fold (abs_step ENTRY_QUEUE_CAP) ops ([], [], [])) m"
    using mht_setting.clog_ready_ok [OF assms] by blast
  then show ?thesis using log_rep_nblocks clog_spec_blocks [OF assms(7)] by fastforce
qed

theorem crypto_log_is_log_witness:
  "\<exists>cl. clog_ready demo_mht (demo_memlog 15) (replicate 16 9) demo_cache (\<lambda>_. demo_random) (demo_ops @ [LogFlush, demo_read]) =
      Ok ([None, None, Some (replicate BLOCK_SIZE 1)], cl)"
  using crypto_log_is_log [OF dm.mht_setting_axioms, of "demo_memlog 15" demo_cache "replicate 16 9" "\<lambda>_. demo_random" "demo_ops @ [LogFlush, demo_read]"]
    demo_log_ok [of 15] demo_cache_ok demo_random_ok demo_ops_fine(2)
  unfolding demo_ops_room demo_ops_run by (auto simp: aes_sizes)







text \<open>C40: a read can miss blocks that are in the queues: when both queues have blocks and the read starts behind as many queued
  blocks as each of them has, it succeeds and leaves the buffer as it was, whatever the blocks are. (The index into the queue of
  plain blocks should be reduced by the number of entries.)
\<close>

theorem crypto_log_read_misses:
  assumes "mht_setting E linv content room cinv holds"
    and "linv log" "cinv cache" "holds cache = Map.empty" "length key = AES_GCM_KEY_SIZE" "\<forall>i. random_ok (rnds i)"
    and "ops_fine ENTRY_QUEUE_CAP ops ([], [], [])" "room log (sum_list (map op_room ops))"
    and "fold (abs_step ENTRY_QUEUE_CAP) ops ([], [], []) = (rs, es, ns)" "rs \<noteq> []" "buf_ok buf"
    and "length rs + max (length es) (length ns) \<le> pos" "pos + buf_nblocks buf \<le> length (snd (clog_spec ops []))"
  shows "\<exists>outs cl. clog_ready E log key cache rnds ops = Ok (outs, cl) \<and> crypto_log_read E pos buf cl = Ok (buf, cl)"
proof -
  obtain outs m where m: "clog_ready E log key cache rnds ops = Ok (outs, m)" "log_rep E linv content cinv holds (rs, es, ns) m"
    using mht_setting.clog_ready_ok [OF assms(1-8)] assms(9) by auto
  have "snd (clog_spec ops []) = rs @ es @ ns" using clog_spec_blocks [OF assms(7)] assms(9) by (simp add: abs_blocks_def)
  then show ?thesis
    using m(1) mht_setting.crypto_log_read_skips [OF assms(1) m(2) assms(10,11)] assms(12,13) by auto
qed

definition miss_ops :: "log_op list" where
  "miss_ops = [LogAppend (replicate (1 * BLOCK_SIZE) 1), LogFlush, LogAppend (replicate (1024 * BLOCK_SIZE) 2), LogAppend (replicate (1 * BLOCK_SIZE) 3)]"

lemma miss_ops_steps: "fold (abs_step ENTRY_QUEUE_CAP) miss_ops ([], [], []) =
    ([replicate BLOCK_SIZE 1], buf_blocks (replicate (1024 * BLOCK_SIZE) 2), [replicate BLOCK_SIZE 3])"
    "ops_fine ENTRY_QUEUE_CAP miss_ops ([], [], [])"
  using replicate_buf [of 1 1] replicate_buf [of 1024 2] replicate_buf [of 1 3] one_block [of 1] one_block [of 3]
    length_replicate_blocks [of 1024 2]
  by (simp_all add: miss_ops_def cap_values abs_append_def abs_flush_def build_fine_first)

lemma miss_ops_room: "sum_list (map op_room miss_ops) = 5150"
  using replicate_buf(2) [of 1 1] replicate_buf(2) [of 1024 2] replicate_buf(2) [of 1 3] by (simp add: miss_ops_def)

theorem crypto_log_read_misses_witness:
  "\<exists>outs cl. clog_ready demo_mht (demo_memlog 5150) (replicate 16 9) demo_cache (\<lambda>_. demo_random) miss_ops = Ok (outs, cl) \<and>
    crypto_log_read demo_mht 1025 (replicate (1 * BLOCK_SIZE) 0) cl = Ok (replicate (1 * BLOCK_SIZE) 0, cl)"
proof -
  have "length (snd (clog_spec miss_ops [])) = 1026"
    using clog_spec_blocks [OF miss_ops_steps(2)] length_replicate_blocks [of 1024 2] by (simp add: miss_ops_steps abs_blocks_def)
  then show ?thesis
    using crypto_log_read_misses [OF dm.mht_setting_axioms, of "demo_memlog 5150" demo_cache "replicate 16 9" "\<lambda>_. demo_random" miss_ops,
        OF _ _ _ _ _ miss_ops_steps(2) _ miss_ops_steps(1), of "replicate (1 * BLOCK_SIZE) 0" 1025]
      demo_log_ok [of 5150] demo_cache_ok demo_random_ok replicate_buf [of 1 0] length_replicate_blocks [of 1024 2]
    unfolding miss_ops_room by (auto simp: aes_sizes)
qed

end
