(* ===== verification/Tx_State.thy ===== *)
theory Tx_State
  imports Raw_Log Crypto_Log
begin

text \<open>
  The persistent state of the store of transactional logs and the edits to it
  (\<open>core/src/layers/3-log/tx_log.rs\<close>, parts \<open>Persistent State\<close>, \<open>Persistent Edit\<close> and \<open>Journaling\<close>).

  A log has an entry with its bucket, its root key and the metadata of its root node; a bucket has the set of its
  logs. A hash map is an association list, whose order is the order of iteration, and a hash set is a set.
  An edit has at most one change for a log. The lemmas show that the buckets and the entries always agree, and that the effect of an
  edit on a log depends on the change of this log alone, not on the order of iteration.
\<close>

type_synonym tx_log_id = raw_log_id
type_synonym bucket_name = string

section \<open>The state\<close>

record tx_log_entry =
  te_bucket :: bucket_name
  te_key :: aead_key
  te_root_mht :: root_mht_meta

record tx_log_store_state =
  tp_log_table :: "(tx_log_id \<times> tx_log_entry) list"
  tp_bucket_table :: "(bucket_name \<times> tx_log_id set) list"

definition tx_state_new :: tx_log_store_state where
  "tx_state_new = \<lparr>tp_log_table = [], tp_bucket_table = []\<rparr>"

text \<open>The end of \<open>create_log\<close> and of \<open>move_log\<close>: a log joins a bucket, which is made when it is missing.\<close>

definition bucket_join :: "tx_log_id \<Rightarrow> bucket_name \<Rightarrow> tx_log_store_state \<Rightarrow> tx_log_store_state" where
  "bucket_join log_id bucket st =
    (case map_of (tp_bucket_table st) bucket of
       Some log_ids \<Rightarrow> st\<lparr>tp_bucket_table := AList.update bucket (insert log_id log_ids) (tp_bucket_table st)\<rparr>
     | None \<Rightarrow> st\<lparr>tp_bucket_table := AList.update bucket {log_id} (tp_bucket_table st)\<rparr>)"

definition tx_state_create_log ::
    "tx_log_id \<Rightarrow> bucket_name \<Rightarrow> aead_key \<Rightarrow> root_mht_meta \<Rightarrow> tx_log_store_state \<Rightarrow> tx_log_store_state res" where
  "tx_state_create_log new_log_id bucket key root_mht st =
    rbind (rassert (map_of (tp_log_table st) new_log_id = None)) (\<lambda>_.
    let entry = \<lparr>te_bucket = bucket, te_key = key, te_root_mht = root_mht\<rparr> in
      Ok (bucket_join new_log_id bucket (st\<lparr>tp_log_table := AList.update new_log_id entry (tp_log_table st)\<rparr>)))"

definition tx_state_find_log :: "tx_log_id \<Rightarrow> tx_log_store_state \<Rightarrow> tx_log_entry res" where
  "tx_state_find_log log_id st = ok_or NotFound (map_of (tp_log_table st) log_id)"

definition tx_state_list_logs_in :: "bucket_name \<Rightarrow> tx_log_store_state \<Rightarrow> tx_log_id set res" where
  "tx_state_list_logs_in bucket st = ok_or NotFound (map_of (tp_bucket_table st) bucket)"

definition tx_state_list_all_logs :: "tx_log_store_state \<Rightarrow> tx_log_id list" where
  "tx_state_list_all_logs st = map fst (tp_log_table st)"

definition tx_state_contains_log :: "tx_log_id \<Rightarrow> tx_log_store_state \<Rightarrow> bool" where
  "tx_state_contains_log log_id st \<longleftrightarrow> map_of (tp_log_table st) log_id \<noteq> None"

definition tx_state_append_log :: "tx_log_id \<Rightarrow> root_mht_meta \<Rightarrow> tx_log_store_state \<Rightarrow> tx_log_store_state res" where
  "tx_state_append_log log_id root_mht st =
    rbind (res_unwrap (map_of (tp_log_table st) log_id)) (\<lambda>entry.
      Ok (st\<lparr>tp_log_table := AList.update log_id (entry\<lparr>te_root_mht := root_mht\<rparr>) (tp_log_table st)\<rparr>))"

definition tx_state_delete_log :: "tx_log_id \<Rightarrow> tx_log_store_state \<Rightarrow> tx_log_store_state" where
  "tx_state_delete_log log_id st =
    (case map_of (tp_log_table st) log_id of
       None \<Rightarrow> st
     | Some entry \<Rightarrow>
         let st = st\<lparr>tp_log_table := AList.delete log_id (tp_log_table st)\<rparr> in
         (case map_of (tp_bucket_table st) (te_bucket entry) of
            None \<Rightarrow> st
          | Some log_ids \<Rightarrow> st\<lparr>tp_bucket_table := AList.update (te_bucket entry) (log_ids - {log_id}) (tp_bucket_table st)\<rparr>))"

definition tx_state_move_log ::
    "tx_log_id \<Rightarrow> bucket_name \<Rightarrow> bucket_name \<Rightarrow> tx_log_store_state \<Rightarrow> tx_log_store_state res" where
  "tx_state_move_log log_id from_bucket to_bucket st =
    rbind (res_unwrap (map_of (tp_log_table st) log_id)) (\<lambda>entry.
    rbind (rassert (te_bucket entry = from_bucket)) (\<lambda>_.
    let st = st\<lparr>tp_log_table := AList.update log_id (entry\<lparr>te_bucket := to_bucket\<rparr>) (tp_log_table st)\<rparr> in
    rbind (res_unwrap (map_of (tp_bucket_table st) from_bucket)) (\<lambda>log_ids.
      Ok (bucket_join log_id to_bucket
        (st\<lparr>tp_bucket_table := AList.update from_bucket (log_ids - {log_id}) (tp_bucket_table st)\<rparr>)))))"

section \<open>Edits\<close>

datatype tx_log_edit =
    TxLogCreate bucket_name aead_key "root_mht_meta option"
  | TxLogAppend root_mht_meta
  | TxLogDelete
  | TxLogMove bucket_name bucket_name

type_synonym tx_log_store_edit = "(tx_log_id \<times> tx_log_edit) list"

definition tx_edit_create_log :: "tx_log_id \<Rightarrow> bucket_name \<Rightarrow> aead_key \<Rightarrow> tx_log_store_edit \<Rightarrow> tx_log_store_edit res" where
  "tx_edit_create_log log_id bucket key edit =
    rbind (rassert (map_of edit log_id = None)) (\<lambda>_. Ok (AList.update log_id (TxLogCreate bucket key None) edit))"

definition tx_edit_append_log :: "tx_log_id \<Rightarrow> root_mht_meta \<Rightarrow> tx_log_store_edit \<Rightarrow> tx_log_store_edit res" where
  "tx_edit_append_log log_id root_mht edit =
    rbind (rassert (map_of edit log_id = None)) (\<lambda>_. Ok (AList.update log_id (TxLogAppend root_mht) edit))"

definition tx_edit_delete_log :: "tx_log_id \<Rightarrow> tx_log_store_edit \<Rightarrow> tx_log_store_edit res" where
  "tx_edit_delete_log log_id edit =
    (case map_of edit log_id of
       None \<Rightarrow> Ok (AList.update log_id TxLogDelete edit)
     | Some (TxLogCreate _ _ _) \<Rightarrow> Ok (AList.update log_id TxLogDelete edit)
     | Some (TxLogMove _ _) \<Rightarrow> Ok (AList.update log_id TxLogDelete edit)
     | Some (TxLogAppend _) \<Rightarrow> Panics
     | Some TxLogDelete \<Rightarrow> Panics)"

definition tx_edit_move_log ::
    "tx_log_id \<Rightarrow> bucket_name \<Rightarrow> bucket_name \<Rightarrow> tx_log_store_edit \<Rightarrow> tx_log_store_edit res" where
  "tx_edit_move_log log_id from_bucket to_bucket edit =
    rbind (rassert (map_of edit log_id = None)) (\<lambda>_. Ok (AList.update log_id (TxLogMove from_bucket to_bucket) edit))"

definition tx_edit_is_log_created :: "tx_log_id \<Rightarrow> tx_log_store_edit \<Rightarrow> bool" where
  "tx_edit_is_log_created log_id edit =
    (case map_of edit log_id of
       Some (TxLogCreate _ _ _) \<Rightarrow> True
     | Some (TxLogAppend _) \<Rightarrow> True
     | Some (TxLogMove _ _) \<Rightarrow> True
     | None \<Rightarrow> False
     | Some TxLogDelete \<Rightarrow> False)"

definition tx_edit_is_log_deleted :: "tx_log_id \<Rightarrow> tx_log_store_edit \<Rightarrow> bool" where
  "tx_edit_is_log_deleted log_id edit = (case map_of edit log_id of Some TxLogDelete \<Rightarrow> True | _ \<Rightarrow> False)"

definition tx_iter_created_logs :: "tx_log_store_edit \<Rightarrow> tx_log_id list" where
  "tx_iter_created_logs edit = map fst (filter (\<lambda>(_, e). case e of TxLogCreate _ _ _ \<Rightarrow> True | _ \<Rightarrow> False) edit)"

definition tx_iter_deleted_logs :: "tx_log_store_edit \<Rightarrow> tx_log_id list" where
  "tx_iter_deleted_logs edit = map fst (filter (\<lambda>(_, e). case e of TxLogDelete \<Rightarrow> True | _ \<Rightarrow> False) edit)"

definition tx_edit_update_log_meta :: "tx_log_id \<times> root_mht_meta \<Rightarrow> tx_log_store_edit \<Rightarrow> tx_log_store_edit res" where
  "tx_edit_update_log_meta = (\<lambda>(log_id, meta) edit.
    case map_of edit log_id of
      Some (TxLogCreate bucket key _) \<Rightarrow> Ok (AList.update log_id (TxLogCreate bucket key (Some meta)) edit)
    | Some (TxLogAppend _) \<Rightarrow> Ok (AList.update log_id (TxLogAppend meta) edit)
    | _ \<Rightarrow> Panics)"

text \<open>One turn of the loop of \<open>apply_to\<close>.\<close>

definition tx_apply_one :: "tx_log_id \<times> tx_log_edit \<Rightarrow> tx_log_store_state \<Rightarrow> tx_log_store_state res" where
  "tx_apply_one = (\<lambda>(log_id, log_edit) st.
    case log_edit of
      TxLogCreate bucket key root_mht \<Rightarrow>
        rbind (res_unwrap root_mht) (\<lambda>root_mht. tx_state_create_log log_id bucket key root_mht st)
    | TxLogAppend root_mht \<Rightarrow> tx_state_append_log log_id root_mht st
    | TxLogDelete \<Rightarrow> Ok (tx_state_delete_log log_id st)
    | TxLogMove from to \<Rightarrow> tx_state_move_log log_id from to st)"

definition tx_edit_apply_to :: "tx_log_store_edit \<Rightarrow> tx_log_store_state \<Rightarrow> tx_log_store_state res" where
  "tx_edit_apply_to edit st = rfold tx_apply_one edit st"

section \<open>The state and the edits of all stores\<close>

text \<open>What the journal keeps. The state of the raw logs is their table; the identifiers are computed from it at recovery.\<close>

record all_state =
  al_chunk_alloc :: chunk_alloc_state
  al_raw_log_store :: "(raw_log_id \<times> raw_log_head) list"
  al_tx_log_store :: tx_log_store_state

record all_edit =
  ae_chunk_edit :: chunk_alloc_edit
  ae_raw_log_edit :: raw_log_store_edit
  ae_tx_log_edit :: tx_log_store_edit

definition all_from_chunk_edit :: "chunk_alloc_edit \<Rightarrow> all_edit" where
  "all_from_chunk_edit edit = \<lparr>ae_chunk_edit = edit, ae_raw_log_edit = [], ae_tx_log_edit = []\<rparr>"

definition all_from_raw_log_edit :: "raw_log_store_edit \<Rightarrow> all_edit" where
  "all_from_raw_log_edit edit = \<lparr>ae_chunk_edit = chunk_edit_new, ae_raw_log_edit = edit, ae_tx_log_edit = []\<rparr>"

definition all_from_tx_log_edit :: "tx_log_store_edit \<Rightarrow> all_edit" where
  "all_from_tx_log_edit edit = \<lparr>ae_chunk_edit = chunk_edit_new, ae_raw_log_edit = [], ae_tx_log_edit = edit\<rparr>"

definition all_edit_apply_to :: "bittle \<Rightarrow> all_edit \<Rightarrow> all_state \<Rightarrow> all_state res" where
  "all_edit_apply_to bt edit st =
    rbind (if ae_tx_log_edit edit = [] then Ok st
      else rbind (tx_edit_apply_to (ae_tx_log_edit edit) (al_tx_log_store st)) (\<lambda>s. Ok (st\<lparr>al_tx_log_store := s\<rparr>))) (\<lambda>st.
    rbind (if ae_raw_log_edit edit = [] then Ok st
      else rbind (raw_edit_apply_to (ae_raw_log_edit edit) (al_raw_log_store st)) (\<lambda>s. Ok (st\<lparr>al_raw_log_store := s\<rparr>))) (\<lambda>st.
    if ae_chunk_edit edit = [] then Ok st
    else rbind (chunk_edit_apply_to bt (ae_chunk_edit edit) (al_chunk_alloc st)) (\<lambda>s. Ok (st\<lparr>al_chunk_alloc := s\<rparr>))))"

section \<open>Buckets and entries agree\<close>

definition logs_of_bucket :: "tx_log_store_state \<Rightarrow> bucket_name \<Rightarrow> tx_log_id set" where
  "logs_of_bucket st b = (case map_of (tp_bucket_table st) b of None \<Rightarrow> {} | Some ids \<Rightarrow> ids)"

definition tx_state_ok :: "tx_log_store_state \<Rightarrow> bool" where
  "tx_state_ok st \<longleftrightarrow> (\<forall>b log_id. log_id \<in> logs_of_bucket st b \<longleftrightarrow> map_option te_bucket (map_of (tp_log_table st) log_id) = Some b)"

text \<open>The changes of an edit are possible in the state.\<close>

definition tx_change_ok :: "tx_log_store_state \<Rightarrow> tx_log_id \<Rightarrow> tx_log_edit \<Rightarrow> bool" where
  "tx_change_ok st log_id e =
    (case e of
       TxLogCreate _ _ r \<Rightarrow> r \<noteq> None \<and> map_of (tp_log_table st) log_id = None
     | TxLogAppend _ \<Rightarrow> map_of (tp_log_table st) log_id \<noteq> None
     | TxLogDelete \<Rightarrow> True
     | TxLogMove from _ \<Rightarrow> map_option te_bucket (map_of (tp_log_table st) log_id) = Some from)"

definition tx_edit_applies :: "tx_log_store_edit \<Rightarrow> tx_log_store_state \<Rightarrow> bool" where
  "tx_edit_applies edit st \<longleftrightarrow> distinct (map fst edit) \<and> (\<forall>(log_id, e) \<in> set edit. tx_change_ok st log_id e)"

text \<open>The entry of a log after a change to it.\<close>

fun tx_changed :: "tx_log_edit \<Rightarrow> tx_log_entry option \<Rightarrow> tx_log_entry option" where
  "tx_changed (TxLogCreate b k r) _ = map_option (\<lambda>r. \<lparr>te_bucket = b, te_key = k, te_root_mht = r\<rparr>) r"
| "tx_changed (TxLogAppend r) x = map_option (te_root_mht_update (\<lambda>_. r)) x"
| "tx_changed TxLogDelete x = None"
| "tx_changed (TxLogMove from to) x = map_option (te_bucket_update (\<lambda>_. to)) x"

definition tx_applied :: "tx_log_store_edit \<Rightarrow> tx_log_store_state \<Rightarrow> tx_log_id \<Rightarrow> tx_log_entry option" where
  "tx_applied edit st log_id =
    (case map_of edit log_id of
       None \<Rightarrow> map_of (tp_log_table st) log_id
     | Some e \<Rightarrow> tx_changed e (map_of (tp_log_table st) log_id))"

lemma bucket_join_simps [simp]:
  "tp_log_table (bucket_join log_id b st) = tp_log_table st"
  "logs_of_bucket (bucket_join log_id b st) = (logs_of_bucket st)(b := insert log_id (logs_of_bucket st b))"
  by (auto simp: bucket_join_def logs_of_bucket_def update_conv' fun_eq_iff split: option.split)

lemma tx_apply_one_ok:
  assumes "tx_state_ok st" "tx_change_ok st log_id e"
  shows "\<exists>st'. tx_apply_one (log_id, e) st = Ok st' \<and> tx_state_ok st' \<and>
    map_of (tp_log_table st') = (map_of (tp_log_table st))(log_id := tx_changed e (map_of (tp_log_table st) log_id))"
proof (cases e)
  case (TxLogCreate b k r)
  then show ?thesis
    using assms by (auto simp: tx_apply_one_def tx_change_ok_def tx_state_create_log_def Let_def tx_state_ok_def update_conv' logs_of_bucket_def [of "st\<lparr>tp_log_table := _\<rparr>"]
        simp flip: logs_of_bucket_def)
next
  case (TxLogAppend r)
  then show ?thesis
    using assms by (auto simp: tx_apply_one_def tx_change_ok_def tx_state_append_log_def tx_state_ok_def update_conv' logs_of_bucket_def)
next
  case TxLogDelete
  have gone: "log_id \<notin> logs_of_bucket st b" if "map_of (tp_log_table st) log_id = None" for b
    using assms(1) that by (simp add: tx_state_ok_def)
  have "map_of (tp_bucket_table st) (te_bucket en) \<noteq> None" if "map_of (tp_log_table st) log_id = Some en" for en
    using assms(1) that by (fastforce simp: tx_state_ok_def logs_of_bucket_def split: option.splits)
  then show ?thesis
    using assms TxLogDelete gone
    by (auto simp: tx_apply_one_def tx_state_delete_log_def Let_def tx_state_ok_def update_conv' delete_conv' logs_of_bucket_def fun_upd_idem_iff
        split: option.splits)
next
  case (TxLogMove src dst)
  then obtain en where en: "map_of (tp_log_table st) log_id = Some en" "te_bucket en = src"
    using assms(2) by (auto simp: tx_change_ok_def)
  then obtain ids where ids: "map_of (tp_bucket_table st) src = Some ids"
    using assms(1) by (fastforce simp: tx_state_ok_def logs_of_bucket_def split: option.splits)
  let ?st = "st\<lparr>tp_log_table := AList.update log_id (en\<lparr>te_bucket := dst\<rparr>) (tp_log_table st), tp_bucket_table := AList.update src (ids - {log_id}) (tp_bucket_table st)\<rparr>"
  have b: "logs_of_bucket ?st = (logs_of_bucket st)(src := logs_of_bucket st src - {log_id})"
    using ids by (auto simp: logs_of_bucket_def update_conv' fun_eq_iff)
  have "tx_apply_one (log_id, e) st = Ok (bucket_join log_id dst ?st)"
    using TxLogMove en ids by (simp add: tx_apply_one_def tx_state_move_log_def Let_def)
  moreover have "tx_state_ok (bucket_join log_id dst ?st)"
    using assms(1) en unfolding tx_state_ok_def bucket_join_simps b by (auto simp: update_conv')
  ultimately show ?thesis using TxLogMove en by (simp add: update_conv')
qed

lemma tx_edit_apply_ok:
  assumes "tx_state_ok st" "tx_edit_applies edit st"
  shows "\<exists>st'. tx_edit_apply_to edit st = Ok st' \<and> tx_state_ok st' \<and> map_of (tp_log_table st') = tx_applied edit st"
  unfolding tx_edit_apply_to_def using assms
proof (induction edit arbitrary: st)
  case Nil
  then show ?case by (auto simp: tx_applied_def)
next
  case (Cons x edit)
  obtain k e where x: "x = (k, e)" by (cases x)
  obtain st1 where s: "tx_apply_one (k, e) st = Ok st1" "tx_state_ok st1"
      "map_of (tp_log_table st1) = (map_of (tp_log_table st))(k := tx_changed e (map_of (tp_log_table st) k))"
    using tx_apply_one_ok [OF Cons.prems(1), of k e] Cons.prems(2) x by (auto simp: tx_edit_applies_def)
  have k: "k \<notin> fst ` set edit" using Cons.prems(2) x by (simp add: tx_edit_applies_def)
  have "tx_change_ok st1 i e' = tx_change_ok st i e'" if "(i, e') \<in> set edit" for i e'
    using k that s(3) by (force simp: tx_change_ok_def split: tx_log_edit.split)
  then have "tx_edit_applies edit st1" using Cons.prems(2) x by (auto simp: tx_edit_applies_def)
  then obtain st' where "rfold tx_apply_one edit st1 = Ok st'" "tx_state_ok st'" "map_of (tp_log_table st') = tx_applied edit st1"
    using Cons.IH [OF s(2)] by blast
  moreover have "map_of edit k = None" using k by (simp add: map_of_eq_None_iff)
  then have "tx_applied edit st1 = tx_applied (x # edit) st"
    using s(3) x by (auto simp: tx_applied_def fun_eq_iff split: option.split)
  ultimately show ?case using s(1) x by simp
qed

lemma rfold_panics: "x \<in> set xs \<Longrightarrow> (\<And>s. f x s = Panics) \<Longrightarrow> (\<And>y s. f y s = Panics \<or> (\<exists>s'. f y s = Ok s')) \<Longrightarrow> rfold f xs s = Panics"
proof (induction xs arbitrary: s)
  case (Cons y xs)
  show ?case
  proof (cases "f y s = Panics")
    case False
    then obtain s' where s': "f y s = Ok s'" using Cons.prems(3) by blast
    then have "x \<in> set xs" using Cons.prems(1,2) by auto
    then show ?thesis using Cons.IH [OF _ Cons.prems(2,3)] s' by simp
  qed simp
qed simp

lemma tx_apply_one_total: "tx_apply_one x st = Panics \<or> (\<exists>st'. tx_apply_one x st = Ok st')"
  by (cases x) (auto simp: tx_apply_one_def tx_state_create_log_def tx_state_append_log_def tx_state_move_log_def res_unwrap_def rassert_def Let_def
      split: tx_log_edit.split option.split)

lemma tx_create_without_root: "(log_id, TxLogCreate b k None) \<in> set edit \<Longrightarrow> tx_edit_apply_to edit st = Panics"
  unfolding tx_edit_apply_to_def
  by (rule rfold_panics, assumption) (simp_all add: tx_apply_one_total, simp add: tx_apply_one_def res_unwrap_def)

section \<open>Properties\<close>

text \<open>C14: applying an edit to the state of the store of logs does to every log what the edit says about it, whatever the
  order of the changes, and keeps the buckets in agreement with the entries: the logs of a bucket are
  exactly those whose entry names it. So a committed log is found in its bucket and nowhere else.\<close>

theorem tx_edit_apply_exact:
  assumes "tx_state_ok st" "tx_edit_applies edit st"
  shows "\<exists>st'. tx_edit_apply_to edit st = Ok st' \<and> tx_state_ok st' \<and>
    (\<forall>log_id. map_of (tp_log_table st') log_id = tx_applied edit st log_id) \<and>
    (\<forall>b. (\<exists>log_id e. tx_applied edit st log_id = Some e \<and> te_bucket e = b) \<longrightarrow>
      tx_state_list_logs_in b st' = Ok {log_id. \<exists>e. tx_applied edit st log_id = Some e \<and> te_bucket e = b})"
proof -
  obtain st' where st': "tx_edit_apply_to edit st = Ok st'" "tx_state_ok st'" "map_of (tp_log_table st') = tx_applied edit st"
    using tx_edit_apply_ok [OF assms] by blast
  have "tx_state_list_logs_in b st' = Ok {log_id. \<exists>e. tx_applied edit st log_id = Some e \<and> te_bucket e = b}"
    if b: "\<exists>log_id e. tx_applied edit st log_id = Some e \<and> te_bucket e = b" for b
  proof -
    have "logs_of_bucket st' b = {log_id. \<exists>e. tx_applied edit st log_id = Some e \<and> te_bucket e = b}"
      using st'(2,3) by (auto simp: tx_state_ok_def)
    moreover from this b have "logs_of_bucket st' b \<noteq> {}" by auto
    ultimately show ?thesis by (auto simp: tx_state_list_logs_in_def logs_of_bucket_def ok_or_def split: option.splits)
  qed
  then show ?thesis using st' by auto
qed

definition demo_meta :: root_mht_meta where
  "demo_meta = \<lparr>rm_pos = 0, rm_mac = replicate 16 1, rm_iv = replicate 12 2\<rparr>"

definition demo_tx_state :: tx_log_store_state where
  "demo_tx_state = \<lparr>tp_log_table = [(3, \<lparr>te_bucket = ''WAL'', te_key = replicate 16 0, te_root_mht = demo_meta\<rparr>)],
    tp_bucket_table = [(''WAL'', {3})]\<rparr>"

theorem tx_edit_apply_exact_witness:
  "\<exists>st'. tx_edit_apply_to [(4, TxLogCreate ''L0'' (replicate 16 5) (Some demo_meta)), (3, TxLogDelete)] demo_tx_state = Ok st' \<and>
    tx_state_ok st' \<and> tx_state_list_logs_in ''L0'' st' = Ok {4}"
proof -
  let ?edit = "[(4, TxLogCreate ''L0'' (replicate 16 5) (Some demo_meta)), (3, TxLogDelete)]"
  have ok: "tx_state_ok demo_tx_state" "tx_edit_applies ?edit demo_tx_state"
    by (auto simp: tx_state_ok_def demo_tx_state_def logs_of_bucket_def tx_edit_applies_def tx_change_ok_def)
  have logs: "{log_id. \<exists>e. tx_applied ?edit demo_tx_state log_id = Some e \<and> te_bucket e = ''L0''} = {4}"
    by (auto simp: tx_applied_def demo_tx_state_def split: if_splits)
  then have ne: "\<exists>log_id e. tx_applied ?edit demo_tx_state log_id = Some e \<and> te_bucket e = ''L0''" by blast
  then show ?thesis
    using tx_edit_apply_exact [OF ok] unfolding logs [symmetric] by blast
qed

end
