(* ===== verification/Tx_Log.thy ===== *)
theory Tx_Log
  imports Tx_State Log_Cache
begin

text \<open>
  The store of transactional logs (\<open>core/src/layers/3-log/tx_log.rs\<close>): encrypted logs on raw logs, created, opened,
  deleted and moved between buckets inside transactions.

  \<open>tx_store\<close> is the store with the transaction that runs: the shared state (\<open>State\<close>), the raw logs (\<open>raw_env\<close>), and
  the data of the transaction (\<open>TxLogStoreEdit\<close>, \<open>OpenLogTable\<close>, \<open>OpenLogCache\<close>). An open log (\<open>TxLogInner\<close>)
  is shared between the table and the handles of the clients, so it is counted; what happens when the last reference goes
  away (\<open>inner_drop\<close>) is part of the model, including the panic when a deletion would have to run outside of a transaction.

  The encrypted log of an open log is a value of the type of \<open>Crypto_Log\<close>, over the raw log and the cache of a
  transaction. As these are shared by all logs, an open log only keeps its part of them; \<open>mht_attach\<close> and \<open>mht_detach\<close>
  put the parts together for an operation. The journal is seen through \<open>add\<close> and \<open>commit\<close>; keys and other random
  bytes are arguments. A failed operation keeps the changes made before the failure, except inside the encrypted log,
  whose state after an error is not described.
\<close>

section \<open>The store\<close>

record ('s, 'c, 'j) store_env =
  se_set :: "'s block_set_ops"
  se_bittle :: bittle
  se_pages :: page_alloc
  se_ssl :: openssl
  se_lru :: "'c node_lru"
  se_pad :: "nat \<Rightarrow> byte"
  se_uninit :: mht_node_entry
  se_journal_add :: "all_edit \<Rightarrow> 'j \<Rightarrow> 'j"
  se_journal_commit :: "'j \<Rightarrow> 'j res"

text \<open>What a \<open>CryptoLog\<close> of the store is built on.\<close>

definition log_env :: "('s, 'c, 'j) store_env \<Rightarrow> tx_log_id \<Rightarrow> ('s raw_env \<times> raw_log, 'c log_cache) mht_env" where
  "log_env SE log_id = \<lparr>me_pages = se_pages SE, me_ssl = se_ssl SE, me_log = raw_log_ops (se_set SE) (se_bittle SE),
    me_cache = log_cache_ops (se_lru SE) log_id, me_pad = se_pad SE, me_uninit = se_uninit SE\<rparr>"

record tx_log_inner =
  ti_tx_id :: nat
  ti_bucket :: bucket_name
  ti_crypto_log :: "(raw_log, unit) crypto_log"
  ti_lazy_delete :: "arc_id option"
  ti_is_dirty :: bool

record tx_log =
  tl_log_id :: tx_log_id
  tl_tx_id :: nat
  tl_can_append :: bool

text \<open>
  \<open>ts_inners\<close> has the open logs with the number of references to them; \<open>ts_cache_of\<close> has the cache of every log, which is
  alive as long as an open log refers to it, and \<open>ts_log_caches\<close> the logs for which \<open>log_caches\<close> has it.
\<close>

record ('s, 'c, 'j) tx_store =
  ts_raw :: "'s raw_env"
  ts_persistent :: tx_log_store_state
  ts_lazy_deletes :: "(tx_log_id \<times> arc_id) list"
  ts_arcs :: "tx_log_id arc_heap"
  ts_log_caches :: "tx_log_id set"
  ts_cache_of :: "tx_log_id \<Rightarrow> 'c"
  ts_journal :: 'j
  ts_inners :: "tx_log_id \<Rightarrow> (tx_log_inner \<times> nat) option"
  ts_in_tx :: bool
  ts_tx_id :: nat
  ts_edit :: tx_log_store_edit
  ts_open_table :: "tx_log_id list"
  ts_open_caches :: "(tx_log_id \<times> 'c) list"

type_synonym ('s, 'c, 'j, 'a) store_op = "(('s, 'c, 'j) tx_store, 'a) sres"

definition in_tx :: "('s, 'c, 'j, 'a) store_op \<Rightarrow> ('s, 'c, 'j, 'a) store_op" where
  "in_tx f s = (if ts_in_tx s then f s else (Panics, s))"

definition raw_do :: "('s, 'a) raw_op \<Rightarrow> ('s, 'c, 'j, 'a) store_op" where
  "raw_do f s = (case f (ts_raw s) of (r, e) \<Rightarrow> (r, s\<lparr>ts_raw := e\<rparr>))"

definition edit_do :: "(tx_log_store_edit \<Rightarrow> tx_log_store_edit res) \<Rightarrow> ('s, 'c, 'j, unit) store_op" where
  "edit_do f s = (case f (ts_edit s) of Inl flt \<Rightarrow> (Inl flt, s) | Inr edit \<Rightarrow> (Ok (), s\<lparr>ts_edit := edit\<rparr>))"

section \<open>Encrypted logs of the store\<close>

definition mht_attach :: "'s raw_env \<Rightarrow> 'c log_cache \<Rightarrow> (raw_log, unit) crypto_log \<Rightarrow> ('s raw_env \<times> raw_log, 'c log_cache) crypto_log" where
  "mht_attach e k cl = \<lparr>mh_root = mh_root cl, mh_root_key = mh_root_key cl, mh_data_buf = mh_data_buf cl,
    mh_storage = \<lparr>ms_block_log = (e, ms_block_log (mh_storage cl)), ms_node_cache = k\<rparr>\<rparr>"

definition mht_detach :: "('s raw_env \<times> raw_log, 'c log_cache) crypto_log \<Rightarrow> (raw_log, unit) crypto_log" where
  "mht_detach cl = \<lparr>mh_root = mh_root cl, mh_root_key = mh_root_key cl, mh_data_buf = mh_data_buf cl,
    mh_storage = \<lparr>ms_block_log = snd (ms_block_log (mh_storage cl)), ms_node_cache = ()\<rparr>\<rparr>"

definition cache_for :: "tx_log_id \<Rightarrow> ('s, 'c, 'j) tx_store \<Rightarrow> 'c log_cache" where
  "cache_for log_id s = \<lparr>lk_inner = ts_cache_of s log_id, lk_open_table = ts_open_caches s\<rparr>"

text \<open>The shared parts after an operation of an encrypted log.\<close>

definition share_back ::
    "tx_log_id \<Rightarrow> ('s raw_env \<times> raw_log, 'c log_cache) crypto_log \<Rightarrow> ('s, 'c, 'j) tx_store \<Rightarrow> ('s, 'c, 'j) tx_store" where
  "share_back log_id cl s =
    (let k = ms_node_cache (mh_storage cl) in
     s\<lparr>ts_raw := fst (ms_block_log (mh_storage cl)), ts_cache_of := (ts_cache_of s)(log_id := lk_inner k),
       ts_open_caches := lk_open_table k\<rparr>)"

definition set_inner :: "tx_log_id \<Rightarrow> tx_log_inner \<Rightarrow> ('s, 'c, 'j) tx_store \<Rightarrow> ('s, 'c, 'j) tx_store" where
  "set_inner log_id inner s =
    s\<lparr>ts_inners := (ts_inners s)(log_id := map_option (\<lambda>(_, n). (inner, n)) (ts_inners s log_id))\<rparr>"

text \<open>An operation of the encrypted log of an open log. A handle keeps its open log alive, so that there is one.\<close>

definition crypto_do ::
    "tx_log_id \<Rightarrow> (('s raw_env \<times> raw_log, 'c log_cache) crypto_log \<Rightarrow> ('a \<times> ('s raw_env \<times> raw_log, 'c log_cache) crypto_log) res) \<Rightarrow>
      ('s, 'c, 'j, 'a) store_op" where
  "crypto_do log_id f s =
    (case ts_inners s log_id of
       None \<Rightarrow> (Panics, s)
     | Some (inner, n) \<Rightarrow>
         (case f (mht_attach (ts_raw s) (cache_for log_id s) (ti_crypto_log inner)) of
            Inl flt \<Rightarrow> (Inl flt, s)
          | Inr (x, cl) \<Rightarrow> (Ok x, set_inner log_id (inner\<lparr>ti_crypto_log := mht_detach cl\<rparr>) (share_back log_id cl s))))"

section \<open>Dropping\<close>

text \<open>The closure of a lazy delete of the store: it deletes the raw log, in the current transaction.\<close>

definition tx_arc_drop :: "('s, 'c, 'j) store_env \<Rightarrow> arc_id \<Rightarrow> ('s, 'c, 'j, unit) store_op" where
  "tx_arc_drop SE arc s =
    (let (obj, arcs) = arc_drop arc (ts_arcs s); s = s\<lparr>ts_arcs := arcs\<rparr> in
     case obj of
       None \<Rightarrow> (Ok (), s)
     | Some log_id \<Rightarrow>
         in_tx (\<lambda>s. case raw_do (raw_delete_log (se_bittle SE) log_id) s of
             (Inl _, s) \<Rightarrow> (Panics, s) | (Inr _, s) \<Rightarrow> (Ok (), s)) s)"

text \<open>The raw log of an open log is dropped first; freeing its chunks needs a transaction, too.\<close>

definition raw_drop :: "('s, 'c, 'j) store_env \<Rightarrow> raw_log \<Rightarrow> ('s, 'c, 'j, unit) store_op" where
  "raw_drop SE log s =
    (let frees = (case rl_lazy_delete log of None \<Rightarrow> False | Some arc \<Rightarrow> fst (arc_drop arc (re_arcs (ts_raw s))) \<noteq> None) in
     if frees then in_tx (raw_do (raw_log_drop (se_bittle SE) log)) s else raw_do (raw_log_drop (se_bittle SE) log) s)"

definition inner_drop :: "('s, 'c, 'j) store_env \<Rightarrow> tx_log_inner \<Rightarrow> ('s, 'c, 'j, unit) store_op" where
  "inner_drop SE inner =
    sbind (raw_drop SE (ms_block_log (mh_storage (ti_crypto_log inner)))) (\<lambda>_.
      case ti_lazy_delete inner of None \<Rightarrow> sret () | Some arc \<Rightarrow> tx_arc_drop SE arc)"

definition inner_release :: "('s, 'c, 'j) store_env \<Rightarrow> tx_log_id \<Rightarrow> ('s, 'c, 'j, unit) store_op" where
  "inner_release SE log_id s =
    (case ts_inners s log_id of
       None \<Rightarrow> (Ok (), s)
     | Some (inner, n) \<Rightarrow>
         if 1 < n then (Ok (), s\<lparr>ts_inners := (ts_inners s)(log_id \<mapsto> (inner, n - 1))\<rparr>)
         else inner_drop SE inner (s\<lparr>ts_inners := (ts_inners s)(log_id := None)\<rparr>))"

section \<open>Operations of the store\<close>

definition add_lazy_delete :: "tx_log_id \<Rightarrow> ('s, 'c, 'j) tx_store \<Rightarrow> ('s, 'c, 'j) tx_store" where
  "add_lazy_delete log_id s =
    (let (arc, arcs) = arc_new (lazy_new log_id) (ts_arcs s) in
     s\<lparr>ts_arcs := arcs, ts_lazy_deletes := AList.update log_id arc (ts_lazy_deletes s)\<rparr>)"

definition tx_store_from_parts :: "('s, 'c, 'j) store_env \<Rightarrow> tx_log_store_state \<Rightarrow> 's raw_env \<Rightarrow> 'j \<Rightarrow> ('s, 'c, 'j) tx_store" where
  "tx_store_from_parts SE state raw journal =
    fold add_lazy_delete (tx_state_list_all_logs state)
      \<lparr>ts_raw = raw, ts_persistent = state, ts_lazy_deletes = [], ts_arcs = \<lparr>ah_cells = Map.empty, ah_next = 0\<rparr>,
       ts_log_caches = set (tx_state_list_all_logs state), ts_cache_of = (\<lambda>_. crypto_log_cache_new (se_lru SE)),
       ts_journal = journal, ts_inners = Map.empty, ts_in_tx = False, ts_tx_id = 0, ts_edit = [], ts_open_table = [],
       ts_open_caches = []\<rparr>"

definition tx_create_log :: "('s, 'c, 'j) store_env \<Rightarrow> aead_key \<Rightarrow> bucket_name \<Rightarrow> ('s, 'c, 'j, tx_log) store_op" where
  "tx_create_log SE key bucket = in_tx (
    sbind (raw_do raw_create_log) (\<lambda>raw_log.
    let log_id = rl_log_id raw_log in
    sbind (\<lambda>s. (Ok (), s\<lparr>ts_log_caches := insert log_id (ts_log_caches s),
        ts_cache_of := (ts_cache_of s)(log_id := crypto_log_cache_new (se_lru SE))\<rparr>)) (\<lambda>_.
    sbind (\<lambda>s. (crypto_log_new (log_env SE log_id) (ts_raw s, raw_log) key (cache_for log_id s), s)) (\<lambda>cl.
    sbind (edit_do (tx_edit_create_log log_id bucket key)) (\<lambda>_ s.
      (Ok \<lparr>tl_log_id = log_id, tl_tx_id = ts_tx_id s, tl_can_append = True\<rparr>,
       s\<lparr>ts_inners := (ts_inners s)(log_id \<mapsto> (\<lparr>ti_tx_id = ts_tx_id s, ti_bucket = bucket, ti_crypto_log = mht_detach cl,
           ti_lazy_delete = None, ti_is_dirty = False\<rparr>, 2)),
         ts_open_table := log_id # ts_open_table s,
         ts_open_caches := AList.update log_id (crypto_log_cache_new (se_lru SE)) (ts_open_caches s)\<rparr>))))))"

text \<open>The slow path of \<open>open_inner_log\<close>.\<close>

definition tx_open_slow :: "('s, 'c, 'j) store_env \<Rightarrow> tx_log_id \<Rightarrow> bool \<Rightarrow> ('s, 'c, 'j, unit) store_op" where
  "tx_open_slow SE log_id can_append =
    sbind (\<lambda>s. (ok_or NotFound (map_of (ts_lazy_deletes s) log_id), s)) (\<lambda>lazy_delete.
    sbind (\<lambda>s. (tx_state_find_log log_id (ts_persistent s), s)) (\<lambda>log_entry.
    sbind (\<lambda>s. (if tx_edit_is_log_deleted log_id (ts_edit s) then Fail NotFound else Ok (), s)) (\<lambda>_.
    sbind (\<lambda>s. (Ok (), s\<lparr>ts_open_caches := AList.update log_id (crypto_log_cache_new (se_lru SE)) (ts_open_caches s)\<rparr>)) (\<lambda>_.
    sbind (raw_do (raw_open_log log_id can_append)) (\<lambda>raw_log.
    sbind (\<lambda>s. (rassert (log_id \<in> ts_log_caches s), s)) (\<lambda>_ s.
      case crypto_log_open (log_env SE log_id) (ts_raw s, raw_log) (te_key log_entry) (te_root_mht log_entry) (cache_for log_id s) of
        Inl f \<Rightarrow> (case raw_drop SE raw_log s of (_, s) \<Rightarrow> (Inl f, s))
      | Inr cl \<Rightarrow>
          sbind (\<lambda>s. (res_unwrap (crypto_log_root_meta cl), s)) (\<lambda>root_mht.
          sbind (\<lambda>s. (Ok (), (share_back log_id cl s)\<lparr>
              ts_arcs := arc_clone lazy_delete (ts_arcs s),
              ts_inners := (ts_inners s)(log_id \<mapsto> (\<lparr>ti_tx_id = ts_tx_id s, ti_bucket = te_bucket log_entry,
                ti_crypto_log = mht_detach cl, ti_lazy_delete = Some lazy_delete, ti_is_dirty = False\<rparr>, 1)),
              ts_open_table := log_id # ts_open_table s\<rparr>)) (\<lambda>_.
          if can_append then edit_do (tx_edit_append_log log_id root_mht) else sret ())) s))))))"

definition tx_open_log :: "('s, 'c, 'j) store_env \<Rightarrow> tx_log_id \<Rightarrow> bool \<Rightarrow> ('s, 'c, 'j, tx_log) store_op" where
  "tx_open_log SE log_id can_append = in_tx (
    sbind (\<lambda>s. if log_id \<in> set (ts_open_table s) then (Ok (), s) else tx_open_slow SE log_id can_append s) (\<lambda>_ s.
      (Ok \<lparr>tl_log_id = log_id, tl_tx_id = ts_tx_id s, tl_can_append = can_append\<rparr>,
       s\<lparr>ts_inners := (ts_inners s)(log_id := map_option (\<lambda>(inner, n). (inner, n + 1)) (ts_inners s log_id))\<rparr>)))"

definition tx_list_logs_in :: "bucket_name \<Rightarrow> ('s, 'c, 'j) tx_store \<Rightarrow> tx_log_id set res" where
  "tx_list_logs_in bucket s =
    rbind (tx_state_list_logs_in bucket (ts_persistent s)) (\<lambda>ids.
    rbind (rassert (ts_in_tx s)) (\<lambda>_.
      Ok (fold (\<lambda>(log_id, e) ids.
        case e of
          TxLogCreate b _ _ \<Rightarrow> if b = bucket then insert log_id ids else ids
        | TxLogAppend _ \<Rightarrow> ids
        | TxLogMove _ _ \<Rightarrow> ids
        | TxLogDelete \<Rightarrow> ids - {log_id}) (ts_edit s) ids)))"

definition tx_open_log_in :: "('s, 'c, 'j) store_env \<Rightarrow> bucket_name \<Rightarrow> ('s, 'c, 'j, tx_log) store_op" where
  "tx_open_log_in SE bucket =
    sbind (\<lambda>s. (tx_list_logs_in bucket s, s)) (\<lambda>log_ids.
      if log_ids = {} then sfail (Err NotFound) else tx_open_log SE (Max log_ids) False)"

definition do_contain_log :: "tx_log_id \<Rightarrow> ('s, 'c, 'j) tx_store \<Rightarrow> bool" where
  "do_contain_log log_id s =
    (if tx_state_contains_log log_id (ts_persistent s) then \<not> tx_edit_is_log_deleted log_id (ts_edit s)
     else tx_edit_is_log_created log_id (ts_edit s))"

definition tx_contains_log :: "tx_log_id \<Rightarrow> ('s, 'c, 'j, bool) store_op" where
  "tx_contains_log log_id = in_tx (\<lambda>s. (Ok (do_contain_log log_id s), s))"

definition tx_delete_log :: "('s, 'c, 'j) store_env \<Rightarrow> tx_log_id \<Rightarrow> ('s, 'c, 'j, unit) store_op" where
  "tx_delete_log SE log_id = in_tx (
    sbind (\<lambda>s. if log_id \<in> set (ts_open_table s)
        then inner_release SE log_id (s\<lparr>ts_open_table := removeAll log_id (ts_open_table s)\<rparr>) else (Ok (), s)) (\<lambda>_.
    sbind (\<lambda>s. (Ok (), s\<lparr>ts_open_caches := AList.delete log_id (ts_open_caches s)\<rparr>)) (\<lambda>_.
    sbind (\<lambda>s. (if do_contain_log log_id s then Ok () else Fail NotFound, s)) (\<lambda>_.
      edit_do (tx_edit_delete_log log_id)))))"

definition tx_move_log :: "tx_log_id \<Rightarrow> bucket_name \<Rightarrow> bucket_name \<Rightarrow> ('s, 'c, 'j, unit) store_op" where
  "tx_move_log log_id from_bucket to_bucket = in_tx (
    sbind (\<lambda>s. (if log_id \<in> set (ts_open_table s)
        then case ts_inners s log_id of
            None \<Rightarrow> Ok ()
          | Some (inner, _) \<Rightarrow> rassert (ti_bucket inner = from_bucket \<and> \<not> ti_is_dirty inner)
        else Ok (), s)) (\<lambda>_.
      edit_do (tx_edit_move_log log_id from_bucket to_bucket)))"

section \<open>Operations of a log\<close>

definition tx_log_read ::
    "('s, 'c, 'j) store_env \<Rightarrow> tx_log \<Rightarrow> block_id \<Rightarrow> bytes \<Rightarrow> ('s, 'c, 'j, bytes) store_op" where
  "tx_log_read SE log pos buf = in_tx (
    sbind (\<lambda>s. (rassert (tl_tx_id log = ts_tx_id s), s)) (\<lambda>_.
      crypto_do (tl_log_id log) (crypto_log_read (log_env SE (tl_log_id log)) pos buf)))"

definition tx_log_append ::
    "('s, 'c, 'j) store_env \<Rightarrow> mht_random \<Rightarrow> tx_log \<Rightarrow> bytes \<Rightarrow> ('s, 'c, 'j, unit) store_op" where
  "tx_log_append SE rnd log buf = in_tx (
    sbind (\<lambda>s. (rassert (tl_tx_id log = ts_tx_id s), s)) (\<lambda>_.
    if \<not> tl_can_append log then sfail (Err PermissionDenied)
    else
      sbind (\<lambda>s. (Ok (), s\<lparr>ts_inners := (ts_inners s)(tl_log_id log :=
          map_option (\<lambda>(inner, n). (inner\<lparr>ti_is_dirty := True\<rparr>, n)) (ts_inners s (tl_log_id log)))\<rparr>)) (\<lambda>_.
      crypto_do (tl_log_id log) (\<lambda>cl.
        rbind (crypto_log_append (log_env SE (tl_log_id log)) rnd buf cl) (\<lambda>cl. Ok ((), cl))))))"

definition tx_log_nblocks :: "('s, 'c, 'j) store_env \<Rightarrow> tx_log \<Rightarrow> ('s, 'c, 'j, nat) store_op" where
  "tx_log_nblocks SE log = in_tx (
    sbind (\<lambda>s. (rassert (tl_tx_id log = ts_tx_id s), s)) (\<lambda>_.
      crypto_do (tl_log_id log) (\<lambda>cl. Ok (crypto_log_nblocks cl, cl))))"

definition tx_log_drop :: "('s, 'c, 'j) store_env \<Rightarrow> tx_log \<Rightarrow> ('s, 'c, 'j, unit) store_op" where
  "tx_log_drop SE log = inner_release SE (tl_log_id log)"

section \<open>The end of a transaction\<close>

text \<open>The pre-commit handler: dirty logs are flushed, and the edit gets the metadata of their new roots.\<close>

definition update_dirty_log_metas :: "('s, 'c, 'j) store_env \<Rightarrow> (tx_log_id \<Rightarrow> mht_random) \<Rightarrow> ('s, 'c, 'j, unit) store_op" where
  "update_dirty_log_metas SE rnds s =
    (let dirty_logs = filter (\<lambda>log_id. case ts_inners s log_id of None \<Rightarrow> False | Some (inner, _) \<Rightarrow> ti_is_dirty inner) (ts_open_table s) in
     sfor (\<lambda>log_id.
       sbind (crypto_do log_id (\<lambda>cl.
           rbind (crypto_log_flush (log_env SE log_id) (rnds log_id) cl) (\<lambda>cl.
           rbind (res_unwrap (crypto_log_root_meta cl)) (\<lambda>meta. Ok (meta, cl))))) (\<lambda>meta.
         edit_do (tx_edit_update_log_meta (log_id, meta)))) dirty_logs s)"

definition add_lazy_deletes_for_created_logs :: "tx_log_store_edit \<Rightarrow> ('s, 'c, 'j) tx_store \<Rightarrow> ('s, 'c, 'j) tx_store" where
  "add_lazy_deletes_for_created_logs edit s =
    fold (\<lambda>log_id s. if map_of (ts_lazy_deletes s) log_id \<noteq> None then s else add_lazy_delete log_id s) (tx_iter_created_logs edit) s"

text \<open>The loop of \<open>apply_log_caches\<close>; after a swap it returns, and the caches of the other logs are not applied.\<close>

fun apply_log_caches :: "'c node_lru \<Rightarrow> tx_log_id list \<Rightarrow> ('s, 'c, 'j, unit) store_op" where
  "apply_log_caches U [] s = (Ok (), s)"
| "apply_log_caches U (log_id # log_ids) s =
    (if log_id \<notin> ts_log_caches s then (Panics, s)
     else case map_of (ts_open_caches s) log_id of
         None \<Rightarrow> apply_log_caches U log_ids s
       | Some open_cache \<Rightarrow>
           let lru = ts_cache_of s log_id in
           if nl_is_empty U lru
           then (Ok (), s\<lparr>ts_cache_of := (ts_cache_of s)(log_id := open_cache),
             ts_open_caches := AList.update log_id lru (ts_open_caches s)\<rparr>)
           else apply_log_caches U log_ids (s\<lparr>ts_cache_of := (ts_cache_of s)(log_id :=
             fold (\<lambda>(pos, node) lru. snd (nl_put U lru pos node)) (nl_iter U open_cache) lru)\<rparr>))"

definition do_lazy_deletion :: "('s, 'c, 'j) store_env \<Rightarrow> ('s, 'c, 'j, unit) store_op" where
  "do_lazy_deletion SE s =
    sfor (\<lambda>log_id s.
      case map_of (ts_lazy_deletes s) log_id of
        None \<Rightarrow> (Ok (), s)
      | Some arc \<Rightarrow>
          tx_arc_drop SE arc (s\<lparr>ts_lazy_deletes := AList.delete log_id (ts_lazy_deletes s),
            ts_arcs := arc_mark_deleted arc (ts_arcs s), ts_log_caches := ts_log_caches s - {log_id}\<rparr>))
      (tx_iter_deleted_logs (ts_edit s)) s"

definition store_commit_handler :: "('s, 'c, 'j) store_env \<Rightarrow> ('s, 'c, 'j, unit) store_op" where
  "store_commit_handler SE =
    sbind (\<lambda>s.
      if ts_edit s = [] then (Ok (), s)
      else case tx_edit_apply_to (ts_edit s) (ts_persistent s) of
          Inl f \<Rightarrow> (Inl f, s)
        | Inr st \<Rightarrow> (Ok (), add_lazy_deletes_for_created_logs (ts_edit s) (s\<lparr>ts_persistent := st\<rparr>))) (\<lambda>_.
    sbind (\<lambda>s. apply_log_caches (se_lru SE) (map fst (ts_open_caches s)) s) (\<lambda>_.
      do_lazy_deletion SE))"

text \<open>The commit handler of the journal, with the edits as the other handlers have left them.\<close>

definition journal_edits :: "tx_log_store_edit \<Rightarrow> raw_log_store_edit \<Rightarrow> chunk_alloc_edit \<Rightarrow> all_edit list" where
  "journal_edits tx_log_edit raw_log_edit chunk_edit =
    (if tx_log_edit = [] then [] else [all_from_tx_log_edit tx_log_edit]) @
    (if raw_log_edit = [] then [] else [all_from_raw_log_edit raw_log_edit]) @
    (if chunk_edit = [] then [] else [all_from_chunk_edit chunk_edit])"

definition journal_handler :: "('s, 'c, 'j) store_env \<Rightarrow> all_edit list \<Rightarrow> ('s, 'c, 'j, unit) store_op" where
  "journal_handler SE edits s =
    (case se_journal_commit SE (fold (se_journal_add SE) edits (ts_journal s)) of
       Inl f \<Rightarrow> (Inl f, s)
     | Inr j \<Rightarrow> (Ok (), s\<lparr>ts_journal := j\<rparr>))"

text \<open>
  A transaction from its creation to its drop. The handlers run in reverse order of registration: those of this store first, then those of
  the raw logs and the chunks (\<open>raw_tx_commit\<close>), and the journal's last. When a transaction is dropped, so is
  the table of open logs, outside of any transaction.
\<close>

definition store_begin :: "nat \<Rightarrow> ('s, 'c, 'j) tx_store \<Rightarrow> ('s, 'c, 'j) tx_store" where
  "store_begin txid s = s\<lparr>ts_in_tx := True, ts_tx_id := txid, ts_edit := [], ts_open_table := [], ts_open_caches := [],
    ts_raw := (ts_raw s)\<lparr>re_edit := [], re_chunk_edit := []\<rparr>\<rparr>"

definition store_dropped :: "('s, 'c, 'j) store_env \<Rightarrow> ('s, 'c, 'j, unit) store_op" where
  "store_dropped SE s = sfor (inner_release SE) (ts_open_table s)
    (s\<lparr>ts_in_tx := False, ts_edit := [], ts_open_table := [], ts_open_caches := []\<rparr>)"

definition store_abort :: "('s, 'c, 'j) store_env \<Rightarrow> ('s, 'c, 'j, unit) store_op" where
  "store_abort SE = sbind (raw_do (raw_tx_abort (se_bittle SE))) (\<lambda>_. store_dropped SE)"

definition store_commit :: "('s, 'c, 'j) store_env \<Rightarrow> (tx_log_id \<Rightarrow> mht_random) \<Rightarrow> ('s, 'c, 'j, unit) store_op" where
  "store_commit SE rnds s =
    (case update_dirty_log_metas SE rnds s of
       (Inl (Err e), s) \<Rightarrow> sbind (store_abort SE) (\<lambda>_. sfail (Err e)) s
     | (Inl f, s) \<Rightarrow> (Inl f, s)
     | (Inr _, s) \<Rightarrow>
         sbind (store_commit_handler SE) (\<lambda>_ s.
         let handled = snd (raw_commit_handler (se_bittle SE) (ts_raw s));
             edits = journal_edits (ts_edit s) (re_edit handled) (re_chunk_edit handled) in
         sbind (raw_do (raw_tx_commit (se_bittle SE))) (\<lambda>_.
         sbind (journal_handler SE edits) (\<lambda>_. store_dropped SE)) s) s)"



end
