(* ===== verification/Spec2Isabelle.thy ===== *)
theory Spec2Isabelle
  imports Raw_Log Tx_Model Edit_Journal Mem_Table SS_Table Read_Cache Data_Buf Crypto_Log_Props Tx_Log
begin

text \<open>
  A verification library for MlsDisk, a secure virtual disk (crate \<open>src/core\<close>). The disk is built in six layers,
  each on the interfaces of the ones below: block I/O (\<open>layers/0-bio\<close>), encrypted containers (\<open>1-crypto\<close>), a journal of edits
  (\<open>2-edit\<close>), transactional logs (\<open>3-log\<close>), a log-structured merge tree (\<open>4-lsm\<close>) and the disk itself (\<open>5-disk\<close>).
  Transactions (\<open>tx\<close>) and small utilities (\<open>util\<close>) are used throughout.

  \<^bold>\<open>Style.\<close> A struct is a record, an enum a datatype, a method a function of the same name with a prefix for its type.
  A function that may fail or panic returns \<open>'a res\<close>; one that changes state although it fails is a state transformer
  (\<open>sres\<close>), which returns the state in either case. Checks are those of a debug build, so a failed \<open>debug_assert!\<close>, an
  index out of range and an underflow are panics. A trait is a record of its methods (\<open>block_set_ops\<close>, \<open>block_log_ops\<close>,
  \<open>node_cache_ops\<close>), its contract a locale (\<open>block_set\<close>, \<open>block_log\<close> and \<open>roomy_log\<close>, \<open>node_cache_laws\<close>), and each
  implementation in the repository interprets the locale. Crates outside the repository are parameters with their documented behaviour
  as locales, interpreted on executable reference instances: \<open>bittle\<close>, \<open>anymap\<close>, \<open>openssl\<close>, \<open>postcard\<close>, \<open>lru\<close>, \<open>pod\<close>,
  the page allocator. Random numbers, the clock and unspecified padding bytes are arguments.

  \<^bold>\<open>Theories.\<close>

  \<^item> \<open>Mls_Prelude\<close> (\<open>error.rs\<close>, \<open>util/mod.rs\<close>): results, state transformers, slices, grouping of consecutive addresses,
    ordered association lists for \<open>BTreeMap\<close>.
  \<^item> \<open>Block_Buf\<close>, \<open>Block_Set\<close>, \<open>Block_Log\<close> (\<open>layers/0-bio\<close>): buffers of whole blocks; \<open>MemDisk\<close> reads back what was written and
    disjoint subsets do not interfere; \<open>MemLog\<close> and \<open>BlockRing\<close> read back what was appended, the ring within its window.
  \<^item> \<open>Bit_Map\<close> (\<open>util/bitmap.rs\<close>): every operation agrees with the one on a list of truth values.
  \<^item> \<open>Tx_Model\<close> (\<open>tx\<close>): providers, handlers, data of a transaction; the status of a finished transaction is final.
  \<^item> \<open>Lazy_Delete\<close> (\<open>util/lazy_delete.rs\<close>) with the reference counts of \<open>Arc\<close>.
  \<^item> \<open>Aead_Model\<close> (\<open>os/std/mod.rs\<close>), \<open>Crypto_Blob\<close>, \<open>Crypto_Chain\<close> (\<open>layers/1-crypto\<close>): round trips, and what a changed disk
    can and cannot make the code return.
  \<^item> \<open>Crypto_Log\<close>, \<open>Mht_Proofs\<close>, \<open>Crypto_Log_Spec\<close>, \<open>Crypto_Log_Props\<close> (\<open>layers/1-crypto/crypto_log.rs\<close>): the definitions; the
    Merkle tree and its construction; every operation in terms of the appended blocks; the properties. A run of
    operations behaves as a list of blocks, a flushed log can be opened again, a changed log gives an error or the
    appended blocks, and the height of the tree is bounded.
  \<^item> \<open>Edit_Journal\<close> (\<open>layers/2-edit\<close>): after any run and a crash, recovery has the flushed edits and no part of a group.
  \<^item> \<open>Chunk_Alloc\<close>, \<open>Raw_Log\<close> (\<open>layers/3-log/chunk.rs\<close>, \<open>raw_log.rs\<close>): concurrent transactions on the allocator refine a
    specification with private pending changes; a raw log is an append-only log and committing keeps its blocks.
  \<^item> \<open>Log_Cache\<close>, \<open>Tx_State\<close>, \<open>Tx_Log\<close> (\<open>layers/3-log/tx_log.rs\<close>): the node cache of a transaction, the persistent state and its
    edits, and the operations and handlers of the store.
  \<^item> \<open>Range_Query\<close>, \<open>Mem_Table\<close>, \<open>SS_Table\<close> (\<open>layers/4-lsm\<close>): the context of a range query, the tables in memory with synced and
    unsynced versions, and the tables on a log, byte for byte.
  \<^item> \<open>Read_Cache\<close>, \<open>Data_Buf\<close> (\<open>layers/5-disk\<close>): the linked list of the cache refines a list in order of last use; the
    write buffer is a map.

  \<^bold>\<open>Loops and bounds.\<close> Loops over data are structural recursion or have a termination proof with a measure; no definition uses
  fuel. An operation that waits for another thread returns \<open>None\<close> (\<open>mgr_put\<close>, \<open>db_put\<close>). Numbers of 32 and 16 bits that the code can
  overflow are checked or wrapped explicitly (block counts and free blocks of raw logs, record offsets of tables,
  identifiers of transactions). Theorems about whole runs carry the room that the runs need on the storage below.

  \<^bold>\<open>Not modelled.\<close> The platform layers (\<open>os\<close> other than the AEAD wrapper), the Linux bindings and the device-mapper target forward
  to a kernel or an enclave; there is nothing in them to compute. The write-ahead log, the compaction and the LSM tree, the
  block allocation table, the request queue and \<open>SwornDisk\<close> are threads and locks around the parts above. Formatting and
  recovering the store of logs, its superblock and its sync are not modelled.
\<close>

end
